(* ===== verification/Prelude.thy ===== *)
theory Prelude
  imports Main "HOL-Library.Word"
begin

text \<open>
  Shared vocabulary of the development: the machine types of the source, panics as values,
  the result combinators that thread them, and the generic lemmas on words and lists that
  the component theories use.

  Arithmetic. Addresses and the bit-level helpers are \<open>64 word\<close> or \<open>32 word\<close> values, whose
  arithmetic wraps as the release profile of the crate does. Counters and lengths of things
  that are held in memory are natural numbers. Where the source subtracts unsigned values
  and may go below zero the model answers \<open>Overflow\<close>, as the overflow-checked build does.
\<close>

unbundle bit_operations_syntax

section \<open>Types\<close>

type_synonym u8 = "8 word"
type_synonym u32 = "32 word"
type_synonym u64 = "64 word"
type_synonym usize = "64 word"

text \<open>Everything that ends the normal flow of a call: a Rust panic with the reason the
  source gives, an arithmetic overflow, an index out of bounds, an unwrapped \<open>None\<close> or
  \<open>Err\<close>, a failed assertion, and the process exit that the bootstrap reserve performs.\<close>

datatype panic = Panic string | Overflow | OutOfBounds | UnwrapNone | AssertFailed | Exit

text \<open>An access that is undefined behaviour in the source.\<close>

definition undefined_access :: panic where "undefined_access = Panic ''undefined access''"

type_synonym 'a res = "panic + 'a"

named_theorems res_simps \<open>rewriting of results that thread panics\<close>
named_theorems word_facts \<open>bounds and representation of machine words\<close>

section \<open>Results\<close>

definition rbind :: "'a res \<Rightarrow> ('a \<Rightarrow> 'b res) \<Rightarrow> 'b res" where
  "rbind r f = (case r of Inl e \<Rightarrow> Inl e | Inr x \<Rightarrow> f x)"

lemma rbind_simps [simp, res_simps]:
  "rbind (Inl e) f = Inl e"
  "rbind (Inr x) f = f x"
  by (simp_all add: rbind_def)

lemma rbind_eq_Inr [res_simps]: "rbind r f = Inr y \<longleftrightarrow> (\<exists>x. r = Inr x \<and> f x = Inr y)"
  by (cases r) auto

lemma rbind_eq_Inl [res_simps]:
  "rbind r f = Inl e \<longleftrightarrow> r = Inl e \<or> (\<exists>x. r = Inr x \<and> f x = Inl e)"
  by (cases r) auto

lemma rbind_assoc: "rbind (rbind r f) g = rbind r (\<lambda>x. rbind (f x) g)"
  by (cases r) auto

lemma rbind_cong [fundef_cong]:
  "r = r' \<Longrightarrow> (\<And>x. r' = Inr x \<Longrightarrow> f x = f' x) \<Longrightarrow> rbind r f = rbind r' f'"
  by (cases r') auto

text \<open>Unsigned subtraction of the overflow-checked build, and \<open>unwrap\<close>.\<close>

definition checked_sub :: "nat \<Rightarrow> nat \<Rightarrow> nat res" where
  "checked_sub a b = (if b \<le> a then Inr (a - b) else Inl Overflow)"

definition unwrap :: "'a option \<Rightarrow> 'a res" where
  "unwrap x = (case x of None \<Rightarrow> Inl UnwrapNone | Some v \<Rightarrow> Inr v)"

definition index_list :: "'a list \<Rightarrow> nat \<Rightarrow> 'a res" where
  "index_list xs i = (if i < length xs then Inr (xs ! i) else Inl OutOfBounds)"

definition update_list :: "'a list \<Rightarrow> nat \<Rightarrow> 'a \<Rightarrow> 'a list res" where
  "update_list xs i v = (if i < length xs then Inr (xs[i := v]) else Inl OutOfBounds)"

lemma checked_sub_le [simp, res_simps]: "b \<le> a \<Longrightarrow> checked_sub a b = Inr (a - b)"
  by (simp add: checked_sub_def)

lemma checked_sub_less [simp, res_simps]: "a < b \<Longrightarrow> checked_sub a b = Inl Overflow"
  by (simp add: checked_sub_def)

lemma unwrap_simps [simp, res_simps]: "unwrap None = Inl UnwrapNone" "unwrap (Some v) = Inr v"
  by (simp_all add: unwrap_def)

lemma index_list_in [simp, res_simps]: "i < length xs \<Longrightarrow> index_list xs i = Inr (xs ! i)"
  by (simp add: index_list_def)

lemma update_list_in [simp, res_simps]: "i < length xs \<Longrightarrow> update_list xs i v = Inr (xs[i := v])"
  by (simp add: update_list_def)

text \<open>A \<^verbatim>\<open>for\<close> loop over a sequence, threading a state and stopping at the first panic.\<close>

fun for_each :: "('a \<Rightarrow> 's \<Rightarrow> 's res) \<Rightarrow> 'a list \<Rightarrow> 's \<Rightarrow> 's res" where
  "for_each f [] s = Inr s"
| "for_each f (x # xs) s = rbind (f x s) (for_each f xs)"

lemma for_each_append: "for_each f (xs @ ys) s = rbind (for_each f xs s) (for_each f ys)"
  by (induction xs arbitrary: s) (auto simp: rbind_def split: sum.split)

lemma for_each_skip: "(\<And>x. x \<in> set xs \<Longrightarrow> f x s = Inr s) \<Longrightarrow> for_each f xs s = Inr s"
  by (induction xs) auto

lemma for_each_invariant:
  assumes "\<And>x s. x \<in> set xs \<Longrightarrow> P s \<Longrightarrow> \<exists>s'. f x s = Inr s' \<and> P s'" "P s"
  shows "\<exists>s'. for_each f xs s = Inr s' \<and> P s'"
  using assms
proof (induction xs arbitrary: s)
  case (Cons x xs)
  obtain s1 where "f x s = Inr s1" "P s1" using Cons.prems by auto
  moreover have "\<exists>s'. for_each f xs s1 = Inr s' \<and> P s'"
    using Cons.prems(1) \<open>P s1\<close> by (intro Cons.IH) auto
  ultimately show ?case by auto
qed simp

text \<open>Running a fallible computation on every element and collecting the results.\<close>

fun traverse_res :: "('a \<Rightarrow> 'b res) \<Rightarrow> 'a list \<Rightarrow> 'b list res" where
  "traverse_res f [] = Inr []"
| "traverse_res f (x # xs) = rbind (f x) (\<lambda>y. rbind (traverse_res f xs) (\<lambda>ys. Inr (y # ys)))"

lemma traverse_res_exists:
  assumes "\<And>x. x \<in> set xs \<Longrightarrow> \<exists>y. f x = Inr y \<and> P x y"
  shows "\<exists>ys. traverse_res f xs = Inr ys \<and> list_all2 P xs ys"
  using assms
proof (induction xs)
  case (Cons x xs)
  obtain y where "f x = Inr y" "P x y" using Cons.prems by auto
  moreover obtain ys where "traverse_res f xs = Inr ys" "list_all2 P xs ys"
    using Cons by auto
  ultimately show ?case by auto
qed simp

lemma traverse_res_map: "(\<And>x. x \<in> set xs \<Longrightarrow> f x = Inr (g x)) \<Longrightarrow> traverse_res f xs = Inr (map g xs)"
  by (induction xs) auto

text \<open>Sequencing of computations that may also not return (\<open>None\<close>).\<close>

definition orbind :: "'a res option \<Rightarrow> ('a \<Rightarrow> 'b res option) \<Rightarrow> 'b res option" where
  "orbind x f = (case x of None \<Rightarrow> None | Some (Inl e) \<Rightarrow> Some (Inl e) | Some (Inr v) \<Rightarrow> f v)"

lemma orbind_simps [simp, res_simps]:
  "orbind None f = None"
  "orbind (Some (Inl e)) f = Some (Inl e)"
  "orbind (Some (Inr v)) f = f v"
  by (simp_all add: orbind_def)

lemma orbind_eq_Inr [res_simps]:
  "orbind x f = Some (Inr y) \<longleftrightarrow> (\<exists>v. x = Some (Inr v) \<and> f v = Some (Inr y))"
  by (auto simp: orbind_def split: option.splits sum.splits)

lemma orbind_eq_None: "orbind x f = None \<longleftrightarrow> x = None \<or> (\<exists>v. x = Some (Inr v) \<and> f v = None)"
  by (auto simp: orbind_def split: option.splits sum.splits)

lemma orbind_cong [fundef_cong]:
  "x = x' \<Longrightarrow> (\<And>v. x' = Some (Inr v) \<Longrightarrow> f v = f' v) \<Longrightarrow> orbind x f = orbind x' f'"
  by (auto simp: orbind_def split: option.splits sum.splits)

section \<open>Lists\<close>

lemma length_takeWhile_less:
  "x \<in> set xs \<Longrightarrow> \<not> P x \<Longrightarrow> length (takeWhile P xs) < length xs"
  by (induction xs) auto

section \<open>Words\<close>

lemma minus_pow2_eq_not_mask: "- (2 ^ k :: 'a::len word) = NOT (mask k)"
  by (simp add: mask_eq_exp_minus_1 minus_eq_not_minus_1)

lemma and_not_mask_eq: "(x :: 'a::len word) AND NOT (mask k) = x - take_bit k x"
proof -
  have "(x AND NOT (mask k)) + (x AND mask k) = x"
    by (rule trans [OF disjunctive_add_eq_or]) (auto simp: bit_eq_iff bit_simps)
  then show ?thesis
    by (simp add: take_bit_eq_mask eq_diff_eq)
qed

lemma unat_take_bit_word [word_facts]: "unat (take_bit k (x :: 'a::len word)) = unat x mod 2 ^ k"
  by (metis take_bit_eq_mod unsigned_take_bit_eq)

lemma unat_sub_le: "y \<le> (x :: 'a::len word) \<Longrightarrow> unat (x - y) = unat x - unat y"
  by (simp add: unat_sub word_le_nat_alt)

lemma unat_and_not_mask [word_facts]:
  "unat ((x :: 'a::len word) AND NOT (mask k)) = unat x - unat x mod 2 ^ k"
proof -
  have "take_bit k x \<le> x"
    by (simp add: word_le_nat_alt unat_take_bit_word)
  then show ?thesis
    by (simp add: and_not_mask_eq unat_sub_le unat_take_bit_word)
qed

lemma unat_add_no_overflow [word_facts]:
  "unat (a :: 'a::len word) + unat b < 2 ^ LENGTH('a) \<Longrightarrow> unat (a + b) = unat a + unat b"
  by (simp add: unat_word_ariths)

lemma unat_pow2 [word_facts]: "k < LENGTH('a) \<Longrightarrow> unat (2 ^ k :: 'a::len word) = 2 ^ k"
proof -
  assume "k < LENGTH('a)"
  moreover have "(2 :: 'a word) ^ k = of_nat (2 ^ k)" by simp
  ultimately show ?thesis by (simp only: unat_of_nat) simp
qed

lemma unat_ucast_mod [word_facts]:
  "unat (ucast (x :: 'a::len word) :: 'b::len word) = unat x mod 2 ^ LENGTH('b)"
  by (simp add: unsigned_ucast_eq take_bit_eq_mod)

text \<open>Rounding a natural number up to a multiple: the arithmetic the alignment helpers
  and the page ceiling implement on words.\<close>

definition round_up :: "nat \<Rightarrow> nat \<Rightarrow> nat" where
  "round_up n m = (n + m - 1) div m * m"

lemma round_up_dvd [simp]: "m dvd round_up n m"
  by (simp add: round_up_def)

lemma round_up_ge: "0 < m \<Longrightarrow> n \<le> round_up n m"
proof -
  assume m: "0 < m"
  have "n + m - 1 = (n + m - 1) div m * m + (n + m - 1) mod m" by simp
  moreover have "(n + m - 1) mod m \<le> m - 1" using m by (metis Suc_pred' less_Suc_eq_le mod_less_divisor)
  ultimately show ?thesis using m unfolding round_up_def by linarith
qed

lemma round_up_less: "0 < m \<Longrightarrow> round_up n m < n + m"
  unfolding round_up_def
  by (metis Suc_diff_1 add_gr_0 div_times_less_eq_dividend le_imp_less_Suc)

lemma round_up_least:
  assumes "0 < m" "m dvd q" "n \<le> q" shows "round_up n m \<le> q"
proof -
  obtain c where q: "q = m * c" using assms(2) by auto
  have "(n + m - 1) div m \<le> (m * c + (m - 1)) div m"
    using assms(1,3) q by (intro div_le_mono) simp
  also have "\<dots> = c" using assms(1) by (subst div_mult_self4) auto
  finally show ?thesis unfolding round_up_def q using mult_le_mono1 by (simp add: mult.commute)
qed

lemma round_up_sub_mod: "round_up n m = n + m - 1 - (n + m - 1) mod m"
  by (simp add: round_up_def minus_mod_eq_div_mult)

lemma unat_round_up_mask:
  fixes x :: "'a::len word"
  assumes k: "k < LENGTH('a)" and fit: "unat x + 2 ^ k \<le> 2 ^ LENGTH('a)"
  shows "unat ((x + 2 ^ k - 1) AND NOT (mask k)) = round_up (unat x) (2 ^ k)"
proof -
  have p: "unat (2 ^ k - 1 :: 'a word) = 2 ^ k - 1"
    using k by (simp add: unat_sub_le unat_pow2 word_le_nat_alt Suc_leI)
  have "unat x + (2 ^ k - 1) < 2 ^ LENGTH('a)"
    using fit zero_less_power [of "2::nat" k] by linarith
  then have "unat (x + (2 ^ k - 1)) = unat x + (2 ^ k - 1)"
    using p by (subst unat_add_no_overflow) auto
  then show ?thesis
    by (simp add: unat_and_not_mask round_up_sub_mod add_diff_eq)
qed

end
