(* ===== verification/Mem_Info.thy ===== *)
theory Mem_Info
  imports Prelude
begin

text \<open>
  The constants and alignment helpers of \<^verbatim>\<open>src/mem_info.rs\<close>, the \<^verbatim>\<open>page_ceiling!\<close> macro of
  \<^verbatim>\<open>src/macros.rs\<close> and \<^verbatim>\<open>page_addr2base\<close> of \<^verbatim>\<open>src/pages.rs\<close>. The lemmas say that the bit
  tricks compute the least multiple of the alignment (of the page) that is not below the
  argument, as long as the rounding does not pass the end of the address space.
\<close>

section \<open>Constants\<close>

definition MAX_SZ_IDX :: nat where "MAX_SZ_IDX = 40"
definition MAX_SZ :: nat where "MAX_SZ = 2 ^ 13 + 2 ^ 11 * 3"
definition LG_CACHE_LINE :: nat where "LG_CACHE_LINE = 6"
definition LG_PAGE :: nat where "LG_PAGE = 12"
definition CACHE_LINE :: nat where "CACHE_LINE = 2 ^ LG_CACHE_LINE"
definition PAGE :: nat where "PAGE = 2 ^ LG_PAGE"
definition CACHE_LINE_MASK :: u64 where "CACHE_LINE_MASK = of_nat CACHE_LINE - 1"
definition PAGE_MASK :: usize where "PAGE_MASK = of_nat PAGE - 1"
definition DESCRIPTOR_BLOCK_SZ :: nat where "DESCRIPTOR_BLOCK_SZ = 16 * PAGE"

lemmas mem_info_defs = MAX_SZ_IDX_def MAX_SZ_def LG_CACHE_LINE_def LG_PAGE_def CACHE_LINE_def
  PAGE_def CACHE_LINE_MASK_def PAGE_MASK_def DESCRIPTOR_BLOCK_SZ_def

text \<open>The tag masks are the low bits of the cache line and of the page.\<close>

lemma CACHE_LINE_MASK_mask: "CACHE_LINE_MASK = mask 6"
  by (simp add: mem_info_defs mask_eq_exp_minus_1)

lemma PAGE_MASK_mask: "PAGE_MASK = mask 12"
  by (simp add: mem_info_defs mask_eq_exp_minus_1)

lemma PAGE_value: "PAGE = 4096"
  by (simp add: mem_info_defs)

lemma MAX_SZ_value: "MAX_SZ = 14336"
  by (simp add: mem_info_defs)

section \<open>Alignment\<close>

definition align_val :: "usize \<Rightarrow> usize \<Rightarrow> usize" where
  "align_val val align = (val + align - 1) AND (NOT align + 1)"

definition align_size :: "usize \<Rightarrow> usize \<Rightarrow> usize" where
  "align_size sz align = (if align < sz then align_val sz align else align)"

definition align_addr :: "usize \<Rightarrow> usize \<Rightarrow> usize" where
  "align_addr addr align = (addr + align - 1) AND (NOT align + 1)"

definition page_ceiling :: "usize \<Rightarrow> usize" where
  "page_ceiling s = (let page = of_nat PAGE in (s + page - 1) AND NOT (page - 1))"

definition page_addr2base :: "usize \<Rightarrow> usize" where
  "page_addr2base a = a AND NOT PAGE_MASK"

text \<open>The masks the three helpers build are those of the alignment's exponent.\<close>

lemma align_val_mask: "align_val v (2 ^ k) = (v + 2 ^ k - 1) AND NOT (mask k)"
  by (simp add: align_val_def minus_eq_not_plus_1 [symmetric] minus_pow2_eq_not_mask)

lemma align_addr_eq_align_val: "align_addr = align_val"
  by (simp add: fun_eq_iff align_addr_def align_val_def)

lemma page_ceiling_mask: "page_ceiling s = (s + 2 ^ 12 - 1) AND NOT (mask 12)"
  by (simp add: page_ceiling_def mem_info_defs mask_eq_exp_minus_1)

lemma unat_align_val [word_facts]:
  assumes "k < 64" "unat v + 2 ^ k \<le> 2 ^ 64"
  shows "unat (align_val v (2 ^ k)) = round_up (unat v) (2 ^ k)"
  unfolding align_val_mask using assms by (intro unat_round_up_mask) auto

lemma unat_page_ceiling [word_facts]:
  assumes "unat s + PAGE \<le> 2 ^ 64"
  shows "unat (page_ceiling s) = round_up (unat s) PAGE"
  using unat_round_up_mask [of 12 s] assms
  by (simp add: page_ceiling_mask PAGE_value)

lemma unat_align_size:
  assumes "k < 64" "unat sz + 2 ^ k \<le> 2 ^ 64"
  shows "unat (align_size sz (2 ^ k)) = round_up (max 1 (unat sz)) (2 ^ k)"
proof (cases "unat sz \<le> 2 ^ k")
  case True
  then have "align_size sz (2 ^ k) = 2 ^ k"
    by (simp add: align_size_def word_less_nat_alt unat_pow2 assms(1))
  moreover have "round_up (max 1 (unat sz)) (2 ^ k) = 2 ^ k"
  proof (rule antisym)
    show "round_up (max 1 (unat sz)) (2 ^ k) \<le> 2 ^ k"
      using True by (intro round_up_least) (auto simp: Suc_le_eq)
    have "0 < round_up (max 1 (unat sz)) (2 ^ k)"
      using round_up_ge [of "2 ^ k" "max 1 (unat sz)"] by auto
    then show "2 ^ k \<le> round_up (max 1 (unat sz)) (2 ^ k)"
      by (intro dvd_imp_le) auto
  qed
  ultimately show ?thesis using assms(1) by (simp add: unat_pow2)
next
  case False
  then show ?thesis
    using assms by (simp add: align_size_def word_less_nat_alt unat_pow2 unat_align_val max_def)
qed

end
