(* ===== verification/Memory.thy ===== *)
theory Memory
  imports Mem_Info
begin

text \<open>
  The byte-addressed memory the allocator works in and the eight-byte cells it keeps its free
  lists in: \<^verbatim>\<open>*(block as *mut *mut u8)\<close> reads and \<^verbatim>\<open>*(block as *mut *mut u8) = p\<close> writes a
  little-endian word. The locale \<open>cell_store\<close> states what the free-list code relies on; the
  chains of blocks that the thread caches and the central reserve follow are treated once,
  inside it, and it is interpreted on the byte memory.
\<close>

section \<open>Cells\<close>

type_synonym memory = "usize \<Rightarrow> u8"

fun word_of_bytes :: "u8 list \<Rightarrow> usize" where
  "word_of_bytes [] = 0"
| "word_of_bytes (b # bs) = ucast b OR push_bit 8 (word_of_bytes bs)"

fun bytes_of :: "nat \<Rightarrow> usize \<Rightarrow> u8 list" where
  "bytes_of 0 v = []"
| "bytes_of (Suc n) v = ucast v # bytes_of n (drop_bit 8 v)"

definition load64 :: "memory \<Rightarrow> usize \<Rightarrow> usize" where
  "load64 m a = word_of_bytes (map (\<lambda>i. m (a + of_nat i)) [0..<8])"

definition store64 :: "memory \<Rightarrow> usize \<Rightarrow> usize \<Rightarrow> memory" where
  "store64 m a v = (\<lambda>b. if b - a < 8 then bytes_of 8 v ! unat (b - a) else m b)"

text \<open>Two cells are apart when neither starts inside the other (modulo the address space).\<close>

definition cells_apart :: "usize \<Rightarrow> usize \<Rightarrow> bool" where
  "cells_apart a b \<longleftrightarrow> 8 \<le> b - a \<and> 8 \<le> a - b"

lemma cells_apart_sym: "cells_apart a b \<Longrightarrow> cells_apart b a"
  by (simp add: cells_apart_def)

lemma length_bytes_of [simp]: "length (bytes_of n v) = n"
  by (induction n arbitrary: v) auto

lemma split_low_byte:
  "(ucast (ucast v :: u8) :: usize) OR push_bit 8 (take_bit k (drop_bit 8 v)) = take_bit (8 + k) v"
proof (rule bit_word_eqI)
  fix n assume "n < LENGTH(64)"
  then show "bit (ucast (ucast v :: u8) OR push_bit 8 (take_bit k (drop_bit 8 v)) :: usize) n =
    bit (take_bit (8 + k) v) n"
    by (cases "n < 8") (auto simp: bit_simps not_less)
qed

lemma word_of_bytes_of: "word_of_bytes (bytes_of n v) = take_bit (8 * n) v"
  by (induction n arbitrary: v) (auto simp: split_low_byte)

lemma load64_store64_same: "load64 (store64 m a v) a = v"
proof -
  have "map (\<lambda>i. store64 m a v (a + of_nat i)) [0..<8] = bytes_of 8 v"
    by (rule nth_equalityI) (auto simp: store64_def unat_of_nat word_less_nat_alt)
  then show ?thesis
    by (simp add: load64_def word_of_bytes_of take_bit_word_eq_self del: upt_conv_Cons upt_rec_numeral)
qed

lemma store64_apart_byte:
  assumes "cells_apart a b" "i < 8" shows "store64 m a v (b + of_nat i) = m (b + of_nat i)"
proof -
  have i: "unat (of_nat i :: usize) = i" using assms(2) by (simp add: unat_of_nat)
  have "\<not> b + of_nat i - a < 8"
    using assms i unfolding cells_apart_def by unat_arith
  then show ?thesis by (simp add: store64_def)
qed

lemma load64_store64_apart: "cells_apart a b \<Longrightarrow> load64 (store64 m a v) b = load64 m b"
  unfolding load64_def by (intro arg_cong [where f = word_of_bytes] map_cong) (auto simp: store64_apart_byte)

section \<open>Chains of cells\<close>

text \<open>The first \<open>n\<close> cells reached from \<open>p\<close> by a successor function.\<close>

fun chain :: "('p \<Rightarrow> 'p) \<Rightarrow> 'p \<Rightarrow> nat \<Rightarrow> 'p list" where
  "chain nx p 0 = []"
| "chain nx p (Suc n) = p # chain nx (nx p) n"

lemma length_chain [simp]: "length (chain nx p n) = n"
  by (induction n arbitrary: p) auto

lemma chain_cong: "(\<And>q. q \<in> set (chain nx p n) \<Longrightarrow> nx q = nx' q) \<Longrightarrow> chain nx p n = chain nx' p n"
  by (induction n arbitrary: p) auto

lemma chain_nth: "i < n \<Longrightarrow> chain nx p n ! i = (nx ^^ i) p"
proof (induction n arbitrary: p i)
  case (Suc n)
  then show ?case by (cases i) (auto simp: funpow_swap1)
qed simp

lemma chain_eq_Nil [simp]: "chain nx p n = [] \<longleftrightarrow> n = 0"
  by (cases n) auto

lemma chain_arith:
  assumes "\<And>j. j < n \<Longrightarrow> Suc j < n \<Longrightarrow> nx (f (i + j)) = f (i + Suc j)"
  shows "chain nx (f i) n = map f [i..<i + n]"
  using assms
proof (induction n arbitrary: i)
  case (Suc n)
  show ?case
  proof (cases n)
    case (Suc k)
    then have "nx (f i) = f (Suc i)" using Suc.prems [of 0] by simp
    moreover have "chain nx (f (Suc i)) n = map f [Suc i..<Suc i + n]"
      using Suc.prems [of "Suc _"] by (intro Suc.IH) auto
    moreover have "[i..<i + Suc n] = i # [Suc i..<Suc i + n]"
      by (subst upt_conv_Cons) simp_all
    ultimately show ?thesis by (simp only: chain.simps list.map)
  qed simp
qed simp

text \<open>A store of word-sized cells, and chains whose successor is decoded from the cell itself
  by a function of its content and its address.\<close>

locale cell_store =
  fixes load :: "'m \<Rightarrow> usize \<Rightarrow> usize"
    and store :: "'m \<Rightarrow> usize \<Rightarrow> usize \<Rightarrow> 'm"
  assumes load_same: "load (store m a v) a = v"
    and load_apart: "cells_apart a b \<Longrightarrow> load (store m a v) b = load m b"
begin

lemma chain_store_frame:
  assumes "\<And>q. q \<in> set (chain (\<lambda>q. dec (load m q) q) p n) \<Longrightarrow> cells_apart a q"
  shows "chain (\<lambda>q. dec (load (store m a v) q) q) p n = chain (\<lambda>q. dec (load m q) q) p n"
  using assms by (intro chain_cong [symmetric]) (simp add: load_apart)

lemma chain_store_push:
  assumes "\<And>q. q \<in> set (chain (\<lambda>q. dec (load m q) q) p n) \<Longrightarrow> cells_apart a q"
    and "0 < n \<Longrightarrow> dec v a = p"
  shows "chain (\<lambda>q. dec (load (store m a v) q) q) a (Suc n) = a # chain (\<lambda>q. dec (load m q) q) p n"
proof (cases "n = 0")
  case False
  then have "dec (load (store m a v) a) a = p" using assms(2) by (simp add: load_same)
  then show ?thesis using chain_store_frame [of dec m p n a v] assms(1) by simp
qed simp

end

interpretation bytes: cell_store load64 store64
  by unfold_locales (simp_all add: load64_store64_same load64_store64_apart)

end
