(* ===== verification/Segments.thy ===== *)
theory Segments
  imports Memory
begin

text \<open>
  Segments of memory requested from the kernel: \<^verbatim>\<open>Segment\<close>, \<^verbatim>\<open>AllocationError\<close> and the Unix
  implementation of \<^verbatim>\<open>SegAllocator\<close> in \<^verbatim>\<open>src/pages/external_mem_reservation.rs\<close>. The system calls
  are parameters of the model: an \<open>os_env\<close> gives the result of the \<open>n\<close>-th call from the mappings
  that exist then. \<open>mmap_contract\<close> is what the manual page of \<^verbatim>\<open>mmap(2)\<close> promises for private
  addresses: a failed call returns \<^verbatim>\<open>MAP_FAILED\<close> (as a call of length zero does), and a new
  mapping is page aligned, not null, below the 47-bit user address limit, and apart from every
  live mapping. \<open>map_anon\<close> says whether the \<^verbatim>\<open>memmap\<close> crate's call of that name succeeds. \<open>bump_env\<close> is a concrete kernel that meets it.
\<close>

section \<open>The kernel interface\<close>

record os_env =
  mmap :: "bool \<Rightarrow> nat \<Rightarrow> (usize \<times> usize) list \<Rightarrow> usize \<Rightarrow> usize"
  munmap :: "nat \<Rightarrow> (usize \<times> usize) list \<Rightarrow> usize \<Rightarrow> usize \<Rightarrow> int"
  map_anon :: "nat \<Rightarrow> nat \<Rightarrow> bool"

record os_state =
  mem :: memory
  os_maps :: "(usize \<times> usize) list"
  os_calls :: nat

definition MAP_FAILED :: usize where "MAP_FAILED = - 1"

text \<open>A mapping covers whole pages.\<close>

definition map_span :: "usize \<Rightarrow> nat" where
  "map_span len = round_up (unat len) PAGE"

definition maps_disjoint :: "usize \<times> usize \<Rightarrow> usize \<times> usize \<Rightarrow> bool" where
  "maps_disjoint r q \<longleftrightarrow> unat (fst r) + map_span (snd r) \<le> unat (fst q) \<or>
     unat (fst q) + map_span (snd q) \<le> unat (fst r)"

definition valid_map :: "usize \<times> usize \<Rightarrow> bool" where
  "valid_map r \<longleftrightarrow> fst r \<noteq> 0 \<and> PAGE dvd unat (fst r) \<and> snd r \<noteq> 0 \<and>
     unat (fst r) + map_span (snd r) \<le> 2 ^ 47"

definition mmap_contract :: "os_env \<Rightarrow> bool" where
  "mmap_contract env \<longleftrightarrow> (\<forall>noreserve n maps len.
     mmap env noreserve n maps len = MAP_FAILED \<or>
     valid_map (mmap env noreserve n maps len, len) \<and>
     (\<forall>r \<in> set maps. maps_disjoint (mmap env noreserve n maps len, len) r))"

section \<open>Segments\<close>

record segment =
  seg_ptr :: usize
  seg_length :: usize

datatype AllocationError = AllocationFailed usize

definition zero_span :: "usize \<Rightarrow> usize \<Rightarrow> memory \<Rightarrow> memory" where
  "zero_span p len m = (\<lambda>a. if unat (a - p) < map_span len then 0 else m a)"

definition map_segment ::
  "os_env \<Rightarrow> bool \<Rightarrow> usize \<Rightarrow> 's os_state_scheme \<Rightarrow> (AllocationError + segment) \<times> 's os_state_scheme" where
  "map_segment env noreserve sz s =
     (let p = mmap env noreserve (os_calls s) (os_maps s) sz;
          s' = s\<lparr>os_calls := Suc (os_calls s)\<rparr>
      in if p = MAP_FAILED then (Inl (AllocationFailed sz), s')
         else (Inr \<lparr>seg_ptr = p, seg_length = sz\<rparr>,
               s'\<lparr>mem := zero_span p sz (mem s), os_maps := (p, sz) # os_maps s\<rparr>))"

definition seg_allocate ::
  "os_env \<Rightarrow> usize \<Rightarrow> 's os_state_scheme \<Rightarrow> (AllocationError + segment) \<times> 's os_state_scheme" where
  "seg_allocate env sz s = map_segment env False sz s"

definition allocate_massive ::
  "os_env \<Rightarrow> usize \<Rightarrow> 's os_state_scheme \<Rightarrow> (AllocationError + segment) \<times> 's os_state_scheme" where
  "allocate_massive env sz s = map_segment env True sz s"

definition seg_deallocate ::
  "os_env \<Rightarrow> segment \<Rightarrow> 's os_state_scheme \<Rightarrow> bool \<times> 's os_state_scheme" where
  "seg_deallocate env seg s =
     (let r = munmap env (os_calls s) (os_maps s) (seg_ptr seg) (seg_length seg);
          s' = s\<lparr>os_calls := Suc (os_calls s)\<rparr>
      in if r = 0
         then (True, s'\<lparr>os_maps := removeAll (seg_ptr seg, seg_length seg) (os_maps s)\<rparr>)
         else (False, s'))"

section \<open>Live mappings\<close>

text \<open>The invariant of the mapping table: every mapping is valid and any two are disjoint.\<close>

fun maps_ok :: "(usize \<times> usize) list \<Rightarrow> bool" where
  "maps_ok [] = True"
| "maps_ok (r # rs) = (valid_map r \<and> (\<forall>q \<in> set rs. maps_disjoint r q) \<and> maps_ok rs)"

lemma maps_disjoint_sym: "maps_disjoint r q \<Longrightarrow> maps_disjoint q r"
  by (auto simp: maps_disjoint_def)

lemma map_span_pos: "valid_map r \<Longrightarrow> unat (snd r) \<le> map_span (snd r) \<and> 0 < map_span (snd r)"
  using round_up_ge [of PAGE "unat (snd r)"]
  by (auto simp: valid_map_def map_span_def PAGE_value unat_eq_zero intro: gr0I)

lemma maps_ok_removeAll: "maps_ok rs \<Longrightarrow> maps_ok (removeAll r rs)"
  by (induction rs) auto

lemma mmap_contractD:
  assumes "mmap_contract env" "mmap env nr n maps len \<noteq> MAP_FAILED"
  shows "valid_map (mmap env nr n maps len, len)"
    and "r \<in> set maps \<Longrightarrow> maps_disjoint (mmap env nr n maps len, len) r"
  using assms unfolding mmap_contract_def by blast+

lemma map_segment_maps:
  assumes "mmap_contract env" "maps_ok (os_maps s)" "map_segment env nr sz s = (res, s')"
  shows "maps_ok (os_maps s') \<and>
    (\<forall>seg. res = Inr seg \<longrightarrow> seg_length seg = sz \<and> valid_map (seg_ptr seg, sz) \<and>
       os_maps s' = (seg_ptr seg, sz) # os_maps s \<and> mem s' = zero_span (seg_ptr seg) sz (mem s) \<and>
       (\<forall>q \<in> set (os_maps s). maps_disjoint (seg_ptr seg, sz) q))"
  using assms mmap_contractD [OF assms(1)]
  by (auto simp: map_segment_def Let_def split: if_splits)

lemma maps_ok_disjoint:
  "maps_ok rs \<Longrightarrow> r \<in> set rs \<Longrightarrow> q \<in> set rs \<Longrightarrow> r \<noteq> q \<Longrightarrow> maps_disjoint r q"
  by (induction rs) (auto intro: maps_disjoint_sym)

section \<open>A kernel that meets the contract\<close>

text \<open>A mapping is placed after the end of every live one, from 1 MiB on.\<close>

definition bump_mmap :: "bool \<Rightarrow> nat \<Rightarrow> (usize \<times> usize) list \<Rightarrow> usize \<Rightarrow> usize" where
  "bump_mmap noreserve n maps len =
     (let p = fold (\<lambda>r acc. max acc (unat (fst r) + map_span (snd r))) maps (256 * PAGE);
          q = round_up p PAGE
      in if len = 0 \<or> 2 ^ 47 < q + map_span len then MAP_FAILED else of_nat q)"

definition bump_env :: os_env where
  "bump_env = \<lparr>mmap = bump_mmap, munmap = (\<lambda>n maps p len. 0), map_anon = (\<lambda>n len. True)\<rparr>"

lemma fold_max_bounds:
  "acc \<le> fold (\<lambda>r acc. max acc (f r)) rs acc \<and> (\<forall>r \<in> set rs. f r \<le> fold (\<lambda>r acc. max acc (f r)) rs (acc :: nat))"
proof (induction rs arbitrary: acc)
  case (Cons r rs)
  have "max acc (f r) \<le> fold (\<lambda>r acc. max acc (f r)) rs (max acc (f r))" using Cons by blast
  then show ?case using Cons [of "max acc (f r)"] by simp
qed simp

lemma bump_mmap_result:
  fixes maps :: "(usize \<times> usize) list" and len :: usize
  assumes "mmap bump_env nr n maps len \<noteq> MAP_FAILED"
  shows "valid_map (mmap bump_env nr n maps len, len) \<and>
    (\<forall>r \<in> set maps. maps_disjoint (mmap bump_env nr n maps len, len) r)"
proof -
  define p where "p = fold (\<lambda>r acc. max acc (unat (fst r) + map_span (snd r))) maps (256 * PAGE)"
  define q where "q = round_up p PAGE"
  have len: "len \<noteq> 0" "q + map_span len \<le> 2 ^ 47" "mmap bump_env nr n maps len = of_nat q"
    using assms by (auto simp: bump_env_def bump_mmap_def Let_def p_def q_def split: if_splits)
  have p: "256 * PAGE \<le> p" "\<forall>r \<in> set maps. unat (fst r) + map_span (snd r) \<le> p"
    using fold_max_bounds [of "256 * PAGE" "\<lambda>r. unat (fst r) + map_span (snd r)" maps]
    by (simp_all add: p_def)
  have "p \<le> q" using round_up_ge [of PAGE p] by (simp add: q_def PAGE_value)
  moreover have u: "unat (of_nat q :: usize) = q" using len(2) by (simp add: unat_of_nat)
  moreover have "(of_nat q :: usize) \<noteq> 0"
  proof
    assume "(of_nat q :: usize) = 0"
    then have "q = 0" using u by simp
    then show False using \<open>p \<le> q\<close> p(1) by (simp add: PAGE_value)
  qed
  ultimately have "valid_map (mmap bump_env nr n maps len, len)"
    using len by (auto simp: valid_map_def q_def)
  moreover have "\<forall>r \<in> set maps. maps_disjoint (mmap bump_env nr n maps len, len) r"
    using p(2) \<open>p \<le> q\<close> u len(3) by (fastforce simp: maps_disjoint_def)
  ultimately show ?thesis ..
qed

lemma bump_env_contract: "mmap_contract bump_env"
  unfolding mmap_contract_def using bump_mmap_result by blast

text \<open>It grants a request when there is room behind the mappings that exist.\<close>

lemma fold_max_le:
  "acc \<le> e \<Longrightarrow> \<forall>r \<in> set rs. f r \<le> e \<Longrightarrow> fold (\<lambda>r acc. max acc (f r)) rs acc \<le> (e :: nat)"
  by (induction rs arbitrary: acc) auto

lemma bump_mmap_granted:
  assumes "\<forall>r \<in> set maps. unat (fst r) + map_span (snd r) \<le> e" "256 * PAGE \<le> e" "PAGE dvd e" "len \<noteq> 0"
    and "e + map_span len \<le> 2 ^ 47"
  shows "mmap bump_env nr n maps len \<noteq> MAP_FAILED" "unat (mmap bump_env nr n maps len) \<le> e"
proof -
  define q where "q = round_up (fold (\<lambda>r acc. max acc (unat (fst r) + map_span (snd r))) maps (256 * PAGE)) PAGE"
  have "q \<le> e" unfolding q_def
    by (rule round_up_least) (use fold_max_le [OF assms(2), of maps] assms(1,3) in \<open>simp_all add: PAGE_value\<close>)
  then have m: "mmap bump_env nr n maps len = of_nat q" "unat (of_nat q :: usize) = q" "q \<le> 2 ^ 47"
    using assms(4,5) by (auto simp: bump_env_def bump_mmap_def q_def [symmetric] Let_def unat_of_nat)
  then show "unat (mmap bump_env nr n maps len) \<le> e" using \<open>q \<le> e\<close> by simp
  show "mmap bump_env nr n maps len \<noteq> MAP_FAILED"
  proof
    assume "mmap bump_env nr n maps len = MAP_FAILED"
    then have "unat (of_nat q :: usize) = unat MAP_FAILED" by (simp only: m(1))
    moreover have "unat MAP_FAILED = 2 ^ 64 - 1" by (simp add: MAP_FAILED_def unsigned_minus_1_eq_mask mask_eq_exp_minus_1)
    ultimately show False using m(2,3) by simp
  qed
qed

end
