(* ===== verification/Hash_Map.thy ===== *)
theory Hash_Map
  imports Prelude
begin

text \<open>
  The chained hash map of \<^verbatim>\<open>src/independent_collections/hash_map.rs\<close>. An \<^verbatim>\<open>Array\<close> is the list of
  its elements: this theory is about the buckets and leaves out the memory of the arrays and what they drop, which the
  theory \<open>Hash_Map_Memory\<close> adds to the insertion and the lookup; the hasher of the standard library is the
  parameter \<open>h\<close>, a fixed function of the key, as \<^verbatim>\<open>BuildHasherDefault\<close> gives. The load test
  compares the quotient of two counters with one half in \<open>f64\<close>, which is exact for counters
  below $2^{53}$; it is written without the division, and is false where the code's quotient is
  \<open>NAN\<close>. The locale \<open>map_ops\<close> states the contract the page bookkeeping relies on.
\<close>

section \<open>Data\<close>

record ('k, 'v) bucket =
  b_hash :: nat
  b_key :: 'k
  b_value :: 'v

record ('k, 'v) hash_map =
  hm_buckets :: "('k, 'v) bucket list list"
  hm_containers_used :: nat
  hm_len :: nat

section \<open>Operations\<close>

definition hm_with_capacity :: "nat \<Rightarrow> ('k, 'v) hash_map" where
  "hm_with_capacity capacity =
     \<lparr>hm_buckets = replicate capacity [], hm_containers_used = 0, hm_len = 0\<rparr>"

definition hm_new :: "('k, 'v) hash_map" where
  "hm_new = hm_with_capacity 1001"

definition spread_below_half :: "('k, 'v) hash_map \<Rightarrow> bool" where
  "spread_below_half m \<longleftrightarrow> hm_len m \<noteq> 0 \<and> 2 * hm_containers_used m < hm_len m"

definition hm_get_hash :: "('k \<Rightarrow> nat) \<Rightarrow> ('k, 'v) hash_map \<Rightarrow> 'k \<Rightarrow> nat res" where
  "hm_get_hash h m key =
     (if hm_buckets m = [] then Inl (Panic ''attempt to calculate the remainder with a divisor of zero'')
      else Inr (h key mod length (hm_buckets m)))"

text \<open>One step of the rehashing loop of \<^verbatim>\<open>grow\<close>: the bucket goes to the end of its new chain.\<close>

definition rehash_step ::
  "('k \<Rightarrow> nat) \<Rightarrow> nat \<Rightarrow> ('k, 'v) bucket \<Rightarrow> ('k, 'v) bucket list list \<times> nat \<Rightarrow> ('k, 'v) bucket list list \<times> nat" where
  "rehash_step h new_capacity b st =
     (let (bs, used) = st; i = h (b_key b) mod new_capacity
      in (bs[i := bs ! i @ [b\<lparr>b_hash := i\<rparr>]], if bs ! i = [] then used + 1 else used))"

definition hm_grow :: "('k \<Rightarrow> nat) \<Rightarrow> ('k, 'v) hash_map \<Rightarrow> ('k, 'v) hash_map" where
  "hm_grow h m =
     (let new_capacity = length (hm_buckets m) * 2 + 1;
          (bs, used) = fold (rehash_step h new_capacity) (concat (hm_buckets m)) (replicate new_capacity [], 0)
      in m\<lparr>hm_buckets := bs, hm_containers_used := used\<rparr>)"

text \<open>The search loop of \<^verbatim>\<open>insert\<close>, \<^verbatim>\<open>replace\<close> and \<^verbatim>\<open>remove\<close>: it runs to the end and keeps the last hit.\<close>

fun scan_index :: "('a \<Rightarrow> bool) \<Rightarrow> nat \<Rightarrow> nat option \<Rightarrow> 'a list \<Rightarrow> nat option" where
  "scan_index P i acc [] = acc"
| "scan_index P i acc (x # xs) = scan_index P (Suc i) (if P x then Some i else acc) xs"

abbreviation old_index :: "'k \<Rightarrow> ('k, 'v) bucket list \<Rightarrow> nat option" where
  "old_index key bs \<equiv> scan_index (\<lambda>b. b_key b = key) 0 None bs"

definition needs_grow :: "('k, 'v) hash_map \<Rightarrow> bool res" where
  "needs_grow m =
     (if hm_len m \<ge> length (hm_buckets m) div 2 \<and> spread_below_half m then Inr True
      else rbind (checked_sub (length (hm_buckets m)) 1) (\<lambda>n. Inr (hm_len m = n)))"

definition insert_keep_key ::
  "('k \<Rightarrow> nat) \<Rightarrow> 'k \<Rightarrow> 'v \<Rightarrow> ('k, 'v) hash_map \<Rightarrow> ('v option \<times> 'k \<times> ('k, 'v) hash_map) res" where
  "insert_keep_key h key v m0 =
     rbind (needs_grow m0) (\<lambda>g.
     let m = (if g then hm_grow h m0 else m0) in
     rbind (hm_get_hash h m key) (\<lambda>i.
     let bs = hm_buckets m ! i;
         m1 = (if bs = [] then m\<lparr>hm_containers_used := hm_containers_used m + 1\<rparr> else m);
         m2 = m1\<lparr>hm_len := hm_len m1 + 1\<rparr>
     in case old_index key bs of
          None \<Rightarrow>
            Inr (None, key, m2\<lparr>hm_buckets := (hm_buckets m)[i := bs @ [\<lparr>b_hash = i, b_key = key, b_value = v\<rparr>]]\<rparr>)
        | Some j \<Rightarrow>
            Inr (Some (b_value (bs ! j)), b_key (bs ! j),
                 m2\<lparr>hm_buckets := (hm_buckets m)[i := bs[j := (bs ! j)\<lparr>b_value := v\<rparr>]]\<rparr>)))"

definition hm_insert ::
  "('k \<Rightarrow> nat) \<Rightarrow> 'k \<Rightarrow> 'v \<Rightarrow> ('k, 'v) hash_map \<Rightarrow> ('v option \<times> ('k, 'v) hash_map) res" where
  "hm_insert h key v m = rbind (insert_keep_key h key v m) (\<lambda>(old, _, m'). Inr (old, m'))"

definition hm_replace ::
  "('k \<Rightarrow> nat) \<Rightarrow> 'k \<Rightarrow> 'v \<Rightarrow> ('k, 'v) hash_map \<Rightarrow> ('v option \<times> ('k, 'v) hash_map) res" where
  "hm_replace h key v m =
     rbind (hm_get_hash h m key) (\<lambda>i.
     let bs = hm_buckets m ! i
     in case old_index key bs of
          None \<Rightarrow> Inr (None, m)
        | Some j \<Rightarrow> Inr (Some (b_value (bs ! j)),
            m\<lparr>hm_buckets := (hm_buckets m)[i := bs[j := (bs ! j)\<lparr>b_value := v\<rparr>]]\<rparr>))"

definition hm_get :: "('k \<Rightarrow> nat) \<Rightarrow> ('k, 'v) hash_map \<Rightarrow> 'k \<Rightarrow> 'v option res" where
  "hm_get h m key =
     rbind (hm_get_hash h m key) (\<lambda>i.
     Inr (map_option b_value (find (\<lambda>b. b_key b = key) (hm_buckets m ! i))))"

definition hm_contains :: "('k \<Rightarrow> nat) \<Rightarrow> ('k, 'v) hash_map \<Rightarrow> 'k \<Rightarrow> bool res" where
  "hm_contains h m key =
     rbind (hm_get_hash h m key) (\<lambda>i.
     Inr (find (\<lambda>b. b_key b = key) (hm_buckets m ! i) \<noteq> None))"

definition hm_remove ::
  "('k \<Rightarrow> nat) \<Rightarrow> 'k \<Rightarrow> ('k, 'v) hash_map \<Rightarrow> ('v option \<times> ('k, 'v) hash_map) res" where
  "hm_remove h key m =
     rbind (hm_get_hash h m key) (\<lambda>i.
     rbind (checked_sub (hm_len m) 1) (\<lambda>n.
     let bs = hm_buckets m ! i; m1 = m\<lparr>hm_len := n\<rparr>
     in case old_index key bs of
          None \<Rightarrow> Inr (None, m1)
        | Some j \<Rightarrow> Inr (Some (b_value (bs ! j)),
            m1\<lparr>hm_buckets := (hm_buckets m)[i := take j bs @ drop (Suc j) bs]\<rparr>)))"

definition hm_is_empty :: "('k, 'v) hash_map \<Rightarrow> bool" where
  "hm_is_empty m \<longleftrightarrow> hm_len m = 0"

text \<open>\<^verbatim>\<open>map[&key]\<close> and \<^verbatim>\<open>map.entry(key).or_insert(value)\<close>: the value the reference points to.\<close>

definition hm_index :: "('k \<Rightarrow> nat) \<Rightarrow> ('k, 'v) hash_map \<Rightarrow> 'k \<Rightarrow> 'v res" where
  "hm_index h m key =
     rbind (hm_get h m key) (\<lambda>r. case r of None \<Rightarrow> Inl (Panic ''Key not present in map'') | Some v \<Rightarrow> Inr v)"

definition or_insert ::
  "('k \<Rightarrow> nat) \<Rightarrow> 'k \<Rightarrow> 'v \<Rightarrow> ('k, 'v) hash_map \<Rightarrow> ('v \<times> ('k, 'v) hash_map) res" where
  "or_insert h key v m =
     rbind (hm_get_hash h m key) (\<lambda>i.
     case find (\<lambda>b. b_key b = key) (hm_buckets m ! i) of
       Some b \<Rightarrow> Inr (b_value b, m)
     | None \<Rightarrow>
         rbind (insert_keep_key h key v m) (\<lambda>(_, k, m').
         rbind (hm_get h m' k) (\<lambda>r. rbind (unwrap r) (\<lambda>w. Inr (w, m')))))"

section \<open>Abstraction and invariant\<close>

definition bucket_map :: "('k, 'v) bucket list \<Rightarrow> 'k \<rightharpoonup> 'v" where
  "bucket_map bs = map_of (map (\<lambda>b. (b_key b, b_value b)) bs)"

definition hm_lookup :: "('k \<Rightarrow> nat) \<Rightarrow> ('k, 'v) hash_map \<Rightarrow> 'k \<rightharpoonup> 'v" where
  "hm_lookup h m k = bucket_map (hm_buckets m ! (h k mod length (hm_buckets m))) k"

definition chain_ok :: "('k \<Rightarrow> nat) \<Rightarrow> nat \<Rightarrow> nat \<Rightarrow> ('k, 'v) bucket list \<Rightarrow> bool" where
  "chain_ok h n i bs \<longleftrightarrow> distinct (map b_key bs) \<and> (\<forall>b \<in> set bs. h (b_key b) mod n = i \<and> b_hash b = i)"

definition buckets_ok :: "('k \<Rightarrow> nat) \<Rightarrow> ('k, 'v) bucket list list \<Rightarrow> bool" where
  "buckets_ok h bss \<longleftrightarrow> (\<forall>i < length bss. chain_ok h (length bss) i (bss ! i))"

definition hm_invar :: "('k \<Rightarrow> nat) \<Rightarrow> ('k, 'v) hash_map \<Rightarrow> bool" where
  "hm_invar h m \<longleftrightarrow> hm_buckets m \<noteq> [] \<and> buckets_ok h (hm_buckets m) \<and>
     length (concat (hm_buckets m)) \<le> hm_len m"

section \<open>Chains\<close>

lemma scan_index_cases:
  "(scan_index P i acc xs = acc \<and> (\<forall>x \<in> set xs. \<not> P x)) \<or>
   (\<exists>j < length xs. scan_index P i acc xs = Some (i + j) \<and> P (xs ! j))"
proof (induction xs arbitrary: i acc)
  case (Cons x xs)
  show ?case
    using Cons.IH [of "Suc i" "if P x then Some i else acc"]
    by (cases "P x") (force intro: exI [of _ 0] exI [of _ "Suc _"])+
qed simp

lemma old_index_None: "old_index k bs = None \<Longrightarrow> k \<notin> b_key ` set bs"
  using scan_index_cases [of "\<lambda>b. b_key b = k" 0 None bs] by auto

lemma old_index_Some: "old_index k bs = Some j \<Longrightarrow> j < length bs \<and> b_key (bs ! j) = k"
  using scan_index_cases [of "\<lambda>b. b_key b = k" 0 None bs] by auto

lemma find_bucket_map: "map_option b_value (find (\<lambda>b. b_key b = k) bs) = bucket_map bs k"
  by (induction bs) (auto simp: bucket_map_def)

lemma bucket_map_None: "bucket_map bs k = None \<longleftrightarrow> k \<notin> b_key ` set bs"
  by (force simp: bucket_map_def map_of_eq_None_iff)

lemma bucket_map_Some:
  "distinct (map b_key bs) \<Longrightarrow> bucket_map bs k = Some v \<longleftrightarrow> (\<exists>b \<in> set bs. b_key b = k \<and> b_value b = v)"
  by (subst bucket_map_def, subst map_of_eq_Some_iff) (auto simp: comp_def)

lemma bucket_map_append: "bucket_map (as @ bs) = bucket_map bs ++ bucket_map as"
  by (simp add: bucket_map_def)

lemma bucket_map_Cons: "bucket_map (b # bs) = (bucket_map bs)(b_key b \<mapsto> b_value b)"
  by (simp add: bucket_map_def)

lemma bucket_map_snoc:
  "b_key b \<notin> b_key ` set bs \<Longrightarrow> bucket_map (bs @ [b]) = (bucket_map bs)(b_key b \<mapsto> b_value b)"
  by (auto simp: bucket_map_append bucket_map_Cons bucket_map_None [symmetric] map_add_def fun_eq_iff
      split: option.splits) (simp_all add: bucket_map_def)

text \<open>A chain around the bucket at an index: updating and deleting it.\<close>

lemma chain_split:
  assumes "j < length bs"
  obtains as cs where "bs = as @ bs ! j # cs" "bs[j := x] = as @ x # cs" "take j bs @ drop (Suc j) bs = as @ cs"
  using assms by (metis id_take_nth_drop upd_conv_take_nth_drop)

lemma bucket_map_update:
  assumes "distinct (map b_key bs)" "j < length bs" "b_key b = b_key (bs ! j)"
  shows "bucket_map (bs[j := b]) = (bucket_map bs)(b_key b \<mapsto> b_value b)"
proof -
  obtain as cs where s: "bs = as @ bs ! j # cs" "bs[j := b] = as @ b # cs"
    using assms(2) by (rule chain_split [of j bs b])
  have "distinct (map b_key (as @ bs ! j # cs))" using assms(1) s(1) by simp
  then have "bucket_map as (b_key b) = None" using assms(3) by (auto simp: bucket_map_None)
  moreover have "bucket_map bs = (bucket_map (bs ! j # cs)) ++ bucket_map as"
    by (subst s(1)) (rule bucket_map_append)
  ultimately show ?thesis
    using assms(3)
    by (auto simp: s(2) bucket_map_append bucket_map_Cons map_add_def fun_eq_iff split: option.splits)
qed

lemma bucket_map_remove:
  assumes "distinct (map b_key bs)" "j < length bs"
  shows "bucket_map (take j bs @ drop (Suc j) bs) = (bucket_map bs)(b_key (bs ! j) := None)"
proof -
  obtain as cs where s: "bs = as @ bs ! j # cs" "take j bs @ drop (Suc j) bs = as @ cs"
    using assms(2) by (rule chain_split [of j bs undefined])
  have d: "distinct (map b_key (as @ bs ! j # cs))" using assms(1) s(1) by simp
  then have "bucket_map as (b_key (bs ! j)) = None" "bucket_map cs (b_key (bs ! j)) = None"
    by (auto simp: bucket_map_None)
  moreover have "bucket_map bs = (bucket_map (bs ! j # cs)) ++ bucket_map as"
    by (subst s(1)) (rule bucket_map_append)
  ultimately show ?thesis
    by (auto simp: s(2) bucket_map_append bucket_map_Cons map_add_def fun_eq_iff split: option.splits)
qed

lemma chain_ok_snoc:
  "chain_ok h n i bs \<Longrightarrow> h (b_key b) mod n = i \<Longrightarrow> b_hash b = i \<Longrightarrow> b_key b \<notin> b_key ` set bs \<Longrightarrow>
    chain_ok h n i (bs @ [b])"
  by (auto simp: chain_ok_def)

lemma chain_ok_update:
  assumes "chain_ok h n i bs" "j < length bs" "b_key b = b_key (bs ! j)" "b_hash b = b_hash (bs ! j)"
  shows "chain_ok h n i (bs[j := b])"
proof -
  have "map b_key (bs[j := b]) = map b_key bs"
    using assms(2,3) by (simp add: map_update list_update_same_conv)
  moreover have "h (b_key b) mod n = i \<and> b_hash b = i"
    using assms by (auto simp: chain_ok_def)
  ultimately show ?thesis
    using assms(1) set_update_subset_insert [of bs j b] by (auto simp: chain_ok_def)
qed

lemma chain_ok_remove:
  assumes "chain_ok h n i bs" "j < length bs"
  shows "chain_ok h n i (take j bs @ drop (Suc j) bs)"
proof -
  obtain as cs where s: "bs = as @ bs ! j # cs" "take j bs @ drop (Suc j) bs = as @ cs"
    using assms(2) by (rule chain_split [of j bs undefined])
  have "chain_ok h n i (as @ bs ! j # cs)" using assms(1) s(1) by simp
  then show ?thesis unfolding s(2) by (auto simp: chain_ok_def)
qed

section \<open>The table\<close>

lemma buckets_ok_update:
  "buckets_ok h bss \<Longrightarrow> (i < length bss \<Longrightarrow> chain_ok h (length bss) i bs) \<Longrightarrow> buckets_ok h (bss[i := bs])"
  by (cases "i < length bss") (auto simp: buckets_ok_def nth_list_update)

lemma length_concat_update:
  "i < length xss \<Longrightarrow> length (concat (xss[i := xs])) + length (xss ! i) = length (concat xss) + length xs"
proof (induction xss arbitrary: i)
  case (Cons ys xss)
  then show ?case by (cases i) auto
qed simp

text \<open>The content of the table is the content of all its chains together.\<close>

definition table_map :: "('k \<Rightarrow> nat) \<Rightarrow> ('k, 'v) bucket list list \<Rightarrow> 'k \<rightharpoonup> 'v" where
  "table_map h bss k = bucket_map (bss ! (h k mod length bss)) k"

lemma hm_lookup_table: "hm_lookup h m = table_map h (hm_buckets m)"
  by (simp add: fun_eq_iff hm_lookup_def table_map_def)

lemma table_map_update:
  assumes "i < length bss"
  shows "table_map h (bss[i := bs]) k =
    (if h k mod length bss = i then bucket_map bs k else table_map h bss k)"
  using assms by (auto simp: table_map_def nth_list_update)

lemma distinct_keys_concat:
  assumes "\<forall>i < length xss. distinct (map f (xss ! i)) \<and> (\<forall>x \<in> set (xss ! i). g (f x) = i)"
  shows "distinct (map f (concat xss))"
  using assms
proof (induction xss rule: rev_induct)
  case (snoc xs xss)
  have "distinct (map f (concat xss))"
    using snoc.prems by (intro snoc.IH) (auto simp: nth_append dest: spec [of _ "_ :: nat"] split: if_splits)
  moreover have "distinct (map f xs)" "\<forall>x \<in> set xs. g (f x) = length xss"
    using snoc.prems by (auto simp: nth_append dest: spec [of _ "length xss"])
  moreover have "g (f x) < length xss" if x: "x \<in> set (concat xss)" for x
  proof -
    obtain i where "i < length xss" "x \<in> set (xss ! i)" using x by (auto simp: set_conv_nth [of xss])
    then show ?thesis using snoc.prems by (auto simp: nth_append dest: spec [of _ i])
  qed
  ultimately show ?case by (fastforce simp: image_iff)
qed simp

lemma buckets_ok_distinct: "buckets_ok h bss \<Longrightarrow> distinct (map b_key (concat bss))"
  by (rule distinct_keys_concat [where g = "\<lambda>k. h k mod length bss"]) (auto simp: buckets_ok_def chain_ok_def)

lemma in_concat_iff:
  assumes "buckets_ok h bss" "bss \<noteq> []"
  shows "b \<in> set (concat bss) \<longleftrightarrow> b \<in> set (bss ! (h (b_key b) mod length bss))"
proof
  assume "b \<in> set (concat bss)"
  then obtain i where "i < length bss" "b \<in> set (bss ! i)" by (auto simp: set_conv_nth [of bss])
  then show "b \<in> set (bss ! (h (b_key b) mod length bss))"
    using assms(1) by (auto simp: buckets_ok_def chain_ok_def)
next
  assume "b \<in> set (bss ! (h (b_key b) mod length bss))"
  moreover have "bss ! (h (b_key b) mod length bss) \<in> set bss" using assms(2) by simp
  ultimately show "b \<in> set (concat bss)" by auto
qed

lemma bucket_map_concat:
  assumes "buckets_ok h bss" "bss \<noteq> []"
  shows "bucket_map (concat bss) = table_map h bss"
proof (rule ext)
  fix k
  let ?i = "h k mod length bss"
  have i: "?i < length bss" using assms(2) by simp
  have d: "distinct (map b_key (concat bss))" "distinct (map b_key (bss ! ?i))"
    using buckets_ok_distinct [OF assms(1)] assms(1) i by (auto simp: buckets_ok_def chain_ok_def)
  have "bucket_map (concat bss) k = Some v \<longleftrightarrow> bucket_map (bss ! ?i) k = Some v" for v
    unfolding bucket_map_Some [OF d(1)] bucket_map_Some [OF d(2)]
    using in_concat_iff [OF assms] by blast
  then show "bucket_map (concat bss) k = table_map h bss k"
    unfolding table_map_def by (metis not_Some_eq)
qed

section \<open>Growing\<close>

lemma rehash_step_ok:
  assumes "buckets_ok h bss" "length bss = n" "0 < n" "table_map h bss (b_key b) = None"
    and "rehash_step h n b (bss, u) = (bss', u')"
  shows "buckets_ok h bss' \<and> length bss' = n \<and> table_map h bss' = (table_map h bss)(b_key b \<mapsto> b_value b) \<and>
    length (concat bss') = Suc (length (concat bss))"
proof -
  let ?i = "h (b_key b) mod n"
  have i: "?i < length bss" using assms(2,3) by simp
  have b': "bss' = bss[?i := bss ! ?i @ [b\<lparr>b_hash := ?i\<rparr>]]"
    using assms(5) by (simp add: rehash_step_def Let_def)
  have new: "b_key b \<notin> b_key ` set (bss ! ?i)"
    using assms(4) assms(2) by (simp add: table_map_def bucket_map_None)
  have "chain_ok h (length bss) ?i (bss ! ?i @ [b\<lparr>b_hash := ?i\<rparr>])"
    using assms(1,2) i new by (intro chain_ok_snoc) (auto simp: buckets_ok_def)
  then have "buckets_ok h bss'" using assms(1) unfolding b' by (intro buckets_ok_update) auto
  moreover have "table_map h bss' = (table_map h bss)(b_key b \<mapsto> b_value b)"
    using new assms(2) unfolding b'
    by (auto simp: fun_eq_iff table_map_update [OF i] bucket_map_snoc) (simp_all add: table_map_def)
  moreover have "length (concat bss') = Suc (length (concat bss))"
    using length_concat_update [OF i, of "bss ! ?i @ [b\<lparr>b_hash := ?i\<rparr>]"] unfolding b' by simp
  ultimately show ?thesis using assms(2) unfolding b' by simp
qed

lemma rehash_all_ok:
  assumes "distinct (map b_key L)" "\<forall>b \<in> set L. table_map h bss (b_key b) = None"
    "buckets_ok h bss" "length bss = n" "0 < n" "fold (rehash_step h n) L (bss, u) = (bss', u')"
  shows "buckets_ok h bss' \<and> length bss' = n \<and> table_map h bss' = table_map h bss ++ bucket_map L \<and>
    length (concat bss') = length (concat bss) + length L"
  using assms
proof (induction L arbitrary: bss u)
  case (Cons b L)
  obtain bss1 u1 where st: "rehash_step h n b (bss, u) = (bss1, u1)" by fastforce
  have s: "buckets_ok h bss1" "length bss1 = n" "table_map h bss1 = (table_map h bss)(b_key b \<mapsto> b_value b)"
    "length (concat bss1) = Suc (length (concat bss))"
    using rehash_step_ok [OF Cons.prems(3,4,5) _ st] Cons.prems(2) by auto
  have r: "fold (rehash_step h n) L (bss1, u1) = (bss', u')" using Cons.prems(6) st by simp
  have "\<forall>c \<in> set L. table_map h bss1 (b_key c) = None"
    using Cons.prems(1,2) s(3) by (auto simp: fun_upd_apply) (metis imageI)
  then have IH: "buckets_ok h bss' \<and> length bss' = n \<and> table_map h bss' = table_map h bss1 ++ bucket_map L \<and>
    length (concat bss') = length (concat bss1) + length L"
    using Cons.prems(1,5) s(1,2) r by (intro Cons.IH) auto
  have "bucket_map L (b_key b) = None" using Cons.prems(1) by (simp add: bucket_map_None)
  then have "(table_map h bss)(b_key b \<mapsto> b_value b) ++ bucket_map L = table_map h bss ++ bucket_map (b # L)"
    by (auto simp: bucket_map_Cons map_add_def fun_eq_iff split: option.splits)
  then show ?case using IH s(3,4) by simp
qed (simp add: bucket_map_def)

lemma hm_grow_ok:
  assumes "hm_invar h m"
  shows "hm_invar h (hm_grow h m) \<and> hm_lookup h (hm_grow h m) = hm_lookup h m \<and>
    hm_len (hm_grow h m) = hm_len m"
proof -
  let ?n = "length (hm_buckets m) * 2 + 1"
  obtain bss u where f: "fold (rehash_step h ?n) (concat (hm_buckets m)) (replicate ?n [], 0) = (bss, u)"
    by fastforce
  have empty: "table_map h (replicate ?n []) k = None" for k
    by (simp add: table_map_def bucket_map_def nth_replicate del: replicate_Suc)
  have "buckets_ok h (replicate ?n [])"
    by (auto simp: buckets_ok_def chain_ok_def simp del: replicate_Suc)
  then have r: "buckets_ok h bss" "length bss = ?n"
    "table_map h bss = table_map h (replicate ?n []) ++ bucket_map (concat (hm_buckets m))"
    "length (concat bss) = length (concat (hm_buckets m))"
    using rehash_all_ok [OF _ _ _ _ _ f] buckets_ok_distinct assms empty
    by (auto simp: hm_invar_def simp del: replicate_Suc)
  have "table_map h bss = table_map h (hm_buckets m)"
    using r(3) empty assms bucket_map_concat [of h "hm_buckets m"]
    by (auto simp: hm_invar_def map_add_def fun_eq_iff split: option.splits)
  then show ?thesis
    using r assms f by (auto simp: hm_grow_def hm_invar_def hm_lookup_table Let_def simp del: replicate_Suc)
qed

section \<open>The operations on the map\<close>

lemma hm_get_hash_ok [simp]:
  "hm_invar h m \<Longrightarrow> hm_get_hash h m k = Inr (h k mod length (hm_buckets m))"
  by (simp add: hm_get_hash_def hm_invar_def)

lemma hm_get_lookup: "hm_invar h m \<Longrightarrow> hm_get h m k = Inr (hm_lookup h m k)"
  by (simp add: hm_get_def find_bucket_map hm_lookup_def)

lemma hm_contains_lookup: "hm_invar h m \<Longrightarrow> hm_contains h m k = Inr (hm_lookup h m k \<noteq> None)"
  by (simp add: hm_contains_def hm_lookup_def flip: find_bucket_map)

lemma needs_grow_ok: "hm_invar h m \<Longrightarrow> \<exists>g. needs_grow m = Inr g"
  by (cases "hm_buckets m") (auto simp: needs_grow_def hm_invar_def)

text \<open>Storing into one chain: what every mutating operation does to the map.\<close>

lemma store_chain_ok:
  assumes "hm_invar h m" "i = h k mod length (hm_buckets m)" "chain_ok h (length (hm_buckets m)) i bs"
    "bucket_map bs = (bucket_map (hm_buckets m ! i))(k := r)"
    "length (concat (hm_buckets m)) + length bs \<le> n + length (hm_buckets m ! i)"
  shows "hm_invar h (m\<lparr>hm_containers_used := u, hm_len := n, hm_buckets := (hm_buckets m)[i := bs]\<rparr>) \<and>
    hm_lookup h (m\<lparr>hm_containers_used := u, hm_len := n, hm_buckets := (hm_buckets m)[i := bs]\<rparr>) =
      (hm_lookup h m)(k := r)"
proof -
  have i: "i < length (hm_buckets m)" using assms(1,2) by (simp add: hm_invar_def)
  have "buckets_ok h ((hm_buckets m)[i := bs])"
    using assms(1,3) by (intro buckets_ok_update) (auto simp: hm_invar_def)
  moreover have "table_map h ((hm_buckets m)[i := bs]) = (table_map h (hm_buckets m))(k := r)"
  proof (rule ext)
    fix x
    have "table_map h (hm_buckets m) x = bucket_map (hm_buckets m ! i) x" if "h x mod length (hm_buckets m) = i"
      using that by (simp add: table_map_def)
    then show "table_map h ((hm_buckets m)[i := bs]) x = ((table_map h (hm_buckets m))(k := r)) x"
      using assms(2) [symmetric] by (cases "x = k") (simp_all add: table_map_update [OF i] assms(4))
  qed
  ultimately show ?thesis
    using assms(1,5) length_concat_update [OF i, of bs] by (auto simp: hm_invar_def hm_lookup_table)
qed

lemma chain_at:
  "hm_invar h m \<Longrightarrow> i = h k mod length (hm_buckets m) \<Longrightarrow>
    chain_ok h (length (hm_buckets m)) i (hm_buckets m ! i) \<and> bucket_map (hm_buckets m ! i) k = hm_lookup h m k"
  by (simp add: hm_invar_def buckets_ok_def hm_lookup_def)

lemma old_index_lookup:
  assumes "hm_invar h m" "i = h k mod length (hm_buckets m)"
  shows "old_index k (hm_buckets m ! i) = None \<Longrightarrow> hm_lookup h m k = None"
    and "old_index k (hm_buckets m ! i) = Some j \<Longrightarrow>
      hm_lookup h m k = Some (b_value (hm_buckets m ! i ! j))"
proof -
  have c: "distinct (map b_key (hm_buckets m ! i))" "bucket_map (hm_buckets m ! i) k = hm_lookup h m k"
    using chain_at [OF assms] by (auto simp: chain_ok_def)
  show "old_index k (hm_buckets m ! i) = None \<Longrightarrow> hm_lookup h m k = None"
    using c(2) old_index_None by (simp add: bucket_map_None flip: c(2))
  show "old_index k (hm_buckets m ! i) = Some j \<Longrightarrow>
      hm_lookup h m k = Some (b_value (hm_buckets m ! i ! j))"
    using old_index_Some [of k "hm_buckets m ! i" j] unfolding c(2) [symmetric] bucket_map_Some [OF c(1)]
    by auto
qed

lemma insert_keep_key_ok:
  assumes "hm_invar h m"
  shows "\<exists>m'. insert_keep_key h k v m = Inr (hm_lookup h m k, k, m') \<and> hm_invar h m' \<and>
    hm_lookup h m' = (hm_lookup h m)(k \<mapsto> v) \<and> hm_len m' = Suc (hm_len m)"
proof -
  obtain g where g: "needs_grow m = Inr g" using needs_grow_ok [OF assms] by blast
  define m1 where "m1 = (if g then hm_grow h m else m)"
  have m1: "hm_invar h m1" "hm_lookup h m1 = hm_lookup h m" "hm_len m1 = hm_len m"
    using assms hm_grow_ok [OF assms] by (auto simp: m1_def)
  define i where "i = h k mod length (hm_buckets m1)"
  define bs where "bs = hm_buckets m1 ! i"
  define u where "u = (if bs = [] then hm_containers_used m1 + 1 else hm_containers_used m1)"
  have c: "chain_ok h (length (hm_buckets m1)) i bs" using chain_at [OF m1(1) i_def] by (simp add: bs_def)
  have len: "length (concat (hm_buckets m1)) \<le> hm_len m1" using m1(1) by (simp add: hm_invar_def)
  show ?thesis
  proof (cases "old_index k bs")
    case None
    let ?b = "\<lparr>b_hash = i, b_key = k, b_value = v\<rparr>"
    have new: "k \<notin> b_key ` set bs" using old_index_None [OF None] .
    have "chain_ok h (length (hm_buckets m1)) i (bs @ [?b])"
      using c new by (intro chain_ok_snoc) (auto simp: i_def)
    moreover have "bucket_map (bs @ [?b]) = (bucket_map bs)(k := Some v)"
      using bucket_map_snoc [of ?b bs] new by simp
    ultimately show ?thesis
      using store_chain_ok [OF m1(1) i_def, of "bs @ [?b]" "Some v" "Suc (hm_len m1)" u] len m1
        old_index_lookup(1) [OF m1(1) i_def] None
      unfolding insert_keep_key_def g
      by (cases "bs = []") (simp_all add: m1(1) Let_def u_def flip: m1_def i_def bs_def)
  next
    case (Some j)
    let ?b = "(bs ! j)\<lparr>b_value := v\<rparr>"
    have j: "j < length bs" "b_key (bs ! j) = k" using old_index_Some [OF Some] by auto
    have "chain_ok h (length (hm_buckets m1)) i (bs[j := ?b])"
      using c j by (intro chain_ok_update) auto
    moreover have "bucket_map (bs[j := ?b]) = (bucket_map bs)(k := Some v)"
      using bucket_map_update [of bs j ?b] c j by (simp add: chain_ok_def)
    ultimately show ?thesis
      using store_chain_ok [OF m1(1) i_def, of "bs[j := ?b]" "Some v" "Suc (hm_len m1)" u] len m1
        old_index_lookup(2) [OF m1(1) i_def] Some j
      unfolding insert_keep_key_def g
      by (cases "bs = []") (simp_all add: m1(1) Let_def u_def flip: m1_def i_def bs_def)
  qed
qed

lemma hm_insert_ok:
  assumes "hm_invar h m"
  shows "\<exists>m'. hm_insert h k v m = Inr (hm_lookup h m k, m') \<and> hm_invar h m' \<and>
    hm_lookup h m' = (hm_lookup h m)(k \<mapsto> v) \<and> hm_len m' = Suc (hm_len m)"
  using insert_keep_key_ok [OF assms, of k v] by (auto simp: hm_insert_def)

lemma hm_remove_ok:
  assumes "hm_invar h m" "hm_lookup h m k = Some v"
  shows "\<exists>m'. hm_remove h k m = Inr (Some v, m') \<and> hm_invar h m' \<and> hm_lookup h m' = (hm_lookup h m)(k := None)"
proof -
  define i where "i = h k mod length (hm_buckets m)"
  define bs where "bs = hm_buckets m ! i"
  have c: "chain_ok h (length (hm_buckets m)) i bs" using chain_at [OF assms(1) i_def] by (simp add: bs_def)
  obtain j where j: "old_index k bs = Some j"
    using assms old_index_lookup(1) [OF assms(1) i_def] by (cases "old_index k bs") (auto simp: bs_def)
  have jl: "j < length bs" "b_key (bs ! j) = k" using old_index_Some [OF j] by auto
  have v: "v = b_value (bs ! j)" using old_index_lookup(2) [OF assms(1) i_def] j assms(2) by (simp add: bs_def)
  have i: "i < length (hm_buckets m)" using assms(1) by (simp add: hm_invar_def i_def)
  have "length bs \<le> length (concat (hm_buckets m))"
    using length_concat_update [OF i, of "[]"] by (simp add: bs_def)
  then have len: "1 \<le> hm_len m" "length (concat (hm_buckets m)) \<le> hm_len m"
    using assms(1) jl(1) by (auto simp: hm_invar_def)
  have "chain_ok h (length (hm_buckets m)) i (take j bs @ drop (Suc j) bs)"
    using c jl by (intro chain_ok_remove)
  moreover have "bucket_map (take j bs @ drop (Suc j) bs) = (bucket_map bs)(k := None)"
    using bucket_map_remove [of bs j] c jl by (simp add: chain_ok_def)
  ultimately show ?thesis
    using store_chain_ok [OF assms(1) i_def, of "take j bs @ drop (Suc j) bs" None "hm_len m - 1" "hm_containers_used m"]
      j jl v len assms(1)
    by (simp add: hm_remove_def Let_def flip: i_def bs_def)
qed

lemma hm_replace_ok:
  assumes "hm_invar h m"
  shows "\<exists>m'. hm_replace h k v m = Inr (hm_lookup h m k, m') \<and> hm_invar h m' \<and>
    hm_lookup h m' = (if hm_lookup h m k = None then hm_lookup h m else (hm_lookup h m)(k \<mapsto> v))"
proof -
  define i where "i = h k mod length (hm_buckets m)"
  define bs where "bs = hm_buckets m ! i"
  have c: "chain_ok h (length (hm_buckets m)) i bs" using chain_at [OF assms i_def] by (simp add: bs_def)
  show ?thesis
  proof (cases "old_index k bs")
    case None
    then show ?thesis
      using assms old_index_lookup(1) [OF assms i_def] by (simp add: hm_replace_def Let_def flip: i_def bs_def)
  next
    case (Some j)
    let ?b = "(bs ! j)\<lparr>b_value := v\<rparr>"
    have j: "j < length bs" "b_key (bs ! j) = k" using old_index_Some [OF Some] by auto
    have "chain_ok h (length (hm_buckets m)) i (bs[j := ?b])"
      using c j by (intro chain_ok_update) auto
    moreover have "bucket_map (bs[j := ?b]) = (bucket_map bs)(k := Some v)"
      using bucket_map_update [of bs j ?b] c j by (simp add: chain_ok_def)
    ultimately show ?thesis
      using store_chain_ok [OF assms i_def, of "bs[j := ?b]" "Some v" "hm_len m" "hm_containers_used m"] assms
        old_index_lookup(2) [OF assms i_def] Some j
      by (simp add: hm_replace_def hm_invar_def [of h m] Let_def flip: i_def bs_def)
  qed
qed

lemma or_insert_ok:
  assumes "hm_invar h m"
  shows "\<exists>m'. or_insert h k v m = Inr (case hm_lookup h m k of None \<Rightarrow> v | Some w \<Rightarrow> w, m') \<and> hm_invar h m' \<and>
    hm_lookup h m' = (case hm_lookup h m k of None \<Rightarrow> (hm_lookup h m)(k \<mapsto> v) | Some w \<Rightarrow> hm_lookup h m)"
proof (cases "hm_lookup h m k")
  case None
  obtain m' where "insert_keep_key h k v m = Inr (None, k, m')" "hm_invar h m'" "hm_lookup h m' = (hm_lookup h m)(k \<mapsto> v)"
    using insert_keep_key_ok [OF assms, of k v] None by auto
  moreover have "find (\<lambda>b. b_key b = k) (hm_buckets m ! (h k mod length (hm_buckets m))) = None"
    using None by (simp add: hm_lookup_def flip: find_bucket_map)
  ultimately show ?thesis using assms None by (simp add: or_insert_def hm_get_lookup)
next
  case (Some w)
  then obtain b where "find (\<lambda>b. b_key b = k) (hm_buckets m ! (h k mod length (hm_buckets m))) = Some b" "b_value b = w"
    by (auto simp: hm_lookup_def simp flip: find_bucket_map)
  then show ?thesis using assms Some by (simp add: or_insert_def)
qed

lemma hm_with_capacity_invar: "0 < n \<Longrightarrow> hm_invar h (hm_with_capacity n)"
  by (auto simp: hm_invar_def hm_with_capacity_def buckets_ok_def chain_ok_def)

lemma hm_with_capacity_lookup: "0 < n \<Longrightarrow> hm_lookup h (hm_with_capacity n) = Map.empty"
  by (simp add: hm_with_capacity_def hm_lookup_def bucket_map_def fun_eq_iff)

section \<open>The map contract\<close>

text \<open>What a client of the map relies on: every insertion succeeds and returns what was stored
  before, a stored key can be removed, and lookups see exactly the effect of both.\<close>

locale map_ops =
  fixes lookup :: "'m \<Rightarrow> 'k \<Rightarrow> 'v option"
    and get :: "'m \<Rightarrow> 'k \<Rightarrow> 'v option res"
    and ins :: "'k \<Rightarrow> 'v \<Rightarrow> 'm \<Rightarrow> ('v option \<times> 'm) res"
    and del :: "'k \<Rightarrow> 'm \<Rightarrow> ('v option \<times> 'm) res"
    and invar :: "'m \<Rightarrow> bool"
  assumes get_lookup: "invar m \<Longrightarrow> get m k = Inr (lookup m k)"
    and ins_ok: "invar m \<Longrightarrow> \<exists>m'. ins k v m = Inr (lookup m k, m') \<and> invar m' \<and> lookup m' = (lookup m)(k \<mapsto> v)"
    and del_ok: "invar m \<Longrightarrow> lookup m k = Some v \<Longrightarrow>
      \<exists>m'. del k m = Inr (Some v, m') \<and> invar m' \<and> lookup m' = (lookup m)(k := None)"
begin

lemma get_after_ins:
  assumes "invar m"
  shows "\<exists>m'. ins k v m = Inr (lookup m k, m') \<and> invar m' \<and> get m' k = Inr (Some v) \<and>
    (\<forall>k'. k' \<noteq> k \<longrightarrow> get m' k' = get m k')"
proof -
  obtain m' where "ins k v m = Inr (lookup m k, m')" "invar m'" "lookup m' = (lookup m)(k \<mapsto> v)"
    using ins_ok [OF assms] by blast
  then show ?thesis using assms by (auto simp: get_lookup)
qed

lemma ins_del_restores:
  assumes "invar m" "lookup m k = None"
  shows "\<exists>m1 m2. ins k v m = Inr (None, m1) \<and> del k m1 = Inr (Some v, m2) \<and> invar m2 \<and>
    (\<forall>k'. get m2 k' = get m k')"
proof -
  obtain m1 where m1: "ins k v m = Inr (None, m1)" "invar m1" "lookup m1 = (lookup m)(k \<mapsto> v)"
    using ins_ok [OF assms(1), of k v] assms(2) by auto
  obtain m2 where m2: "del k m1 = Inr (Some v, m2)" "invar m2" "lookup m2 = (lookup m1)(k := None)"
    using del_ok [OF m1(2), of k v] m1(3) by auto
  have "lookup m2 = lookup m" using m1(3) m2(3) assms(2) by (simp add: fun_eq_iff)
  then show ?thesis using m1(1) m2(1,2) assms(1) by (auto simp: get_lookup)
qed

end

interpretation hm: map_ops "hm_lookup h" "hm_get h" "hm_insert h" "hm_remove h" "hm_invar h" for h
proof (unfold_locales, goal_cases)
  case (1 m k)
  then show ?case by (rule hm_get_lookup)
next
  case (2 m k v)
  then show ?case using hm_insert_ok [of h m k v] by blast
next
  case (3 m k v)
  then show ?case by (rule hm_remove_ok)
qed

text \<open>On chains that are lists an insertion succeeds, whether or not the table has to grow: it returns the value the
  key had, the new value can be read back, and every other key reads as before.\<close>

theorem hm_insert_then_get:
  assumes "hm_invar h m"
  shows "\<exists>m'. hm_insert h k v m = Inr (hm_lookup h m k, m') \<and> hm_invar h m' \<and> hm_get h m' k = Inr (Some v) \<and>
    (\<forall>k'. k' \<noteq> k \<longrightarrow> hm_get h m' k' = hm_get h m k')"
  by (rule hm.get_after_ins [OF assms])

theorem hm_insert_then_get_witness:
  "\<exists>m'. hm_insert (\<lambda>k. k) (7 :: nat) True (hm_with_capacity 3) = Inr (None, m') \<and> hm_get (\<lambda>k. k) m' 7 = Inr (Some True)"
proof -
  have i: "hm_invar (\<lambda>k. k) (hm_with_capacity 3 :: (nat, bool) hash_map)"
    "hm_lookup (\<lambda>k. k) (hm_with_capacity 3 :: (nat, bool) hash_map) = Map.empty"
    by (simp_all add: hm_with_capacity_invar hm_with_capacity_lookup)
  show ?thesis using hm_insert_then_get [OF i(1), of 7 True] i(2) by auto
qed

text \<open>Inserting a new key and removing it again gives the value back and leaves every key
  reading as it did before.\<close>

theorem hm_insert_remove_roundtrip:
  assumes "hm_invar h m" "hm_lookup h m k = None"
  shows "\<exists>m1 m2. hm_insert h k v m = Inr (None, m1) \<and> hm_remove h k m1 = Inr (Some v, m2) \<and> hm_invar h m2 \<and>
    (\<forall>k'. hm_get h m2 k' = hm_get h m k')"
  by (rule hm.ins_del_restores [OF assms])

theorem hm_insert_remove_roundtrip_witness:
  "\<exists>m1 m2. hm_insert (\<lambda>k. k) (7 :: nat) True (hm_with_capacity 3) = Inr (None, m1) \<and>
    hm_remove (\<lambda>k. k) 7 m1 = Inr (Some True, m2)"
proof -
  have i: "hm_invar (\<lambda>k. k) (hm_with_capacity 3 :: (nat, bool) hash_map)"
    "hm_lookup (\<lambda>k. k) (hm_with_capacity 3 :: (nat, bool) hash_map) 7 = None"
    by (simp_all add: hm_with_capacity_invar hm_with_capacity_lookup)
  show ?thesis using hm_insert_remove_roundtrip [OF i, of True] by auto
qed

text \<open>The length counter counts insertions, not keys: storing a new value under a key that is
  already present keeps the set of keys and still adds one to \<^verbatim>\<open>len()\<close>.\<close>

theorem hm_len_counts_replacements:
  assumes "hm_invar h m" "hm_lookup h m k = Some w"
  shows "\<exists>m'. hm_insert h k v m = Inr (Some w, m') \<and> dom (hm_lookup h m') = dom (hm_lookup h m) \<and>
    hm_len m' = hm_len m + 1"
  using hm_insert_ok [OF assms(1), of k v] assms(2) by (force simp: dom_def)

theorem hm_len_counts_replacements_witness:
  "\<exists>m1 m2. hm_insert (\<lambda>k. k) (7 :: nat) True (hm_with_capacity 3) = Inr (None, m1) \<and>
    hm_insert (\<lambda>k. k) 7 False m1 = Inr (Some True, m2) \<and> hm_len m2 = hm_len m1 + 1"
proof -
  obtain m1 where "hm_insert (\<lambda>k. k) (7 :: nat) True (hm_with_capacity 3) = Inr (None, m1)"
    "hm_invar (\<lambda>k. k) m1" "hm_lookup (\<lambda>k. k) m1 7 = Some True"
    using hm_insert_ok [of "\<lambda>k. k" "hm_with_capacity 3 :: (nat, bool) hash_map" 7 True]
    by (auto simp: hm_with_capacity_invar hm_with_capacity_lookup)
  then show ?thesis using hm_len_counts_replacements [of "\<lambda>k. k" m1 7 True False] by auto
qed

end
