(* ===== verification/Pages.thy ===== *)
theory Pages
  imports Segments Hash_Map
begin

text \<open>
  \<^verbatim>\<open>page_alloc\<close>, \<^verbatim>\<open>page_alloc_over_commit\<close> and \<^verbatim>\<open>page_free\<close> of \<^verbatim>\<open>src/pages.rs\<close> with the size map behind
  the \<^verbatim>\<open>SEGMENT_HOLDER\<close> mutex. The lemmas about the size map come from the map contract of
  \<open>Hash_Map\<close>. The table \<^verbatim>\<open>PageInfoHolder\<close> of the same file is not referenced by them.
\<close>

section \<open>State and operations\<close>

record pages_state = os_state +
  size_map :: "(usize, usize) hash_map option"

definition size_map_or_new :: "'s pages_state_scheme \<Rightarrow> (usize, usize) hash_map" where
  "size_map_or_new s = (case size_map s of None \<Rightarrow> hm_new | Some m \<Rightarrow> m)"

definition page_alloc ::
  "os_env \<Rightarrow> (usize \<Rightarrow> nat) \<Rightarrow> usize \<Rightarrow> 's pages_state_scheme \<Rightarrow>
   ((AllocationError + usize) \<times> 's pages_state_scheme) res" where
  "page_alloc env h sz s =
     (if sz AND PAGE_MASK \<noteq> 0 then Inr (Inl (AllocationFailed sz), s)
      else let s1 = s\<lparr>size_map := Some (size_map_or_new s)\<rparr>
           in case seg_allocate env sz s1 of
                (Inl e, s2) \<Rightarrow> Inr (Inl e, s2)
              | (Inr seg, s2) \<Rightarrow>
                  rbind (unwrap (size_map s2)) (\<lambda>m.
                  rbind (hm_insert h (seg_ptr seg) sz m) (\<lambda>(_, m').
                  Inr (Inr (seg_ptr seg), s2\<lparr>size_map := Some m'\<rparr>))))"

definition page_alloc_over_commit ::
  "os_env \<Rightarrow> (usize \<Rightarrow> nat) \<Rightarrow> usize \<Rightarrow> 's pages_state_scheme \<Rightarrow>
   ((AllocationError + usize) \<times> 's pages_state_scheme) res" where
  "page_alloc_over_commit env h sz s =
     (if sz AND PAGE_MASK \<noteq> 0 then Inr (Inl (AllocationFailed sz), s)
      else let s1 = s\<lparr>size_map := Some (size_map_or_new s)\<rparr>
           in case allocate_massive env sz s1 of
                (Inl e, s2) \<Rightarrow> Inr (Inl e, s2)
              | (Inr seg, s2) \<Rightarrow>
                  rbind (unwrap (size_map s2)) (\<lambda>m.
                  rbind (hm_insert h (seg_ptr seg) sz m) (\<lambda>(_, m').
                  Inr (Inr (seg_ptr seg), s2\<lparr>size_map := Some m'\<rparr>))))"

definition page_free ::
  "os_env \<Rightarrow> (usize \<Rightarrow> nat) \<Rightarrow> usize \<Rightarrow> 's pages_state_scheme \<Rightarrow> (bool \<times> 's pages_state_scheme) res" where
  "page_free env h ptr s =
     rbind (unwrap (size_map s)) (\<lambda>m.
     rbind (hm_contains h m ptr) (\<lambda>present.
     if present then
       rbind (hm_index h m ptr) (\<lambda>sz.
       let (ret, s1) = seg_deallocate env \<lparr>seg_ptr = ptr, seg_length = sz\<rparr> s in
       rbind (unwrap (size_map s1)) (\<lambda>m1.
       rbind (hm_remove h ptr m1) (\<lambda>(_, m2).
       Inr (ret, s1\<lparr>size_map := Some m2\<rparr>))))
     else Inr (False, s)))"

section \<open>Invariant\<close>

text \<open>The size map only names live mappings.\<close>

definition pages_ok :: "(usize \<Rightarrow> nat) \<Rightarrow> 's pages_state_scheme \<Rightarrow> bool" where
  "pages_ok h s \<longleftrightarrow> maps_ok (os_maps s) \<and> hm_invar h (size_map_or_new s) \<and>
     (\<forall>p len. hm_lookup h (size_map_or_new s) p = Some len \<longrightarrow> (p, len) \<in> set (os_maps s))"

text \<open>\<^verbatim>\<open>munmap(2)\<close> on a live mapping succeeds.\<close>

definition munmap_contract :: "os_env \<Rightarrow> bool" where
  "munmap_contract env \<longleftrightarrow> (\<forall>n maps p len. (p, len) \<in> set maps \<longrightarrow> munmap env n maps p len = 0)"

lemma bump_env_munmap: "munmap_contract bump_env"
  by (simp add: munmap_contract_def bump_env_def)

lemma not_disjoint_same: "valid_map (p, a) \<Longrightarrow> valid_map (p, b) \<Longrightarrow> \<not> maps_disjoint (p, a) (p, b)"
  using map_span_pos [of "(p, a)"] map_span_pos [of "(p, b)"] by (auto simp: maps_disjoint_def)

lemma maps_ok_valid: "maps_ok rs \<Longrightarrow> r \<in> set rs \<Longrightarrow> valid_map r"
  by (induction rs) auto

text \<open>What a successful request for pages leaves, for either kind of mapping.\<close>

lemma map_pages_ok:
  assumes "mmap_contract env" "pages_ok h s"
    and "map_segment env nr sz (s\<lparr>size_map := Some (size_map_or_new s)\<rparr>) = (Inr seg, s2)"
  shows "\<exists>m'. hm_insert h (seg_ptr seg) sz (size_map_or_new s) = Inr (None, m') \<and>
    size_map s2 = Some (size_map_or_new s) \<and> os_maps s2 = (seg_ptr seg, sz) # os_maps s \<and>
    (seg_ptr seg, sz) \<notin> set (os_maps s) \<and> valid_map (seg_ptr seg, sz) \<and>
    hm_lookup h m' = (hm_lookup h (size_map_or_new s))(seg_ptr seg \<mapsto> sz) \<and>
    pages_ok h (s2\<lparr>size_map := Some m'\<rparr>)"
proof -
  let ?m = "size_map_or_new s"
  have s: "maps_ok (os_maps s)" "hm_invar h ?m"
    "\<And>p len. hm_lookup h ?m p = Some len \<Longrightarrow> (p, len) \<in> set (os_maps s)"
    using assms(2) by (auto simp: pages_ok_def)
  have r: "maps_ok (os_maps s2)" "valid_map (seg_ptr seg, sz)" "os_maps s2 = (seg_ptr seg, sz) # os_maps s"
    "\<forall>q \<in> set (os_maps s). maps_disjoint (seg_ptr seg, sz) q"
    using map_segment_maps [OF assms(1) _ assms(3)] s(1) by auto
  have sm: "size_map s2 = Some ?m"
    using assms(3) by (auto simp: map_segment_def Let_def split: if_splits)
  have new: "(seg_ptr seg, len) \<notin> set (os_maps s)" for len
    using r(2,4) not_disjoint_same [OF r(2)] maps_ok_valid [OF s(1)] by blast
  have "hm_lookup h ?m (seg_ptr seg) = None" using s(3) new by (meson not_None_eq)
  then obtain m' where "hm_insert h (seg_ptr seg) sz ?m = Inr (None, m')" "hm_invar h m'"
    "hm_lookup h m' = (hm_lookup h ?m)(seg_ptr seg \<mapsto> sz)"
    using hm.ins_ok [OF s(2), of "seg_ptr seg" sz] by auto
  then show ?thesis
    using r sm new s(3) by (auto simp: pages_ok_def size_map_or_new_def fun_upd_apply)
qed

lemma page_alloc_mapped:
  assumes "mmap_contract env" "pages_ok h s" "page_alloc env h sz s = Inr (Inr p, s1)"
  shows "valid_map (p, sz) \<and> os_maps s1 = (p, sz) # os_maps s \<and> pages_ok h s1"
proof -
  let ?s0 = "s\<lparr>size_map := Some (size_map_or_new s)\<rparr>"
  obtain seg s' where seg: "map_segment env False sz ?s0 = (Inr seg, s')"
    using assms(3) by (auto simp: page_alloc_def seg_allocate_def Let_def
        split: if_splits prod.splits sum.splits)
  obtain m' where m: "hm_insert h (seg_ptr seg) sz (size_map_or_new s) = Inr (None, m')"
    "size_map s' = Some (size_map_or_new s)" "os_maps s' = (seg_ptr seg, sz) # os_maps s"
    "valid_map (seg_ptr seg, sz)" "pages_ok h (s'\<lparr>size_map := Some m'\<rparr>)"
    using map_pages_ok [OF assms(1,2) seg] by blast
  then have "p = seg_ptr seg" "s1 = s'\<lparr>size_map := Some m'\<rparr>"
    using assms(3) seg by (auto simp: page_alloc_def seg_allocate_def split: if_splits)
  then show ?thesis using m by simp
qed

text \<open>C25. Pages obtained from \<^verbatim>\<open>page_alloc\<close> are a fresh page-aligned mapping of the requested
  length, and \<^verbatim>\<open>page_free\<close> on the returned pointer succeeds, unmaps exactly it, and forgets it, so
  that a second \<^verbatim>\<open>page_free\<close> of the same pointer answers false.\<close>

theorem page_alloc_free:
  assumes "mmap_contract env" "munmap_contract env" "pages_ok h s"
    and "page_alloc env h sz s = Inr (Inr p, s1)"
  shows "valid_map (p, sz) \<and> os_maps s1 = (p, sz) # os_maps s \<and> pages_ok h s1 \<and>
    (\<exists>s2. page_free env h p s1 = Inr (True, s2) \<and> os_maps s2 = os_maps s \<and> pages_ok h s2 \<and>
      page_free env h p s2 = Inr (False, s2))"
proof -
  let ?s0 = "s\<lparr>size_map := Some (size_map_or_new s)\<rparr>"
  obtain seg s' where seg: "map_segment env False sz ?s0 = (Inr seg, s')"
    using assms(4) by (auto simp: page_alloc_def seg_allocate_def Let_def
        split: if_splits prod.splits sum.splits)
  obtain m' where m: "hm_insert h (seg_ptr seg) sz (size_map_or_new s) = Inr (None, m')"
    "size_map s' = Some (size_map_or_new s)" "os_maps s' = (seg_ptr seg, sz) # os_maps s"
    "(seg_ptr seg, sz) \<notin> set (os_maps s)" "valid_map (seg_ptr seg, sz)"
    "hm_lookup h m' = (hm_lookup h (size_map_or_new s))(seg_ptr seg \<mapsto> sz)"
    "pages_ok h (s'\<lparr>size_map := Some m'\<rparr>)"
    using map_pages_ok [OF assms(1,3) seg] by blast
  have p: "p = seg_ptr seg" "s1 = s'\<lparr>size_map := Some m'\<rparr>"
    using assms(4) seg m by (auto simp: page_alloc_def seg_allocate_def split: if_splits)
  have i: "hm_invar h m'" using m(7) by (simp add: pages_ok_def size_map_or_new_def)
  obtain m2 where m2: "hm_remove h p m' = Inr (Some sz, m2)" "hm_invar h m2"
    "hm_lookup h m2 = (hm_lookup h m')(p := None)"
    using hm.del_ok [OF i, of p sz] m(6) p(1) by auto
  define s2 where "s2 = s1\<lparr>os_calls := Suc (os_calls s1), os_maps := os_maps s, size_map := Some m2\<rparr>"
  have "removeAll (p, sz) (os_maps s1) = os_maps s" using m(3,4) p by simp
  then have d: "seg_deallocate env \<lparr>seg_ptr = p, seg_length = sz\<rparr> s1 =
      (True, s1\<lparr>os_calls := Suc (os_calls s1), os_maps := os_maps s\<rparr>)"
    using assms(2) m(3) p by (auto simp: seg_deallocate_def munmap_contract_def)
  have "hm_contains h m' p = Inr True" "hm_index h m' p = Inr sz" "size_map s1 = Some m'"
    using i m(6) p by (auto simp: hm_contains_lookup hm_index_def hm_get_lookup)
  then have "page_free env h p s1 = Inr (True, s2)"
    using d m2(1) by (simp add: page_free_def s2_def)
  moreover have "page_free env h p s2 = Inr (False, s2)"
    using m2 by (simp add: page_free_def s2_def hm_contains_lookup)
  moreover have "pages_ok h s2"
    using m2 m(6) p assms(3) by (auto simp: pages_ok_def size_map_or_new_def s2_def fun_upd_apply)
  ultimately show ?thesis using m p by (auto simp: s2_def)
qed

text \<open>A request of whole pages that the kernel grants.\<close>

lemma page_alloc_returns:
  assumes "mmap_contract env" "pages_ok h s" "sz AND PAGE_MASK = 0"
    and "p = mmap env False (os_calls s) (os_maps s) sz" "p \<noteq> MAP_FAILED"
  shows "\<exists>s1. page_alloc env h sz s = Inr (Inr p, s1)"
proof -
  let ?s0 = "s\<lparr>size_map := Some (size_map_or_new s)\<rparr>"
  obtain s2 where g: "map_segment env False sz ?s0 = (Inr \<lparr>seg_ptr = p, seg_length = sz\<rparr>, s2)"
    using assms(4,5) by (simp add: map_segment_def Let_def)
  then show ?thesis
    using map_pages_ok [OF assms(1,2) g] assms(3) by (auto simp: page_alloc_def seg_allocate_def)
qed

definition empty_pages_state :: pages_state where
  "empty_pages_state = \<lparr>mem = (\<lambda>_. 0), os_maps = [], os_calls = 0, size_map = None\<rparr>"

lemma empty_pages_state_ok: "pages_ok h empty_pages_state"
  by (simp add: pages_ok_def empty_pages_state_def size_map_or_new_def hm_new_def
      hm_with_capacity_invar hm_with_capacity_lookup)

text \<open>The concrete kernel grants a request when nothing is mapped yet.\<close>

lemma page_alloc_granted:
  assumes "os_maps s = []" "pages_ok h s" "sz AND PAGE_MASK = 0" "sz \<noteq> 0" "map_span sz \<le> 2 ^ 46"
  shows "\<exists>s1. page_alloc bump_env h sz s = Inr (Inr 1048576, s1)"
    and "\<exists>s1. page_alloc_over_commit bump_env h sz s = Inr (Inr 1048576, s1)"
proof -
  let ?s0 = "s\<lparr>size_map := Some (size_map_or_new s)\<rparr>"
  have s': "\<exists>s'. map_segment bump_env nr sz ?s0 = (Inr \<lparr>seg_ptr = 1048576, seg_length = sz\<rparr>, s') \<and>
    size_map s' = Some (size_map_or_new s)" for nr
    using assms(1,4,5)
    by (auto simp: map_segment_def bump_env_def bump_mmap_def MAP_FAILED_def round_up_def PAGE_value)
  have "hm_invar h (size_map_or_new s)" using assms(2) by (simp add: pages_ok_def)
  then have i: "\<exists>r m'. hm_insert h 1048576 sz (size_map_or_new s) = Inr (r, m')"
    using hm.ins_ok by fastforce
  show "\<exists>s1. page_alloc bump_env h sz s = Inr (Inr 1048576, s1)"
    using i s' [of False] assms(3) by (auto simp: page_alloc_def seg_allocate_def)
  show "\<exists>s1. page_alloc_over_commit bump_env h sz s = Inr (Inr 1048576, s1)"
    using i s' [of True] assms(3) by (auto simp: page_alloc_over_commit_def allocate_massive_def)
qed

lemma page_alloc_empty:
  "\<exists>s1. page_alloc bump_env h 4096 empty_pages_state = Inr (Inr 1048576, s1)"
  by (rule page_alloc_granted(1) [OF _ empty_pages_state_ok])
    (simp_all add: empty_pages_state_def PAGE_MASK_mask mask_eq_exp_minus_1 map_span_def round_up_def PAGE_value)

theorem page_alloc_free_witness:
  "\<exists>s1 s2. page_alloc bump_env unat 4096 empty_pages_state = Inr (Inr 1048576, s1) \<and>
    valid_map (1048576, 4096) \<and> page_free bump_env unat 1048576 s1 = Inr (True, s2) \<and> os_maps s2 = []"
proof -
  obtain s1 where s1: "page_alloc bump_env unat 4096 empty_pages_state = Inr (Inr 1048576, s1)"
    using page_alloc_empty by blast
  show ?thesis
    using page_alloc_free [OF bump_env_contract bump_env_munmap empty_pages_state_ok s1] s1
    by (auto simp: empty_pages_state_def)
qed

end
