(* ===== verification/Lifo.thy ===== *)
theory Lifo
  imports Prelude
begin

text \<open>
  The contract of the allocator's free pools. The descriptor free list, the partial lists of the
  central reserve and the thread-cache bins are all last-in first-out pools of addresses, linked
  through the objects they hold. A pool is described by the list it represents; what the clients
  of every pool use is proved once, inside the locale, and each implementation interprets it.
\<close>

text \<open>Taking several elements in a row.\<close>

fun pop_many :: "('s \<Rightarrow> ('a \<times> 's) res) \<Rightarrow> nat \<Rightarrow> 's \<Rightarrow> ('a list \<times> 's) res" where
  "pop_many pop 0 s = Inr ([], s)"
| "pop_many pop (Suc n) s =
     rbind (pop s) (\<lambda>(x, s1). rbind (pop_many pop n s1) (\<lambda>(xs, s2). Inr (x # xs, s2)))"

text \<open>Every element of a sequence fits at the moment it is pushed.\<close>

fun fits_seq :: "('s \<Rightarrow> 'a list \<Rightarrow> 'a \<Rightarrow> bool) \<Rightarrow> ('a \<Rightarrow> 's \<Rightarrow> 's) \<Rightarrow> 'a list \<Rightarrow> 's \<Rightarrow> 'a list \<Rightarrow> bool" where
  "fits_seq fits push [] s ys = True"
| "fits_seq fits push (x # xs) s ys = (fits s ys x \<and> fits_seq fits push xs (push x s) (x # ys))"

locale lifo_pool =
  fixes rep :: "'s \<Rightarrow> 'a list \<Rightarrow> bool"
    and fits :: "'s \<Rightarrow> 'a list \<Rightarrow> 'a \<Rightarrow> bool"
    and push :: "'a \<Rightarrow> 's \<Rightarrow> 's"
    and pop :: "'s \<Rightarrow> ('a \<times> 's) res"
  assumes push_rep: "rep s xs \<Longrightarrow> fits s xs x \<Longrightarrow> rep (push x s) (x # xs)"
    and pop_rep: "rep s (x # xs) \<Longrightarrow> \<exists>s'. pop s = Inr (x, s') \<and> rep s' xs"
begin

lemma pop_push:
  "rep s xs \<Longrightarrow> fits s xs x \<Longrightarrow> \<exists>s'. pop (push x s) = Inr (x, s') \<and> rep s' xs"
  by (rule pop_rep) (rule push_rep)

lemma pop_many_rep:
  "rep s (xs @ ys) \<Longrightarrow> \<exists>s'. pop_many pop (length xs) s = Inr (xs, s') \<and> rep s' ys"
proof (induction xs arbitrary: s)
  case (Cons x xs)
  obtain s1 where s1: "pop s = Inr (x, s1)" "rep s1 (xs @ ys)" using pop_rep Cons.prems by force
  then obtain s2 where "pop_many pop (length xs) s1 = Inr (xs, s2)" "rep s2 ys" using Cons.IH by blast
  then show ?case using s1(1) by simp
qed simp

lemma push_many_rep:
  "rep s ys \<Longrightarrow> fits_seq fits push xs s ys \<Longrightarrow> rep (fold push xs s) (rev xs @ ys)"
  by (induction xs arbitrary: s ys) (auto dest: push_rep)

lemma push_pop_many:
  assumes "rep s ys" "fits_seq fits push xs s ys"
  shows "\<exists>s'. pop_many pop (length xs) (fold push xs s) = Inr (rev xs, s') \<and> rep s' ys"
  using pop_many_rep [OF push_many_rep [OF assms]] by simp

lemma pop_all: "rep s xs \<Longrightarrow> \<exists>s'. pop_many pop (length xs) s = Inr (xs, s') \<and> rep s' []"
  using pop_many_rep [of s xs "[]"] by simp

end

end
