(* ===== verification/Descriptors.thy ===== *)
theory Descriptors
  imports Pages Lifo
begin

text \<open>
  Super block descriptors: \<^verbatim>\<open>SuperBlockState\<close> and \<^verbatim>\<open>Anchor\<close> of \<^verbatim>\<open>src/allocation_data.rs\<close>, \<^verbatim>\<open>DescriptorNode\<close>,
  \<^verbatim>\<open>Descriptor\<close> and the descriptor free list of \<^verbatim>\<open>src/allocation_data/desc.rs\<close>. The \<^verbatim>\<open>bitfield!\<close>
  declaration of the anchor gives its three fields and their widths (2, 30 and 32 bits); the
  packing itself is the macro's, so an anchor is a record whose setters cut a value to the field's
  width. A node is a pointer whose low six bits carry a counter. Descriptors are records in a
  store indexed by their address.
\<close>

section \<open>Anchors\<close>

datatype SuperBlockState = FULL | PARTIAL | EMPTY

definition state_from_u64 :: "u64 \<Rightarrow> SuperBlockState res" where
  "state_from_u64 u = (if u = 0 then Inr FULL else if u = 1 then Inr PARTIAL else if u = 2 then Inr EMPTY
     else Inl (Panic ''Not a valid option''))"

fun state_into_u64 :: "SuperBlockState \<Rightarrow> u64" where
  "state_into_u64 FULL = 0"
| "state_into_u64 PARTIAL = 1"
| "state_into_u64 EMPTY = 2"

record anchor =
  a_state :: SuperBlockState
  a_avail :: nat
  a_count :: nat

definition anchor_default :: anchor where
  "anchor_default = \<lparr>a_state = FULL, a_avail = 0, a_count = 0\<rparr>"

definition set_state :: "SuperBlockState \<Rightarrow> anchor \<Rightarrow> anchor" where
  "set_state st a = a\<lparr>a_state := st\<rparr>"

definition set_avail :: "nat \<Rightarrow> anchor \<Rightarrow> anchor" where
  "set_avail v a = a\<lparr>a_avail := v mod 2 ^ 30\<rparr>"

definition set_count :: "nat \<Rightarrow> anchor \<Rightarrow> anchor" where
  "set_count v a = a\<lparr>a_count := v mod 2 ^ 32\<rparr>"

definition anchor_eq :: "anchor \<Rightarrow> anchor \<Rightarrow> bool" where
  "anchor_eq a b =
     (if a_state a \<noteq> a_state b then False else if a_avail a \<noteq> a_avail b then False else if a_count a \<noteq> a_count b then False else True)"

lemma anchor_eq_iff: "anchor_eq a b \<longleftrightarrow> a = b"
  by (cases a; cases b) (simp add: anchor_eq_def)

lemma state_u64_roundtrip: "state_from_u64 (state_into_u64 st) = Inr st"
  by (cases st) (simp_all add: state_from_u64_def)

section \<open>Descriptor nodes\<close>

type_synonym descriptor_node = usize

definition node_new :: descriptor_node where "node_new = 0"

definition node_set :: "usize option \<Rightarrow> u64 \<Rightarrow> descriptor_node" where
  "node_set desc count = (case desc of Some d \<Rightarrow> d OR (count AND CACHE_LINE_MASK) | None \<Rightarrow> 0)"

definition node_get_desc :: "descriptor_node \<Rightarrow> usize option" where
  "node_get_desc n = (let fixed_ptr = n AND NOT CACHE_LINE_MASK in if fixed_ptr = 0 then None else Some fixed_ptr)"

definition node_get_counter :: "descriptor_node \<Rightarrow> u64" where
  "node_get_counter n = n AND CACHE_LINE_MASK"

definition node_from :: "usize \<Rightarrow> descriptor_node" where "node_from d = d"

text \<open>An address a descriptor can have: not null, on a cache line.\<close>

definition desc_addr :: "usize \<Rightarrow> bool" where
  "desc_addr d \<longleftrightarrow> d \<noteq> 0 \<and> d AND CACHE_LINE_MASK = 0"

lemma node_get_desc_set [simp]: "desc_addr d \<Longrightarrow> node_get_desc (node_set (Some d) c) = Some d"
proof -
  assume d: "desc_addr d"
  have "(d OR (c AND mask 6)) AND NOT (mask 6) = d AND NOT (mask 6)"
    by (rule bit_word_eqI) (auto simp: bit_simps)
  also have "\<dots> = d"
    using d by (simp add: and_not_mask_eq take_bit_eq_mask desc_addr_def CACHE_LINE_MASK_mask)
  finally show ?thesis using d by (simp add: node_get_desc_def node_set_def CACHE_LINE_MASK_mask desc_addr_def)
qed

lemma node_get_counter_set:
  "desc_addr d \<Longrightarrow> node_get_counter (node_set (Some d) c) = c AND CACHE_LINE_MASK"
  by (simp add: node_get_counter_def node_set_def desc_addr_def bit.conj_disj_distrib2 and.assoc)

lemma node_get_desc_zero [simp]: "node_get_desc 0 = None"
  by (simp add: node_get_desc_def)

lemma node_get_desc_from [simp]: "desc_addr d \<Longrightarrow> node_get_desc (node_from d) = Some d"
  using node_get_desc_set [of d 0] by (simp add: node_from_def node_set_def)

lemma node_get_desc_addr: "node_get_desc n = Some d \<Longrightarrow> desc_addr d"
  by (auto simp: node_get_desc_def desc_addr_def Let_def and.assoc split: if_splits)

section \<open>Descriptors\<close>

text \<open>The heap a descriptor belongs to is \<open>None\<close> for the null pointer (a large allocation) and the
  index of the heap otherwise.\<close>

record descriptor =
  next_free :: "descriptor_node option"
  next_partial :: "descriptor_node option"
  d_anchor :: anchor
  super_block :: "segment option"
  proc_heap :: "nat option"
  block_size :: nat
  max_count :: nat

definition descriptor_default :: descriptor where
  "descriptor_default = \<lparr>next_free = None, next_partial = None, d_anchor = anchor_default,
     super_block = None, proc_heap = None, block_size = 0, max_count = 0\<rparr>"

record desc_state = pages_state +
  descs :: "usize \<Rightarrow> descriptor"
  avail_desc :: descriptor_node

text \<open>The fields take 80 bytes (16 for each tagged \<^verbatim>\<open>Option\<close> of a raw pointer), which the
  alignment of 64 rounds up.\<close>

definition size_of_descriptor :: nat where "size_of_descriptor = 128"

definition retire :: "usize \<Rightarrow> 's desc_state_scheme \<Rightarrow> 's desc_state_scheme" where
  "retire d s =
     (let old_head = avail_desc s
      in s\<lparr>descs := (descs s)(d := (descs s d)\<lparr>block_size := 0, next_free := Some old_head\<rparr>),
           avail_desc := node_set (Some d) (node_get_counter old_head + 1)\<rparr>)"

text \<open>The loop that links a fresh block of descriptors.\<close>

fun link_free :: "usize option \<Rightarrow> usize list \<Rightarrow> (usize \<Rightarrow> descriptor) \<Rightarrow> (usize \<Rightarrow> descriptor) res" where
  "link_free prev [] ds = rbind (unwrap prev) (\<lambda>p. Inr (ds(p := (ds p)\<lparr>next_free := None\<rparr>)))"
| "link_free prev (d # rest) ds = link_free (Some d) rest
     (case prev of None \<Rightarrow> ds | Some p \<Rightarrow> ds(p := (ds p)\<lparr>next_free := Some (node_from d)\<rparr>))"

definition desc_block :: "usize \<Rightarrow> nat \<Rightarrow> usize list" where
  "desc_block page count = map (\<lambda>i. page + of_nat (i * size_of_descriptor)) [0..<count]"

definition desc_alloc ::
  "os_env \<Rightarrow> (usize \<Rightarrow> nat) \<Rightarrow> 's desc_state_scheme \<Rightarrow> (usize \<times> 's desc_state_scheme) res" where
  "desc_alloc env h s =
     (let old_head = avail_desc s in
      case node_get_desc old_head of
        None \<Rightarrow>
          rbind (page_alloc env h (of_nat DESCRIPTOR_BLOCK_SZ) s) (\<lambda>(r, s1).
          case r of
            Inl e \<Rightarrow> Inl (Panic ''Creating a descriptor block failed'')
          | Inr page \<Rightarrow>
              let blk = desc_block page (DESCRIPTOR_BLOCK_SZ div size_of_descriptor);
                  ds = fold (\<lambda>d m. m(d := descriptor_default)) blk (descs s1)
              in rbind (link_free None (drop 1 blk) ds) (\<lambda>ds'.
                 Inr (page, s1\<lparr>descs := ds',
                   avail_desc := node_set (Some (page + of_nat size_of_descriptor)) 0\<rparr>)))
      | Some d \<Rightarrow>
          let new_head = (case next_free (descs s d) of
                None \<Rightarrow> None
              | Some n \<Rightarrow> Some (node_set (node_get_desc n) (node_get_counter old_head)))
          in Inr (d, s\<lparr>avail_desc := (case new_head of None \<Rightarrow> node_new | Some n \<Rightarrow> n)\<rparr>))"

section \<open>The free list\<close>

text \<open>The descriptors on the free list that starts at a node, in order.\<close>

fun desc_list :: "(usize \<Rightarrow> descriptor) \<Rightarrow> descriptor_node \<Rightarrow> usize list \<Rightarrow> bool" where
  "desc_list ds n [] = (node_get_desc n = None)"
| "desc_list ds n (d # xs) = (node_get_desc n = Some d \<and> d \<notin> set xs \<and>
     desc_list ds (case next_free (ds d) of None \<Rightarrow> node_new | Some n' \<Rightarrow> n') xs)"

definition free_list :: "'s desc_state_scheme \<Rightarrow> usize list \<Rightarrow> bool" where
  "free_list s = desc_list (descs s) (avail_desc s)"

lemma desc_list_frame:
  "(\<And>d. d \<in> set xs \<Longrightarrow> next_free (ds' d) = next_free (ds d)) \<Longrightarrow> desc_list ds' n xs = desc_list ds n xs"
  by (induction xs arbitrary: n) auto

lemma desc_list_node: "node_get_desc n = node_get_desc n' \<Longrightarrow> desc_list ds n xs = desc_list ds n' xs"
  by (cases xs) auto

lemma node_get_desc_tag: "node_get_desc (node_set (node_get_desc n) c) = node_get_desc n"
proof (cases "node_get_desc n")
  case (Some d)
  then show ?thesis using node_get_desc_addr node_get_desc_set by simp
qed (simp add: node_set_def)

lemma retire_free_list:
  "free_list s xs \<Longrightarrow> desc_addr d \<and> d \<notin> set xs \<Longrightarrow> free_list (retire d s) (d # xs)"
proof -
  assume xs: "free_list s xs" and d: "desc_addr d \<and> d \<notin> set xs"
  let ?ds = "(descs s)(d := (descs s d)\<lparr>block_size := 0, next_free := Some (avail_desc s)\<rparr>)"
  have "desc_list ?ds (avail_desc s) xs = desc_list (descs s) (avail_desc s) xs"
    using d by (intro desc_list_frame) auto
  then show ?thesis using xs d by (simp add: free_list_def retire_def Let_def)
qed

lemma desc_alloc_Cons:
  assumes "free_list s (d # xs)"
  shows "\<exists>s'. desc_alloc env h s = Inr (d, s') \<and> free_list s' xs \<and> descs s' = descs s \<and>
    s' = s\<lparr>avail_desc := avail_desc s'\<rparr>"
proof -
  let ?n = "case next_free (descs s d) of None \<Rightarrow> node_new | Some n' \<Rightarrow> n'"
  let ?m = "case (case next_free (descs s d) of None \<Rightarrow> None
      | Some n \<Rightarrow> Some (node_set (node_get_desc n) (node_get_counter (avail_desc s))))
    of None \<Rightarrow> node_new | Some n \<Rightarrow> n"
  have "node_get_desc (avail_desc s) = Some d" "desc_list (descs s) ?n xs"
    using assms by (auto simp: free_list_def)
  moreover have "node_get_desc ?m = node_get_desc ?n"
    by (simp split: option.split add: node_get_desc_tag)
  then have "desc_list (descs s) ?m xs = desc_list (descs s) ?n xs" by (rule desc_list_node)
  ultimately show ?thesis by (auto simp: desc_alloc_def free_list_def)
qed

text \<open>The free list is a pool of descriptors; neither operation maps or unmaps memory while the
  list is not empty.\<close>

interpretation free_descs: lifo_pool "\<lambda>s xs. free_list s xs \<and> os_maps s = maps"
    "\<lambda>s xs d. desc_addr d \<and> d \<notin> set xs" retire "desc_alloc env h"
  for env h maps
proof (unfold_locales, goal_cases)
  case (1 s xs d)
  then have "free_list (retire d s) (d # xs)" by (intro retire_free_list) auto
  moreover have "os_maps (retire d s) = maps" using 1 by (simp add: retire_def Let_def)
  ultimately show ?case ..
next
  case (2 s d xs)
  then obtain s' where s': "desc_alloc env h s = Inr (d, s')" "free_list s' xs"
    and eq: "s' = s\<lparr>avail_desc := avail_desc s'\<rparr>"
    using desc_alloc_Cons [of s d xs env h] by (auto simp only:)
  have "os_maps s' = os_maps s" by (subst eq) simp
  then have "free_list s' xs \<and> os_maps s' = maps" using 2 s'(2) by simp
  then show ?case using s'(1) by (intro exI [of _ s']) simp
qed

section \<open>A fresh block of descriptors\<close>

lemma link_free_list:
  assumes "\<forall>x \<in> set (p # rest). desc_addr x" "distinct (p # rest)"
  shows "\<exists>ds'. link_free (Some p) rest ds = Inr ds' \<and> desc_list ds' p (p # rest) \<and>
    (\<forall>x. x \<notin> set (p # rest) \<longrightarrow> ds' x = ds x)"
  using assms
proof (induction rest arbitrary: p ds)
  case Nil
  then show ?case using node_get_desc_from [of p] by (simp add: node_from_def node_new_def)
next
  case (Cons d rest)
  let ?ds = "ds(p := (ds p)\<lparr>next_free := Some (node_from d)\<rparr>)"
  obtain ds' where ds': "link_free (Some d) rest ?ds = Inr ds'" "desc_list ds' d (d # rest)"
    "\<forall>x. x \<notin> set (d # rest) \<longrightarrow> ds' x = ?ds x"
    using Cons.IH [of d ?ds] Cons.prems by fastforce
  then have "ds' p = ?ds p" using Cons.prems(2) by simp
  then have "desc_list ds' p (p # d # rest)"
    using ds'(2) Cons.prems node_get_desc_from [of p] by (simp add: node_from_def)
  then show ?case using ds' by auto
qed

lemma desc_block_Cons: "desc_block p (Suc n) = p # drop 1 (desc_block p (Suc n))"
  unfolding desc_block_def by (subst (1 2) upt_conv_Cons) simp_all

lemma desc_block_Cons2:
  "desc_block p (Suc (Suc n)) = p # (p + of_nat size_of_descriptor) # drop 2 (desc_block p (Suc (Suc n)))"
proof -
  have "[0..<Suc (Suc n)] = 0 # 1 # [2..<Suc (Suc n)]"
    by (simp add: upt_conv_Cons numeral_2_eq_2 del: upt_Suc)
  then show ?thesis by (simp add: desc_block_def del: upt_Suc)
qed

lemma unat_desc_addr:
  assumes "valid_map (page, of_nat DESCRIPTOR_BLOCK_SZ)" "i < 512"
  shows "unat (page + of_nat (i * size_of_descriptor)) = unat page + i * 128"
proof -
  have "unat page + 65536 \<le> 2 ^ 47"
    using assms(1) map_span_pos [OF assms(1)] by (simp add: valid_map_def mem_info_defs)
  moreover have "unat (of_nat (i * size_of_descriptor) :: usize) = i * 128"
    using assms(2) by (simp only: size_of_descriptor_def unat_of_nat) simp
  ultimately show ?thesis using assms(2) by (subst unat_add_no_overflow) simp_all
qed

lemma dvd_64_desc_addr: "x \<noteq> 0 \<Longrightarrow> 64 dvd unat x \<Longrightarrow> desc_addr x"
proof -
  assume "x \<noteq> 0" "64 dvd unat x"
  then have "unat (take_bit 6 x) = 0" by (simp add: unat_take_bit_word mod_eq_0_iff_dvd)
  then show ?thesis using \<open>x \<noteq> 0\<close>
    by (simp add: desc_addr_def CACHE_LINE_MASK_mask take_bit_eq_mask unat_eq_zero)
qed

lemma desc_block_ok:
  assumes "valid_map (page, of_nat DESCRIPTOR_BLOCK_SZ)"
  shows "distinct (desc_block page 512)" "\<forall>x \<in> set (desc_block page 512). desc_addr x"
proof -
  have "inj_on (\<lambda>i. page + of_nat (i * size_of_descriptor)) {0..<512}"
    using unat_desc_addr [OF assms] by (intro inj_onI) (metis add_left_cancel atLeastLessThan_iff mult_cancel2 zero_neq_numeral)
  then show "distinct (desc_block page 512)" by (simp add: desc_block_def distinct_map)
  have "64 dvd unat page"
    using assms by (auto simp: valid_map_def PAGE_value intro: dvd_trans [of 64 4096])
  moreover have "unat page \<noteq> 0" using assms by (simp add: valid_map_def unat_eq_zero)
  moreover have "(page + of_nat (i * size_of_descriptor)) \<noteq> 0" if "i < 512" for i
    using unat_desc_addr [OF assms that] \<open>unat page \<noteq> 0\<close> by (metis add_is_0 unat_0)
  ultimately show "\<forall>x \<in> set (desc_block page 512). desc_addr x"
    using unat_desc_addr [OF assms] unfolding desc_block_def by (auto intro!: dvd_64_desc_addr)
qed

lemma page_alloc_descs:
  "page_alloc env h sz s = Inr (Inr p, s1) \<Longrightarrow> descs s1 = descs s \<and> avail_desc s1 = avail_desc s"
  by (auto simp: page_alloc_def seg_allocate_def map_segment_def Let_def rbind_eq_Inr
      split: if_splits prod.splits sum.splits)

lemma desc_alloc_fresh:
  assumes "mmap_contract env" "pages_ok h s" "free_list s []"
    and "page_alloc env h (of_nat DESCRIPTOR_BLOCK_SZ) s = Inr (Inr p, s1)"
  shows "\<exists>s2. desc_alloc env h s = Inr (p, s2) \<and> free_list s2 (drop 1 (desc_block p 512)) \<and>
    os_maps s2 = (p, of_nat DESCRIPTOR_BLOCK_SZ) # os_maps s \<and>
    (\<forall>d. d \<notin> set (desc_block p 512) \<longrightarrow> descs s2 d = descs s d)"
proof -
  have pg: "valid_map (p, of_nat DESCRIPTOR_BLOCK_SZ)"
    "os_maps s1 = (p, of_nat DESCRIPTOR_BLOCK_SZ) # os_maps s"
    using page_alloc_mapped [OF assms(1,2,4)] by auto
  define ds where "ds = fold (\<lambda>d m. m(d := descriptor_default)) (desc_block p 512) (descs s1)"
  have fold: "d \<notin> set xs \<Longrightarrow> fold (\<lambda>d m. m(d := descriptor_default)) xs m d = m d" for d xs m
    by (induction xs arbitrary: m) auto
  define q where "q = p + of_nat size_of_descriptor"
  define rest where "rest = drop 2 (desc_block p 512)"
  have blk: "desc_block p 512 = p # q # rest"
    using desc_block_Cons2 [of p 510] by (simp add: rest_def q_def)
  have ok: "distinct (q # rest)" "\<forall>x \<in> set (q # rest). desc_addr x"
    using desc_block_ok [OF pg(1)] by (simp_all add: blk)
  obtain ds' where ds': "link_free (Some q) rest ds = Inr ds'" "desc_list ds' q (q # rest)"
    "\<forall>x. x \<notin> set (q # rest) \<longrightarrow> ds' x = ds x"
    using link_free_list [OF ok(2,1)] by blast
  define s2 where "s2 = s1\<lparr>descs := ds', avail_desc := node_set (Some q) 0\<rparr>"
  have "DESCRIPTOR_BLOCK_SZ div size_of_descriptor = 512"
    by (simp add: mem_info_defs size_of_descriptor_def)
  moreover have "node_get_desc (avail_desc s) = None" using assms(3) by (simp add: free_list_def)
  moreover have "link_free None (drop 1 (desc_block p 512)) ds = Inr ds'" using ds'(1) by (simp add: blk)
  ultimately have "desc_alloc env h s = Inr (p, s2)"
    using assms(4) unfolding desc_alloc_def Let_def by (simp add: ds_def [symmetric] s2_def q_def)
  moreover have "desc_list ds' (node_set (Some q) 0) (q # rest)"
    using ds'(2) by (simp add: node_set_def)
  moreover have "\<forall>d. d \<notin> set (desc_block p 512) \<longrightarrow> ds' d = descs s d"
    using ds'(3) fold [of _ "desc_block p 512" "descs s1"] page_alloc_descs [OF assms(4)]
    by (auto simp: blk ds_def)
  ultimately show ?thesis
    using pg(2) by (auto simp: s2_def free_list_def blk)
qed

text \<open>C24. When the free list is empty and the kernel grants a descriptor block, 512 successive calls
  of \<^verbatim>\<open>Descriptor::alloc\<close> return exactly the 512 cache-line aligned descriptors of that block, each
  once and in address order, and request no further memory.\<close>

theorem desc_alloc_block:
  assumes "mmap_contract env" "pages_ok h s" "free_list s []"
    and "page_alloc env h (of_nat DESCRIPTOR_BLOCK_SZ) s = Inr (Inr p, s1)"
  shows "\<exists>s2. pop_many (desc_alloc env h) 512 s = Inr (desc_block p 512, s2) \<and> free_list s2 [] \<and>
    os_maps s2 = (p, of_nat DESCRIPTOR_BLOCK_SZ) # os_maps s \<and>
    distinct (desc_block p 512) \<and> (\<forall>d \<in> set (desc_block p 512). desc_addr d)"
proof -
  let ?maps = "(p, of_nat DESCRIPTOR_BLOCK_SZ) # os_maps s" and ?rest = "drop 1 (desc_block p 512)"
  obtain s2 where s2: "desc_alloc env h s = Inr (p, s2)" "free_list s2 ?rest \<and> os_maps s2 = ?maps"
    using desc_alloc_fresh [OF assms] by blast
  have len: "length ?rest = 511" by (simp add: desc_block_def)
  obtain s3 where s3: "pop_many (desc_alloc env h) 511 s2 = Inr (?rest, s3)"
    "free_list s3 [] \<and> os_maps s3 = ?maps"
    using free_descs.pop_all [OF s2(2), of env h] len by auto
  have "desc_block p 512 = p # ?rest" using desc_block_Cons [of p 511] by simp
  moreover have "pop_many (desc_alloc env h) (Suc 511) s = Inr (p # ?rest, s3)"
    using s2(1) s3(1) by (simp only: pop_many.simps rbind_simps prod.case)
  moreover have "(512 :: nat) = Suc 511" by simp
  ultimately have "pop_many (desc_alloc env h) 512 s = Inr (desc_block p 512, s3)" by (simp only:)
  moreover have "valid_map (p, of_nat DESCRIPTOR_BLOCK_SZ)"
    using page_alloc_mapped [OF assms(1,2,4)] by simp
  ultimately show ?thesis using s3(2) desc_block_ok by blast
qed

definition empty_desc_state :: desc_state where
  "empty_desc_state = pages_state.extend empty_pages_state
     \<lparr>descs = (\<lambda>_. descriptor_default), avail_desc = 0\<rparr>"

lemma empty_desc_state_ok: "pages_ok h empty_desc_state" "free_list empty_desc_state []"
  using empty_pages_state_ok [of h]
  by (simp_all add: empty_desc_state_def pages_ok_def free_list_def empty_pages_state_def
      pages_state.defs size_map_or_new_def)

theorem desc_alloc_block_witness:
  "\<exists>p s1 s2. page_alloc bump_env unat (of_nat DESCRIPTOR_BLOCK_SZ) empty_desc_state = Inr (Inr p, s1) \<and>
    pop_many (desc_alloc bump_env unat) 512 empty_desc_state = Inr (desc_block p 512, s2) \<and>
    distinct (desc_block p 512)"
proof -
  obtain p s1 where p: "page_alloc bump_env unat (of_nat DESCRIPTOR_BLOCK_SZ) empty_desc_state = Inr (Inr p, s1)"
    using page_alloc_granted(1) [of empty_desc_state unat "of_nat DESCRIPTOR_BLOCK_SZ"] empty_desc_state_ok(1)
    by (auto simp: empty_desc_state_def empty_pages_state_def pages_state.defs mem_info_defs map_span_def round_up_def)
  show ?thesis using desc_alloc_block [OF bump_env_contract empty_desc_state_ok p] p by blast
qed

end
