(* ===== verification/Size_Classes.thy ===== *)
theory Size_Classes
  imports Mem_Info
begin

text \<open>
  The size-class table of \<^verbatim>\<open>src/size_classes.rs\<close> with the \<^verbatim>\<open>sc!\<close> macros of \<^verbatim>\<open>src/macros.rs\<close>,
  and the initialisation that widens the super blocks, fills in the block counts and builds
  the size-to-class lookup. The fields are \<open>u32\<close> values, kept as natural numbers with the
  wrap-around of the loops' additions and of the cast written out. \<^verbatim>\<open>TARGET_APF\<close> is read from the
  environment when the crate is built, so it is a parameter. Both \<^verbatim>\<open>while\<close> loops can run forever on
  other tables (a class of block size zero), so they are partial functions, and the theorems
  show that on the crate's own table the initialisation returns.
\<close>

section \<open>The table\<close>

record size_class_data =
  sc_block_size :: nat
  sc_sb_size :: nat
  sc_block_num :: nat
  sc_cache_block_num :: nat

definition size_class_bin_yes :: "nat \<Rightarrow> nat \<Rightarrow> size_class_data" where
  "size_class_bin_yes block pages =
     \<lparr>sc_block_size = block, sc_sb_size = pages * PAGE, sc_block_num = 0, sc_cache_block_num = 0\<rparr>"

definition sc :: "nat \<Rightarrow> nat \<Rightarrow> nat \<Rightarrow> nat \<Rightarrow> size_class_data" where
  "sc lg_grp lg_delta ndelta pgs = size_class_bin_yes (2 ^ lg_grp + ndelta * 2 ^ lg_delta) pgs"

definition size_classes :: "size_class_data list" where
  "size_classes =
     [\<lparr>sc_block_size = 0, sc_sb_size = 0, sc_block_num = 0, sc_cache_block_num = 0\<rparr>,
      sc 3 3 0 1, sc 3 3 1 1, sc 3 3 2 3, sc 3 3 3 1,
      sc 5 3 1 5, sc 5 3 2 3, sc 5 3 3 7, sc 5 3 4 1,
      sc 6 4 1 5, sc 6 4 2 3, sc 6 4 3 7, sc 6 4 4 1,
      sc 7 5 1 5, sc 7 5 2 3, sc 7 5 3 7, sc 7 5 4 1,
      sc 8 6 1 5, sc 8 6 2 3, sc 8 6 3 7, sc 8 6 4 1,
      sc 9 7 1 5, sc 9 7 2 3, sc 9 7 3 7, sc 9 7 4 1,
      sc 10 8 1 5, sc 10 8 2 3, sc 10 8 3 7, sc 10 8 4 1,
      sc 11 9 1 5, sc 11 9 2 3, sc 11 9 3 7, sc 11 9 4 1,
      sc 12 10 1 5, sc 12 10 2 3, sc 12 10 3 7, sc 12 10 4 2,
      sc 13 11 1 5, sc 13 11 2 3, sc 13 11 3 7]"

section \<open>Initialisation\<close>

text \<open>First loop over the classes: a super block must hold more than one block.\<close>

partial_function (option) widen_loop :: "nat \<Rightarrow> nat \<Rightarrow> nat option" where
  "widen_loop bs sb = (if bs \<ge> sb then widen_loop bs ((sb + bs) mod 2 ^ 32) else Some sb)"

definition widen_class :: "size_class_data \<Rightarrow> size_class_data option" where
  "widen_class c =
     (if sc_sb_size c > sc_block_size c \<and> sc_sb_size c mod sc_block_size c = 0 then Some c
      else map_option (\<lambda>sb. c\<lparr>sc_sb_size := sb\<rparr>) (widen_loop (sc_block_size c) (sc_sb_size c)))"

text \<open>Second loop: a super block must hold the blocks of one fetch.\<close>

definition sb_target :: "nat \<Rightarrow> size_class_data \<Rightarrow> nat" where
  "sb_target target_apf c =
     unat (ucast (page_ceiling (of_nat target_apf * of_nat (sc_block_size c))) :: u32)"

partial_function (option) grow_loop :: "nat \<Rightarrow> nat \<Rightarrow> nat \<Rightarrow> nat option" where
  "grow_loop step mx sb =
     (if sb < mx then grow_loop step mx ((sb + step) mod 2 ^ 32) else Some sb)"

definition grow_class :: "nat \<Rightarrow> size_class_data \<Rightarrow> size_class_data option" where
  "grow_class target_apf c =
     map_option (\<lambda>sb. c\<lparr>sc_sb_size := sb\<rparr>)
       (grow_loop (sc_sb_size c) (sb_target target_apf c) (sc_sb_size c))"

text \<open>Third loop: the block counts, with the assertions of the source.\<close>

definition fill_fields :: "size_class_data \<Rightarrow> size_class_data res" where
  "fill_fields c =
     (let n = sc_sb_size c div sc_block_size c;
          c' = c\<lparr>sc_block_num := n, sc_cache_block_num := n\<rparr>
      in if sc_block_num c' > 0 \<and> sc_block_num c' \<ge> sc_cache_block_num c'
         then Inr c' else Inl AssertFailed)"

text \<open>Fourth loop: the lookup from a size to its class.\<close>

function fill_loop :: "nat \<Rightarrow> nat \<Rightarrow> nat \<Rightarrow> nat list \<Rightarrow> (nat \<times> nat list) res" where
  "fill_loop sc_index bs lookup_idx lk =
     (if lookup_idx \<le> bs
      then rbind (update_list lk lookup_idx sc_index) (fill_loop sc_index bs (Suc lookup_idx))
      else Inr (lookup_idx, lk))"
  by pat_completeness auto
termination
  by (relation "measure (\<lambda>(i, bs, li, lk). Suc bs - li)") auto

declare fill_loop.simps [simp del]

fun fill_lookup :: "nat \<Rightarrow> nat list \<Rightarrow> nat \<Rightarrow> nat list \<Rightarrow> nat list res" where
  "fill_lookup sc_index [] lookup_idx lk = Inr lk"
| "fill_lookup sc_index (bs # sizes) lookup_idx lk =
     rbind (fill_loop sc_index bs lookup_idx lk)
       (\<lambda>(li, lk'). fill_lookup (Suc sc_index) sizes li lk')"

text \<open>A loop that runs the body on every class and stops where one does not return.\<close>

fun traverse_opt :: "('a \<Rightarrow> 'b option) \<Rightarrow> 'a list \<Rightarrow> 'b list option" where
  "traverse_opt f [] = Some []"
| "traverse_opt f (x # xs) =
     Option.bind (f x) (\<lambda>y. map_option ((#) y) (traverse_opt f xs))"

text \<open>\<^verbatim>\<open>init_size_class\<close>: the loops run over the classes 1 to 39; the outer option is \<open>None\<close>
  where a \<^verbatim>\<open>while\<close> loop does not end, the sum carries the assertion failures.\<close>

definition init_size_class ::
  "nat \<Rightarrow> size_class_data list \<Rightarrow> nat list \<Rightarrow> (size_class_data list \<times> nat list) res option" where
  "init_size_class target_apf classes lookup =
     Option.bind (traverse_opt widen_class (tl classes)) (\<lambda>widened.
     Option.bind (traverse_opt (grow_class target_apf) widened) (\<lambda>grown.
     Some (rbind (traverse_res fill_fields grown) (\<lambda>filled.
           rbind (fill_lookup 1 (map sc_block_size filled) 0 lookup) (\<lambda>lk.
           Inr (hd classes # filled, lk))))))"

definition get_size_class :: "nat list \<Rightarrow> nat \<Rightarrow> nat" where
  "get_size_class lookup sz = (if sz > MAX_SZ then 0 else lookup ! sz)"

definition get_block_num :: "size_class_data \<Rightarrow> nat" where
  "get_block_num c = sc_block_num c"

section \<open>The loops\<close>

lemma traverse_opt_exists:
  assumes "\<And>x. x \<in> set xs \<Longrightarrow> \<exists>y. f x = Some y \<and> P x y"
  shows "\<exists>ys. traverse_opt f xs = Some ys \<and> list_all2 P xs ys"
  using assms
proof (induction xs)
  case (Cons x xs)
  obtain y where "f x = Some y" "P x y" using Cons.prems by auto
  moreover obtain ys where "traverse_opt f xs = Some ys" "list_all2 P xs ys"
    using Cons by auto
  ultimately show ?case by auto
qed simp

lemma grow_loop_returns:
  assumes "0 < step" "mx + step < 2 ^ 32"
  shows "\<exists>r. grow_loop step mx sb = Some r \<and> mx \<le> r \<and> sb \<le> r \<and> step dvd (r - sb) \<and>
    (r = sb \<or> r < mx + step)"
proof (induction "mx - sb" arbitrary: sb rule: less_induct)
  case less
  show ?case
  proof (cases "sb < mx")
    case True
    then have eq: "grow_loop step mx sb = grow_loop step mx (sb + step)"
      using assms by (subst grow_loop.simps) simp
    have "mx - (sb + step) < mx - sb" using True assms(1) by simp
    from less [OF this] obtain r where r: "grow_loop step mx (sb + step) = Some r" "mx \<le> r"
      "sb + step \<le> r" "step dvd (r - (sb + step))" "r = sb + step \<or> r < mx + step"
      by auto
    have "r - sb = r - (sb + step) + step" using r(3) by simp
    then have "step dvd (r - sb)" using r(4) by simp
    then show ?thesis using eq r True by auto
  next
    case False
    then show ?thesis by (subst grow_loop.simps) simp
  qed
qed

lemma fill_loop_correct:
  assumes "bs < length lk"
  shows "\<exists>lk'. fill_loop i bs li lk = Inr (max li (Suc bs), lk') \<and> length lk' = length lk \<and>
    (\<forall>s < length lk. lk' ! s = (if li \<le> s \<and> s \<le> bs then i else lk ! s))"
  using assms
proof (induction i bs li lk rule: fill_loop.induct)
  case (1 i bs li lk)
  show ?case
  proof (cases "li \<le> bs")
    case True
    then have "\<exists>lk'. fill_loop i bs (Suc li) (lk[li := i]) = Inr (max (Suc li) (Suc bs), lk') \<and>
      length lk' = length lk \<and>
      (\<forall>s < length lk. lk' ! s = (if Suc li \<le> s \<and> s \<le> bs then i else lk[li := i] ! s))"
      using "1.IH" [of "lk[li := i]"] "1.prems" by auto
    then show ?thesis
      using True "1.prems" by (subst fill_loop.simps) (auto simp: nth_list_update not_less_eq_eq max_def)
  next
    case False
    then show ?thesis by (subst fill_loop.simps) (auto simp: max_def)
  qed
qed

text \<open>The lookup entry of a size is the first class whose block size is not below it.\<close>

lemma fill_lookup_correct:
  assumes "\<forall>b \<in> set sizes. b < length lk"
  shows "\<exists>lk'. fill_lookup i sizes li lk = Inr lk' \<and> length lk' = length lk \<and>
    (\<forall>s < li. s < length lk \<longrightarrow> lk' ! s = lk ! s) \<and>
    (\<forall>s. li \<le> s \<and> (\<exists>b \<in> set sizes. s \<le> b) \<longrightarrow> lk' ! s = i + length (takeWhile (\<lambda>b. b < s) sizes))"
  using assms
proof (induction i sizes li lk rule: fill_lookup.induct)
  case (2 i bs sizes li lk)
  obtain lk1 where l1: "fill_loop i bs li lk = Inr (max li (Suc bs), lk1)" "length lk1 = length lk"
    "\<forall>s < length lk. lk1 ! s = (if li \<le> s \<and> s \<le> bs then i else lk ! s)"
    using fill_loop_correct [of bs lk i li] "2.prems" by auto
  obtain lk' where l2: "fill_lookup (Suc i) sizes (max li (Suc bs)) lk1 = Inr lk'"
    "length lk' = length lk1" "\<forall>s < max li (Suc bs). s < length lk1 \<longrightarrow> lk' ! s = lk1 ! s"
    "\<forall>s. max li (Suc bs) \<le> s \<and> (\<exists>b \<in> set sizes. s \<le> b) \<longrightarrow>
       lk' ! s = Suc i + length (takeWhile (\<lambda>b. b < s) sizes)"
    using "2.IH" [OF l1(1) refl] "2.prems" l1(2) by auto
  have "lk' ! s = i + length (takeWhile (\<lambda>b. b < s) (bs # sizes))"
    if "li \<le> s" "\<exists>b \<in> set (bs # sizes). s \<le> b" for s
  proof (cases "s \<le> bs")
    case True
    then show ?thesis using that l1 l2(3) "2.prems" by auto
  next
    case False
    then show ?thesis using that l2(4) by auto
  qed
  then show ?case using l1 l2 by auto
qed auto

section \<open>The initialised table\<close>

definition block_sizes :: "nat list" where
  "block_sizes = map sc_block_size (tl size_classes)"

text \<open>What the widening leaves: the block sizes are untouched, every super block is a positive
  number of pages and holds at least one block.\<close>

definition widened_ok :: "size_class_data \<Rightarrow> bool" where
  "widened_ok c \<longleftrightarrow> 0 < sc_block_size c \<and> sc_block_size c \<le> MAX_SZ \<and> PAGE dvd sc_sb_size c \<and>
     0 < sc_sb_size c \<and> sc_sb_size c \<le> 28672 \<and> sc_block_size c < sc_sb_size c"

lemma widen_table:
  "\<exists>w. traverse_opt widen_class (tl size_classes) = Some w \<and> map sc_block_size w = block_sizes \<and>
    list_all widened_ok w"
proof -
  have "(case traverse_opt widen_class (tl size_classes) of None \<Rightarrow> False
     | Some w \<Rightarrow> map sc_block_size w = block_sizes \<and> list_all widened_ok w)"
    by (simp add: size_classes_def block_sizes_def widened_ok_def widen_class_def sc_def
        size_class_bin_yes_def mem_info_defs widen_loop.simps)
  then show ?thesis by (auto split: option.splits)
qed

lemma sb_target_value:
  assumes "widened_ok c" "target \<le> 250000"
  shows "sb_target target c = round_up (target * sc_block_size c) PAGE"
    and "sb_target target c < 3584004096"
proof -
  have le: "target * sc_block_size c \<le> 250000 * 14336"
    using assms by (intro mult_le_mono) (auto simp: widened_ok_def MAX_SZ_value)
  have prod: "of_nat target * of_nat (sc_block_size c) = (of_nat (target * sc_block_size c) :: usize)"
    by simp
  have u: "unat (of_nat (target * sc_block_size c) :: usize) = target * sc_block_size c"
    using le by (simp add: unat_of_nat del: of_nat_mult)
  have r: "round_up (target * sc_block_size c) PAGE < 3584004096"
    using round_up_less [of PAGE "target * sc_block_size c"] le by (simp add: PAGE_value)
  show "sb_target target c = round_up (target * sc_block_size c) PAGE"
    unfolding sb_target_def prod using le r u
    by (simp add: unat_ucast_mod unat_page_ceiling PAGE_value del: of_nat_mult)
  then show "sb_target target c < 3584004096" using r by simp
qed

text \<open>The contract of an initialised class for a block size and a fetch target.\<close>

definition class_ok :: "nat \<Rightarrow> nat \<Rightarrow> size_class_data \<Rightarrow> bool" where
  "class_ok target bs c \<longleftrightarrow> sc_block_size c = bs \<and> PAGE dvd sc_sb_size c \<and> sc_sb_size c < 2 ^ 32 \<and>
     sc_block_num c = sc_sb_size c div bs \<and> sc_cache_block_num c = sc_block_num c \<and>
     0 < sc_block_num c \<and> target \<le> sc_block_num c"

lemma grow_class_ok:
  assumes "widened_ok c" "target \<le> 250000"
  shows "\<exists>g. grow_class target c = Some g \<and> sc_block_size g = sc_block_size c \<and>
    PAGE dvd sc_sb_size g \<and> sc_sb_size c \<le> sc_sb_size g \<and> sc_sb_size g < 2 ^ 32 \<and>
    target * sc_block_size c \<le> sc_sb_size g"
proof -
  have step: "0 < sc_sb_size c" "sb_target target c + sc_sb_size c < 2 ^ 32"
    using assms sb_target_value [OF assms] by (auto simp: widened_ok_def)
  obtain r where r: "grow_loop (sc_sb_size c) (sb_target target c) (sc_sb_size c) = Some r"
    "sb_target target c \<le> r" "sc_sb_size c \<le> r" "sc_sb_size c dvd (r - sc_sb_size c)"
    "r = sc_sb_size c \<or> r < sb_target target c + sc_sb_size c"
    using grow_loop_returns [OF step] by blast
  have "target * sc_block_size c \<le> r"
    using r(2) sb_target_value(1) [OF assms] round_up_ge [of PAGE "target * sc_block_size c"]
    by (simp add: PAGE_value)
  moreover have "PAGE dvd r"
    using r(3,4) assms(1) dvd_diffD [of "sc_sb_size c" r "sc_sb_size c"] dvd_trans
    by (auto simp: widened_ok_def)
  moreover have "r < 2 ^ 32" using r(5) step assms(1) by (auto simp: widened_ok_def)
  ultimately show ?thesis using r(1,3) by (auto simp: grow_class_def)
qed

lemma fill_fields_ok:
  assumes "0 < sc_block_size g" "sc_block_size g \<le> sc_sb_size g" "PAGE dvd sc_sb_size g"
    "sc_sb_size g < 2 ^ 32" "target * sc_block_size g \<le> sc_sb_size g"
  shows "\<exists>c. fill_fields g = Inr c \<and> class_ok target (sc_block_size g) c"
proof -
  have "target \<le> sc_sb_size g div sc_block_size g"
    using assms(1,5) by (simp add: less_eq_div_iff_mult_less_eq)
  then show ?thesis using assms by (auto simp: fill_fields_def class_ok_def Let_def div_greater_zero_iff)
qed

lemma init_fields_ok:
  assumes "target \<le> 250000"
  shows "\<exists>w g f. traverse_opt widen_class (tl size_classes) = Some w \<and>
    traverse_opt (grow_class target) w = Some g \<and> traverse_res fill_fields g = Inr f \<and>
    list_all2 (class_ok target) block_sizes f"
proof -
  obtain w where w: "traverse_opt widen_class (tl size_classes) = Some w"
    "map sc_block_size w = block_sizes" "list_all widened_ok w" using widen_table by blast
  define P where "P c g \<longleftrightarrow> widened_ok c \<and> sc_block_size g = sc_block_size c \<and>
    PAGE dvd sc_sb_size g \<and> sc_sb_size c \<le> sc_sb_size g \<and> sc_sb_size g < 2 ^ 32 \<and>
    target * sc_block_size c \<le> sc_sb_size g" for c g :: size_class_data
  obtain g where g: "traverse_opt (grow_class target) w = Some g" "list_all2 P w g"
    using traverse_opt_exists [of w "grow_class target" P] w(3) grow_class_ok [OF _ assms]
    by (auto simp: P_def list_all_iff)
  have "\<exists>c. fill_fields x = Inr c \<and> class_ok target (sc_block_size x) c" if x: "x \<in> set g" for x
  proof -
    obtain i where "i < length g" "x = g ! i" using x by (auto simp: in_set_conv_nth)
    then have "P (w ! i) x" using g(2) by (auto simp: list_all2_conv_all_nth)
    then show ?thesis by (intro fill_fields_ok) (auto simp: P_def widened_ok_def)
  qed
  then obtain f where f: "traverse_res fill_fields g = Inr f"
    "list_all2 (\<lambda>x. class_ok target (sc_block_size x)) g f"
    using traverse_res_exists [of g fill_fields "\<lambda>x. class_ok target (sc_block_size x)"] by blast
  have "map sc_block_size g = block_sizes"
    unfolding w(2) [symmetric]
    using g(2) by (auto simp: list_all2_conv_all_nth P_def intro!: nth_equalityI)
  then have "list_all2 (class_ok target) block_sizes f"
    using f(2) by (metis list.rel_map(1))
  then show ?thesis using w(1) g(1) f(1) by blast
qed


lemma init_size_class_result:
  assumes "target \<le> 250000"
  shows "\<exists>f lk. init_size_class target size_classes (replicate (MAX_SZ + 1) 0) =
      Some (Inr (hd size_classes # f, lk)) \<and> list_all2 (class_ok target) block_sizes f \<and>
    length lk = MAX_SZ + 1 \<and>
    (\<forall>s \<le> MAX_SZ. lk ! s = 1 + length (takeWhile (\<lambda>b. b < s) block_sizes))"
proof -
  obtain w g f where f: "traverse_opt widen_class (tl size_classes) = Some w"
    "traverse_opt (grow_class target) w = Some g" "traverse_res fill_fields g = Inr f"
    "list_all2 (class_ok target) block_sizes f" using init_fields_ok [OF assms] by blast
  have bs: "map sc_block_size f = block_sizes"
    using f(4) by (auto simp: list_all2_conv_all_nth class_ok_def intro!: nth_equalityI)
  have "\<forall>b \<in> set block_sizes. b \<le> MAX_SZ" "MAX_SZ \<in> set block_sizes"
    by (simp_all add: block_sizes_def size_classes_def sc_def size_class_bin_yes_def mem_info_defs)
  then obtain lk where "fill_lookup 1 block_sizes 0 (replicate (MAX_SZ + 1) 0) = Inr lk"
    "length lk = MAX_SZ + 1"
    "\<forall>s \<le> MAX_SZ. lk ! s = 1 + length (takeWhile (\<lambda>b. b < s) block_sizes)"
    using fill_lookup_correct [of block_sizes "replicate (MAX_SZ + 1) 0" 1 0]
    by (auto simp: less_Suc_eq_le)
  then show ?thesis using f bs by (auto simp: init_size_class_def)
qed

lemma length_block_sizes: "length block_sizes = MAX_SZ_IDX - 1"
  by (simp add: block_sizes_def size_classes_def mem_info_defs)

text \<open>C23. For every fetch target up to 250000 (the default is 2500) the initialisation of the size
  classes ends without a panic, and every class from 1 to 39 gets a super block that is a whole
  number of pages, fits a \<open>u32\<close>, and is cut into at least as many blocks as one fetch takes.\<close>

theorem init_size_class_classes:
  assumes "target \<le> 250000"
  shows "\<exists>cs lk. init_size_class target size_classes (replicate (MAX_SZ + 1) 0) = Some (Inr (cs, lk)) \<and>
    length cs = MAX_SZ_IDX \<and> length lk = MAX_SZ + 1 \<and>
    (\<forall>i. 1 \<le> i \<and> i < MAX_SZ_IDX \<longrightarrow> class_ok target (sc_block_size (size_classes ! i)) (cs ! i))"
proof -
  obtain f lk where f: "init_size_class target size_classes (replicate (MAX_SZ + 1) 0) =
      Some (Inr (hd size_classes # f, lk))" "list_all2 (class_ok target) block_sizes f"
    "length lk = MAX_SZ + 1" using init_size_class_result [OF assms] by blast
  have "size_classes = hd size_classes # tl size_classes" by (simp add: size_classes_def)
  then have "size_classes ! Suc j = tl size_classes ! j" for j by (metis nth_Cons_Suc)
  moreover have len: "length f = MAX_SZ_IDX - 1" "length (tl size_classes) = MAX_SZ_IDX - 1"
    using f(2) length_block_sizes by (auto simp: list_all2_lengthD block_sizes_def dest: list_all2_lengthD)
  ultimately have "class_ok target (sc_block_size (size_classes ! Suc j)) (f ! j)" if "j < MAX_SZ_IDX - 1" for j
    using f(2) that by (auto simp: list_all2_conv_all_nth block_sizes_def)
  then have "class_ok target (sc_block_size (size_classes ! i)) ((hd size_classes # f) ! i)"
    if "1 \<le> i" "i < MAX_SZ_IDX" for i
    using that by (cases i) auto
  then show ?thesis using f(1,3) len by (intro exI conjI) (auto simp: mem_info_defs)
qed

theorem init_size_class_classes_witness:
  "\<exists>cs lk. init_size_class 2500 size_classes (replicate (MAX_SZ + 1) 0) = Some (Inr (cs, lk)) \<and>
    class_ok 2500 8 (cs ! 1)"
  using init_size_class_classes [of 2500]
  by (auto simp: mem_info_defs size_classes_def sc_def size_class_bin_yes_def)

text \<open>C22. \<^verbatim>\<open>get_size_class\<close> is the best fit: a size up to 14336 gets the smallest class whose blocks
  hold it (a zero-sized request gets class 1), and a larger size gets 0, the mark of the large path.\<close>

theorem get_size_class_best_fit:
  assumes "target \<le> 250000"
    and "init_size_class target size_classes (replicate (MAX_SZ + 1) 0) = Some (Inr (cs, lk))"
  shows "(sz \<le> MAX_SZ \<longrightarrow> 1 \<le> get_size_class lk sz \<and> get_size_class lk sz < MAX_SZ_IDX \<and>
      sz \<le> sc_block_size (cs ! get_size_class lk sz) \<and>
      (\<forall>j. 1 \<le> j \<and> j < get_size_class lk sz \<longrightarrow> sc_block_size (cs ! j) < sz)) \<and>
    (MAX_SZ < sz \<longrightarrow> get_size_class lk sz = 0)"
proof (cases "sz \<le> MAX_SZ")
  case True
  obtain f where f: "cs = hd size_classes # f" "list_all2 (class_ok target) block_sizes f"
    "get_size_class lk sz = Suc (length (takeWhile (\<lambda>b. b < sz) block_sizes))"
    using init_size_class_result [OF assms(1)] assms(2) True by (auto simp: get_size_class_def)
  have "MAX_SZ \<in> set block_sizes"
    by (simp add: block_sizes_def size_classes_def sc_def size_class_bin_yes_def mem_info_defs)
  then have lt: "length (takeWhile (\<lambda>b. b < sz) block_sizes) < length block_sizes"
    using True by (intro length_takeWhile_less) auto
  have bs: "sc_block_size (f ! j) = block_sizes ! j" if "j < length block_sizes" for j
    using f(2) that by (auto simp: list_all2_conv_all_nth class_ok_def)
  have "sz \<le> block_sizes ! length (takeWhile (\<lambda>b. b < sz) block_sizes)"
    using nth_length_takeWhile [OF lt] by simp
  moreover have "block_sizes ! j < sz" if "j < length (takeWhile (\<lambda>b. b < sz) block_sizes)" for j
    using that takeWhile_nth [OF that] nth_mem [OF that] set_takeWhileD by fastforce
  ultimately show ?thesis
    using True f lt bs length_block_sizes by (auto simp: mem_info_defs nth_Cons')
next
  case False
  then show ?thesis by (simp add: get_size_class_def)
qed

theorem get_size_class_best_fit_witness:
  "\<exists>cs lk. init_size_class 2500 size_classes (replicate (MAX_SZ + 1) 0) = Some (Inr (cs, lk)) \<and>
    100 \<le> sc_block_size (cs ! get_size_class lk 100)"
proof -
  obtain cs lk where i: "init_size_class 2500 size_classes (replicate (MAX_SZ + 1) 0) = Some (Inr (cs, lk))"
    using init_size_class_result [of 2500] by auto
  then show ?thesis
    using get_size_class_best_fit [OF _ i, of 100] by (auto simp: MAX_SZ_value)
qed

end
