(* ===== verification/Page_Map.thy ===== *)
theory Page_Map
  imports Descriptors Size_Classes
begin

text \<open>
  The page map of \<^verbatim>\<open>src/page_map.rs\<close>: one entry for every page of the 50-bit address range, holding a
  descriptor pointer. The entries are the words of an over-committed mapping, which the model
  keeps as a function from keys to entries with the length of the slice beside it (zero before
  \<^verbatim>\<open>init\<close>, when every access is out of bounds). The size-class table and its lookup, the other
  global tables of the crate, join the state here. The locale \<open>page_table\<close> states what its users rely on;
  \<open>Windows\<close> has the paths that commit pages on demand.
\<close>

section \<open>State\<close>

type_synonym page_info = usize

record map_state = desc_state +
  sc_table :: "size_class_data list"
  sc_lookup :: "nat list"
  pm_location :: "usize option"
  pm_len :: nat
  page_map :: "usize \<Rightarrow> page_info"

definition PM_NHS :: nat where "PM_NHS = 14"
definition PM_NLS :: nat where "PM_NLS = LG_PAGE"
definition PM_SB :: nat where "PM_SB = 64 - PM_NHS - PM_NLS"
definition PM_KEY_SHIFT :: nat where "PM_KEY_SHIFT = PM_NLS"
definition PM_KEY_MASK :: u64 where "PM_KEY_MASK = push_bit PM_SB 1 - 1"
definition SC_MASK :: u64 where "SC_MASK = push_bit 6 1 - 1"
definition PM_SZ :: u64 where "PM_SZ = push_bit PM_SB 1 * 8"

lemmas page_map_consts = PM_NHS_def PM_NLS_def PM_SB_def PM_KEY_SHIFT_def PM_KEY_MASK_def
  SC_MASK_def PM_SZ_def LG_PAGE_def

section \<open>Entries\<close>

definition page_info_default :: page_info where "page_info_default = 0"

definition info_set_ptr :: "usize \<Rightarrow> nat \<Rightarrow> page_info" where
  "info_set_ptr desc sc_idx =
     (if desc AND SC_MASK \<noteq> 0 \<or> sc_idx \<ge> MAX_SZ_IDX then 0 else desc OR of_nat sc_idx)"

definition info_get_desc :: "page_info \<Rightarrow> usize option" where
  "info_get_desc info = (if info = 0 then None else Some info)"

definition info_get_size_class_index :: "'s map_state_scheme \<Rightarrow> page_info \<Rightarrow> nat option" where
  "info_get_size_class_index s info =
     (if info = 0 then None
      else let d = descs s info
           in if block_size d > MAX_SZ then Some 0
              else Some (get_size_class (sc_lookup s) (block_size d)))"

section \<open>The map\<close>

definition page_map_init ::
  "os_env \<Rightarrow> (usize \<Rightarrow> nat) \<Rightarrow> 's map_state_scheme \<Rightarrow> 's map_state_scheme res" where
  "page_map_init env h s =
     rbind (page_alloc_over_commit env h PM_SZ s) (\<lambda>(r, s1).
     case r of
       Inr addr \<Rightarrow> Inr (s1\<lparr>page_map := (\<lambda>_. 0), pm_len := unat (push_bit PM_SB 1 :: u64), pm_location := Some addr\<rparr>)
     | Inl e \<Rightarrow> Inl (Panic ''Error creating memory map''))"

definition addr_to_key :: "usize \<Rightarrow> usize" where
  "addr_to_key ptr = drop_bit PM_KEY_SHIFT ptr AND PM_KEY_MASK"

definition get_page_info :: "usize \<Rightarrow> 's map_state_scheme \<Rightarrow> page_info res" where
  "get_page_info ptr s =
     (let key = addr_to_key ptr in if unat key < pm_len s then Inr (page_map s key) else Inl OutOfBounds)"

definition set_page_info :: "usize \<Rightarrow> page_info \<Rightarrow> 's map_state_scheme \<Rightarrow> 's map_state_scheme res" where
  "set_page_info ptr info s =
     (let key = addr_to_key ptr
      in if unat key < pm_len s then Inr (s\<lparr>page_map := (page_map s)(key := info)\<rparr>) else Inl OutOfBounds)"

section \<open>Keys\<close>

lemma PM_KEY_MASK_mask: "PM_KEY_MASK = mask 38"
  by (simp add: page_map_consts mask_eq_exp_minus_1)

lemma SC_MASK_mask: "SC_MASK = mask 6"
  by (simp add: page_map_consts mask_eq_exp_minus_1)

lemma unat_addr_to_key [word_facts]: "unat (addr_to_key p) = unat p div PAGE mod 2 ^ 38"
  by (simp add: addr_to_key_def PM_KEY_MASK_mask take_bit_eq_mask [symmetric] unat_take_bit_word
      page_map_consts PAGE_value drop_bit_eq_div unat_div)

lemma addr_to_key_less: "unat (addr_to_key p) < 2 ^ 38"
  by (simp add: unat_addr_to_key)

text \<open>Two addresses of the 50-bit range share an entry exactly when they are on one page.\<close>

lemma addr_to_key_eq:
  assumes "unat p < 2 ^ 50" "unat q < 2 ^ 50"
  shows "addr_to_key p = addr_to_key q \<longleftrightarrow> unat p div PAGE = unat q div PAGE"
proof -
  have "addr_to_key p = addr_to_key q \<longleftrightarrow> unat (addr_to_key p) = unat (addr_to_key q)"
    by (simp add: word_unat_eq_iff)
  moreover have "unat p div PAGE < 2 ^ 38" "unat q div PAGE < 2 ^ 38"
    using assms by (auto simp: PAGE_value)
  ultimately show ?thesis by (simp add: unat_addr_to_key)
qed

definition pm_ready :: "'s map_state_scheme \<Rightarrow> bool" where
  "pm_ready s \<longleftrightarrow> pm_len s = 2 ^ 38"

lemma set_page_info_ready:
  "pm_ready s \<Longrightarrow> set_page_info p info s = Inr (s\<lparr>page_map := (page_map s)(addr_to_key p := info)\<rparr>)"
  using addr_to_key_less [of p] by (simp add: set_page_info_def pm_ready_def)

lemma get_page_info_ready: "pm_ready s \<Longrightarrow> get_page_info p s = Inr (page_map s (addr_to_key p))"
  using addr_to_key_less [of p] by (simp add: get_page_info_def pm_ready_def)

lemma info_get_desc_set: "desc_addr d \<Longrightarrow> info_get_desc (info_set_ptr d 0) = Some d"
  by (simp add: info_get_desc_def info_set_ptr_def desc_addr_def SC_MASK_mask CACHE_LINE_MASK_mask mem_info_defs)

lemma info_get_desc_zero [simp]: "info_get_desc 0 = None"
  by (simp add: info_get_desc_def)

lemma page_map_init_ready:
  "page_map_init env h s = Inr s' \<Longrightarrow> pm_ready s' \<and> page_map s' = (\<lambda>_. 0)"
  by (auto simp: page_map_init_def rbind_def pm_ready_def page_map_consts split: sum.splits)

text \<open>\<^verbatim>\<open>PageMap::init\<close> leaves every page unknown; from then on, setting the entry of one address
  makes exactly the addresses of its page answer with it, and every other address below the
  50-bit limit keeps its entry.\<close>

lemma page_map_lookup:
  assumes "unat p < 2 ^ 50" "unat q < 2 ^ 50"
  shows "(page_map_init env h s0 = Inr s \<longrightarrow> pm_ready s \<and> get_page_info q s = Inr page_info_default) \<and>
    (pm_ready s \<longrightarrow> (\<exists>s'. set_page_info p info s = Inr s' \<and> pm_ready s' \<and>
      get_page_info q s' = (if unat p div PAGE = unat q div PAGE then Inr info else get_page_info q s)))"
  using page_map_init_ready [of env h s0 s] addr_to_key_eq [OF assms]
  by (auto simp: set_page_info_ready get_page_info_ready pm_ready_def page_info_default_def)

section \<open>What a page map promises\<close>

text \<open>Reading an entry and writing it, over whatever the platform does besides: \<open>view\<close> is the entry of an address.\<close>

locale page_table =
  fixes ready :: "'s \<Rightarrow> bool"
    and view :: "'s \<Rightarrow> usize \<Rightarrow> page_info"
    and rd :: "usize \<Rightarrow> 's \<Rightarrow> (page_info \<times> 's) res"
    and wr :: "usize \<Rightarrow> page_info \<Rightarrow> 's \<Rightarrow> 's res"
  assumes rd_view: "ready s \<Longrightarrow> rd p s = Inr (i, s') \<Longrightarrow> ready s' \<and> i = view s p \<and> view s' = view s"
    and wr_view: "ready s \<Longrightarrow> wr p i s = Inr s' \<Longrightarrow> unat p < 2 ^ 50 \<Longrightarrow> unat q < 2 ^ 50 \<Longrightarrow>
      ready s' \<and> view s' q = (if unat p div PAGE = unat q div PAGE then i else view s q)"
begin

text \<open>Registering a range of pages: the entries of exactly these pages change.\<close>

lemma wr_all:
  assumes "ready s" "for_each (\<lambda>p. wr p i) ps s = Inr s'" "\<And>p. p \<in> set ps \<Longrightarrow> unat p < 2 ^ 50" "unat q < 2 ^ 50"
  shows "ready s' \<and> view s' q = (if \<exists>p \<in> set ps. unat p div PAGE = unat q div PAGE then i else view s q)"
  using assms
proof (induction ps arbitrary: s)
  case (Cons p ps)
  obtain s1 where s1: "wr p i s = Inr s1" "for_each (\<lambda>p. wr p i) ps s1 = Inr s'"
    using Cons.prems(2) by (auto simp: rbind_def split: sum.splits)
  have "unat p < 2 ^ 50" using Cons.prems(3) by simp
  then have "ready s1 \<and> view s1 q = (if unat p div PAGE = unat q div PAGE then i else view s q)"
    using wr_view [OF Cons.prems(1) s1(1)] Cons.prems(4) by blast
  then show ?case using Cons.IH [OF _ s1(2)] Cons.prems(3,4) by auto
qed simp

lemma wr_rd:
  assumes "ready s" "wr p i s = Inr s1" "unat p < 2 ^ 50" "unat q < 2 ^ 50" "rd q s1 = Inr (j, s')"
  shows "j = (if unat p div PAGE = unat q div PAGE then i else view s q)"
  using rd_view [OF _ assms(5)] wr_view [OF assms(1,2,3,4)] by auto

end

interpretation unix_map: page_table pm_ready "\<lambda>s p. page_map s (addr_to_key p)"
  "\<lambda>p s. rbind (get_page_info p s) (\<lambda>i. Inr (i, s))" set_page_info
  by unfold_locales (auto simp: get_page_info_ready set_page_info_ready pm_ready_def addr_to_key_eq)

definition empty_map_state :: map_state where
  "empty_map_state = desc_state.extend empty_desc_state
     \<lparr>sc_table = [], sc_lookup = [], pm_location = None, pm_len = 0, page_map = (\<lambda>_. 0)\<rparr>"

lemma empty_map_state_simps [simp]:
  "mem empty_map_state = (\<lambda>_. 0)" "os_maps empty_map_state = []" "os_calls empty_map_state = 0"
  "size_map empty_map_state = None" "avail_desc empty_map_state = 0"
  "descs empty_map_state = (\<lambda>_. descriptor_default)" "pm_len empty_map_state = 0"
  by (simp_all add: empty_map_state_def desc_state.defs empty_desc_state_def pages_state.defs empty_pages_state_def)

lemma empty_map_state_ok: "pages_ok h empty_map_state" "free_list empty_map_state []"
  using empty_pages_state_ok [of h]
  by (simp_all add: pages_ok_def free_list_def empty_pages_state_def size_map_or_new_def)

end
