(* ===== verification/Bins.thy ===== *)
theory Bins
  imports Memory Lifo
begin

text \<open>
  \<^verbatim>\<open>ThreadCacheBin\<close> of \<^verbatim>\<open>src/thread_cache.rs\<close>: a stack of free blocks linked through the first word of
  each block. With the cargo feature \<^verbatim>\<open>no_met_stack\<close> (the parameter \<open>nm\<close>) a cell holds the next
  pointer. Without it, a bin whose block size is recorded reads a cell of zero as "the next block
  follows directly" and a cell of all ones as "last block", so that a fresh super block needs one
  write. A bin works on the memory, so the operations act on a pair.
\<close>

section \<open>Bins\<close>

record bin =
  block :: usize
  block_num :: nat
  bin_block_size :: "nat option"

type_synonym bin_state = "memory \<times> bin"

definition bin_new :: bin where
  "bin_new = \<lparr>block = 0, block_num = 0, bin_block_size = None\<rparr>"

definition push_block :: "bool \<Rightarrow> usize \<Rightarrow> bin_state \<Rightarrow> bin_state" where
  "push_block nm blk s =
     (let (m, b) = s in
      case bin_block_size b of
        Some bs \<Rightarrow>
          if bs < CACHE_LINE \<and> \<not> nm then
            (let m' = (if block b - blk = of_nat bs then store64 m blk 0 else store64 m blk (block b))
             in (m', b\<lparr>block := blk, block_num := Suc (block_num b)\<rparr>))
          else (store64 m blk (block b), b\<lparr>block := blk, block_num := Suc (block_num b)\<rparr>)
      | None \<Rightarrow> (store64 m blk (block b), b\<lparr>block := blk, block_num := Suc (block_num b)\<rparr>))"

definition push_list :: "usize \<Rightarrow> nat \<Rightarrow> bin \<Rightarrow> bin res" where
  "push_list blk len b =
     (if block_num b > 0 then Inl (Panic ''Attempting to push a block list while cache is not empty'')
      else Inr (b\<lparr>block := blk, block_num := len\<rparr>))"

definition pop_block :: "bool \<Rightarrow> bin_state \<Rightarrow> (usize \<times> bin_state) res" where
  "pop_block nm s =
     (let (m, b) = s in
      if block_num b = 0 then Inl (Panic ''Attempting to pop a block from cache while cache is empty'')
      else let ret = block b in
        case bin_block_size b of
          None \<Rightarrow>
            if block b = 0 then Inr (0, s)
            else Inr (ret, m, b\<lparr>block := load64 m (block b), block_num := block_num b - 1\<rparr>)
        | Some bs \<Rightarrow>
            if nm then
              (if block b = 0 then Inr (0, s)
               else Inr (ret, m, b\<lparr>block := load64 m (block b), block_num := block_num b - 1\<rparr>))
            else if block b = 0 then Inl undefined_access
            else
              (let block_read = load64 m (block b);
                   nxt = (if block_read = 0 then block b + of_nat bs
                          else if block_read = - 1 then 0
                          else load64 m (block b))
               in Inr (ret, m, b\<lparr>block := nxt, block_num := block_num b - 1\<rparr>)))"

definition pop_list :: "usize \<Rightarrow> nat \<Rightarrow> bin \<Rightarrow> bin res" where
  "pop_list blk len b =
     (if block_num b < len
      then Inl (Panic ''The block_num must be greater than or equal to the provided length'')
      else Inr (b\<lparr>block := blk, block_num := block_num b - len\<rparr>))"

definition peek_block :: "bin \<Rightarrow> usize" where "peek_block b = block b"

definition get_bin_block_num :: "bin \<Rightarrow> nat" where "get_bin_block_num b = block_num b"

section \<open>The blocks of a bin\<close>

text \<open>The block a cell points to, as \<^verbatim>\<open>pop_block\<close> reads it.\<close>

definition next_of :: "bool \<Rightarrow> nat option \<Rightarrow> usize \<Rightarrow> usize \<Rightarrow> usize" where
  "next_of nm mode v a = (case mode of
       None \<Rightarrow> v
     | Some bs \<Rightarrow> if nm then v else if v = 0 then a + of_nat bs else if v = - 1 then 0 else v)"

definition bin_blocks :: "bool \<Rightarrow> bin_state \<Rightarrow> usize list" where
  "bin_blocks nm s = chain (\<lambda>q. next_of nm (bin_block_size (snd s)) (load64 (fst s) q) q)
     (block (snd s)) (block_num (snd s))"

fun apart_all :: "usize list \<Rightarrow> bool" where
  "apart_all [] = True"
| "apart_all (x # xs) = ((\<forall>y \<in> set xs. cells_apart x y) \<and> apart_all xs)"

definition bin_rep :: "bool \<Rightarrow> bin_state \<Rightarrow> usize list \<Rightarrow> bool" where
  "bin_rep nm s xs \<longleftrightarrow> bin_blocks nm s = xs \<and> 0 \<notin> set xs \<and> - 1 \<notin> set xs \<and> apart_all xs"

definition bin_fits :: "usize list \<Rightarrow> usize \<Rightarrow> bool" where
  "bin_fits xs x \<longleftrightarrow> x \<noteq> 0 \<and> x \<noteq> - 1 \<and> (\<forall>y \<in> set xs. cells_apart x y)"

lemma bin_rep_num: "bin_rep nm s xs \<Longrightarrow> block_num (snd s) = length xs"
  by (auto simp: bin_rep_def bin_blocks_def)

lemma bin_rep_head: "bin_rep nm s (x # xs) \<Longrightarrow> block (snd s) = x"
  by (cases "block_num (snd s)") (auto simp: bin_rep_def bin_blocks_def)

text \<open>What a push writes is what a pop decodes.\<close>

lemma push_block_next:
  "\<exists>v. push_block nm x (m, b) = (store64 m x v, b\<lparr>block := x, block_num := Suc (block_num b)\<rparr>) \<and>
    (block b \<noteq> 0 \<and> block b \<noteq> - 1 \<longrightarrow> next_of nm (bin_block_size b) v x = block b)"
proof (cases "\<exists>bs. bin_block_size b = Some bs \<and> bs < CACHE_LINE \<and> \<not> nm \<and> block b - x = of_nat bs")
  case True
  then show ?thesis
    by (intro exI [of _ 0]) (auto simp: push_block_def next_of_def Let_def algebra_simps)
next
  case False
  then show ?thesis
    by (intro exI [of _ "block b"]) (auto simp: push_block_def next_of_def Let_def split: option.splits)
qed

lemma push_block_rep:
  assumes "bin_rep nm s xs" "bin_fits xs x" shows "bin_rep nm (push_block nm x s) (x # xs)"
proof -
  obtain m b where s: "s = (m, b)" by (cases s)
  obtain v where v: "push_block nm x (m, b) = (store64 m x v, b\<lparr>block := x, block_num := Suc (block_num b)\<rparr>)"
    "block b \<noteq> 0 \<and> block b \<noteq> - 1 \<longrightarrow> next_of nm (bin_block_size b) v x = block b"
    using push_block_next by blast
  let ?dec = "next_of nm (bin_block_size b)"
  have xs: "chain (\<lambda>q. ?dec (load64 m q) q) (block b) (block_num b) = xs"
    using assms(1) by (simp add: bin_rep_def bin_blocks_def s)
  have "?dec v x = block b" if "0 < block_num b"
    using v(2) that assms(1) bin_rep_head [of nm s "hd xs" "tl xs"] bin_rep_num [OF assms(1)]
    by (cases xs) (auto simp: s bin_rep_def)
  then have "chain (\<lambda>q. ?dec (load64 (store64 m x v) q) q) x (Suc (block_num b)) = x # xs"
    using bytes.chain_store_push [of ?dec m "block b" "block_num b" x v] assms(2) xs
    by (auto simp: bin_fits_def)
  then show ?thesis
    using assms v(1) by (auto simp: s bin_rep_def bin_blocks_def bin_fits_def)
qed

lemma pop_block_rep:
  assumes "bin_rep nm s (x # xs)" shows "\<exists>s'. pop_block nm s = Inr (x, s') \<and> bin_rep nm s' xs"
proof -
  obtain m b where s: "s = (m, b)" by (cases s)
  have h: "block b = x" "block_num b = Suc (length xs)" "x \<noteq> 0"
    using assms bin_rep_head [OF assms] bin_rep_num [OF assms] by (auto simp: s bin_rep_def)
  let ?nx = "next_of nm (bin_block_size b) (load64 m x) x"
  have "pop_block nm s = Inr (x, m, b\<lparr>block := ?nx, block_num := length xs\<rparr>)"
    using h by (auto simp: s pop_block_def next_of_def Let_def split: option.splits)
  moreover have "bin_rep nm (m, b\<lparr>block := ?nx, block_num := length xs\<rparr>) xs"
    using assms h by (auto simp: s bin_rep_def bin_blocks_def)
  ultimately show ?thesis by blast
qed

text \<open>A pop reads memory and does not write it.\<close>

lemma pop_block_mem: "pop_block nm (m, b) = Inr (x, m', b') \<Longrightarrow> m' = m \<and> bin_block_size b' = bin_block_size b"
  by (auto simp: pop_block_def Let_def split: if_splits option.splits)

lemma pop_block_keeps:
  assumes "bin_rep nm (m, b) (x # xs)"
  shows "\<exists>b'. pop_block nm (m, b) = Inr (x, m, b') \<and> bin_block_size b' = bin_block_size b \<and> bin_rep nm (m, b') xs"
  using pop_block_rep [OF assms] pop_block_mem by fastforce

interpretation bins: lifo_pool "bin_rep nm" "\<lambda>s. bin_fits" "push_block nm" "pop_block nm" for nm
  by unfold_locales (rule push_block_rep pop_block_rep; assumption)+

lemma apart_all_append:
  "apart_all (xs @ ys) \<longleftrightarrow> apart_all xs \<and> apart_all ys \<and> (\<forall>x \<in> set xs. \<forall>y \<in> set ys. cells_apart x y)"
  by (induction xs) auto

lemma bin_fits_seq:
  "apart_all (xs @ ys) \<Longrightarrow> 0 \<notin> set xs \<Longrightarrow> - 1 \<notin> set xs \<Longrightarrow> fits_seq (\<lambda>s. bin_fits) push xs s ys"
proof (induction xs arbitrary: s ys)
  case (Cons x xs)
  then have "apart_all (xs @ x # ys)" by (auto simp: apart_all_append intro: cells_apart_sym)
  then show ?case using Cons by (auto simp: bin_fits_def)
qed simp

text \<open>C18. A bin is a stack in every mode, the contiguous encoding included: when blocks that do not
  overlap are pushed and as many are popped, they come back in reverse order, and the blocks that
  were in the bin before are still there, in order.\<close>

theorem bin_push_pop:
  assumes "bin_rep nm s ys" "apart_all (xs @ ys)" "0 \<notin> set xs" "- 1 \<notin> set xs"
  shows "\<exists>s'. pop_many (pop_block nm) (length xs) (fold (push_block nm) xs s) = Inr (rev xs, s') \<and>
    bin_rep nm s' ys"
  using assms by (intro bins.push_pop_many bin_fits_seq)

theorem bin_push_pop_witness:
  "\<exists>s'. pop_many (pop_block False) 3
      (fold (push_block False) [4096, 4160, 4112] (\<lambda>_. 0, bin_new\<lparr>bin_block_size := Some 16\<rparr>)) =
    Inr ([4112, 4160, 4096], s') \<and> bin_rep False s' []"
  using bin_push_pop [of False "(\<lambda>_. 0, bin_new\<lparr>bin_block_size := Some 16\<rparr>)" "[]" "[4096, 4160, 4112]"]
  by (simp add: bin_rep_def bin_blocks_def bin_new_def cells_apart_def numeral_3_eq_3 del: pop_many.simps)

end
