(* ===== verification/Central.thy ===== *)
theory Central
  imports Page_Map Bins
begin

text \<open>
  The central reserve: the processor heaps of \<^verbatim>\<open>src/allocation_data/proc_heap.rs\<close> and the functions of
  \<^verbatim>\<open>src/alloc.rs\<close> that move blocks between super blocks, partial lists and thread-cache bins. Each
  function is the sequential meaning of the code: a compare-and-swap finds the value it was given,
  so every CAS loop runs once. \<open>nm\<close> is the cargo feature \<^verbatim>\<open>no_met_stack\<close>. A pointer to a heap is the
  index of the heap; following the null pointer is a panic of the model.
\<close>

section \<open>Heaps\<close>

record heap =
  partial_list :: "descriptor_node option"
  size_class_index :: nat

record alloc_state = map_state +
  heaps :: "heap list option"

definition heap_new :: "descriptor_node \<Rightarrow> nat \<Rightarrow> heap" where
  "heap_new node i = \<lparr>partial_list = Some node, size_class_index = i\<rparr>"

definition heap_default :: heap where
  "heap_default = \<lparr>partial_list = None, size_class_index = 0\<rparr>"

definition heap_new_none :: "nat \<Rightarrow> heap" where
  "heap_new_none i = \<lparr>partial_list = None, size_class_index = i\<rparr>"

definition size_of_proc_heap :: nat where "size_of_proc_heap = 64"

definition init_heaps :: "os_env \<Rightarrow> 's alloc_state_scheme \<Rightarrow> 's alloc_state_scheme res" where
  "init_heaps env s =
     (if map_anon env (os_calls s) (size_of_proc_heap * MAX_SZ_IDX)
      then Inr (s\<lparr>os_calls := Suc (os_calls s), heaps := Some (map heap_new_none [0..<MAX_SZ_IDX])\<rparr>)
      else Inl (Panic ''Should be able to get the map''))"

definition get_heaps :: "os_env \<Rightarrow> 's alloc_state_scheme \<Rightarrow> 's alloc_state_scheme res" where
  "get_heaps env s = (case heaps s of None \<Rightarrow> init_heaps env s | Some hs \<Rightarrow> Inr s)"

definition get_heap_at :: "nat \<Rightarrow> 's alloc_state_scheme \<Rightarrow> heap res" where
  "get_heap_at i s = rbind (unwrap (heaps s)) (\<lambda>hs. index_list hs i)"

definition put_heap_at :: "nat \<Rightarrow> heap \<Rightarrow> 's alloc_state_scheme \<Rightarrow> 's alloc_state_scheme res" where
  "put_heap_at i hp s =
     rbind (unwrap (heaps s)) (\<lambda>hs. rbind (update_list hs i hp) (\<lambda>hs'. Inr (s\<lparr>heaps := Some hs'\<rparr>)))"

definition heap_get_size_class :: "heap \<Rightarrow> 's alloc_state_scheme \<Rightarrow> size_class_data res" where
  "heap_get_size_class hp s = index_list (sc_table s) (size_class_index hp)"

definition null_heap :: panic where "null_heap = Panic ''null heap pointer''"

definition upd_desc :: "usize \<Rightarrow> (descriptor \<Rightarrow> descriptor) \<Rightarrow> 's desc_state_scheme \<Rightarrow> 's desc_state_scheme" where
  "upd_desc d f s = s\<lparr>descs := (descs s)(d := f (descs s d))\<rparr>"

section \<open>Partial lists\<close>

definition list_pop_partial :: "nat \<Rightarrow> 's alloc_state_scheme \<Rightarrow> (usize option \<times> 's alloc_state_scheme) res" where
  "list_pop_partial hi s =
     rbind (get_heap_at hi s) (\<lambda>hp.
     case partial_list hp of
       None \<Rightarrow> Inr (None, s)
     | Some old_head \<Rightarrow>
         rbind (unwrap (node_get_desc old_head)) (\<lambda>old_desc.
         let new_head = next_partial (descs s old_desc) in
         rbind (case new_head of
             None \<Rightarrow> Inr None
           | Some node \<Rightarrow> rbind (unwrap (node_get_desc node)) (\<lambda>desc.
               Inr (Some (node_set (Some desc) (node_get_counter node))))) (\<lambda>new_head'.
         rbind (put_heap_at hi (hp\<lparr>partial_list := new_head'\<rparr>) s) (\<lambda>s'.
         Inr (Some old_desc, s')))))"

definition list_push_partial :: "usize \<Rightarrow> 's alloc_state_scheme \<Rightarrow> 's alloc_state_scheme res" where
  "list_push_partial d s =
     (case proc_heap (descs s d) of
        None \<Rightarrow> Inl null_heap
      | Some hi \<Rightarrow>
          rbind (get_heap_at hi s) (\<lambda>hp.
          let old_head = partial_list hp;
              new_head = node_set (Some d)
                (case old_head of None \<Rightarrow> 0 | Some n \<Rightarrow> node_get_counter n + 1)
          in put_heap_at hi (hp\<lparr>partial_list := Some new_head\<rparr>)
               (upd_desc d (\<lambda>x. x\<lparr>next_partial := old_head\<rparr>) s)))"

definition heap_push_partial :: "usize \<Rightarrow> 's alloc_state_scheme \<Rightarrow> 's alloc_state_scheme res" where
  "heap_push_partial = list_push_partial"

definition heap_pop_partial :: "nat \<Rightarrow> 's alloc_state_scheme \<Rightarrow> (usize option \<times> 's alloc_state_scheme) res" where
  "heap_pop_partial = list_pop_partial"

section \<open>Registering super blocks\<close>

definition update_page_map ::
  "nat option \<Rightarrow> usize \<Rightarrow> usize option \<Rightarrow> nat \<Rightarrow> 's alloc_state_scheme \<Rightarrow> 's alloc_state_scheme res" where
  "update_page_map hi ptr desc sc_index s =
     (if ptr = 0 then Inl (Panic ''Pointer should not be null'')
      else let info = info_set_ptr (case desc of None \<Rightarrow> 0 | Some d \<Rightarrow> d) sc_index in
        case hi of
          None \<Rightarrow> set_page_info ptr info s
        | Some i \<Rightarrow>
            rbind (get_heap_at i s) (\<lambda>hp.
            rbind (heap_get_size_class hp s) (\<lambda>c.
            let sb_size = sc_sb_size c in
            if sb_size mod PAGE \<noteq> 0 then Inl AssertFailed
            else for_each (\<lambda>index. set_page_info (ptr + of_nat (index * PAGE)) info)
                   [0..<sb_size div PAGE] s)))"

definition register_desc :: "usize \<Rightarrow> 's alloc_state_scheme \<Rightarrow> 's alloc_state_scheme res" where
  "register_desc d s =
     rbind (unwrap (super_block (descs s d))) (\<lambda>seg.
     update_page_map (proc_heap (descs s d)) (seg_ptr seg) (Some d) 0 s)"

definition unregister_desc :: "nat option \<Rightarrow> segment \<Rightarrow> 's alloc_state_scheme \<Rightarrow> 's alloc_state_scheme res" where
  "unregister_desc hi seg s = update_page_map hi (seg_ptr seg) None 0 s"

definition get_page_info_for_ptr :: "usize \<Rightarrow> 's alloc_state_scheme \<Rightarrow> page_info res" where
  "get_page_info_for_ptr = get_page_info"

section \<open>Filling a bin\<close>

text \<open>What a thread works on: the shared state, a bin, and the counter of blocks obtained.\<close>

type_synonym 's fill = "'s alloc_state_scheme \<times> bin \<times> nat"

text \<open>The partial super block that was popped is taken whole.\<close>

definition take_partial :: "usize \<Rightarrow> 's fill \<Rightarrow> 's fill res" where
  "take_partial d x =
     (let (s, cache, got) = x;
          old_anchor = d_anchor (descs s d);
          mc = max_count (descs s d);
          new_anchor = set_state FULL (set_avail mc (set_count 0 old_anchor));
          s1 = upd_desc d (\<lambda>r. r\<lparr>d_anchor := new_anchor\<rparr>) s;
          blocks_taken = a_count old_anchor;
          avail = a_avail old_anchor
      in rbind (unwrap (super_block (descs s d))) (\<lambda>seg.
         if \<not> avail \<le> mc then Inl AssertFailed
         else let blk = seg_ptr seg + of_nat (avail * block_size (descs s d)) in
           if get_bin_block_num cache \<noteq> 0 then Inl AssertFailed
           else rbind (push_list blk blocks_taken cache) (\<lambda>cache'. Inr (s1, cache', got + 1))))"

partial_function (option) malloc_from_partial :: "os_env \<Rightarrow> nat \<Rightarrow> 's fill \<Rightarrow> 's fill res option" where
  "malloc_from_partial env sci x =
     (let (s, cache, got) = x in
      case rbind (get_heaps env s) (heap_pop_partial sci) of
        Inl e \<Rightarrow> Some (Inl e)
      | Inr (None, s1) \<Rightarrow> Some (Inr (s1, cache, got))
      | Inr (Some d, s1) \<Rightarrow>
          if a_state (d_anchor (descs s1 d)) = EMPTY
          then malloc_from_partial env sci (retire d s1, cache, got)
          else Some (take_partial d (s1, cache, got)))"

text \<open>The links of a fresh super block: one cell of all ones, or a pointer in every block.\<close>

definition init_blocks :: "bool \<Rightarrow> usize \<Rightarrow> nat \<Rightarrow> nat \<Rightarrow> memory \<Rightarrow> memory" where
  "init_blocks nm sb bs n m =
     (if nm then
        fst (fold (\<lambda>i (m', lst). (store64 m' (sb + of_nat (bs * i)) lst, sb + of_nat (bs * i)))
               (rev [0..<n]) (m, 0))
      else store64 m (sb + of_nat (bs * n) - of_nat bs) (- 1))"

definition fresh_anchor :: "nat \<Rightarrow> anchor" where
  "fresh_anchor n = set_state FULL (set_count 0 (set_avail n anchor_default))"

text \<open>The two functions that carve a new super block differ in its size \<open>len\<close> and in the number
  \<open>c\<close> of blocks they put in the bin.\<close>

definition new_super_block ::
  "os_env \<Rightarrow> (usize \<Rightarrow> nat) \<Rightarrow> bool \<Rightarrow> nat \<Rightarrow> size_class_data \<Rightarrow> usize \<Rightarrow> nat \<Rightarrow> 's fill \<Rightarrow> 's fill res" where
  "new_super_block env h nm sci c len cnt x =
     (let (s, cache, got) = x in
      rbind (desc_alloc env h s) (\<lambda>(d, s1).
      let s2 = upd_desc d (\<lambda>r. r\<lparr>proc_heap := Some sci, block_size := sc_block_size c,
                 max_count := get_block_num c\<rparr>) s1;
          (r, s3) = seg_allocate env len s2;
          s4 = upd_desc d (\<lambda>q. q\<lparr>super_block := (case r of Inl e \<Rightarrow> None | Inr seg \<Rightarrow> Some seg)\<rparr>) s3
      in rbind (unwrap (super_block (descs s4 d))) (\<lambda>seg.
         let sb = seg_ptr seg;
             s5 = s4\<lparr>mem := init_blocks nm sb (sc_block_size c) cnt (mem s4)\<rparr>
         in rbind (push_list sb cnt cache) (\<lambda>cache'.
            let s6 = upd_desc d (\<lambda>q. q\<lparr>d_anchor := fresh_anchor cnt\<rparr>) s5
            in rbind (register_desc d s6) (\<lambda>s7.
               Inr (s7, cache', got + get_block_num c))))))"

definition malloc_from_new_sb ::
  "os_env \<Rightarrow> (usize \<Rightarrow> nat) \<Rightarrow> bool \<Rightarrow> nat \<Rightarrow> 's fill \<Rightarrow> 's fill res" where
  "malloc_from_new_sb env h nm sci x =
     (let (s, cache, got) = x in
      rbind (get_heaps env s) (\<lambda>s0.
      rbind (get_heap_at sci s0) (\<lambda>_.
      rbind (index_list (sc_table s0) sci) (\<lambda>c.
      new_super_block env h nm sci c (of_nat (sc_sb_size c)) (get_block_num c) (s0, cache, got)))))"

definition malloc_count_from_new_sb ::
  "os_env \<Rightarrow> (usize \<Rightarrow> nat) \<Rightarrow> bool \<Rightarrow> nat \<Rightarrow> nat \<Rightarrow> 's fill \<Rightarrow> 's fill res" where
  "malloc_count_from_new_sb env h nm sci count x =
     (let (s, cache, got) = x in
      rbind (get_heaps env s) (\<lambda>s0.
      rbind (get_heap_at sci s0) (\<lambda>_.
      rbind (index_list (sc_table s0) sci) (\<lambda>c.
      let cnt = min (get_block_num c) count
      in new_super_block env h nm sci c (of_nat (sc_block_size c * cnt)) cnt (s0, cache, got)))))"

text \<open>Taking at most \<open>count\<close> blocks from a partial super block.\<close>

definition take_partial_count :: "bool \<Rightarrow> nat \<Rightarrow> usize \<Rightarrow> 's fill \<Rightarrow> 's fill res" where
  "take_partial_count nm count d x =
     (let (s, cache, got) = x;
          old_anchor = d_anchor (descs s d);
          mc = max_count (descs s d);
          avail = a_avail old_anchor;
          new_avail = (if avail + count < mc then avail + count else mc);
          new_anchor = set_state FULL (set_avail new_avail (set_count 0 old_anchor));
          s1 = upd_desc d (\<lambda>r. r\<lparr>d_anchor := new_anchor\<rparr>) s
      in if \<not> avail \<le> mc then Inl AssertFailed
         else rbind (unwrap (super_block (descs s d))) (\<lambda>seg.
           let (m, cache') = fold (\<lambda>i. push_block nm (seg_ptr seg + of_nat ((avail + i) * block_size (descs s d))))
                 [0..<new_avail - avail] (mem s1, cache)
           in Inr (s1\<lparr>mem := m\<rparr>, cache', got + (new_avail - avail))))"

definition malloc_count_from_partial ::
  "os_env \<Rightarrow> bool \<Rightarrow> nat \<Rightarrow> nat \<Rightarrow> 's fill \<Rightarrow> 's fill res option" where
  "malloc_count_from_partial env nm sci count x =
     (let (s, cache, got) = x in
      case rbind (get_heaps env s) (heap_pop_partial sci) of
        Inl e \<Rightarrow> Some (Inl e)
      | Inr (None, s1) \<Rightarrow> Some (Inr (s1, cache, got))
      | Inr (Some d, s1) \<Rightarrow>
          if a_state (d_anchor (descs s1 d)) = EMPTY
          then malloc_from_partial env sci (retire d s1, cache, got)
          else Some (take_partial_count nm count d (s1, cache, got)))"

section \<open>Block indices\<close>

definition sc_arm :: "nat \<Rightarrow> nat \<Rightarrow> nat \<Rightarrow> nat \<Rightarrow> nat \<times> nat" where
  "sc_arm index lg_grp lg_delta ndelta = (index + 1, 2 ^ lg_grp + ndelta * 2 ^ lg_delta)"

definition index_arms :: "(nat \<times> nat) list" where
  "index_arms =
     [sc_arm 0 3 3 0, sc_arm 1 3 3 1, sc_arm 2 3 3 2, sc_arm 3 3 3 3,
      sc_arm 4 5 3 1, sc_arm 5 5 3 2, sc_arm 6 5 3 3, sc_arm 7 5 3 4,
      sc_arm 8 6 4 1, sc_arm 9 6 4 2, sc_arm 10 6 4 3, sc_arm 11 6 4 4,
      sc_arm 12 7 5 1, sc_arm 13 7 5 2, sc_arm 14 7 5 3, sc_arm 15 7 5 4,
      sc_arm 16 8 6 1, sc_arm 17 8 6 2, sc_arm 18 8 6 3, sc_arm 19 8 6 4,
      sc_arm 20 9 7 1, sc_arm 21 9 7 2, sc_arm 22 9 7 3, sc_arm 23 9 7 4,
      sc_arm 24 10 8 1, sc_arm 25 10 8 2, sc_arm 26 10 8 3, sc_arm 27 10 8 4,
      sc_arm 28 11 9 1, sc_arm 29 11 9 2, sc_arm 30 11 9 3, sc_arm 31 11 9 4,
      sc_arm 32 12 10 1, sc_arm 33 12 10 2, sc_arm 34 12 10 3, sc_arm 35 12 10 4,
      sc_arm 36 13 11 1, sc_arm 37 13 11 2, sc_arm 38 13 11 3]"

text \<open>The arms that \<^verbatim>\<open>size_classes_match!\<close> expands to are tried in order; the first whose index is
  the size class divides the difference by its block size.\<close>

fun match_arms :: "u32 \<Rightarrow> nat \<Rightarrow> (nat \<times> nat) list \<Rightarrow> u32 res" where
  "match_arms diff sci [] = Inl (Panic ''No size class found'')"
| "match_arms diff sci ((i, bs) # arms) =
     (if sci = i then Inr (diff div of_nat bs) else match_arms diff sci arms)"

definition compute_index :: "usize \<Rightarrow> usize \<Rightarrow> nat \<Rightarrow> u32 res" where
  "compute_index sb blk sci =
     (if sci \<ge> MAX_SZ_IDX then Inl OutOfBounds
      else let diff = (ucast blk :: u32) - ucast sb in match_arms diff sci index_arms)"

end
