(* ===== verification/Central_Facts.thy ===== *)
theory Central_Facts
  imports Central
begin

text \<open>
  What the central reserve guarantees: block indices are exact, a registered super block is found
  from every address inside it, the partial lists are last-in first-out pools, and a new super
  block fills an empty bin with fresh blocks that do not overlap.
\<close>

section \<open>Block indices\<close>

lemma match_arms_map_of:
  "match_arms diff sci arms = (case map_of arms sci of
     None \<Rightarrow> Inl (Panic ''No size class found'') | Some bs \<Rightarrow> Inr (diff div of_nat bs))"
  by (induction diff sci arms rule: match_arms.induct) auto

lemma index_arms_zip: "index_arms = zip [1..<MAX_SZ_IDX] block_sizes"
  by (simp add: index_arms_def sc_arm_def block_sizes_def size_classes_def sc_def size_class_bin_yes_def
      mem_info_defs upt_rec)

lemma index_arms_lookup:
  assumes "1 \<le> sci" "sci < MAX_SZ_IDX"
  shows "map_of index_arms sci = Some (sc_block_size (size_classes ! sci))"
proof -
  have "size_classes = hd size_classes # tl size_classes" by (simp add: size_classes_def)
  then have "size_classes ! sci = tl size_classes ! (sci - 1)"
    using assms(1) by (metis One_nat_def Suc_le_D diff_Suc_Suc diff_zero nth_Cons_Suc)
  moreover have "map_of (zip [1..<MAX_SZ_IDX] block_sizes) ([1..<MAX_SZ_IDX] ! (sci - 1)) =
      Some (block_sizes ! (sci - 1))"
    using assms length_block_sizes by (intro map_of_zip_nth) auto
  moreover have "length (tl size_classes) = MAX_SZ_IDX - 1"
    using length_block_sizes by (simp add: block_sizes_def)
  ultimately show ?thesis
    using assms by (simp add: index_arms_zip block_sizes_def)
qed

lemma ucast_add_of_nat: "(ucast (a + of_nat n :: usize) :: u32) = ucast a + of_nat n"
proof -
  have "(unat a + n mod 2 ^ 64) mod 2 ^ 64 mod 2 ^ 32 = (unat a + n mod 2 ^ 64) mod (2 ^ 32 :: nat)"
    by (rule mod_mod_cancel) simp
  also have "\<dots> = (unat a + n mod 2 ^ 64 mod 2 ^ 32) mod 2 ^ 32" by (simp only: mod_add_right_eq)
  also have "n mod 2 ^ 64 mod 2 ^ 32 = n mod (2 ^ 32 :: nat)" by (rule mod_mod_cancel) simp
  finally show ?thesis
    by (simp add: word_unat_eq_iff unat_ucast_mod unat_word_ariths unat_of_nat mod_simps)
qed

lemma class_block_size_bounds:
  assumes "1 \<le> sci" "sci < MAX_SZ_IDX"
  shows "8 \<le> sc_block_size (size_classes ! sci) \<and> sc_block_size (size_classes ! sci) \<le> MAX_SZ"
proof -
  have "\<forall>c \<in> set (tl size_classes). 8 \<le> sc_block_size c \<and> sc_block_size c \<le> MAX_SZ"
    by (simp add: size_classes_def sc_def size_class_bin_yes_def mem_info_defs)
  moreover have "length size_classes = MAX_SZ_IDX" by (simp add: size_classes_def mem_info_defs)
  then have "tl size_classes ! (sci - 1) \<in> set (tl size_classes)" using assms by (intro nth_mem) simp
  then have "size_classes ! sci \<in> set (tl size_classes)"
    using assms \<open>length size_classes = MAX_SZ_IDX\<close> by (simp add: nth_tl)
  ultimately show ?thesis by blast
qed

lemma compute_index_div:
  assumes "off < 2 ^ 32" "1 \<le> sci" "sci < MAX_SZ_IDX"
  shows "compute_index sb (sb + of_nat off) sci = Inr (of_nat (off div sc_block_size (size_classes ! sci)))"
proof -
  define bs where "bs = sc_block_size (size_classes ! sci)"
  have bs: "bs < 2 ^ 32" using class_block_size_bounds [of sci] assms by (simp add: bs_def MAX_SZ_value)
  have "off div bs < 2 ^ 32" using assms(1) div_le_dividend [of off bs] by linarith
  then have "unat ((of_nat off :: u32) div of_nat bs) = unat (of_nat (off div bs) :: u32)"
    using assms(1) bs by (simp add: unat_div unat_of_nat)
  then have "(of_nat off :: u32) div of_nat bs = of_nat (off div bs)" by (simp only: word_unat_eq_iff)
  then show ?thesis
    using assms by (simp add: compute_index_def ucast_add_of_nat match_arms_map_of index_arms_lookup bs_def)
qed

text \<open>C21. \<^verbatim>\<open>compute_index\<close> gives the number of the block that holds an address of the super block, for
  every size class and also where the 32-bit truncation of the two addresses wraps around: the
  size of a super block is below \<open>2 ^ 32\<close>. Size class 0 and indices past the table panic.\<close>

theorem compute_index_exact:
  assumes "off < 2 ^ 32"
  shows "(1 \<le> sci \<and> sci < MAX_SZ_IDX \<longrightarrow> compute_index sb (sb + of_nat off) sci =
      Inr (of_nat (off div sc_block_size (size_classes ! sci)))) \<and>
    (sci = 0 \<or> MAX_SZ_IDX \<le> sci \<longrightarrow> (\<exists>e. compute_index sb (sb + of_nat off) sci = Inl e))"
proof (intro conjI impI)
  assume "1 \<le> sci \<and> sci < MAX_SZ_IDX"
  then show "compute_index sb (sb + of_nat off) sci = Inr (of_nat (off div sc_block_size (size_classes ! sci)))"
    using compute_index_div [OF assms] by blast
next
  assume "sci = 0 \<or> MAX_SZ_IDX \<le> sci"
  moreover have "map_of index_arms 0 = None" by (simp add: index_arms_def sc_arm_def)
  ultimately show "\<exists>e. compute_index sb (sb + of_nat off) sci = Inl e"
    by (auto simp: compute_index_def match_arms_map_of)
qed

theorem compute_index_exact_witness:
  "compute_index 4294963200 (4294963200 + of_nat 4900) 7 = Inr (of_nat (4900 div 56))"
  using compute_index_exact [of 4900 7 4294963200]
  by (simp add: mem_info_defs size_classes_def sc_def size_class_bin_yes_def)

section \<open>The page map of a super block\<close>

lemma for_each_set_page_info:
  assumes "pm_ready s"
  shows "for_each (\<lambda>i. set_page_info (f i) info) is s =
    Inr (s\<lparr>page_map := (\<lambda>k. if k \<in> (addr_to_key \<circ> f) ` set is then info else page_map s k)\<rparr>)"
  using assms
proof (induction "is" arbitrary: s)
  case (Cons i "is")
  let ?s = "s\<lparr>page_map := (page_map s)(addr_to_key (f i) := info)\<rparr>"
  have "pm_ready ?s" using Cons.prems by (simp add: pm_ready_def)
  from Cons.IH [OF this] show ?case
    using Cons.prems by (auto simp: set_page_info_ready intro!: arg_cong [where f = "\<lambda>g. s\<lparr>page_map := g\<rparr>"])
qed simp

lemma unat_page_of_block:
  assumes "valid_map (sb, of_nat len)" "len < 2 ^ 32" "i * PAGE < len"
  shows "unat (sb + of_nat (i * PAGE)) = unat sb + i * PAGE"
proof -
  have l: "unat (of_nat len :: usize) = len" using assms(2) by (simp add: unat_of_nat)
  then have "unat sb + len \<le> 2 ^ 47"
    using assms(1) map_span_pos [OF assms(1)] by (simp add: valid_map_def)
  moreover have "unat (of_nat (i * PAGE) :: usize) = i * PAGE"
    using assms(2,3) by (simp only: unat_of_nat) simp
  ultimately show ?thesis using assms(3) by (subst unat_add_no_overflow) simp_all
qed

text \<open>An address lies in the \<open>len\<close> bytes from \<open>sb\<close> on.\<close>

definition in_block :: "usize \<Rightarrow> nat \<Rightarrow> usize \<Rightarrow> bool" where
  "in_block sb len a \<longleftrightarrow> unat sb \<le> unat a \<and> unat a < unat sb + len"

lemma pages_of_block:
  assumes "valid_map (sb, of_nat len)" "len < 2 ^ 32" "PAGE dvd len" "unat a < 2 ^ 50"
  shows "addr_to_key a \<in> (\<lambda>i. addr_to_key (sb + of_nat (i * PAGE))) ` {0..<len div PAGE} \<longleftrightarrow> in_block sb len a"
proof -
  obtain n where n: "len = PAGE * n" using assms(3) by auto
  obtain k where k: "unat sb = PAGE * k" using assms(1) by (auto simp: valid_map_def)
  have P: "0 < PAGE" by (simp add: PAGE_value)
  have "unat sb + len \<le> 2 ^ 47"
    using assms(1,2) map_span_pos [OF assms(1)] by (simp add: valid_map_def unat_of_nat)
  then have key: "addr_to_key a = addr_to_key (sb + of_nat (i * PAGE)) \<longleftrightarrow> unat a div PAGE = k + i"
    if "i < n" for i
  proof -
    have i: "PAGE * i < PAGE * n" using that P by simp
    then have "unat (sb + of_nat (i * PAGE)) = PAGE * (k + i)"
      using unat_page_of_block [OF assms(1,2), of i] n k by (simp add: algebra_simps)
    moreover have "PAGE * (k + i) < 2 ^ 50"
      using i \<open>unat sb + len \<le> 2 ^ 47\<close> n k power_strict_increasing [of 47 50 "2::nat"]
      unfolding distrib_left by linarith
    ultimately show ?thesis using assms(4) P by (subst addr_to_key_eq) simp_all
  qed
  have "addr_to_key a \<in> (\<lambda>i. addr_to_key (sb + of_nat (i * PAGE))) ` {0..<len div PAGE} \<longleftrightarrow>
      (\<exists>i < n. addr_to_key a = addr_to_key (sb + of_nat (i * PAGE)))"
    using P n by (auto simp del: of_nat_mult)
  also have "\<dots> \<longleftrightarrow> (\<exists>i < n. unat a div PAGE = k + i)" using key by blast
  also have "\<dots> \<longleftrightarrow> k \<le> unat a div PAGE \<and> unat a div PAGE < k + n"
    by (auto intro: exI [of _ "unat a div PAGE - k"])
  also have "\<dots> \<longleftrightarrow> in_block sb len a"
    using P unfolding in_block_def n k
    by (metis distrib_left less_eq_div_iff_mult_less_eq mult.commute div_less_iff_less_mult)
  finally show ?thesis .
qed

text \<open>A super block of a heap's class is registered page by page.\<close>

definition heap_class :: "'s alloc_state_scheme \<Rightarrow> nat \<Rightarrow> size_class_data \<Rightarrow> bool" where
  "heap_class s hi c \<longleftrightarrow> (\<exists>hs. heaps s = Some hs \<and> hi < length hs \<and>
     size_class_index (hs ! hi) < length (sc_table s) \<and> sc_table s ! size_class_index (hs ! hi) = c) \<and>
     PAGE dvd sc_sb_size c \<and> sc_sb_size c < 2 ^ 32"

lemma update_page_map_heap:
  assumes "pm_ready s" "heap_class s hi c" "valid_map (sb, of_nat (sc_sb_size c))"
  shows "\<exists>pm. update_page_map (Some hi) sb desc 0 s = Inr (s\<lparr>page_map := pm\<rparr>) \<and>
    (\<forall>a. unat a < 2 ^ 50 \<longrightarrow> pm (addr_to_key a) =
       (if in_block sb (sc_sb_size c) a then info_set_ptr (case desc of None \<Rightarrow> 0 | Some d \<Rightarrow> d) 0
        else page_map s (addr_to_key a)))"
proof -
  let ?info = "info_set_ptr (case desc of None \<Rightarrow> 0 | Some d \<Rightarrow> d) 0"
  let ?f = "\<lambda>i. sb + of_nat (i * PAGE)"
  define pm where "pm = (\<lambda>k. if k \<in> (addr_to_key \<circ> ?f) ` set [0..<sc_sb_size c div PAGE] then ?info
    else page_map s k)"
  have c: "PAGE dvd sc_sb_size c" "sc_sb_size c < 2 ^ 32" using assms(2) by (auto simp: heap_class_def)
  have "sb \<noteq> 0" using assms(3) by (simp add: valid_map_def)
  then have "update_page_map (Some hi) sb desc 0 s = Inr (s\<lparr>page_map := pm\<rparr>)"
    using assms(2) for_each_set_page_info [OF assms(1), of ?f ?info "[0..<sc_sb_size c div PAGE]"]
    by (auto simp: update_page_map_def get_heap_at_def heap_class_def heap_get_size_class_def pm_def Let_def)
  moreover have "pm (addr_to_key a) = (if in_block sb (sc_sb_size c) a then ?info else page_map s (addr_to_key a))"
    if "unat a < 2 ^ 50" for a
    using pages_of_block [OF assms(3) c(2,1) that] by (simp add: pm_def comp_def)
  ultimately show ?thesis by blast
qed

text \<open>C20. Registering a descriptor enters its super block in the page map: afterwards every address
  inside the super block leads to the descriptor, and no other address below the 50-bit limit
  changes its entry. Unregistering the super block makes exactly its addresses unknown.\<close>

theorem register_desc_lookup:
  assumes "pm_ready s" "heap_class s hi c" "desc_addr d" "proc_heap (descs s d) = Some hi"
    and "super_block (descs s d) = Some seg" "valid_map (seg_ptr seg, of_nat (sc_sb_size c))"
  shows "\<exists>s1 s2. register_desc d s = Inr s1 \<and> unregister_desc (Some hi) seg s1 = Inr s2 \<and>
    (\<forall>a. unat a < 2 ^ 50 \<longrightarrow>
       (if in_block (seg_ptr seg) (sc_sb_size c) a
        then rbind (get_page_info_for_ptr a s1) (\<lambda>i. Inr (info_get_desc i)) = Inr (Some d) \<and>
             rbind (get_page_info_for_ptr a s2) (\<lambda>i. Inr (info_get_desc i)) = Inr None
        else get_page_info_for_ptr a s1 = get_page_info_for_ptr a s \<and>
             get_page_info_for_ptr a s2 = get_page_info_for_ptr a s))"
proof -
  obtain pm where pm: "update_page_map (Some hi) (seg_ptr seg) (Some d) 0 s = Inr (s\<lparr>page_map := pm\<rparr>)"
    "\<forall>a. unat a < 2 ^ 50 \<longrightarrow> pm (addr_to_key a) = (if in_block (seg_ptr seg) (sc_sb_size c) a
       then info_set_ptr d 0 else page_map s (addr_to_key a))"
    using update_page_map_heap [OF assms(1,2,6), of "Some d"] by auto
  let ?s1 = "s\<lparr>page_map := pm\<rparr>"
  have s1: "pm_ready ?s1" "heap_class ?s1 hi c" using assms(1,2) by (simp_all add: pm_ready_def heap_class_def)
  obtain pm2 where pm2: "update_page_map (Some hi) (seg_ptr seg) None 0 ?s1 = Inr (?s1\<lparr>page_map := pm2\<rparr>)"
    "\<forall>a. unat a < 2 ^ 50 \<longrightarrow> pm2 (addr_to_key a) = (if in_block (seg_ptr seg) (sc_sb_size c) a
       then info_set_ptr 0 0 else pm (addr_to_key a))"
    using update_page_map_heap [OF s1 assms(6), of None] by auto
  have "info_set_ptr 0 0 = 0" by (simp add: info_set_ptr_def mem_info_defs)
  moreover have "register_desc d s = Inr ?s1"
    using assms(4,5) pm(1) by (simp add: register_desc_def)
  moreover have "unregister_desc (Some hi) seg ?s1 = Inr (?s1\<lparr>page_map := pm2\<rparr>)"
    using pm2(1) by (simp add: unregister_desc_def)
  moreover have "pm_ready (?s1\<lparr>page_map := pm2\<rparr>)" using assms(1) by (simp add: pm_ready_def)
  ultimately have "register_desc d s = Inr ?s1 \<and> unregister_desc (Some hi) seg ?s1 = Inr (?s1\<lparr>page_map := pm2\<rparr>) \<and>
    (\<forall>a. unat a < 2 ^ 50 \<longrightarrow>
       (if in_block (seg_ptr seg) (sc_sb_size c) a
        then rbind (get_page_info_for_ptr a ?s1) (\<lambda>i. Inr (info_get_desc i)) = Inr (Some d) \<and>
             rbind (get_page_info_for_ptr a (?s1\<lparr>page_map := pm2\<rparr>)) (\<lambda>i. Inr (info_get_desc i)) = Inr None
        else get_page_info_for_ptr a ?s1 = get_page_info_for_ptr a s \<and>
             get_page_info_for_ptr a (?s1\<lparr>page_map := pm2\<rparr>) = get_page_info_for_ptr a s))"
    using pm(2) pm2(2) s1(1) assms(1,3)
    by (auto simp: get_page_info_for_ptr_def get_page_info_ready info_get_desc_set)
  then show ?thesis by blast
qed

section \<open>Partial lists\<close>

fun partial_chain :: "(usize \<Rightarrow> descriptor) \<Rightarrow> descriptor_node option \<Rightarrow> usize list \<Rightarrow> bool" where
  "partial_chain ds n [] = (n = None)"
| "partial_chain ds n (d # xs) = (Option.bind n node_get_desc = Some d \<and> d \<notin> set xs \<and>
     partial_chain ds (next_partial (ds d)) xs)"

definition partial_rep :: "nat \<Rightarrow> 's alloc_state_scheme \<Rightarrow> usize list \<Rightarrow> bool" where
  "partial_rep hi s xs \<longleftrightarrow> (\<exists>hs. heaps s = Some hs \<and> hi < length hs \<and>
     partial_chain (descs s) (partial_list (hs ! hi)) xs)"

definition partial_fits :: "nat \<Rightarrow> 's alloc_state_scheme \<Rightarrow> usize list \<Rightarrow> usize \<Rightarrow> bool" where
  "partial_fits hi s xs d \<longleftrightarrow> desc_addr d \<and> d \<notin> set xs \<and> proc_heap (descs s d) = Some hi"

lemma partial_chain_frame:
  "(\<And>d. d \<in> set xs \<Longrightarrow> next_partial (ds' d) = next_partial (ds d)) \<Longrightarrow> partial_chain ds' n xs = partial_chain ds n xs"
  by (induction xs arbitrary: n) auto

lemma list_push_partial_rep:
  assumes "partial_rep hi s xs" "partial_fits hi s xs d"
  shows "\<exists>s'. list_push_partial d s = Inr s' \<and> partial_rep hi s' (d # xs)"
proof -
  obtain hs where hs: "heaps s = Some hs" "hi < length hs" "partial_chain (descs s) (partial_list (hs ! hi)) xs"
    using assms(1) by (auto simp: partial_rep_def)
  let ?ds = "(descs s)(d := (descs s d)\<lparr>next_partial := partial_list (hs ! hi)\<rparr>)"
  have "partial_chain ?ds (partial_list (hs ! hi)) xs"
    using hs(3) assms(2) by (subst partial_chain_frame [of xs ?ds "descs s"]) (auto simp: partial_fits_def)
  then show ?thesis
    using hs(1,2) assms(2)
    by (auto simp: list_push_partial_def get_heap_at_def put_heap_at_def upd_desc_def partial_rep_def
        partial_fits_def Let_def)
qed

lemma list_pop_partial_rep:
  assumes "partial_rep hi s (d # xs)"
  shows "\<exists>s'. list_pop_partial hi s = Inr (Some d, s') \<and> partial_rep hi s' xs \<and> descs s' = descs s"
proof -
  obtain hs where hs: "heaps s = Some hs" "hi < length hs"
    "partial_chain (descs s) (partial_list (hs ! hi)) (d # xs)"
    using assms(1) by (auto simp: partial_rep_def)
  then obtain n where n: "partial_list (hs ! hi) = Some n" "node_get_desc n = Some d"
    by (cases "partial_list (hs ! hi)") auto
  let ?nh = "next_partial (descs s d)"
  obtain nh where nh: "(case ?nh of None \<Rightarrow> Inr None | Some node \<Rightarrow> rbind (unwrap (node_get_desc node))
      (\<lambda>desc. Inr (Some (node_set (Some desc) (node_get_counter node))))) = Inr nh"
    "partial_chain (descs s) nh xs"
  proof (cases xs)
    case Nil
    then show ?thesis using hs(3) that [of None] by simp
  next
    case (Cons e ys)
    then obtain m where m: "?nh = Some m" "node_get_desc m = Some e" "e \<notin> set ys"
      "partial_chain (descs s) (next_partial (descs s e)) ys"
      using hs(3) by (cases ?nh) auto
    then show ?thesis
      using that [of "Some (node_set (Some e) (node_get_counter m))"] node_get_desc_addr [OF m(2)] Cons by simp
  qed
  show ?thesis
    unfolding list_pop_partial_def get_heap_at_def put_heap_at_def Let_def
    using hs(1,2) n nh by (simp add: partial_rep_def)
qed

lemma list_pop_partial_empty: "partial_rep hi s [] \<Longrightarrow> list_pop_partial hi s = Inr (None, s)"
  by (auto simp: partial_rep_def list_pop_partial_def get_heap_at_def)

text \<open>A partial list is a pool of descriptors of one heap.\<close>

definition push_partial_ok :: "usize \<Rightarrow> 's alloc_state_scheme \<Rightarrow> 's alloc_state_scheme" where
  "push_partial_ok d s = projr (list_push_partial d s)"

definition pop_partial_some :: "nat \<Rightarrow> 's alloc_state_scheme \<Rightarrow> (usize \<times> 's alloc_state_scheme) res" where
  "pop_partial_some hi s = rbind (list_pop_partial hi s) (\<lambda>(r, s'). rbind (unwrap r) (\<lambda>d. Inr (d, s')))"

interpretation partials: lifo_pool "partial_rep hi" "partial_fits hi" push_partial_ok "pop_partial_some hi" for hi
proof (unfold_locales, goal_cases)
  case (1 s xs d)
  then show ?case using list_push_partial_rep [of hi s xs d] by (auto simp: push_partial_ok_def)
next
  case (2 s d xs)
  then obtain s' where "list_pop_partial hi s = Inr (Some d, s')" "partial_rep hi s' xs"
    using list_pop_partial_rep [of hi s d xs] by blast
  then show ?case by (simp add: pop_partial_some_def)
qed

lemma retire_simps [simp]:
  "heaps (retire d s) = heaps s" "d_anchor (descs (retire d s) e) = d_anchor (descs s e)"
  "next_partial (descs (retire d s) e) = next_partial (descs s e)"
  "e \<noteq> d \<Longrightarrow> descs (retire d s) e = descs s e"
  by (auto simp: retire_def Let_def)

lemma partial_rep_retire: "partial_rep hi s xs \<Longrightarrow> partial_rep hi (retire d s) xs"
  using partial_chain_frame [of xs "descs (retire d s)" "descs s"] by (auto simp: partial_rep_def)

lemma partial_rep_addr: "partial_rep hi s (d # xs) \<Longrightarrow> desc_addr d \<and> d \<notin> set xs"
  by (auto simp: partial_rep_def bind_eq_Some_conv dest: node_get_desc_addr)

lemma get_heaps_some: "heaps s = Some hs \<Longrightarrow> get_heaps env s = Inr s"
  by (simp add: get_heaps_def)

lemma partial_rep_get_heaps: "partial_rep hi s xs \<Longrightarrow> get_heaps env s = Inr s"
  by (auto simp: partial_rep_def get_heaps_some)

text \<open>One round of the function, on a list that is known.\<close>

lemma malloc_from_partial_Nil:
  "partial_rep sci s [] \<Longrightarrow> malloc_from_partial env sci (s, b, n) = Some (Inr (s, b, n))"
  using partial_rep_get_heaps [of sci s "[]" env] list_pop_partial_empty [of sci s]
  by (subst malloc_from_partial.simps) (simp add: heap_pop_partial_def)

lemma malloc_from_partial_Cons:
  assumes "partial_rep sci s (d # xs)"
  shows "\<exists>s1. partial_rep sci s1 xs \<and> descs s1 = descs s \<and> avail_desc s1 = avail_desc s \<and>
    malloc_from_partial env sci (s, b, n) =
      (if a_state (d_anchor (descs s d)) = EMPTY then malloc_from_partial env sci (retire d s1, b, n)
       else Some (take_partial d (s1, b, n)))"
proof -
  obtain s1 where s1: "list_pop_partial sci s = Inr (Some d, s1)" "partial_rep sci s1 xs" "descs s1 = descs s"
    using list_pop_partial_rep [OF assms] by blast
  have "avail_desc s1 = avail_desc s"
    using s1(1) by (auto simp: list_pop_partial_def put_heap_at_def Let_def rbind_eq_Inr split: option.splits)
  then show ?thesis
    using s1 partial_rep_get_heaps [OF assms, of env]
    by (intro exI [of _ s1], subst malloc_from_partial.simps) (simp add: heap_pop_partial_def)
qed

text \<open>C19. \<^verbatim>\<open>malloc_from_partial\<close> returns for every finite partial list: the descriptors of empty super
  blocks at its front are retired to the free list, in order, and the first descriptor that is
  not empty, when there is one, is taken off the list and its blocks go to the bin; when there is
  none, bin and counter are unchanged and the partial list is empty.\<close>

theorem malloc_from_partial_returns:
  assumes "partial_rep sci s xs" "free_list s fs" "set xs \<inter> set fs = {}"
    and "es = takeWhile (\<lambda>d. a_state (d_anchor (descs s d)) = EMPTY) xs"
  shows "(\<exists>s'. free_list s' (rev es @ fs) \<and>
    (case drop (length es) xs of
       [] \<Rightarrow> partial_rep sci s' [] \<and> malloc_from_partial env sci (s, b, n) = Some (Inr (s', b, n))
     | d # ys \<Rightarrow> partial_rep sci s' ys \<and> descs s' d = descs s d \<and>
         malloc_from_partial env sci (s, b, n) = Some (take_partial d (s', b, n))))"
  using assms
proof (induction xs arbitrary: s fs es)
  case Nil
  then show ?case by (auto simp: malloc_from_partial_Nil)
next
  case (Cons d xs)
  obtain s1 where s1: "partial_rep sci s1 xs" "descs s1 = descs s" "avail_desc s1 = avail_desc s"
    "malloc_from_partial env sci (s, b, n) =
      (if a_state (d_anchor (descs s d)) = EMPTY then malloc_from_partial env sci (retire d s1, b, n)
       else Some (take_partial d (s1, b, n)))"
    using malloc_from_partial_Cons [OF Cons.prems(1)] by blast
  have f: "free_list s1 fs" using Cons.prems(2) s1 by (simp add: free_list_def)
  show ?case
  proof (cases "a_state (d_anchor (descs s d)) = EMPTY")
    case True
    let ?s2 = "retire d s1" and ?es = "tl es"
    have d: "desc_addr d" "d \<notin> set xs" using partial_rep_addr [OF Cons.prems(1)] by auto
    have es: "es = d # ?es" "?es = takeWhile (\<lambda>d. a_state (d_anchor (descs ?s2 d)) = EMPTY) xs"
      using Cons.prems(4) True s1(2) by auto
    have "free_list ?s2 (d # fs)" using f d Cons.prems(3) by (intro retire_free_list) auto
    then obtain s' where s': "free_list s' (rev ?es @ d # fs)" "case drop (length ?es) xs of
       [] \<Rightarrow> partial_rep sci s' [] \<and> malloc_from_partial env sci (?s2, b, n) = Some (Inr (s', b, n))
     | e # ys \<Rightarrow> partial_rep sci s' ys \<and> descs s' e = descs ?s2 e \<and>
         malloc_from_partial env sci (?s2, b, n) = Some (take_partial e (s', b, n))"
      using Cons.IH [OF partial_rep_retire [OF s1(1)] _ _ es(2), of "d # fs"] Cons.prems(3) d by auto
    have "drop (length es) (d # xs) = drop (length ?es) xs" "rev es @ fs = rev ?es @ d # fs"
      by (subst es(1), simp)+
    moreover have "e \<noteq> d" if "drop (length ?es) xs = e # ys" for e ys
      using that d(2) by (metis in_set_dropD list.set_intros(1))
    ultimately show ?thesis
      using s' s1(2,4) True by (intro exI [of _ s']) (auto split: list.splits)
  next
    case False
    then show ?thesis using Cons.prems(4) s1 f by (intro exI [of _ s1]) auto
  qed
qed

section \<open>An initialised state\<close>

text \<open>The state after start-up with nothing allocated yet; of the size classes, class 1 (blocks of 8
  bytes in one page) has its counts filled in.\<close>

definition class_8 :: size_class_data where
  "class_8 = \<lparr>sc_block_size = 8, sc_sb_size = 4096, sc_block_num = 512, sc_cache_block_num = 512\<rparr>"

definition boot_state :: alloc_state where
  "boot_state = map_state.extend (empty_map_state\<lparr>pm_len := 2 ^ 38, sc_table := size_classes[1 := class_8]\<rparr>)
     \<lparr>heaps = Some (map heap_new_none [0..<MAX_SZ_IDX])\<rparr>"

lemma boot_state_simps [simp]:
  "mem boot_state = (\<lambda>_. 0)" "os_maps boot_state = []" "os_calls boot_state = 0" "size_map boot_state = None"
  "avail_desc boot_state = 0" "descs boot_state = (\<lambda>_. descriptor_default)" "pm_len boot_state = 2 ^ 38"
  "page_map boot_state = (\<lambda>_. 0)" "sc_table boot_state = size_classes[1 := class_8]"
  "heaps boot_state = Some (map heap_new_none [0..<MAX_SZ_IDX])"
  by (simp_all add: boot_state_def map_state.defs empty_map_state_def desc_state.defs empty_desc_state_def
      pages_state.defs empty_pages_state_def)

lemma boot_state_ok:
  "pages_ok h boot_state" "free_list boot_state []" "pm_ready boot_state"
  "heap_class boot_state 1 class_8" "sc_table boot_state ! 1 = class_8" "1 < length (sc_table boot_state)"
  "class_ok 512 8 class_8" "hi < MAX_SZ_IDX \<Longrightarrow> partial_rep hi boot_state []"
  using empty_pages_state_ok [of h]
  by (simp_all add: pages_ok_def free_list_def empty_pages_state_def size_map_or_new_def pm_ready_def
      heap_class_def heap_new_none_def mem_info_defs size_classes_def class_8_def class_ok_def partial_rep_def
      del: upt_rec_numeral)

lemma first_desc_alloc:
  assumes "os_maps s = []" "pages_ok h s" "free_list s []"
  shows "\<exists>s1. desc_alloc bump_env h s = Inr (1048576, s1) \<and> os_maps s1 = [(1048576, of_nat DESCRIPTOR_BLOCK_SZ)] \<and>
    free_list s1 (drop 1 (desc_block 1048576 512)) \<and> distinct (desc_block 1048576 512)"
proof -
  obtain s1 where p: "page_alloc bump_env h (of_nat DESCRIPTOR_BLOCK_SZ) s = Inr (Inr 1048576, s1)"
    using page_alloc_granted(1) [OF assms(1,2), of "of_nat DESCRIPTOR_BLOCK_SZ"]
    by (auto simp: mem_info_defs map_span_def round_up_def)
  have "distinct (desc_block 1048576 512)"
    using desc_block_ok(1) page_alloc_mapped [OF bump_env_contract assms(2) p] by blast
  then show ?thesis using desc_alloc_fresh [OF bump_env_contract assms(2,3) p] assms(1) by auto
qed

lemma boot_desc_alloc:
  "\<exists>d s1. desc_alloc bump_env h boot_state = Inr (d, s1) \<and> os_maps s1 = [(1048576, of_nat DESCRIPTOR_BLOCK_SZ)]"
  using first_desc_alloc [of boot_state h] boot_state_ok(1,2) by auto

lemma bump_mmap_second:
  "mmap bump_env nr n [(1048576, of_nat DESCRIPTOR_BLOCK_SZ)] 4096 = 1114112"
  by (simp add: bump_env_def bump_mmap_def map_span_def round_up_def mem_info_defs)

theorem register_desc_lookup_witness:
  "\<exists>s1. register_desc 1048576 (boot_state\<lparr>descs := (\<lambda>_. descriptor_default\<lparr>proc_heap := Some 1,
      super_block := Some \<lparr>seg_ptr = 1114112, seg_length = 4096\<rparr>\<rparr>)\<rparr>) = Inr s1 \<and>
    rbind (get_page_info_for_ptr 1115000 s1) (\<lambda>i. Inr (info_get_desc i)) = Inr (Some 1048576)"
proof -
  let ?s = "boot_state\<lparr>descs := (\<lambda>_. descriptor_default\<lparr>proc_heap := Some 1,
      super_block := Some \<lparr>seg_ptr = 1114112, seg_length = 4096\<rparr>\<rparr>)\<rparr>"
  have "pm_ready ?s" "heap_class ?s 1 class_8"
    using boot_state_ok(3,4) unfolding heap_class_def by (simp_all add: pm_ready_def del: nth_map map_map)
  moreover have "valid_map (1114112, of_nat (sc_sb_size class_8))"
    by (simp add: class_8_def valid_map_def map_span_def round_up_def PAGE_value)
  moreover have "in_block 1114112 (sc_sb_size class_8) 1115000" by (simp add: in_block_def class_8_def)
  moreover have "desc_addr 1048576" by (simp add: desc_addr_def CACHE_LINE_MASK_mask mask_eq_exp_minus_1)
  ultimately show ?thesis
    using register_desc_lookup [of ?s 1 class_8 1048576 "\<lparr>seg_ptr = 1114112, seg_length = 4096\<rparr>"]
    by (auto dest!: spec [of _ "1115000 :: usize"])
qed

text \<open>A state whose heap 1 has one partial super block, with three free blocks from block 5 on.\<close>

definition one_partial :: alloc_state where
  "one_partial = boot_state\<lparr>heaps := Some ((map heap_new_none [0..<MAX_SZ_IDX])
       [1 := \<lparr>partial_list = Some 1048576, size_class_index = 1\<rparr>]),
     descs := (\<lambda>_. descriptor_default\<lparr>proc_heap := Some 1, block_size := 8, max_count := 512,
       super_block := Some \<lparr>seg_ptr = 1114112, seg_length = 4096\<rparr>,
       d_anchor := \<lparr>a_state = PARTIAL, a_avail = 5, a_count = 3\<rparr>\<rparr>)\<rparr>"

theorem malloc_from_partial_returns_witness:
  "\<exists>s' cache'. malloc_from_partial bump_env 1 (one_partial, bin_new, 0) = Some (Inr (s', cache', 1)) \<and>
    block cache' = 1114152 \<and> block_num cache' = 3 \<and> partial_rep 1 s' []"
proof -
  have p: "partial_rep 1 one_partial [1048576]" "free_list one_partial []"
    by (simp_all add: partial_rep_def one_partial_def mem_info_defs node_get_desc_def free_list_def
        descriptor_default_def del: upt_rec_numeral)
  have st: "a_state (d_anchor (descs one_partial d)) = PARTIAL" for d by (simp add: one_partial_def)
  obtain s' where s': "partial_rep 1 s' []" "descs s' 1048576 = descs one_partial 1048576"
    "malloc_from_partial bump_env 1 (one_partial, bin_new, 0) = Some (take_partial 1048576 (s', bin_new, 0))"
    using malloc_from_partial_returns [OF p _ refl, of bump_env bin_new 0] by (auto simp: st)
  then show ?thesis
    by (auto simp: take_partial_def one_partial_def bin_new_def get_bin_block_num_def push_list_def
        upd_desc_def partial_rep_def Let_def)
qed

end
