(* ===== verification/Super_Blocks.thy ===== *)
theory Super_Blocks
  imports Central_Facts
begin

text \<open>
  What a fresh super block looks like to the bin that receives it: the cells that
  \<^verbatim>\<open>malloc_from_new_sb\<close> writes, in either encoding, make the bin a stack of all its blocks in address
  order, and the blocks do not overlap.
\<close>

section \<open>Blocks of a super block\<close>

definition sb_block :: "usize \<Rightarrow> nat \<Rightarrow> nat \<Rightarrow> usize" where
  "sb_block sb bs i = sb + of_nat (bs * i)"

definition sb_blocks :: "usize \<Rightarrow> nat \<Rightarrow> nat \<Rightarrow> usize list" where
  "sb_blocks sb bs n = map (sb_block sb bs) [0..<n]"

lemma block_end_le: "i < n \<Longrightarrow> bs * i + bs \<le> bs * (n :: nat)"
  by (metis Suc_leI add.commute mult_Suc_right mult_le_mono2)

lemma pow2_47_64: "(2 :: nat) ^ 47 < 2 ^ 64"
  by simp

lemma unat_sb_block:
  assumes "unat sb + bs * n \<le> 2 ^ 47" "i < n"
  shows "unat (sb_block sb bs i) = unat sb + bs * i"
proof -
  have lt: "unat sb + bs * i < 2 ^ 64"
    using block_end_le [OF assms(2), of bs] assms(1) pow2_47_64 by linarith
  then have "unat (of_nat (bs * i) :: usize) = bs * i" by (simp only: unat_of_nat) simp
  then show ?thesis unfolding sb_block_def using lt by (subst unat_add_no_overflow) simp_all
qed

lemma sb_block_Suc: "sb_block sb bs i + of_nat bs = sb_block sb bs (Suc i)"
  by (simp add: sb_block_def)

lemma cells_apart_unat:
  assumes "unat a + 8 \<le> unat b" "unat b \<le> 2 ^ 47" shows "cells_apart a b"
proof -
  have "unat (b - a) = unat b - unat a" using assms by (intro unat_sub_le) (simp add: word_le_nat_alt)
  moreover have "unat (a - b) = 2 ^ 64 + unat a - unat b"
    using assms(1) by (simp add: unat_sub_if')
  moreover have "unat b - unat a \<ge> 8" "2 ^ 64 + unat a - unat b \<ge> 8" using assms by simp_all
  ultimately show ?thesis by (simp add: cells_apart_def word_le_nat_alt)
qed

lemma sb_blocks_apart:
  assumes "unat sb + bs * n \<le> 2 ^ 47" "8 \<le> bs" "i < n" "j < n" "i \<noteq> j"
  shows "cells_apart (sb_block sb bs i) (sb_block sb bs j)"
proof -
  have apart: "cells_apart (sb_block sb bs a) (sb_block sb bs b)" if "a < b" "b < n" for a b
  proof (rule cells_apart_unat)
    have u: "unat (sb_block sb bs a) = unat sb + bs * a" "unat (sb_block sb bs b) = unat sb + bs * b"
      using that assms(1) by (auto intro: unat_sb_block)
    show "unat (sb_block sb bs a) + 8 \<le> unat (sb_block sb bs b)"
      using u assms(2) block_end_le [OF that(1), of bs] by linarith
    show "unat (sb_block sb bs b) \<le> 2 ^ 47" using u assms(1) block_end_le [OF that(2), of bs] by linarith
  qed
  show ?thesis using assms apart cells_apart_sym by (metis nat_neq_iff)
qed

lemma apart_all_map:
  assumes "distinct is" "\<And>i j. i \<in> set is \<Longrightarrow> j \<in> set is \<Longrightarrow> i \<noteq> j \<Longrightarrow> cells_apart (f i) (f j)"
  shows "apart_all (map f is)"
  using assms by (induction "is") auto

lemma sb_blocks_ok:
  assumes "unat sb + bs * n \<le> 2 ^ 47" "8 \<le> bs" "sb \<noteq> 0"
  shows "apart_all (sb_blocks sb bs n) \<and> 0 \<notin> set (sb_blocks sb bs n) \<and> - 1 \<notin> set (sb_blocks sb bs n)"
proof -
  have u: "unat sb \<le> unat (sb_block sb bs i) \<and> unat (sb_block sb bs i) \<le> 2 ^ 47" if "i < n" for i
    using unat_sb_block [OF assms(1) that] assms(1) block_end_le [OF that, of bs] by linarith
  have "unat sb \<noteq> 0" using assms(3) by (simp add: unat_eq_zero)
  then have "sb_block sb bs i \<noteq> 0 \<and> sb_block sb bs i \<noteq> - 1" if "i < n" for i
  proof -
    have "unat (- 1 :: usize) = 18446744073709551615" by (simp add: unsigned_minus_1_eq_mask mask_eq_exp_minus_1)
    then have "unat (sb_block sb bs i) \<noteq> unat (- 1 :: usize)" using u [OF that] by simp
    moreover have "unat (sb_block sb bs i) \<noteq> 0" using u [OF that] \<open>unat sb \<noteq> 0\<close> by linarith
    ultimately show ?thesis by (metis unat_0)
  qed
  then have "0 \<notin> set (sb_blocks sb bs n)" "- 1 \<notin> set (sb_blocks sb bs n)" by (fastforce simp: sb_blocks_def)+
  then show ?thesis
    using sb_blocks_apart [OF assms(1,2)] unfolding sb_blocks_def by (auto intro!: apart_all_map)
qed

section \<open>The cells\<close>

lemma load64_zero: "(\<And>i. i < 8 \<Longrightarrow> m (a + of_nat i) = 0) \<Longrightarrow> load64 m a = 0"
proof -
  assume "\<And>i. i < 8 \<Longrightarrow> m (a + of_nat i) = 0"
  then have "map (\<lambda>i. m (a + of_nat i)) [0..<8] = replicate 8 0"
    by (intro nth_equalityI) (auto simp del: upt_rec_numeral)
  then show ?thesis unfolding load64_def by (simp add: numeral_eq_Suc del: upt_Suc upt_rec_numeral)
qed

lemma load64_zero_span:
  assumes "unat sb + bs * n \<le> 2 ^ 47" "8 \<le> bs" "i < n" "bs * n \<le> map_span len"
  shows "load64 (zero_span sb len m) (sb_block sb bs i) = 0"
proof (rule load64_zero)
  fix k :: nat assume k: "k < 8"
  have lt: "bs * i + k < bs * n" using k assms(2) block_end_le [OF assms(3), of bs] by linarith
  then have "bs * i + k < 2 ^ 64" using assms(1) pow2_47_64 by linarith
  then have "unat (of_nat (bs * i + k) :: usize) = bs * i + k" by (simp only: unat_of_nat) simp
  moreover have "sb_block sb bs i + of_nat k - sb = of_nat (bs * i + k)" by (simp add: sb_block_def)
  ultimately have "unat (sb_block sb bs i + of_nat k - sb) = bs * i + k" by (simp only:)
  then show "zero_span sb len m (sb_block sb bs i + of_nat k) = 0"
    using lt assms(4) by (simp add: zero_span_def)
qed

text \<open>The pointer cells written by the loop of the \<^verbatim>\<open>no_met_stack\<close> build.\<close>

lemma init_blocks_loop:
  assumes "unat sb + bs * n \<le> 2 ^ 47" "8 \<le> bs" "k \<le> n"
    and "fold (\<lambda>i (m', lst). (store64 m' (sb_block sb bs i) lst, sb_block sb bs i)) (rev [k..<n]) (m, 0) = (m', lst)"
  shows "lst = (if k < n then sb_block sb bs k else 0) \<and>
    (\<forall>j. k \<le> j \<and> j < n \<longrightarrow> load64 m' (sb_block sb bs j) = (if Suc j < n then sb_block sb bs (Suc j) else 0))"
  using assms(3,4)
proof (induction k arbitrary: m' lst rule: inc_induct)
  case base
  then show ?case by auto
next
  case (step k)
  let ?f = "\<lambda>i (m', lst). (store64 m' (sb_block sb bs i) lst, sb_block sb bs i)"
  obtain m1 l1 where m1: "fold ?f (rev [Suc k..<n]) (m, 0) = (m1, l1)"
    by (cases "fold ?f (rev [Suc k..<n]) (m, 0)")
  have "rev [k..<n] = rev [Suc k..<n] @ [k]" using step.hyps by (simp add: upt_conv_Cons)
  then have m': "m' = store64 m1 (sb_block sb bs k) l1" "lst = sb_block sb bs k"
    using step.prems m1 by auto
  have "load64 m' (sb_block sb bs j) = (if Suc j < n then sb_block sb bs (Suc j) else 0)" if "k \<le> j" "j < n" for j
  proof (cases "j = k")
    case True
    then show ?thesis using step.IH [OF m1] m' by (simp add: bytes.load_same)
  next
    case False
    then have "load64 m' (sb_block sb bs j) = load64 m1 (sb_block sb bs j)"
      using that step.hyps sb_blocks_apart [OF assms(1,2), of k j] m' by (simp add: bytes.load_apart)
    then show ?thesis using step.IH [OF m1] that False by simp
  qed
  then show ?case using m'(2) step.hyps by simp
qed

lemma init_blocks_next:
  assumes "unat sb + bs * n \<le> 2 ^ 47" "8 \<le> bs" "Suc j < n" "sb \<noteq> 0"
    and "\<And>i. i < n \<Longrightarrow> load64 m (sb_block sb bs i) = 0"
  shows "next_of nm (Some bs) (load64 (init_blocks nm sb bs n m) (sb_block sb bs j)) (sb_block sb bs j) =
    sb_block sb bs (Suc j)"
proof (cases nm)
  case True
  obtain m' lst where f: "fold (\<lambda>i (m', lst). (store64 m' (sb_block sb bs i) lst, sb_block sb bs i))
      (rev [0..<n]) (m, 0) = (m', lst)"
    by (cases "fold (\<lambda>i (m', lst). (store64 m' (sb_block sb bs i) lst, sb_block sb bs i)) (rev [0..<n]) (m, 0)")
  then have "init_blocks nm sb bs n m = m'" using True by (simp add: init_blocks_def sb_block_def)
  then show ?thesis
    using conjunct2 [OF init_blocks_loop [OF assms(1,2) _ f], rule_format, of j] True assms(3)
    by (simp add: next_of_def)
next
  case False
  have "sb + of_nat (bs * n) - of_nat bs = sb_block sb bs (n - 1)"
    using assms(3) by (cases n) (simp_all add: sb_block_def algebra_simps)
  then have "load64 (init_blocks nm sb bs n m) (sb_block sb bs j) = 0"
    using False assms(3,5) sb_blocks_apart [OF assms(1,2), of "n - 1" j]
    by (simp add: init_blocks_def bytes.load_apart)
  then show ?thesis using False sb_block_Suc [of sb bs j] by (simp add: next_of_def)
qed

lemma init_blocks_bin:
  assumes "unat sb + bs * n \<le> 2 ^ 47" "8 \<le> bs" "sb \<noteq> 0"
    and "\<And>i. i < n \<Longrightarrow> load64 m (sb_block sb bs i) = 0"
  shows "bin_rep nm (init_blocks nm sb bs n m, b\<lparr>block := sb, block_num := n, bin_block_size := Some bs\<rparr>)
    (sb_blocks sb bs n)"
proof -
  have "chain (\<lambda>q. next_of nm (Some bs) (load64 (init_blocks nm sb bs n m) q) q) (sb_block sb bs 0) n =
      map (sb_block sb bs) [0..<0 + n]"
    using init_blocks_next [OF assms(1,2) _ assms(3,4)] by (intro chain_arith) simp
  moreover have "sb_block sb bs 0 = sb" by (simp add: sb_block_def)
  ultimately show ?thesis
    using sb_blocks_ok [OF assms(1-3)] by (simp add: bin_rep_def bin_blocks_def sb_blocks_def)
qed

section \<open>A new super block\<close>

lemma upd_desc_simps [simp]:
  "descs (upd_desc d f s) = (descs s)(d := f (descs s d))" "mem (upd_desc d f s) = mem s"
  "os_maps (upd_desc d f s) = os_maps s" "os_calls (upd_desc d f s) = os_calls s"
  "avail_desc (upd_desc d f s) = avail_desc s"
  by (simp_all add: upd_desc_def)

lemma upd_desc_alloc_simps [simp]:
  "heaps (upd_desc d f s) = heaps s" "sc_table (upd_desc d f s) = sc_table s"
  "pm_len (upd_desc d f s) = pm_len s" "page_map (upd_desc d f s) = page_map s"
  "sc_lookup (upd_desc d f s) = sc_lookup s" "alloc_state.more (upd_desc d f s) = alloc_state.more s"
  by (simp_all add: upd_desc_def)

lemma page_alloc_frame:
  fixes s :: "'s alloc_state_scheme"
  assumes "page_alloc env h sz s = Inr (Inr p, s1)"
  shows "heaps s1 = heaps s \<and> sc_table s1 = sc_table s \<and> sc_lookup s1 = sc_lookup s \<and> pm_len s1 = pm_len s \<and>
    page_map s1 = page_map s \<and> alloc_state.more s1 = alloc_state.more s"
  using assms by (auto simp: page_alloc_def seg_allocate_def map_segment_def Let_def rbind_eq_Inr
      split: if_splits prod.splits sum.splits)

lemma desc_alloc_frame:
  fixes s :: "'s alloc_state_scheme"
  assumes "mmap_contract env" "pages_ok h s" "desc_alloc env h s = Inr (d, s1)"
  shows "desc_addr d \<and> pages_ok h s1 \<and> heaps s1 = heaps s \<and> sc_table s1 = sc_table s \<and>
    sc_lookup s1 = sc_lookup s \<and> pm_len s1 = pm_len s \<and> page_map s1 = page_map s \<and>
    alloc_state.more s1 = alloc_state.more s"
proof (cases "node_get_desc (avail_desc s)")
  case None
  then obtain p s0 ds where p: "page_alloc env h (of_nat DESCRIPTOR_BLOCK_SZ) s = Inr (Inr p, s0)" "d = p"
    "s1 = s0\<lparr>descs := ds, avail_desc := node_set (Some (p + of_nat size_of_descriptor)) 0\<rparr>"
    using assms(3) by (auto simp: desc_alloc_def Let_def rbind_def split: sum.splits)
  have "valid_map (p, of_nat DESCRIPTOR_BLOCK_SZ)" "pages_ok h s0"
    using page_alloc_mapped [OF assms(1,2) p(1)] by auto
  moreover have "desc_block p 512 = p # drop 1 (desc_block p 512)" using desc_block_Cons [of p 511] by simp
  then have "p \<in> set (desc_block p 512)" by (metis list.set_intros(1))
  ultimately have "desc_addr p" using desc_block_ok(2) by blast
  then show ?thesis
    using p(2,3) \<open>pages_ok h s0\<close> page_alloc_frame [OF p(1)] by (simp add: pages_ok_def size_map_or_new_def)
next
  case (Some e)
  then have s1: "d = e" "\<exists>a. s1 = s\<lparr>avail_desc := a\<rparr>" using assms(3) by (auto simp: desc_alloc_def Let_def)
  then show ?thesis using assms(2) node_get_desc_addr [OF Some] by (auto simp: pages_ok_def size_map_or_new_def)
qed

lemma map_span_pages: "PAGE dvd len \<Longrightarrow> len < 2 ^ 32 \<Longrightarrow> map_span (of_nat len) = len"
proof -
  assume l: "PAGE dvd len" "len < 2 ^ 32"
  then have "unat (of_nat len :: usize) = len" by (simp add: unat_of_nat)
  moreover have "round_up len PAGE = len"
    using round_up_ge [of PAGE len] round_up_least [of PAGE len len] l(1) by (simp add: PAGE_value)
  ultimately show ?thesis by (simp add: map_span_def)
qed

lemma filled_page_info:
  assumes "pm_ready s" "\<forall>a. unat a < 2 ^ 50 \<longrightarrow> in_block sb len a \<longrightarrow> page_map s (addr_to_key a) = x"
    and "unat sb + len \<le> 2 ^ 47" "in_block sb len a"
  shows "get_page_info a s = Inr x"
proof -
  have "unat a < 2 ^ 50" using assms(3,4) power_strict_increasing [of 47 50 "2::nat"] unfolding in_block_def by simp
  then show ?thesis using assms by (simp add: get_page_info_ready)
qed

lemma fresh_super_block:
  assumes "valid_map (sb, of_nat (sc_sb_size c))" "class_ok target bs c"
  shows "unat sb + sc_sb_size c \<le> 2 ^ 47" "unat sb + bs * sc_block_num c \<le> 2 ^ 47" "sb \<noteq> 0"
    "8 \<le> bs \<Longrightarrow> bin_rep nm (init_blocks nm sb bs (sc_block_num c) (zero_span sb (of_nat (sc_sb_size c)) m),
      cache\<lparr>block := sb, block_num := sc_block_num c, bin_block_size := Some bs\<rparr>) (sb_blocks sb bs (sc_block_num c))"
proof -
  have c: "PAGE dvd sc_sb_size c" "sc_sb_size c < 2 ^ 32" "sc_block_num c = sc_sb_size c div bs"
    using assms(2) by (auto simp: class_ok_def)
  have le: "bs * sc_block_num c \<le> sc_sb_size c" by (simp add: c(3))
  show sb: "unat sb + sc_sb_size c \<le> 2 ^ 47" "unat sb + bs * sc_block_num c \<le> 2 ^ 47" "sb \<noteq> 0"
    using assms(1) le map_span_pages [OF c(1,2)] by (auto simp: valid_map_def)
  assume bs: "8 \<le> bs"
  show "bin_rep nm (init_blocks nm sb bs (sc_block_num c) (zero_span sb (of_nat (sc_sb_size c)) m),
      cache\<lparr>block := sb, block_num := sc_block_num c, bin_block_size := Some bs\<rparr>) (sb_blocks sb bs (sc_block_num c))"
    using load64_zero_span [OF sb(2) bs, of _ "of_nat (sc_sb_size c)" m] le map_span_pages [OF c(1,2)]
    by (intro init_blocks_bin sb bs) simp
qed

lemma malloc_from_new_sb_fresh:
  fixes s :: "'s alloc_state_scheme"
  assumes env: "mmap_contract env" "pages_ok h s" "pm_ready s"
    and cls: "heap_class s sci c" "sci < length (sc_table s)" "sc_table s ! sci = c" "class_ok target bs c" "8 \<le> bs"
    and cache: "block_num cache = 0"
    and granted: "desc_alloc env h s = Inr (d, s1)"
      "sb = mmap env False (os_calls s1) (os_maps s1) (of_nat (sc_sb_size c))" "sb \<noteq> MAP_FAILED"
  shows "\<exists>s'. malloc_from_new_sb env h nm sci (s, cache, n) =
      Inr (s', cache\<lparr>block := sb, block_num := sc_block_num c\<rparr>, n + sc_block_num c) \<and>
    bin_rep nm (mem s', cache\<lparr>block := sb, block_num := sc_block_num c, bin_block_size := Some bs\<rparr>)
      (sb_blocks sb bs (sc_block_num c)) \<and>
    os_maps s' = (sb, of_nat (sc_sb_size c)) # os_maps s1 \<and> maps_ok (os_maps s') \<and>
    (\<forall>a. in_block sb (sc_sb_size c) a \<longrightarrow> get_page_info a s' = Inr d) \<and> desc_addr d \<and>
    sc_table s' = sc_table s \<and> sc_lookup s' = sc_lookup s \<and> alloc_state.more s' = alloc_state.more s \<and>
    descs s' d = (descs s1 d)\<lparr>proc_heap := Some sci, block_size := bs, max_count := sc_block_num c,
      super_block := Some \<lparr>seg_ptr = sb, seg_length = of_nat (sc_sb_size c)\<rparr>,
      d_anchor := fresh_anchor (sc_block_num c)\<rparr>"
proof -
  let ?len = "of_nat (sc_sb_size c) :: usize" and ?bn = "sc_block_num c"
  have c: "sc_block_size c = bs" using cls(4) by (simp add: class_ok_def)
  note fr = desc_alloc_frame [OF env(1,2) granted(1)]
  have v: "valid_map (sb, ?len)" "\<forall>r \<in> set (os_maps s1). maps_disjoint (sb, ?len) r"
    using mmap_contractD [OF env(1)] granted(2,3) by auto
  note sb = fresh_super_block [OF v(1) cls(4)]
  define seg where "seg = \<lparr>seg_ptr = sb, seg_length = ?len\<rparr>"
  define d' where "d' = (descs s1 d)\<lparr>proc_heap := Some sci, block_size := bs, max_count := ?bn,
      super_block := Some seg, d_anchor := fresh_anchor ?bn\<rparr>"
  define m where "m = zero_span sb ?len (mem s1)"
  define s3 where "s3 = (upd_desc d (\<lambda>r. r\<lparr>proc_heap := Some sci, block_size := bs, max_count := ?bn\<rparr>) s1)
    \<lparr>os_calls := Suc (os_calls s1), mem := m, os_maps := (sb, ?len) # os_maps s1\<rparr>"
  define s6 where "s6 = upd_desc d (\<lambda>q. q\<lparr>d_anchor := fresh_anchor ?bn\<rparr>)
    ((upd_desc d (\<lambda>q. q\<lparr>super_block := Some seg\<rparr>) s3)\<lparr>mem := init_blocks nm sb bs ?bn m\<rparr>)"
  have s6: "descs s6 = (descs s1)(d := d')" "mem s6 = init_blocks nm sb bs ?bn m"
    "os_maps s6 = (sb, ?len) # os_maps s1" "heaps s6 = heaps s1" "sc_table s6 = sc_table s1" "pm_len s6 = pm_len s1"
    "sc_lookup s6 = sc_lookup s1" "alloc_state.more s6 = alloc_state.more s1"
    by (simp_all add: s6_def s3_def d'_def)
  have hc: "heap_class s6 sci c" "pm_ready s6"
    using cls(1) env(3) fr by (auto simp: heap_class_def s6 pm_ready_def)
  obtain pm where pm: "update_page_map (Some sci) sb (Some d) 0 s6 = Inr (s6\<lparr>page_map := pm\<rparr>)"
    "\<forall>a. unat a < 2 ^ 50 \<longrightarrow> in_block sb (sc_sb_size c) a \<longrightarrow> pm (addr_to_key a) = info_set_ptr d 0"
    using update_page_map_heap [OF hc(2,1) v(1), of "Some d"] by auto
  have "get_heap_at sci s = Inr (the (heaps s) ! sci)" "get_heaps env s = Inr s"
    using cls(1) by (auto simp: heap_class_def get_heap_at_def get_heaps_def)
  moreover have "index_list (sc_table s) sci = Inr c" using cls(2,3) by simp
  moreover have "map_segment env False ?len (upd_desc d (\<lambda>r. r\<lparr>proc_heap := Some sci, block_size := bs,
      max_count := ?bn\<rparr>) s1) = (Inr seg, s3)"
    using granted(2,3) by (simp add: map_segment_def seg_def m_def s3_def Let_def)
  moreover have "register_desc d s6 = Inr (s6\<lparr>page_map := pm\<rparr>)"
    using pm(1) by (simp add: register_desc_def s6 d'_def seg_def)
  moreover have "seg_ptr seg = sb" "mem s3 = m" by (simp_all add: seg_def s3_def)
  ultimately have "malloc_from_new_sb env h nm sci (s, cache, n) =
      Inr (s6\<lparr>page_map := pm\<rparr>, cache\<lparr>block := sb, block_num := ?bn\<rparr>, n + ?bn)"
    using granted(1) cache c
    by (simp add: malloc_from_new_sb_def new_super_block_def seg_allocate_def push_list_def
        get_block_num_def s6_def)
  moreover have "bin_rep nm (init_blocks nm sb bs ?bn m,
      cache\<lparr>block := sb, block_num := ?bn, bin_block_size := Some bs\<rparr>) (sb_blocks sb bs ?bn)"
    unfolding m_def by (rule sb(4) [OF cls(5)])
  moreover have "get_page_info a (s6\<lparr>page_map := pm\<rparr>) = Inr d" if "in_block sb (sc_sb_size c) a" for a
  proof (rule filled_page_info [OF _ _ sb(1) that])
    have "info_set_ptr d 0 = d"
      using info_get_desc_set [of d] fr by (auto simp: info_get_desc_def split: if_splits)
    then show "\<forall>a. unat a < 2 ^ 50 \<longrightarrow> in_block sb (sc_sb_size c) a \<longrightarrow> page_map (s6\<lparr>page_map := pm\<rparr>) (addr_to_key a) = d"
      using pm(2) by simp
  qed (use hc(2) in \<open>simp add: pm_ready_def\<close>)
  moreover have "maps_ok ((sb, ?len) # os_maps s1)" using v fr by (simp add: pages_ok_def)
  ultimately show ?thesis using fr by (intro exI [of _ "s6\<lparr>page_map := pm\<rparr>"]) (auto simp: s6 d'_def seg_def)
qed

end
