(* ===== verification/Thread_Cache.thy ===== *)
theory Thread_Cache
  imports Super_Blocks
begin

text \<open>
  \<^verbatim>\<open>fill_cache\<close> and \<^verbatim>\<open>flush_cache\<close> of \<^verbatim>\<open>src/thread_cache.rs\<close> and the callbacks \<^verbatim>\<open>check\<close>, \<^verbatim>\<open>fetch\<close> and
  \<^verbatim>\<open>ret\<close> that the tuner of a size class is given. A thread works on the shared state and on one
  bin. The checks under \<^verbatim>\<open>debug_assertions\<close> are not modelled.
\<close>

section \<open>Filling\<close>

definition fill_cache ::
  "os_env \<Rightarrow> (usize \<Rightarrow> nat) \<Rightarrow> bool \<Rightarrow> nat \<Rightarrow> 's alloc_state_scheme \<times> bin \<Rightarrow>
   ('s alloc_state_scheme \<times> bin) res option" where
  "fill_cache env h nm sci x =
     (let (s, cache) = x in
      case malloc_from_partial env sci (s, cache, 0) of
        None \<Rightarrow> None
      | Some r \<Rightarrow> Some (
          rbind r (\<lambda>(s1, cache1, got1).
          rbind (if got1 = 0 then malloc_from_new_sb env h nm sci (s1, cache1, got1)
                 else Inr (s1, cache1, got1)) (\<lambda>(s2, cache2, got2).
          if got2 = 0 \<or> block_num cache2 = 0
          then Inl (Panic ''Didn't allocate any blocks to the cache.'')
          else rbind (index_list (sc_table s2) sci) (\<lambda>c.
            Inr (s2, cache2\<lparr>bin_block_size := Some (sc_block_size c)\<rparr>))))))"

section \<open>Flushing\<close>

text \<open>The blocks at the top of the bin that follow each other inside one super block.\<close>

function flush_run :: "memory \<Rightarrow> usize \<Rightarrow> nat \<Rightarrow> nat \<Rightarrow> usize \<Rightarrow> nat \<Rightarrow> usize \<times> nat" where
  "flush_run m sb sb_size limit tail block_count =
     (if limit > block_count then
        let ptr = load64 m tail in
        if ptr < sb \<or> ptr \<ge> sb + of_nat sb_size then (tail, block_count)
        else flush_run m sb sb_size limit ptr (Suc block_count)
      else (tail, block_count))"
  by pat_completeness auto
termination
  by (relation "measure (\<lambda>(m, sb, sb_size, limit, tail, block_count). limit - block_count)") auto

declare flush_run.simps [simp del]

text \<open>The anchor after a run of \<open>block_count\<close> blocks whose first is block \<open>index\<close> was returned.\<close>

definition flush_anchor :: "anchor \<Rightarrow> nat \<Rightarrow> nat \<Rightarrow> nat \<Rightarrow> anchor" where
  "flush_anchor old mc index block_count =
     (let a = set_avail index old;
          b = (if a_state old = FULL then set_state PARTIAL a else a)
      in if a_count old + block_count = mc then set_state EMPTY (set_count (mc - 1) b)
         else set_count block_count b)"

definition flush_step ::
  "os_env \<Rightarrow> nat \<Rightarrow> size_class_data \<Rightarrow> 's alloc_state_scheme \<times> bin \<Rightarrow>
   ('s alloc_state_scheme \<times> bin) option res" where
  "flush_step env sci c x =
     (let (s, cache) = x; head = peek_block cache in
      rbind (get_page_info_for_ptr head s) (\<lambda>info.
      case info_get_desc info of
        None \<Rightarrow> Inr None
      | Some d \<Rightarrow>
          rbind (unwrap (super_block (descs s d))) (\<lambda>seg.
          let sb = seg_ptr seg;
              (tail, block_count) = flush_run (mem s) sb (sc_sb_size c) (get_bin_block_num cache) head 1
          in rbind (pop_list (load64 (mem s) tail) block_count cache) (\<lambda>cache'.
             rbind (compute_index sb head sci) (\<lambda>index.
             let old_anchor = d_anchor (descs s d);
                 nxt = sb + of_nat (a_avail old_anchor * sc_block_size c);
                 new_anchor = flush_anchor old_anchor (max_count (descs s d)) (unat index) block_count;
                 s1 = upd_desc d (\<lambda>q. q\<lparr>d_anchor := new_anchor\<rparr>) (s\<lparr>mem := store64 (mem s) tail nxt\<rparr>)
             in if a_state new_anchor = EMPTY then
                  rbind (unregister_desc (Some sci) seg s1) (\<lambda>s2.
                  let s3 = upd_desc d (\<lambda>q. q\<lparr>super_block := None\<rparr>) s2;
                      (_, s4) = seg_deallocate env seg s3
                  in Inr (Some (s4, cache')))
                else if a_state old_anchor = FULL then
                  rbind (heap_push_partial d s1) (\<lambda>s2. Inr (Some (s2, cache')))
                else Inr (Some (s1, cache')))))))"

lemma flush_run_pos: "n \<le> snd (flush_run m sb len limit tail n)"
proof (induction m sb len limit tail n rule: flush_run.induct)
  case (1 m sb len limit tail n)
  then show ?case by (subst flush_run.simps) (auto simp: Let_def)
qed

lemma flush_step_decreases:
  assumes "flush_step env sci c (s, cache) = Inr (Some (s', cache'))" "0 < block_num cache"
  shows "block_num cache' < block_num cache"
proof -
  have "\<exists>nx sb. pop_list nx (snd (flush_run (mem s) sb (sc_sb_size c) (get_bin_block_num cache)
      (peek_block cache) 1)) cache = Inr cache'"
    using assms(1) unfolding flush_step_def Let_def
    by (auto simp: rbind_def case_prod_unfold split: option.splits sum.splits if_splits)
  then obtain nx k where "1 \<le> k" "pop_list nx k cache = Inr cache'" using flush_run_pos by blast
  then show ?thesis using assms(2) by (auto simp: pop_list_def split: if_splits)
qed

text \<open>Flushing until the bin is empty, or until its top block has no descriptor.\<close>

function flush_loop ::
  "os_env \<Rightarrow> nat \<Rightarrow> size_class_data \<Rightarrow> 's alloc_state_scheme \<times> bin \<Rightarrow> ('s alloc_state_scheme \<times> bin) res" where
  "flush_loop env sci c x =
     (if block_num (snd x) = 0 then Inr (fst x, (snd x)\<lparr>bin_block_size := None\<rparr>)
      else case flush_step env sci c x of
             Inl e \<Rightarrow> Inl e
           | Inr None \<Rightarrow> Inr x
           | Inr (Some x') \<Rightarrow> flush_loop env sci c x')"
  by pat_completeness auto
termination
  using flush_step_decreases
  by (relation "measure (\<lambda>(env, sci, c, s, cache). block_num cache)") fastforce+

declare flush_loop.simps [simp del]

definition flush_cache ::
  "os_env \<Rightarrow> nat \<Rightarrow> 's alloc_state_scheme \<times> bin \<Rightarrow> ('s alloc_state_scheme \<times> bin) res" where
  "flush_cache env sci x =
     rbind (get_heaps env (fst x)) (\<lambda>s.
     rbind (get_heap_at sci s) (\<lambda>_.
     rbind (index_list (sc_table s) sci) (\<lambda>c.
     flush_loop env sci c (s, snd x))))"

text \<open>\<^verbatim>\<open>Drop for ThreadCache\<close>: every bin that records its block size is flushed to the class of that size. No thread
  runs it, because the thread local is an array of bins.\<close>

fun thread_cache_drop :: "os_env \<Rightarrow> 's alloc_state_scheme \<times> bin list \<Rightarrow> ('s alloc_state_scheme \<times> bin list) res" where
  "thread_cache_drop env (s, []) = Inr (s, [])"
| "thread_cache_drop env (s, b # bs) =
     rbind (case bin_block_size b of
         Some sz \<Rightarrow> flush_cache env (get_size_class (sc_lookup s) sz) (s, b)
       | None \<Rightarrow> Inr (s, b)) (\<lambda>(s', b').
     rbind (thread_cache_drop env (s', bs)) (\<lambda>(s'', bs'). Inr (s'', b' # bs')))"

section \<open>The tuner's callbacks\<close>

definition check_bin :: "bin \<Rightarrow> nat" where
  "check_bin cache = get_bin_block_num cache"

partial_function (option) fetch_loop ::
  "os_env \<Rightarrow> (usize \<Rightarrow> nat) \<Rightarrow> bool \<Rightarrow> nat \<Rightarrow> nat \<Rightarrow> 's fill \<Rightarrow> 's fill res option" where
  "fetch_loop env h nm sci count x =
     (if snd (snd x) < count then
        case malloc_count_from_new_sb env h nm sci count x of
          Inl e \<Rightarrow> Some (Inl e)
        | Inr x' \<Rightarrow> fetch_loop env h nm sci count x'
      else Some (Inr x))"

definition fetch ::
  "os_env \<Rightarrow> (usize \<Rightarrow> nat) \<Rightarrow> bool \<Rightarrow> nat \<Rightarrow> nat \<Rightarrow> 's alloc_state_scheme \<times> bin \<Rightarrow>
   (bool \<times> 's alloc_state_scheme \<times> bin) res option" where
  "fetch env h nm sci count x =
     (case malloc_count_from_partial env nm sci count (fst x, snd x, 0) of
        None \<Rightarrow> None
      | Some (Inl e) \<Rightarrow> Some (Inl e)
      | Some (Inr y) \<Rightarrow>
          map_option (\<lambda>r. rbind r (\<lambda>(s, cache, got). Inr (False, s, cache)))
            (fetch_loop env h nm sci count y))"

definition ret ::
  "bool \<Rightarrow> nat \<Rightarrow> 's alloc_state_scheme \<times> bin \<Rightarrow> (bool \<times> 's alloc_state_scheme \<times> bin) res" where
  "ret nm count x =
     (let (s, cache) = x in
      if \<not> count \<le> get_bin_block_num cache then Inl AssertFailed
      else rbind (pop_many (pop_block nm) count (mem s, cache)) (\<lambda>(_, m, cache').
        Inr (True, s\<lparr>mem := m\<rparr>, cache')))"

section \<open>Filling an empty bin\<close>

lemma fill_cache_new_sb:
  fixes s :: "'s alloc_state_scheme"
  assumes env: "mmap_contract env" "pages_ok h s" "pm_ready s"
    and cls: "heap_class s sci c" "sci < length (sc_table s)" "sc_table s ! sci = c" "class_ok target bs c" "8 \<le> bs"
    and bin: "block_num cache = 0" and part: "partial_rep sci s []"
    and granted: "desc_alloc env h s = Inr (d, s1)"
      "sb = mmap env False (os_calls s1) (os_maps s1) (of_nat (sc_sb_size c))" "sb \<noteq> MAP_FAILED"
  shows "\<exists>s' cache'. fill_cache env h nm sci (s, cache) = Some (Inr (s', cache')) \<and>
    bin_block_size cache' = Some bs \<and> bin_rep nm (mem s', cache') (sb_blocks sb bs (sc_block_num c)) \<and>
    os_maps s' = (sb, of_nat (sc_sb_size c)) # os_maps s1 \<and> maps_ok (os_maps s') \<and>
    (\<forall>a. in_block sb (sc_sb_size c) a \<longrightarrow> get_page_info a s' = Inr d) \<and> desc_addr d \<and>
    block_size (descs s' d) = bs \<and> sc_table s' = sc_table s \<and> sc_lookup s' = sc_lookup s \<and>
    alloc_state.more s' = alloc_state.more s"
proof -
  let ?bn = "sc_block_num c" and ?len = "of_nat (sc_sb_size c) :: usize"
  let ?c1 = "cache\<lparr>block := sb, block_num := ?bn\<rparr>"
  let ?c2 = "cache\<lparr>block := sb, block_num := ?bn, bin_block_size := Some bs\<rparr>"
  obtain s' where s': "malloc_from_new_sb env h nm sci (s, cache, 0) = Inr (s', ?c1, ?bn)"
    "bin_rep nm (mem s', ?c2) (sb_blocks sb bs ?bn)" "os_maps s' = (sb, ?len) # os_maps s1"
    "maps_ok (os_maps s')" "\<forall>a. in_block sb (sc_sb_size c) a \<longrightarrow> get_page_info a s' = Inr d"
    "sc_table s' = sc_table s" "desc_addr d" "block_size (descs s' d) = bs" "sc_lookup s' = sc_lookup s"
    "alloc_state.more s' = alloc_state.more s"
    using malloc_from_new_sb_fresh [OF env cls bin granted, of nm 0] by auto
  have bn: "0 < ?bn" "sc_block_size c = bs" using cls(4) by (auto simp: class_ok_def)
  have "fill_cache env h nm sci (s, cache) = Some (Inr (s', ?c2))"
    using s'(1,6) bn cls(2,3) malloc_from_partial_Nil [OF part] by (simp add: fill_cache_def)
  then show ?thesis using s'(2-) by (intro exI [of _ s'] exI [of _ ?c2]) simp
qed

text \<open>When a bin is empty and the central reserve has no partial super block, \<^verbatim>\<open>fill_cache\<close> maps a
  new one (if the kernel grants it), and the bin then holds all its blocks: popping them one after
  the other returns every block of the super block exactly once, in address order, in both
  encodings of the free list. The blocks are pairwise disjoint, the mapping is disjoint from every
  earlier one, and each address inside it leads to the new descriptor.\<close>

theorem fill_cache_fresh:
  fixes s :: "'s alloc_state_scheme"
  assumes env: "mmap_contract env" "pages_ok h s" "pm_ready s"
    and cls: "heap_class s sci c" "sci < length (sc_table s)" "sc_table s ! sci = c" "class_ok target bs c" "8 \<le> bs"
    and bin: "block_num cache = 0" and part: "partial_rep sci s []"
    and granted: "desc_alloc env h s = Inr (d, s1)"
      "sb = mmap env False (os_calls s1) (os_maps s1) (of_nat (sc_sb_size c))" "sb \<noteq> MAP_FAILED"
  shows "\<exists>s' cache' x. fill_cache env h nm sci (s, cache) = Some (Inr (s', cache')) \<and>
    block_num cache' = sc_block_num c \<and> bin_block_size cache' = Some bs \<and>
    pop_many (pop_block nm) (sc_block_num c) (mem s', cache') = Inr (sb_blocks sb bs (sc_block_num c), x) \<and>
    apart_all (sb_blocks sb bs (sc_block_num c)) \<and>
    os_maps s' = (sb, of_nat (sc_sb_size c)) # os_maps s1 \<and> maps_ok (os_maps s') \<and>
    (\<forall>a. in_block sb (sc_sb_size c) a \<longrightarrow> get_page_info a s' = Inr d)"
proof -
  obtain s' cache' where s': "fill_cache env h nm sci (s, cache) = Some (Inr (s', cache'))"
    "bin_block_size cache' = Some bs" "bin_rep nm (mem s', cache') (sb_blocks sb bs (sc_block_num c))"
    "os_maps s' = (sb, of_nat (sc_sb_size c)) # os_maps s1" "maps_ok (os_maps s')"
    "\<forall>a. in_block sb (sc_sb_size c) a \<longrightarrow> get_page_info a s' = Inr d"
    using fill_cache_new_sb [OF env cls bin part granted, of nm] by auto
  have len: "length (sb_blocks sb bs (sc_block_num c)) = sc_block_num c" by (simp add: sb_blocks_def)
  moreover have "block_num cache' = sc_block_num c" using bin_rep_num [OF s'(3)] len by simp
  moreover obtain x where "pop_many (pop_block nm) (sc_block_num c) (mem s', cache') =
      Inr (sb_blocks sb bs (sc_block_num c), x)"
    using bins.pop_all [OF s'(3)] len by auto
  moreover have "apart_all (sb_blocks sb bs (sc_block_num c))" using s'(3) by (simp add: bin_rep_def)
  ultimately show ?thesis using s' by (intro exI [of _ s'] exI [of _ cache'] exI [of _ x]) simp
qed

theorem fill_cache_fresh_witness:
  "\<exists>s' cache' x. fill_cache bump_env unat False 1 (boot_state, bin_new) = Some (Inr (s', cache')) \<and>
    block_num cache' = 512 \<and>
    pop_many (pop_block False) 512 (mem s', cache') = Inr (sb_blocks 1114112 8 512, x)"
proof -
  obtain d s1 where d: "desc_alloc bump_env unat boot_state = Inr (d, s1)"
    "os_maps s1 = [(1048576, of_nat DESCRIPTOR_BLOCK_SZ)]" using boot_desc_alloc by blast
  have c: "sc_block_num class_8 = 512" "sc_sb_size class_8 = 4096" by (simp_all add: class_8_def)
  have "1114112 = mmap bump_env False (os_calls s1) (os_maps s1) (of_nat (sc_sb_size class_8))"
    using d(2) bump_mmap_second by (simp add: c)
  then show ?thesis
    using fill_cache_fresh [OF bump_env_contract boot_state_ok(1,3,4,6,5,7) _ _ _ d(1), of bin_new 1114112 False]
      boot_state_ok(8) [of 1] c
    by (auto simp: bin_new_def MAP_FAILED_def mem_info_defs)
qed

section \<open>Flushing a bin\<close>

lemma flush_run_all:
  assumes "\<forall>x \<in> set (chain (load64 m) (load64 m p) n). sb \<le> x \<and> x < sb + of_nat len"
  shows "\<exists>t. flush_run m sb len (k + n) p k = (t, k + n)"
  using assms
proof (induction n arbitrary: p k)
  case 0
  then show ?case by (subst flush_run.simps) simp
next
  case (Suc n)
  obtain t where "flush_run m sb len (Suc k + n) (load64 m p) (Suc k) = (t, Suc k + n)"
    using Suc.IH [of "load64 m p" "Suc k"] Suc.prems by auto
  then show ?case using Suc.prems by (subst flush_run.simps) (auto simp: Let_def not_le)
qed

lemma in_block_word:
  assumes "in_block sb len x" "unat sb + len \<le> 2 ^ 47" shows "sb \<le> x \<and> x < sb + of_nat len"
proof -
  have "unat (of_nat len :: usize) = len" using assms(2) pow2_47_64 by (simp add: unat_of_nat)
  then have "unat (sb + of_nat len) = unat sb + len"
    using assms(2) by (subst unat_add_no_overflow) simp_all
  then show ?thesis using assms(1) by (simp add: in_block_def word_le_nat_alt word_less_nat_alt)
qed

lemma compute_index_total:
  assumes "1 \<le> sci" "sci < MAX_SZ_IDX" shows "\<exists>i. compute_index sb blk sci = Inr i"
  using assms index_arms_lookup [OF assms] by (simp add: compute_index_def match_arms_map_of)

lemma flush_cache_ready:
  assumes "heap_class s sci c" "sci < length (sc_table s)" "sc_table s ! sci = c"
  shows "flush_cache env sci (s, cache) = flush_loop env sci c (s, cache)"
  using assms by (auto simp: flush_cache_def heap_class_def get_heaps_def get_heap_at_def)

lemma flush_anchor_empty:
  "a_count old + n = mc \<Longrightarrow> a_state (flush_anchor old mc i n) = EMPTY"
  by (simp add: flush_anchor_def Let_def set_state_def set_count_def)

text \<open>A bin whose blocks all lie in one super block is one run of the flush.\<close>

lemma flush_run_bin:
  assumes "bin_rep True (m, cache) xs" "xs \<noteq> []" "\<forall>x \<in> set xs. in_block sb len x" "unat sb + len \<le> 2 ^ 47"
  shows "block cache = hd xs" "block_num cache = length xs" "\<exists>t. flush_run m sb len (length xs) (hd xs) 1 = (t, length xs)"
proof -
  show h: "block cache = hd xs" "block_num cache = length xs"
    using assms(2) bin_rep_head [of True "(m, cache)" "hd xs" "tl xs"] bin_rep_num [OF assms(1)] assms(1) by auto
  have raw: "next_of True (bin_block_size cache) v a = v" for v a by (simp add: next_of_def split: option.split)
  have "chain (load64 m) (hd xs) (length xs) = xs"
    using assms(1) h by (simp add: bin_rep_def bin_blocks_def raw)
  then have "chain (load64 m) (load64 m (hd xs)) (length xs - 1) = tl xs"
    using assms(2) by (cases xs) auto
  then show "\<exists>t. flush_run m sb len (length xs) (hd xs) 1 = (t, length xs)"
    using flush_run_all [of m "hd xs" "length xs - 1" sb len 1] assms(2,3) in_block_word [OF _ assms(4)]
    by (cases xs) auto
qed

text \<open>With the plain pointer encoding, flushing a bin that holds all the blocks of a super block
  that are not already back in it gives the super block up: the bin is empty afterwards, the
  descriptor's state is empty and it has no super block any more, no address of the super block
  leads to a descriptor, and its mapping is gone.\<close>

theorem flush_cache_releases:
  fixes s :: "'s alloc_state_scheme"
  assumes env: "munmap_contract env" "pm_ready s"
    and cls: "heap_class s sci c" "sci < length (sc_table s)" "sc_table s ! sci = c" "1 \<le> sci" "sci < MAX_SZ_IDX"
    and bin: "bin_rep True (mem s, cache) xs" "xs \<noteq> []"
      "\<forall>x \<in> set xs. in_block (seg_ptr seg) (sc_sb_size c) x"
    and desc: "get_page_info (hd xs) s = Inr d" "d \<noteq> 0" "super_block (descs s d) = Some seg"
      "seg_length seg = of_nat (sc_sb_size c)" "valid_map (seg_ptr seg, seg_length seg)"
      "(seg_ptr seg, seg_length seg) \<in> set (os_maps s)"
      "a_count (d_anchor (descs s d)) + length xs = max_count (descs s d)"
  shows "\<exists>s' cache'. flush_cache env sci (s, cache) = Inr (s', cache') \<and> block_num cache' = 0 \<and>
    bin_block_size cache' = None \<and> a_state (d_anchor (descs s' d)) = EMPTY \<and> super_block (descs s' d) = None \<and>
    (\<forall>a. in_block (seg_ptr seg) (sc_sb_size c) a \<longrightarrow> get_page_info a s' = Inr page_info_default) \<and>
    os_maps s' = removeAll (seg_ptr seg, seg_length seg) (os_maps s)"
proof -
  let ?sb = "seg_ptr seg" and ?n = "length xs" and ?old = "d_anchor (descs s d)"
  have c: "PAGE dvd sc_sb_size c" "sc_sb_size c < 2 ^ 32" using cls(1) by (auto simp: heap_class_def)
  have fit: "unat ?sb + sc_sb_size c \<le> 2 ^ 47"
    using desc(4,5) map_span_pages [OF c] by (simp add: valid_map_def)
  note hd = flush_run_bin(1,2) [OF bin fit]
  obtain t where run: "flush_run (mem s) ?sb (sc_sb_size c) ?n (hd xs) 1 = (t, ?n)" using flush_run_bin(3) [OF bin fit] by blast
  obtain i where i: "compute_index ?sb (hd xs) sci = Inr i" using compute_index_total cls(4,5) by blast
  define cache1 where "cache1 = cache\<lparr>block := load64 (mem s) t, block_num := 0\<rparr>"
  define s1 where "s1 = upd_desc d (\<lambda>q. q\<lparr>d_anchor := flush_anchor ?old (max_count (descs s d)) (unat i) ?n\<rparr>)
    (s\<lparr>mem := store64 (mem s) t (?sb + of_nat (a_avail ?old * sc_block_size c))\<rparr>)"
  have s1: "pm_ready s1" "heap_class s1 sci c" "os_maps s1 = os_maps s"
    using env(2) cls(1) by (simp_all add: s1_def pm_ready_def heap_class_def)
  obtain pm where pm: "update_page_map (Some sci) ?sb None 0 s1 = Inr (s1\<lparr>page_map := pm\<rparr>)"
    "\<forall>a. unat a < 2 ^ 50 \<longrightarrow> in_block ?sb (sc_sb_size c) a \<longrightarrow> pm (addr_to_key a) = info_set_ptr 0 0"
    using update_page_map_heap [OF s1(1,2), of ?sb None] desc(4,5) by auto
  define s3 where "s3 = upd_desc d (\<lambda>q. q\<lparr>super_block := None\<rparr>) (s1\<lparr>page_map := pm\<rparr>)"
  define s4 where "s4 = s3\<lparr>os_calls := Suc (os_calls s3), os_maps := removeAll (?sb, seg_length seg) (os_maps s)\<rparr>"
  have "munmap env (os_calls s3) (os_maps s) ?sb (seg_length seg) = 0"
    using env(1) desc(6) by (simp add: munmap_contract_def)
  then have "seg_deallocate env seg s3 = (True, s4)"
    by (simp add: seg_deallocate_def s4_def s3_def s1(3))
  then have "flush_step env sci c (s, cache) = Inr (Some (s4, cache1))"
    using desc(1,2,3,7) hd run i pm(1) bin(2) flush_anchor_empty [OF desc(7), of "unat i"]
    unfolding flush_step_def
    by (simp add: peek_block_def get_page_info_for_ptr_def info_get_desc_def get_bin_block_num_def pop_list_def
        cache1_def s1_def [symmetric] unregister_desc_def s3_def [symmetric] Let_def del: of_nat_mult)
  then have "flush_loop env sci c (s, cache) = flush_loop env sci c (s4, cache1)"
    using hd bin(2) by (simp add: flush_loop.simps [of env sci c "(s, cache)"])
  also have "\<dots> = Inr (s4, cache1\<lparr>bin_block_size := None\<rparr>)"
    by (subst flush_loop.simps) (simp add: cache1_def)
  finally have "flush_cache env sci (s, cache) = Inr (s4, cache1\<lparr>bin_block_size := None\<rparr>)"
    using flush_cache_ready [OF cls(1-3)] by simp
  moreover have "get_page_info a s4 = Inr page_info_default" if "in_block ?sb (sc_sb_size c) a" for a
    using filled_page_info [OF _ _ fit that, of s4] pm(2) s1(1)
    by (simp add: s4_def s3_def pm_ready_def info_set_ptr_def page_info_default_def mem_info_defs)
  ultimately show ?thesis
    using flush_anchor_empty [OF desc(7)] by (intro exI [of _ s4] exI [of _ "cache1\<lparr>bin_block_size := None\<rparr>"])
      (simp add: cache1_def s4_def s3_def s1_def)
qed

theorem flush_cache_releases_witness:
  "\<exists>s' cache'. flush_cache bump_env 1 (boot_state\<lparr>page_map := (\<lambda>_. 1048576), os_maps := [(1114112, 4096)],
      descs := (\<lambda>_. descriptor_default\<lparr>max_count := 512, super_block := Some \<lparr>seg_ptr = 1114112, seg_length = 4096\<rparr>,
        d_anchor := \<lparr>a_state = PARTIAL, a_avail = 5, a_count = 511\<rparr>\<rparr>)\<rparr>,
      \<lparr>block = 1114112, block_num = 1, bin_block_size = None\<rparr>) = Inr (s', cache') \<and> block_num cache' = 0 \<and>
    os_maps s' = []"
proof -
  let ?s = "boot_state\<lparr>page_map := (\<lambda>_. 1048576), os_maps := [(1114112, 4096)],
      descs := (\<lambda>_. descriptor_default\<lparr>max_count := 512, super_block := Some \<lparr>seg_ptr = 1114112, seg_length = 4096\<rparr>,
        d_anchor := \<lparr>a_state = PARTIAL, a_avail = 5, a_count = 511\<rparr>\<rparr>)\<rparr>"
  let ?b = "\<lparr>block = 1114112, block_num = 1, bin_block_size = None\<rparr>"
  have ok: "pm_ready ?s" "heap_class ?s 1 class_8"
    using boot_state_ok(3,4) unfolding heap_class_def by (simp_all add: pm_ready_def del: nth_map map_map)
  have bin: "bin_rep True (mem ?s, ?b) [1114112]" by (simp add: bin_rep_def bin_blocks_def)
  have v: "valid_map (1114112, 4096)" by (simp add: valid_map_def map_span_def round_up_def PAGE_value)
  have i: "in_block 1114112 4096 1114112" by (simp add: in_block_def)
  have c: "sc_sb_size class_8 = 4096" by (simp add: class_8_def)
  show ?thesis
    using flush_cache_releases [OF bump_env_munmap ok(1) ok(2) _ _ _ _ bin,
        of "\<lparr>seg_ptr = 1114112, seg_length = 4096\<rparr>" 1048576]
      boot_state_ok(5,6) v i c
    by (auto simp: get_page_info_ready [OF ok(1)] mem_info_defs)
qed

text \<open>C37. In the default build the loop of \<^verbatim>\<open>flush_cache\<close> reads the cells of the free list as plain
  pointers although a cell of zero stands for "the next block follows". So a bin with at least
  two blocks of a super block that is otherwise in use and whose top cell is zero, as after every
  fill from a new super block, is not flushed: one block is given back, and the bin is left with a
  null head and the remaining count.\<close>

theorem flush_cache_contiguous:
  fixes s :: "'s alloc_state_scheme"
  assumes pm: "pm_ready s" "get_page_info 0 s = Inr 0"
    and cls: "heap_class s sci c" "sci < length (sc_table s)" "sc_table s ! sci = c" "1 \<le> sci" "sci < MAX_SZ_IDX"
    and bin: "block cache = x" "block_num cache = n" "2 \<le> n" "load64 (mem s) x = 0"
    and desc: "get_page_info x s = Inr d" "d \<noteq> 0" "super_block (descs s d) = Some seg" "seg_ptr seg \<noteq> 0"
      "proc_heap (descs s d) = Some sci" "d_anchor (descs s d) = fresh_anchor n" "max_count (descs s d) = n"
  shows "\<exists>s' cache'. flush_cache env sci (s, cache) = Inr (s', cache') \<and>
    block cache' = 0 \<and> block_num cache' = n - 1 \<and> bin_block_size cache' = bin_block_size cache"
proof -
  let ?sb = "seg_ptr seg" and ?old = "fresh_anchor n"
  have run: "flush_run (mem s) ?sb (sc_sb_size c) n x 1 = (x, 1)"
    using bin(3,4) desc(4) by (subst flush_run.simps) (simp add: Let_def word_gt_0)
  obtain i where i: "compute_index ?sb x sci = Inr i" using compute_index_total cls(4,5) by blast
  define cache1 where "cache1 = cache\<lparr>block := 0, block_num := n - 1\<rparr>"
  define s1 where "s1 = upd_desc d (\<lambda>q. q\<lparr>d_anchor := flush_anchor ?old n (unat i) (Suc 0)\<rparr>)
    (s\<lparr>mem := store64 (mem s) x (?sb + of_nat (a_avail ?old * sc_block_size c))\<rparr>)"
  have a: "a_state ?old = FULL" "a_state (flush_anchor ?old n (unat i) 1) = PARTIAL"
    using bin(3) by (simp_all add: fresh_anchor_def flush_anchor_def Let_def set_state_def set_count_def
        set_avail_def anchor_default_def)
  obtain hs where hs: "heaps s = Some hs" "sci < length hs" using cls(1) by (auto simp: heap_class_def)
  then obtain s2 where s2: "list_push_partial d s1 = Inr s2" "page_map s2 = page_map s" "pm_len s2 = pm_len s"
    using desc(5) by (simp add: list_push_partial_def get_heap_at_def put_heap_at_def s1_def Let_def)
  have "flush_step env sci c (s, cache) = Inr (Some (s2, cache1))"
    using desc bin run i s2(1) a unfolding flush_step_def
    by (simp add: peek_block_def get_page_info_for_ptr_def info_get_desc_def get_bin_block_num_def pop_list_def
        cache1_def s1_def [symmetric] heap_push_partial_def Let_def del: of_nat_mult)
  then have "flush_loop env sci c (s, cache) = flush_loop env sci c (s2, cache1)"
    using bin by (simp add: flush_loop.simps [of env sci c "(s, cache)"])
  moreover have "get_page_info 0 s2 = Inr 0"
    using pm s2(2,3) by (simp add: get_page_info_ready pm_ready_def)
  then have "flush_step env sci c (s2, cache1) = Inr None"
    by (simp add: flush_step_def peek_block_def get_page_info_for_ptr_def cache1_def)
  then have "flush_loop env sci c (s2, cache1) = Inr (s2, cache1)"
    using bin(3) by (subst flush_loop.simps) (simp add: cache1_def)
  ultimately show ?thesis
    using flush_cache_ready [OF cls(1-3), of env cache] by (simp add: cache1_def)
qed

theorem flush_cache_contiguous_witness:
  "\<exists>s' cache'. flush_cache bump_env 1 (boot_state\<lparr>page_map := (\<lambda>k. if k = 0 then 0 else 1048576),
      descs := (\<lambda>_. descriptor_default\<lparr>max_count := 512, proc_heap := Some 1,
        super_block := Some \<lparr>seg_ptr = 1114112, seg_length = 4096\<rparr>, d_anchor := fresh_anchor 512\<rparr>)\<rparr>,
      \<lparr>block = 1114112, block_num = 512, bin_block_size = Some 8\<rparr>) = Inr (s', cache') \<and>
    block cache' = 0 \<and> block_num cache' = 511"
proof -
  let ?s = "boot_state\<lparr>page_map := (\<lambda>k. if k = 0 then 0 else 1048576),
      descs := (\<lambda>_. descriptor_default\<lparr>max_count := 512, proc_heap := Some 1,
        super_block := Some \<lparr>seg_ptr = 1114112, seg_length = 4096\<rparr>, d_anchor := fresh_anchor 512\<rparr>)\<rparr>"
  have ok: "pm_ready ?s" "heap_class ?s 1 class_8"
    using boot_state_ok(3,4) unfolding heap_class_def by (simp_all add: pm_ready_def del: nth_map map_map)
  have k: "addr_to_key 0 = 0" "addr_to_key 1114112 \<noteq> 0"
    by (simp_all add: addr_to_key_def page_map_consts)
  have g: "get_page_info 0 ?s = Inr 0" "get_page_info 1114112 ?s = Inr 1048576"
    using k by (simp_all add: get_page_info_ready pm_ready_def)
  show ?thesis
    using flush_cache_contiguous [OF ok(1) g(1) ok(2), of "\<lparr>block = 1114112, block_num = 512, bin_block_size = Some 8\<rparr>"
        1114112 512 1048576 "\<lparr>seg_ptr = 1114112, seg_length = 4096\<rparr>" bump_env]
      boot_state_ok(5,6) g(2) load64_zero [of "\<lambda>_. 0"]
    by (auto simp: mem_info_defs)
qed

end
