(* ===== verification/Bootstrap.thy ===== *)
theory Bootstrap
  imports Segments
begin

text \<open>
  The bootstrap reserve of \<^verbatim>\<open>src/bootstrap.rs\<close>: a bump allocator over segments from the kernel, used
  while thread locals are not available. The list of segments is kept as a list. A refused segment
  ends the process.
\<close>

section \<open>The reserve\<close>

record bootstrap =
  bs_mem :: "segment list"
  bs_next :: usize
  bs_avail :: nat
  bs_max :: nat

definition KB :: nat where "KB = 1028"

definition reserve_new :: "nat \<Rightarrow> bootstrap" where
  "reserve_new sz = \<lparr>bs_mem = [], bs_next = 0, bs_avail = 0, bs_max = sz\<rparr>"

definition bootstrap_reserve :: bootstrap where
  "bootstrap_reserve = reserve_new (128 * KB)"

definition reserve_segment ::
  "os_env \<Rightarrow> nat \<Rightarrow> 's os_state_scheme \<times> bootstrap \<Rightarrow> ('s os_state_scheme \<times> bootstrap) res" where
  "reserve_segment env sz x =
     (let (s, b) = x in
      case seg_allocate env (of_nat sz) s of
        (Inl e, s') \<Rightarrow> Inl Exit
      | (Inr m, s') \<Rightarrow> Inr (s', b\<lparr>bs_next := seg_ptr m, bs_avail := sz, bs_mem := bs_mem b @ [m]\<rparr>))"

definition reserve_init ::
  "os_env \<Rightarrow> 's os_state_scheme \<times> bootstrap \<Rightarrow> ('s os_state_scheme \<times> bootstrap) res" where
  "reserve_init env x = reserve_segment env (bs_max (snd x)) x"

definition add_new_segment ::
  "os_env \<Rightarrow> nat \<Rightarrow> 's os_state_scheme \<times> bootstrap \<Rightarrow> ('s os_state_scheme \<times> bootstrap) res" where
  "add_new_segment env request_size x = reserve_segment env (max (bs_max (snd x)) request_size) x"

definition reserve_allocate ::
  "os_env \<Rightarrow> usize \<Rightarrow> 's os_state_scheme \<times> bootstrap \<Rightarrow> (usize \<times> 's os_state_scheme \<times> bootstrap) res" where
  "reserve_allocate env sz x =
     rbind (if unat sz > bs_avail (snd x) then add_new_segment env (unat sz) x else Inr x) (\<lambda>(s, b).
     Inr (bs_next b, s, b\<lparr>bs_next := bs_next b + sz, bs_avail := bs_avail b - unat sz\<rparr>))"

definition ptr_in_bootstrap :: "bootstrap \<Rightarrow> usize \<Rightarrow> bool" where
  "ptr_in_bootstrap b ptr \<longleftrightarrow>
     list_ex (\<lambda>seg. let start = seg_ptr seg; fin = start + seg_length seg in ptr \<ge> start \<and> ptr < fin) (bs_mem b)"

section \<open>Ranges\<close>

type_synonym range = "usize \<times> usize"

definition ranges_apart :: "range \<Rightarrow> range \<Rightarrow> bool" where
  "ranges_apart r q \<longleftrightarrow> snd r = 0 \<or> snd q = 0 \<or> unat (fst r) + unat (snd r) \<le> unat (fst q) \<or>
     unat (fst q) + unat (snd q) \<le> unat (fst r)"

fun all_apart :: "range list \<Rightarrow> bool" where
  "all_apart [] = True"
| "all_apart (r # rs) = ((\<forall>q \<in> set rs. ranges_apart r q) \<and> all_apart rs)"

text \<open>The bytes from \<open>p\<close> on lie in a mapping.\<close>

definition span_in :: "(usize \<times> usize) list \<Rightarrow> usize \<Rightarrow> nat \<Rightarrow> bool" where
  "span_in maps p n \<longleftrightarrow> (\<exists>m \<in> set maps. unat (fst m) \<le> unat p \<and> unat p + n \<le> unat (fst m) + map_span (snd m))"

text \<open>The invariant, with the ranges handed out so far: they lie in mappings, apart from each
  other and from what is left of the current segment.\<close>

definition reserve_ok :: "range list \<Rightarrow> 's os_state_scheme \<times> bootstrap \<Rightarrow> bool" where
  "reserve_ok rs x \<longleftrightarrow> maps_ok (os_maps (fst x)) \<and> all_apart rs \<and> bs_max (snd x) \<le> 2 ^ 32 \<and>
     (0 < bs_avail (snd x) \<longrightarrow> span_in (os_maps (fst x)) (bs_next (snd x)) (bs_avail (snd x))) \<and>
     (\<forall>r \<in> set rs. snd r \<noteq> 0 \<longrightarrow> span_in (os_maps (fst x)) (fst r) (unat (snd r)) \<and>
        (0 < bs_avail (snd x) \<longrightarrow> unat (fst r) + unat (snd r) \<le> unat (bs_next (snd x)) \<or>
           unat (bs_next (snd x)) + bs_avail (snd x) \<le> unat (fst r)))"

lemma span_in_bound: "maps_ok maps \<Longrightarrow> span_in maps p n \<Longrightarrow> unat p + n \<le> 2 ^ 47"
proof -
  assume "maps_ok maps" "span_in maps p n"
  then obtain m where m: "m \<in> set maps" "unat p + n \<le> unat (fst m) + map_span (snd m)"
    by (auto simp: span_in_def)
  have "valid_map m" using \<open>maps_ok maps\<close> m(1) by (induction maps) auto
  then show ?thesis using m(2) by (simp add: valid_map_def)
qed

lemma span_in_Cons: "span_in maps p n \<Longrightarrow> span_in (m # maps) p n"
  by (auto simp: span_in_def)

lemma span_in_disjoint:
  "span_in maps p n \<Longrightarrow> \<forall>q \<in> set maps. maps_disjoint m q \<Longrightarrow>
    unat p + n \<le> unat (fst m) \<or> unat (fst m) + map_span (snd m) \<le> unat p"
  unfolding span_in_def maps_disjoint_def by fastforce

lemma reserve_segment_ok:
  assumes "mmap_contract env" "reserve_ok rs x" "reserve_segment env sz x = Inr x'" "sz < 2 ^ 64"
  shows "reserve_ok rs x' \<and> bs_avail (snd x') = sz \<and> (\<exists>m. os_maps (fst x') = m # os_maps (fst x))"
proof -
  obtain s b where x: "x = (s, b)" by (cases x)
  obtain m s' where m: "map_segment env False (of_nat sz) s = (Inr m, s')"
    "x' = (s', b\<lparr>bs_next := seg_ptr m, bs_avail := sz, bs_mem := bs_mem b @ [m]\<rparr>)"
    using assms(3) by (auto simp: reserve_segment_def x seg_allocate_def split: prod.splits sum.splits)
  have s: "maps_ok (os_maps s)" using assms(2) by (simp add: reserve_ok_def x)
  have r: "maps_ok (os_maps s')" "valid_map (seg_ptr m, of_nat sz)"
    "os_maps s' = (seg_ptr m, of_nat sz) # os_maps s" "\<forall>q \<in> set (os_maps s). maps_disjoint (seg_ptr m, of_nat sz) q"
    using map_segment_maps [OF assms(1) s m(1)] by auto
  have u: "unat (of_nat sz :: usize) = sz" using assms(4) by (simp add: unat_of_nat)
  then have le: "sz \<le> map_span (of_nat sz)" using map_span_pos [OF r(2)] by simp
  then have "span_in (os_maps s') (seg_ptr m) sz" by (auto simp: span_in_def r(3))
  moreover have "unat p + n \<le> unat (seg_ptr m) \<or> unat (seg_ptr m) + sz \<le> unat p"
    if "span_in (os_maps s) p n" for p n
    using span_in_disjoint [OF that r(4)] le by auto
  ultimately show ?thesis
    using assms(2) m(2) r(1,3) span_in_Cons unfolding reserve_ok_def by (auto simp: x)
qed

lemma reserve_segment_granted:
  assumes "p = mmap env False (os_calls s) (os_maps s) (of_nat sz)" "p \<noteq> MAP_FAILED"
  shows "reserve_segment env sz (s, b) = Inr (s\<lparr>os_calls := Suc (os_calls s), mem := zero_span p (of_nat sz) (mem s),
      os_maps := (p, of_nat sz) # os_maps s\<rparr>,
    b\<lparr>bs_next := p, bs_avail := sz, bs_mem := bs_mem b @ [\<lparr>seg_ptr = p, seg_length = of_nat sz\<rparr>]\<rparr>)"
  using assms by (simp add: reserve_segment_def seg_allocate_def map_segment_def Let_def)

lemma reserve_init_granted:
  assumes "mmap_contract env" "maps_ok (os_maps s)" "p = mmap env False (os_calls s) (os_maps s) (of_nat (128 * KB))" "p \<noteq> MAP_FAILED"
    and "s' = s\<lparr>os_calls := Suc (os_calls s), mem := zero_span p (of_nat (128 * KB)) (mem s), os_maps := (p, of_nat (128 * KB)) # os_maps s\<rparr>"
  shows "\<exists>b. reserve_init env (s, bootstrap_reserve) = Inr (s', b) \<and> reserve_ok [] (s', b) \<and> bs_avail b = 128 * KB"
proof -
  have ok: "reserve_ok [] (s, bootstrap_reserve)"
    using assms(2) by (simp add: reserve_ok_def bootstrap_reserve_def reserve_new_def KB_def)
  obtain b where b: "reserve_segment env (128 * KB) (s, bootstrap_reserve) = Inr (s', b)"
    using reserve_segment_granted [OF assms(3,4), of bootstrap_reserve] assms(5) by simp
  then have "reserve_init env (s, bootstrap_reserve) = Inr (s', b)"
    by (simp add: reserve_init_def) (simp add: bootstrap_reserve_def reserve_new_def)
  then show ?thesis using reserve_segment_ok [OF assms(1) ok b] by (simp add: KB_def)
qed

lemma reserve_take_ok:
  assumes "reserve_ok rs (s, b)" "unat sz \<le> bs_avail b"
  shows "reserve_ok ((bs_next b, sz) # rs)
    (s, b\<lparr>bs_next := bs_next b + sz, bs_avail := bs_avail b - unat sz\<rparr>)"
proof (cases "sz = 0")
  case True
  then show ?thesis using assms(1) by (auto simp: reserve_ok_def ranges_apart_def)
next
  case False
  then have pos: "0 < unat sz" by (simp add: unat_gt_0)
  have sp: "span_in (os_maps s) (bs_next b) (bs_avail b)" and ok: "maps_ok (os_maps s)"
    using assms pos by (auto simp: reserve_ok_def)
  have bound: "unat (bs_next b) + bs_avail b \<le> 2 ^ 47" using span_in_bound [OF ok sp] .
  have nx: "unat (bs_next b + sz) = unat (bs_next b) + unat sz"
    using bound assms(2) by (subst unat_add_no_overflow) simp_all
  have "span_in (os_maps s) (bs_next b) (unat sz)"
    using sp assms(2) unfolding span_in_def by fastforce
  moreover have "span_in (os_maps s) (bs_next b + sz) (bs_avail b - unat sz)"
    using sp assms(2) nx unfolding span_in_def by (auto intro!: bexI)
  moreover have "ranges_apart (bs_next b, sz) q" if q: "q \<in> set rs" for q
  proof (cases "snd q = 0")
    case False
    then show ?thesis using assms q pos by (auto simp: reserve_ok_def ranges_apart_def)
  qed (simp add: ranges_apart_def)
  moreover have "unat (fst r) + unat (snd r) \<le> unat (bs_next b + sz) \<or>
      unat (bs_next b + sz) + (bs_avail b - unat sz) \<le> unat (fst r)" if "r \<in> set rs" "snd r \<noteq> 0" for r
    using assms that pos nx by (auto simp: reserve_ok_def)
  ultimately show ?thesis using assms(1) nx by (auto simp: reserve_ok_def)
qed

lemma reserve_allocate_ok:
  assumes "mmap_contract env" "reserve_ok rs x" "reserve_allocate env sz x = Inr (p, x')"
  shows "reserve_ok ((p, sz) # rs) x'"
proof -
  obtain s b where sb: "(if unat sz > bs_avail (snd x) then add_new_segment env (unat sz) x else Inr x) = Inr (s, b)"
    "p = bs_next b" "x' = (s, b\<lparr>bs_next := bs_next b + sz, bs_avail := bs_avail b - unat sz\<rparr>)"
    using assms(3) by (auto simp: reserve_allocate_def rbind_eq_Inr)
  have "max (bs_max (snd x)) (unat sz) < 2 ^ 64"
    using assms(2) unsigned_less [of sz] by (auto simp: reserve_ok_def)
  then have "reserve_ok rs (s, b) \<and> unat sz \<le> bs_avail b"
    using reserve_segment_ok [OF assms(1,2), of "max (bs_max (snd x)) (unat sz)" "(s, b)"] sb(1) assms(2)
    by (auto simp: add_new_segment_def split: if_splits)
  then show ?thesis using sb(2,3) by (simp add: reserve_take_ok)
qed

text \<open>A sequence of requests, with the ranges it returns, the latest first.\<close>

fun allocate_all ::
  "os_env \<Rightarrow> usize list \<Rightarrow> 's os_state_scheme \<times> bootstrap \<Rightarrow> range list \<Rightarrow>
   (range list \<times> 's os_state_scheme \<times> bootstrap) res" where
  "allocate_all env [] x rs = Inr (rs, x)"
| "allocate_all env (sz # szs) x rs =
     rbind (reserve_allocate env sz x) (\<lambda>(p, x'). allocate_all env szs x' ((p, sz) # rs))"

lemma allocate_all_ok:
  "mmap_contract env \<Longrightarrow> reserve_ok rs x \<Longrightarrow> allocate_all env szs x rs = Inr (rs', x') \<Longrightarrow> reserve_ok rs' x'"
proof (induction szs arbitrary: x rs)
  case (Cons sz szs)
  then obtain p y where "reserve_allocate env sz x = Inr (p, y)" "allocate_all env szs y ((p, sz) # rs) = Inr (rs', x')"
    by (auto simp: rbind_eq_Inr)
  then show ?case using Cons.IH Cons.prems reserve_allocate_ok by blast
qed auto

text \<open>C36. The bootstrap reserve never hands out the same byte twice: whatever sequence of sizes is
  requested, all ranges returned are pairwise disjoint and each lies inside memory that is mapped,
  also across the segments that are added on the way.\<close>

theorem bootstrap_disjoint:
  assumes "mmap_contract env" "maps_ok (os_maps s)"
    and "reserve_init env (s, bootstrap_reserve) = Inr x"
    and "allocate_all env szs x [] = Inr (rs, s', b)"
  shows "all_apart rs \<and> (\<forall>r \<in> set rs. snd r \<noteq> 0 \<longrightarrow> span_in (os_maps s') (fst r) (unat (snd r)))"
proof -
  have "reserve_ok [] (s, bootstrap_reserve)"
    using assms(2) by (simp add: reserve_ok_def bootstrap_reserve_def reserve_new_def KB_def)
  moreover have "bs_max bootstrap_reserve < 2 ^ 64" by (simp add: bootstrap_reserve_def reserve_new_def KB_def)
  ultimately have "reserve_ok [] x"
    using assms(1,3) reserve_segment_ok [of env "[]" "(s, bootstrap_reserve)"] by (simp add: reserve_init_def)
  then have "reserve_ok rs (s', b)" using assms(1,4) allocate_all_ok by blast
  then show ?thesis by (auto simp: reserve_ok_def)
qed

definition bare_os :: os_state where
  "bare_os = \<lparr>mem = (\<lambda>_. 0), os_maps = [], os_calls = 0\<rparr>"

theorem bootstrap_disjoint_witness:
  "\<exists>x rs s' b. reserve_init bump_env (bare_os, bootstrap_reserve) = Inr x \<and>
    allocate_all bump_env [100, 200, 500000] x [] = Inr (rs, s', b) \<and> length rs = 3 \<and> all_apart rs"
proof -
  let ?s1 = "bare_os\<lparr>os_calls := 1, mem := zero_span 1048576 131584 (\<lambda>_. 0), os_maps := [(1048576, 131584)]\<rparr>"
  let ?b1 = "\<lparr>bs_mem = [\<lparr>seg_ptr = 1048576, seg_length = 131584\<rparr>], bs_next = 1048576, bs_avail = 131584, bs_max = 131584\<rparr>"
  have i: "reserve_init bump_env (bare_os, bootstrap_reserve) = Inr (?s1, ?b1)"
    by (simp add: reserve_init_def reserve_segment_def bootstrap_reserve_def reserve_new_def KB_def seg_allocate_def
        map_segment_def bump_env_def bump_mmap_def bare_os_def MAP_FAILED_def map_span_def round_up_def PAGE_value)
  obtain rs s' b where a: "allocate_all bump_env [100, 200, 500000] (?s1, ?b1) [] = Inr (rs, s', b)" "length rs = 3"
    by (simp add: reserve_allocate_def add_new_segment_def reserve_segment_def seg_allocate_def
        map_segment_def bump_env_def bump_mmap_def bare_os_def MAP_FAILED_def map_span_def round_up_def PAGE_value Let_def)
  have "maps_ok (os_maps bare_os)" by (simp add: bare_os_def)
  then show ?thesis using bootstrap_disjoint [OF bump_env_contract _ i a(1)] i a by blast
qed

end
