(* ===== verification/Apf_Trace.thy ===== *)
theory Apf_Trace
  imports Prelude
begin

text \<open>
  The event traces of \<^verbatim>\<open>src/apf/trace.rs\<close>. The slice the events are kept in is a function with a
  capacity; positions that were never written hold arbitrary events. The standard library's hash
  maps are maps. The buffer comes from the allocator itself: \<open>mem_ok n\<close> says whether a request for
  \<open>n\<close> events returns memory.
\<close>

section \<open>Traces\<close>

datatype event = Alloc usize | Free usize

record trace =
  accesses :: "nat \<Rightarrow> event"
  capacity :: nat
  tr_length :: nat
  alloc_count :: nat

text \<open>The \<^verbatim>\<open>Debug\<close> output of an event: a letter and the slot in decimal.\<close>

fun show_decimal :: "nat \<Rightarrow> string" where
  "show_decimal n = (if n < 10 then [char_of (48 + n)] else show_decimal (n div 10) @ [char_of (48 + n mod 10)])"

declare show_decimal.simps [simp del]

primrec show_event :: "event \<Rightarrow> string" where
  "show_event (Alloc u) = CHR ''a'' # show_decimal (unat u)"
| "show_event (Free u) = CHR ''f'' # show_decimal (unat u)"

definition INIT_TRACE_LENGTH :: nat where "INIT_TRACE_LENGTH = 2 ^ 14"

definition trace_new :: "(nat \<Rightarrow> bool) \<Rightarrow> (nat \<Rightarrow> event) \<Rightarrow> trace res" where
  "trace_new mem_ok garbage =
     (if mem_ok INIT_TRACE_LENGTH
      then Inr \<lparr>accesses = garbage, capacity = INIT_TRACE_LENGTH, tr_length = 0, alloc_count = 0\<rparr>
      else Inl (Panic ''Error initializing trace''))"

fun is_alloc :: "event \<Rightarrow> bool" where
  "is_alloc (Alloc _) = True"
| "is_alloc (Free _) = False"

definition write_event :: "event \<Rightarrow> trace \<Rightarrow> trace res" where
  "write_event ev t =
     (if tr_length t < capacity t
      then Inr (t\<lparr>accesses := (accesses t)(tr_length t := ev), tr_length := Suc (tr_length t),
             alloc_count := (if is_alloc ev then Suc (alloc_count t) else alloc_count t)\<rparr>)
      else Inl OutOfBounds)"

definition trace_add :: "(nat \<Rightarrow> bool) \<Rightarrow> event \<Rightarrow> trace \<Rightarrow> trace res" where
  "trace_add mem_ok ev t =
     rbind (checked_sub (capacity t) 1) (\<lambda>limit.
     rbind (if tr_length t = limit
            then if mem_ok (capacity t * 2) then Inr (t\<lparr>capacity := capacity t * 2\<rparr>)
                 else Inl (Panic ''Error initializing trace'')
            else Inr t)
       (write_event ev))"

definition trace_extend :: "event list \<Rightarrow> trace \<Rightarrow> trace res" where
  "trace_extend evs t =
     rbind (for_each write_event evs t) (\<lambda>t'. Inr (t'\<lparr>tr_length := tr_length t' + length evs\<rparr>))"

definition trace_get :: "trace \<Rightarrow> nat \<Rightarrow> event res" where
  "trace_get t i = (if i < capacity t then Inr (accesses t i) else Inl OutOfBounds)"

text \<open>The loops over a trace visit its first \<open>tr_length\<close> events.\<close>

fun collect :: "trace \<Rightarrow> nat list \<Rightarrow> event list res" where
  "collect t [] = Inr []"
| "collect t (i # is) = rbind (trace_get t i) (\<lambda>e. rbind (collect t is) (\<lambda>es. Inr (e # es)))"

definition trace_events :: "trace \<Rightarrow> event list res" where
  "trace_events t = collect t [0..<tr_length t]"

section \<open>Queries\<close>

fun slot :: "event \<Rightarrow> usize" where
  "slot (Alloc s) = s"
| "slot (Free s) = s"

fun count_objects :: "event list \<Rightarrow> usize set \<Rightarrow> usize set" where
  "count_objects [] seen = seen"
| "count_objects (ev # evs) seen = count_objects evs (if slot ev \<in> seen then seen else insert (slot ev) seen)"

definition object_count :: "trace \<Rightarrow> nat res" where
  "object_count t = rbind (trace_events t) (\<lambda>evs. Inr (card (count_objects evs {})))"

fun intervals_loop :: "event list \<Rightarrow> (usize \<rightharpoonup> nat) \<Rightarrow> nat \<Rightarrow> (nat \<times> nat) list" where
  "intervals_loop [] frees clock = []"
| "intervals_loop (Free s # evs) frees clock = intervals_loop evs (frees(s \<mapsto> clock)) clock"
| "intervals_loop (Alloc e # evs) frees clock =
     (case frees e of Some s \<Rightarrow> [(s, clock)] | None \<Rightarrow> []) @ intervals_loop evs frees (Suc clock)"

definition free_intervals :: "trace \<Rightarrow> (nat \<times> nat) list res" where
  "free_intervals t = rbind (trace_events t) (\<lambda>evs. Inr (intervals_loop evs Map.empty 0))"

fun intervals_alt_loop :: "event list \<Rightarrow> (usize \<rightharpoonup> nat) \<Rightarrow> nat \<Rightarrow> (nat \<times> nat) list" where
  "intervals_alt_loop [] frees i = []"
| "intervals_alt_loop (Free s # evs) frees i = intervals_alt_loop evs (frees(s \<mapsto> i)) (Suc i)"
| "intervals_alt_loop (Alloc e # evs) frees i =
     (case frees e of Some s \<Rightarrow> [(s, i)] | None \<Rightarrow> []) @ intervals_alt_loop evs frees (Suc i)"

definition free_intervals_alt :: "trace \<Rightarrow> (nat \<times> nat) list res" where
  "free_intervals_alt t = rbind (trace_events t) (\<lambda>evs. Inr (intervals_alt_loop evs Map.empty 0))"

fun valid_loop :: "event list \<Rightarrow> (usize \<rightharpoonup> bool) \<Rightarrow> bool" where
  "valid_loop [] live = True"
| "valid_loop (Alloc s # evs) live = (if live s = Some True then False else valid_loop evs (live(s \<mapsto> True)))"
| "valid_loop (Free s # evs) live =
     (case live s of
        Some b \<Rightarrow> if b = False then False else valid_loop evs (live(s \<mapsto> False))
      | None \<Rightarrow> False)"

definition trace_valid :: "trace \<Rightarrow> bool res" where
  "trace_valid t = rbind (trace_events t) (\<lambda>evs. Inr (valid_loop evs Map.empty))"

section \<open>The contents of a trace\<close>

definition allocs :: "event list \<Rightarrow> nat" where
  "allocs evs = length (filter is_alloc evs)"

definition trace_rep :: "trace \<Rightarrow> event list \<Rightarrow> bool" where
  "trace_rep t evs \<longleftrightarrow> tr_length t = length evs \<and> length evs < capacity t \<and> 0 < capacity t \<and>
     (\<forall>i < length evs. accesses t i = evs ! i) \<and> alloc_count t = allocs evs"

lemma collect_eq: "(\<And>i. i \<in> set is \<Longrightarrow> i < capacity t) \<Longrightarrow> collect t is = Inr (map (accesses t) is)"
  by (induction "is") (auto simp: trace_get_def)

lemma trace_events_rep: "trace_rep t evs \<Longrightarrow> trace_events t = Inr evs"
proof -
  assume r: "trace_rep t evs"
  then have "collect t [0..<length evs] = Inr (map (accesses t) [0..<length evs])"
    by (intro collect_eq) (auto simp: trace_rep_def)
  also have "map (accesses t) [0..<length evs] = evs" using r by (intro nth_equalityI) (auto simp: trace_rep_def)
  finally show ?thesis using r by (simp add: trace_events_def trace_rep_def)
qed

lemma trace_add_rep:
  assumes "trace_rep t evs" "\<And>n. mem_ok n"
  shows "\<exists>t'. trace_add mem_ok ev t = Inr t' \<and> trace_rep t' (evs @ [ev])"
  using assms
  by (auto simp: trace_add_def write_event_def trace_rep_def allocs_def nth_append less_Suc_eq)

lemma trace_new_rep: "mem_ok INIT_TRACE_LENGTH \<Longrightarrow> \<exists>t. trace_new mem_ok g = Inr t \<and> trace_rep t []"
  by (simp add: trace_new_def trace_rep_def allocs_def INIT_TRACE_LENGTH_def)

text \<open>Recording events one by one never loses any.\<close>

lemma trace_adds_rep:
  assumes "trace_rep t evs" "\<And>n. mem_ok n"
  shows "\<exists>t'. for_each (trace_add mem_ok) evs' t = Inr t' \<and> trace_rep t' (evs @ evs')"
  using assms(1)
proof (induction evs' arbitrary: t evs)
  case (Cons ev evs')
  obtain t1 where "trace_add mem_ok ev t = Inr t1" "trace_rep t1 (evs @ [ev])"
    using trace_add_rep [OF Cons.prems, of mem_ok ev] assms(2) by blast
  then show ?case using Cons.IH [of t1 "evs @ [ev]"] by auto
qed auto

section \<open>Free intervals\<close>

text \<open>The last free of a slot in a sequence of events, by the number of allocations before it.\<close>

definition last_free :: "event list \<Rightarrow> usize \<Rightarrow> nat \<Rightarrow> bool" where
  "last_free evs x c \<longleftrightarrow> (\<exists>i < length evs. evs ! i = Free x \<and> allocs (take i evs) = c \<and>
     (\<forall>k. i < k \<and> k < length evs \<longrightarrow> evs ! k \<noteq> Free x))"

definition is_interval :: "event list \<Rightarrow> nat \<Rightarrow> nat \<Rightarrow> bool" where
  "is_interval evs s e \<longleftrightarrow> (\<exists>j x. j < length evs \<and> evs ! j = Alloc x \<and> allocs (take j evs) = e \<and>
     last_free (take j evs) x s)"

lemma last_free_unique: "last_free evs x c \<Longrightarrow> last_free evs x d \<Longrightarrow> c = d"
  unfolding last_free_def by (metis linorder_neqE_nat)

lemma last_free_snoc:
  "last_free (evs @ [ev]) x c \<longleftrightarrow> (if ev = Free x then c = allocs evs else last_free evs x c)"
proof -
  let ?P = "\<lambda>L i. L ! i = Free x \<and> allocs (take i L) = c \<and> (\<forall>k. i < k \<and> k < length L \<longrightarrow> L ! k \<noteq> Free x)"
  have old: "?P (evs @ [ev]) i \<longleftrightarrow> ?P evs i \<and> ev \<noteq> Free x" if "i < length evs" for i
    using that by (auto simp: nth_append less_Suc_eq)
  have "last_free (evs @ [ev]) x c \<longleftrightarrow> ?P (evs @ [ev]) (length evs) \<or> (\<exists>i < length evs. ?P (evs @ [ev]) i)"
    unfolding last_free_def length_append_singleton by (subst Ex_less_Suc) blast
  also have "?P (evs @ [ev]) (length evs) \<longleftrightarrow> ev = Free x \<and> c = allocs evs" by auto
  also have "(\<exists>i < length evs. ?P (evs @ [ev]) i) \<longleftrightarrow> last_free evs x c \<and> ev \<noteq> Free x"
    unfolding last_free_def using old by blast
  finally show ?thesis by auto
qed

lemma allocs_snoc [simp]: "allocs (evs @ [ev]) = allocs evs + (if is_alloc ev then 1 else 0)"
  by (simp add: allocs_def)

text \<open>The interval that ends at position \<open>j\<close>.\<close>

definition interval_at :: "event list \<Rightarrow> nat \<Rightarrow> nat \<Rightarrow> nat \<Rightarrow> bool" where
  "interval_at evs j s e \<longleftrightarrow> (\<exists>x. evs ! j = Alloc x \<and> allocs (take j evs) = e \<and> last_free (take j evs) x s)"

lemma ex_from_Suc:
  "n < m \<Longrightarrow> (\<exists>j. n \<le> j \<and> j < m \<and> P j) \<longleftrightarrow> P n \<or> (\<exists>j. Suc n \<le> j \<and> j < (m :: nat) \<and> P j)"
  by (metis Suc_leD Suc_leI le_neq_implies_less le_refl)

lemma intervals_loop_spec:
  assumes "\<And>x c. frees x = Some c \<longleftrightarrow> last_free pre x c" "clock = allocs pre"
  shows "(s, e) \<in> set (intervals_loop evs frees clock) \<longleftrightarrow>
    (\<exists>j. length pre \<le> j \<and> j < length (pre @ evs) \<and> interval_at (pre @ evs) j s e)"
  using assms
proof (induction evs frees clock arbitrary: pre rule: intervals_loop.induct)
  case (2 x evs frees clock)
  let ?L = "pre @ Free x # evs"
  have "(s, e) \<in> set (intervals_loop evs (frees(x \<mapsto> clock)) clock) \<longleftrightarrow>
    (\<exists>j. length (pre @ [Free x]) \<le> j \<and> j < length ((pre @ [Free x]) @ evs) \<and>
       interval_at ((pre @ [Free x]) @ evs) j s e)"
    using "2.prems" by (intro "2.IH") (auto simp: last_free_snoc)
  moreover have "\<not> interval_at ?L (length pre) s e" by (simp add: interval_at_def)
  ultimately show ?case by (subst ex_from_Suc) simp_all
next
  case (3 x evs frees clock)
  let ?L = "pre @ Alloc x # evs"
  have "(s, e) \<in> set (intervals_loop evs frees (Suc clock)) \<longleftrightarrow>
    (\<exists>j. length (pre @ [Alloc x]) \<le> j \<and> j < length ((pre @ [Alloc x]) @ evs) \<and>
       interval_at ((pre @ [Alloc x]) @ evs) j s e)"
    using "3.prems" by (intro "3.IH") (auto simp: last_free_snoc)
  moreover have "(s, e) \<in> set (case frees x of Some s \<Rightarrow> [(s, clock)] | None \<Rightarrow> []) \<longleftrightarrow>
      interval_at ?L (length pre) s e"
    using "3.prems" by (auto simp: interval_at_def "3.prems"(1) [symmetric] split: option.splits)
  ultimately show ?case by (subst ex_from_Suc) simp_all
qed auto

lemma intervals_spec: "(s, e) \<in> set (intervals_loop evs Map.empty 0) \<longleftrightarrow> is_interval evs s e"
  using intervals_loop_spec [of Map.empty "[]" 0 s e evs]
  by (simp add: is_interval_def interval_at_def last_free_def allocs_def)

lemma allocs_take_mono: "i \<le> j \<Longrightarrow> allocs (take i evs) \<le> allocs (take j evs)"
  by (metis (no_types, lifting) allocs_def filter_append le_add1 length_append min.absorb1 take_add take_take le_add_diff_inverse)

lemma is_interval_bounds: "is_interval evs s e \<Longrightarrow> s \<le> e \<and> e < allocs evs"
proof -
  assume "is_interval evs s e"
  then obtain j x i where j: "j < length evs" "evs ! j = Alloc x" "allocs (take j evs) = e" "i < j"
    "allocs (take i (take j evs)) = s" by (auto simp: is_interval_def last_free_def)
  have "allocs (take (Suc j) evs) = Suc e" using j by (simp add: take_Suc_conv_app_nth)
  moreover have "allocs (take (Suc j) evs) \<le> allocs (take (length evs) evs)"
    using j(1) by (intro allocs_take_mono) simp
  moreover have "s \<le> e" using j allocs_take_mono [of i j evs] by (simp add: min_def)
  ultimately show ?thesis by simp
qed

text \<open>C30. A free interval starts at a free and ends at an allocation of the same slot, both measured
  in allocations seen so far: for a trace that recorded the events \<open>evs\<close>, \<^verbatim>\<open>free_intervals\<close> returns and
  reports exactly the pairs of an allocation and the last free of its slot before it, and each
  pair is ordered and below the number of allocations.\<close>

theorem free_intervals_exact:
  assumes "trace_rep t evs"
  shows "\<exists>ivs. free_intervals t = Inr ivs \<and> (\<forall>s e. (s, e) \<in> set ivs \<longleftrightarrow> is_interval evs s e) \<and>
    (\<forall>(s, e) \<in> set ivs. s \<le> e \<and> e < alloc_count t)"
proof -
  have "free_intervals t = Inr (intervals_loop evs Map.empty 0)"
    using trace_events_rep [OF assms] by (simp add: free_intervals_def)
  moreover have "alloc_count t = allocs evs" using assms by (simp add: trace_rep_def)
  ultimately show ?thesis using intervals_spec is_interval_bounds by auto
qed

theorem free_intervals_exact_witness:
  "\<exists>t ivs. for_each (trace_add (\<lambda>_. True)) [Alloc 3, Free 3, Free 2, Free 1, Alloc 1, Alloc 2]
      \<lparr>accesses = (\<lambda>_. Free 0), capacity = 4, tr_length = 0, alloc_count = 0\<rparr> = Inr t \<and>
    free_intervals t = Inr ivs \<and> (\<forall>(s, e) \<in> set ivs. s \<le> e \<and> e < 3)"
proof -
  let ?t0 = "\<lparr>accesses = (\<lambda>_. Free 0), capacity = 4, tr_length = 0, alloc_count = 0\<rparr>"
  let ?evs = "[Alloc 3, Free 3, Free 2, Free 1, Alloc 1, Alloc 2]"
  have "trace_rep ?t0 []" by (simp add: trace_rep_def allocs_def)
  then obtain t where t: "for_each (trace_add (\<lambda>_. True)) ?evs ?t0 = Inr t" "trace_rep t ?evs"
    using trace_adds_rep [of ?t0 "[]" "\<lambda>_. True" ?evs] by auto
  have "alloc_count t = 3" using t(2) by (simp add: trace_rep_def allocs_def)
  then show ?thesis using free_intervals_exact [OF t(2)] t(1) by auto
qed

section \<open>Printed events\<close>

text \<open>The printed form of an event determines it: reading the digits back gives the slot.\<close>

definition read_decimal :: "string \<Rightarrow> nat" where
  "read_decimal cs = foldl (\<lambda>n c. 10 * n + (of_char c - 48)) 0 cs"

lemma read_show_decimal: "read_decimal (show_decimal n) = n"
proof (induction n rule: show_decimal.induct)
  case (1 n)
  have "of_char (char_of (48 + k) :: char) - 48 = k" if "k < 10" for k :: nat using that by simp
  then show ?case using 1 by (subst show_decimal.simps) (simp add: read_decimal_def)
qed

lemma show_event_inj: "show_event e = show_event e' \<longleftrightarrow> e = e'"
proof
  assume "show_event e = show_event e'"
  then show "e = e'" using read_show_decimal by (cases e; cases e') (auto, (metis unsigned_word_eqI)+)
qed simp

end
