(* ===== verification/Apf_Reuse.thy ===== *)
theory Apf_Reuse
  imports Complex_Main Apf_Trace
begin

text \<open>
  The reuse counter of \<^verbatim>\<open>src/apf/reuse_counter.rs\<close>: bursts of sampling alternate with hibernation, and
  at the end of a burst \<^verbatim>\<open>reuse\<close> computes, for every window length, the average number of free
  intervals that fit in a window. The vectors are lists of natural numbers, with the bounds checks
  and the unsigned subtractions of the source; a quotient of two counts is a rational number where
  the source rounds it to \<^verbatim>\<open>f32\<close>.
\<close>

section \<open>The linear-time sums\<close>

record reuse_sums =
  start_index_counts :: "nat list"
  end_index_counts :: "nat list"
  len_counts :: "nat list"
  start_indices_sums :: "nat list"
  start_indices_min_sums :: "nat list"
  end_indices_sums :: "nat list"
  end_indices_max_sums :: "nat list"

text \<open>\<^verbatim>\<open>v[i] += d\<close>\<close>

definition vec_add :: "nat \<Rightarrow> nat \<Rightarrow> nat list \<Rightarrow> nat list res" where
  "vec_add i d v = rbind (index_list v i) (\<lambda>x. update_list v i (x + d))"

definition zero_sums :: "nat \<Rightarrow> reuse_sums" where
  "zero_sums n = (let v = replicate n 0 in
     \<lparr>start_index_counts = v, end_index_counts = v, len_counts = v, start_indices_sums = v,
      start_indices_min_sums = v, end_indices_sums = v, end_indices_max_sums = v\<rparr>)"

definition add_interval :: "nat \<Rightarrow> nat \<times> nat \<Rightarrow> reuse_sums \<Rightarrow> reuse_sums res" where
  "add_interval n interval r =
     rbind (checked_sub (snd interval) (fst interval)) (\<lambda>diff.
     let len = diff + 1 in
     rbind (vec_add (fst interval) 1 (start_index_counts r)) (\<lambda>v1.
     rbind (vec_add (snd interval) 1 (end_index_counts r)) (\<lambda>v2.
     rbind (vec_add (len - 1) 1 (len_counts r)) (\<lambda>v3.
     rbind (vec_add (len - 1) (fst interval) (start_indices_sums r)) (\<lambda>v4.
     rbind (checked_sub n len) (\<lambda>nl.
     rbind (vec_add (len - 1) (min nl (fst interval)) (start_indices_min_sums r)) (\<lambda>v5.
     rbind (vec_add (len - 1) (snd interval) (end_indices_sums r)) (\<lambda>v6.
     rbind (vec_add (len - 1) (max len (snd interval)) (end_indices_max_sums r)) (\<lambda>v7.
     Inr \<lparr>start_index_counts = v1, end_index_counts = v2, len_counts = v3, start_indices_sums = v4,
       start_indices_min_sums = v5, end_indices_sums = v6, end_indices_max_sums = v7\<rparr>)))))))))"

text \<open>A vector of length \<open>n\<close> whose entry 0 is assigned and whose entry \<open>i\<close> is computed from entry
  \<open>i - 1\<close> in a loop from 1 on; assigning entry 0 of an empty vector panics.\<close>

fun scan_from :: "(nat \<Rightarrow> nat \<Rightarrow> nat res) \<Rightarrow> nat \<Rightarrow> nat \<Rightarrow> nat \<Rightarrow> nat list res" where
  "scan_from f i 0 prev = Inr []"
| "scan_from f i (Suc k) prev =
     rbind (f i prev) (\<lambda>v. rbind (scan_from f (Suc i) k v) (\<lambda>vs. Inr (v # vs)))"

definition scan :: "nat \<Rightarrow> nat res \<Rightarrow> (nat \<Rightarrow> nat \<Rightarrow> nat res) \<Rightarrow> nat list res" where
  "scan n v0 f = (if n = 0 then Inl OutOfBounds
     else rbind v0 (\<lambda>a. rbind (scan_from f 1 (n - 1) a) (\<lambda>vs. Inr (a # vs))))"

definition reuse_xyz :: "nat \<Rightarrow> (nat \<times> nat) list \<Rightarrow> (nat list \<times> nat list \<times> nat list) res" where
  "reuse_xyz n intervals =
     rbind (for_each (add_interval n) intervals (zero_sums n)) (\<lambda>r.
     rbind (scan n (Inr 0) (\<lambda>i prev. rbind (checked_sub n i) (\<lambda>j.
       rbind (index_list (start_index_counts r) j) (\<lambda>c. Inr (prev + c))))) (\<lambda>start_index_n_k.
     rbind (scan n (Inr 0) (\<lambda>i prev. rbind (index_list (end_index_counts r) i) (\<lambda>c. Inr (prev + c)))) (\<lambda>end_index_k_1.
     rbind (scan n (index_list (len_counts r) 0) (\<lambda>i prev.
       rbind (index_list (len_counts r) i) (\<lambda>c. Inr (prev + c)))) (\<lambda>len_l_k.
     rbind (scan n (index_list (start_indices_sums r) 0) (\<lambda>i prev.
       rbind (index_list (start_indices_min_sums r) i) (\<lambda>a.
       rbind (index_list start_index_n_k i) (\<lambda>b. checked_sub (prev + a) b)))) (\<lambda>x.
     rbind (scan n (index_list (end_indices_sums r) 0) (\<lambda>i prev.
       rbind (index_list end_index_k_1 (i - 1)) (\<lambda>a.
       rbind (index_list (end_indices_max_sums r) i) (\<lambda>b. Inr (prev + a + b))))) (\<lambda>y.
     rbind (scan n (index_list (len_counts r) 0) (\<lambda>i prev.
       rbind (index_list len_l_k (i - 1)) (\<lambda>a.
       rbind (index_list (len_counts r) i) (\<lambda>b. Inr (prev + a + (i + 1) * b))))) (\<lambda>z.
     Inr (x, y, z))))))))"

definition reuse_entry :: "nat \<Rightarrow> nat list \<times> nat list \<times> nat list \<Rightarrow> nat \<Rightarrow> (nat \<rightharpoonup> rat) \<Rightarrow> (nat \<rightharpoonup> rat) res" where
  "reuse_entry n v k result =
     (let (x, y, z) = v in
      rbind (index_list x (k - 1)) (\<lambda>a. rbind (index_list z (k - 1)) (\<lambda>c. rbind (index_list y (k - 1)) (\<lambda>b.
      rbind (checked_sub (a + c) b) (\<lambda>num.
      Inr (result(k \<mapsto> of_nat num / of_nat (n - k + 1))))))))"

definition reuse :: "trace \<Rightarrow> (nat \<rightharpoonup> rat) res" where
  "reuse t =
     rbind (free_intervals t) (\<lambda>intervals.
     let n = alloc_count t in
     rbind (reuse_xyz n intervals) (\<lambda>v.
     for_each (reuse_entry n v) [1..<n + 1] Map.empty))"

section \<open>The counter\<close>

record reuse_counter =
  burst_length :: nat
  hibernation_period :: nat
  rc_n :: nat
  rc_trace :: "trace option"
  rc_reuse :: "(nat \<rightharpoonup> rat) option"

definition reuse_counter_new :: "(nat \<Rightarrow> bool) \<Rightarrow> (nat \<Rightarrow> event) \<Rightarrow> nat \<Rightarrow> nat \<Rightarrow> reuse_counter res" where
  "reuse_counter_new mem_ok g bl hp =
     rbind (trace_new mem_ok g) (\<lambda>t.
     Inr \<lparr>burst_length = bl, hibernation_period = hp, rc_n = 0, rc_trace = Some t, rc_reuse = None\<rparr>)"

definition rc_event :: "(nat \<Rightarrow> bool) \<Rightarrow> event \<Rightarrow> reuse_counter \<Rightarrow> reuse_counter res" where
  "rc_event mem_ok ev r =
     (case rc_trace r of
        Some t \<Rightarrow> rbind (trace_add mem_ok ev t) (\<lambda>t'. Inr (r\<lparr>rc_trace := Some t'\<rparr>))
      | None \<Rightarrow> Inr r)"

definition rc_alloc :: "(nat \<Rightarrow> bool) \<Rightarrow> usize \<Rightarrow> reuse_counter \<Rightarrow> reuse_counter res" where
  "rc_alloc mem_ok sl = rc_event mem_ok (Alloc sl)"

definition rc_free :: "(nat \<Rightarrow> bool) \<Rightarrow> usize \<Rightarrow> reuse_counter \<Rightarrow> reuse_counter res" where
  "rc_free mem_ok sl = rc_event mem_ok (Free sl)"

definition sampling :: "reuse_counter \<Rightarrow> bool" where
  "sampling r \<longleftrightarrow> rc_trace r \<noteq> None"

definition rc_inc_timer :: "(nat \<Rightarrow> bool) \<Rightarrow> (nat \<Rightarrow> event) \<Rightarrow> reuse_counter \<Rightarrow> reuse_counter res" where
  "rc_inc_timer mem_ok g r =
     (let r1 = r\<lparr>rc_n := Suc (rc_n r)\<rparr> in
      case rc_trace r1 of
        Some t \<Rightarrow>
          if rc_n r1 \<ge> burst_length r1
          then rbind (reuse t) (\<lambda>m. Inr (r1\<lparr>rc_reuse := Some m, rc_n := 0, rc_trace := None\<rparr>))
          else Inr r1
      | None \<Rightarrow>
          if rc_n r1 \<ge> hibernation_period r1
          then rbind (trace_new mem_ok g) (\<lambda>t. Inr (r1\<lparr>rc_n := 0, rc_trace := Some t\<rparr>))
          else Inr r1)"

definition rc_reuse_of :: "reuse_counter \<Rightarrow> nat \<Rightarrow> rat option" where
  "rc_reuse_of r k =
     (case rc_reuse r of Some m \<Rightarrow> (case m k of Some v \<Rightarrow> Some v | None \<Rightarrow> Some 0) | None \<Rightarrow> None)"

section \<open>Sums over intervals\<close>

definition tot :: "(nat \<times> nat \<Rightarrow> nat) \<Rightarrow> (nat \<times> nat \<Rightarrow> bool) \<Rightarrow> (nat \<times> nat) list \<Rightarrow> nat" where
  "tot f P ivs = sum_list (map f (filter P ivs))"

definition bucket :: "nat \<Rightarrow> (nat \<times> nat \<Rightarrow> nat) \<Rightarrow> (nat \<times> nat \<Rightarrow> nat) \<Rightarrow> (nat \<times> nat) list \<Rightarrow> nat list" where
  "bucket n key f ivs = map (\<lambda>j. tot f (\<lambda>iv. key iv = j) ivs) [0..<n]"

lemma tot_Nil [simp]: "tot f P [] = 0"
  by (simp add: tot_def)

lemma tot_snoc [simp]: "tot f P (ivs @ [iv]) = tot f P ivs + (if P iv then f iv else 0)"
  by (simp add: tot_def)

lemma tot_Cons: "tot f P (iv # ivs) = (if P iv then f iv else 0) + tot f P ivs"
  by (simp add: tot_def)

text \<open>Two sums are equal when they are equal interval by interval.\<close>

lemma tot_as_all: "tot f P ivs = sum_list (map (\<lambda>iv. if P iv then f iv else 0) ivs)"
  by (induction ivs) (auto simp: tot_Cons)

lemma vec_add_bucket:
  assumes "key iv < n"
  shows "vec_add (key iv) (f iv) (bucket n key f ivs) = Inr (bucket n key f (ivs @ [iv]))"
  using assms by (auto simp: vec_add_def bucket_def intro!: nth_equalityI simp: nth_list_update)

definition iv_len :: "nat \<times> nat \<Rightarrow> nat" where
  "iv_len iv = snd iv - fst iv + 1"

definition iv_key :: "nat \<times> nat \<Rightarrow> nat" where
  "iv_key iv = snd iv - fst iv"

definition iv_ok :: "nat \<Rightarrow> nat \<times> nat \<Rightarrow> bool" where
  "iv_ok n iv \<longleftrightarrow> fst iv \<le> snd iv \<and> snd iv < n"

definition sums_of :: "nat \<Rightarrow> (nat \<times> nat) list \<Rightarrow> reuse_sums" where
  "sums_of n ivs = (\<lparr>start_index_counts = bucket n fst (\<lambda>_. 1) ivs, end_index_counts = bucket n snd (\<lambda>_. 1) ivs,
      len_counts = bucket n iv_key (\<lambda>_. 1) ivs, start_indices_sums = bucket n iv_key fst ivs,
      start_indices_min_sums = bucket n iv_key (\<lambda>iv. min (n - iv_len iv) (fst iv)) ivs,
      end_indices_sums = bucket n iv_key snd ivs,
      end_indices_max_sums = bucket n iv_key (\<lambda>iv. max (iv_len iv) (snd iv)) ivs\<rparr>)"

lemma add_interval_sums:
  assumes "iv_ok n iv" shows "add_interval n iv (sums_of n ivs) = Inr (sums_of n (ivs @ [iv]))"
proof -
  have iv: "fst iv \<le> snd iv" "fst iv < n" "snd iv < n" "iv_key iv < n" "iv_len iv \<le> n"
    using assms by (auto simp: iv_ok_def iv_len_def iv_key_def)
  have len: "snd iv - fst iv + 1 = iv_len iv" "iv_len iv - 1 = iv_key iv" by (simp_all add: iv_len_def iv_key_def)
  note b = vec_add_bucket [where key = fst, OF iv(2)] vec_add_bucket [where key = snd, OF iv(3)]
    vec_add_bucket [where key = iv_key, OF iv(4)]
  show ?thesis
    unfolding add_interval_def sums_of_def Let_def checked_sub_le [OF iv(1)] rbind_simps len
    using iv(5) b(1) [of "\<lambda>_. 1"] b(2) [of "\<lambda>_. 1"] b(3) [of "\<lambda>_. 1"] b(3) [of fst] b(3) [of snd]
      b(3) [of "\<lambda>iv. min (n - iv_len iv) (fst iv)"] b(3) [of "\<lambda>iv. max (iv_len iv) (snd iv)"]
    by simp
qed

lemma add_intervals_sums:
  "\<forall>iv \<in> set ivs. iv_ok n iv \<Longrightarrow> for_each (add_interval n) ivs (sums_of n pre) = Inr (sums_of n (pre @ ivs))"
  by (induction ivs arbitrary: pre) (auto simp: add_interval_sums)

lemma zero_sums_sums: "zero_sums n = sums_of n []"
  by (simp add: zero_sums_def sums_of_def bucket_def map_replicate_const Let_def)

lemma scan_from_eq:
  assumes "\<And>j. i \<le> j \<Longrightarrow> j < i + k \<Longrightarrow> f j (g (j - 1)) = Inr (g j)" "0 < i"
  shows "scan_from f i k (g (i - 1)) = Inr (map g [i..<i + k])"
  using assms
proof (induction k arbitrary: i)
  case (Suc k)
  have "f i (g (i - 1)) = Inr (g i)" using Suc.prems(1) [of i] by simp
  moreover have "scan_from f (Suc i) k (g (Suc i - 1)) = Inr (map g [Suc i..<Suc i + k])"
    using Suc.prems(1) by (intro Suc.IH) auto
  moreover have "[i..<i + Suc k] = i # [Suc i..<Suc i + k]" by (subst upt_conv_Cons) simp_all
  ultimately show ?case by (simp del: upt_Suc)
qed simp

lemma scan_eq:
  assumes "0 < n" "v0 = Inr (g 0)" "\<And>j. 1 \<le> j \<Longrightarrow> j < n \<Longrightarrow> f j (g (j - 1)) = Inr (g j)"
  shows "scan n v0 f = Inr (map g [0..<n])"
proof -
  have "scan_from f 1 (n - 1) (g (1 - 1)) = Inr (map g [1..<1 + (n - 1)])"
    using assms(3) by (intro scan_from_eq) auto
  moreover have "[0..<n] = 0 # [1..<n]" using assms(1) by (simp add: upt_conv_Cons)
  ultimately show ?thesis using assms(1,2) by (simp add: scan_def)
qed

text \<open>Sums are compared interval by interval.\<close>

lemma tot_eqI:
  assumes "\<And>iv. iv \<in> set ivs \<Longrightarrow> (if P iv then f iv else 0) = (if Q iv then g iv else 0)"
  shows "tot f P ivs = tot g Q ivs"
  unfolding tot_as_all by (intro arg_cong [where f = sum_list] map_cong refl assms)

lemma tot_add:
  "tot f P ivs + tot g Q ivs = sum_list (map (\<lambda>iv. (if P iv then f iv else 0) + (if Q iv then g iv else 0)) ivs)"
  by (simp add: tot_as_all sum_list_addf)

lemma tot_addI:
  assumes "\<And>iv. iv \<in> set ivs \<Longrightarrow>
    (if P iv then f iv else 0) + (if Q iv then g iv else 0) = (if R iv then h iv else 0)"
  shows "tot f P ivs + tot g Q ivs = tot h R ivs"
  unfolding tot_add tot_as_all [of h] by (intro arg_cong [where f = sum_list] map_cong refl assms)

lemma tot_zeroI: "(\<And>iv. iv \<in> set ivs \<Longrightarrow> P iv \<Longrightarrow> f iv = 0) \<Longrightarrow> tot f P ivs = 0"
  by (auto simp: tot_def)

lemma bucket_nth [simp]: "j < n \<Longrightarrow> bucket n key f ivs ! j = tot f (\<lambda>iv. key iv = j) ivs"
  by (simp add: bucket_def)

lemma bucket_index [simp]: "j < n \<Longrightarrow> index_list (bucket n key f ivs) j = Inr (tot f (\<lambda>iv. key iv = j) ivs)"
  by (simp add: index_list_def bucket_def)

section \<open>Closed forms\<close>

text \<open>What an interval contributes to \<^verbatim>\<open>y[k - 1]\<close>: for an interval that starts after the first
  allocation it is \<open>max (k - 1) e\<close>.\<close>

definition y_part :: "nat \<Rightarrow> nat \<times> nat \<Rightarrow> nat" where
  "y_part k iv = (if 0 < fst iv then max (k - 1) (snd iv) else if snd iv = 0 then 0 else k)"

definition count_start :: "nat \<Rightarrow> (nat \<times> nat) list \<Rightarrow> nat \<Rightarrow> nat" where
  "count_start n ivs i = tot (\<lambda>_. 1) (\<lambda>iv. n - i \<le> fst iv) ivs"

definition count_end :: "(nat \<times> nat) list \<Rightarrow> nat \<Rightarrow> nat" where
  "count_end ivs i = tot (\<lambda>_. 1) (\<lambda>iv. 1 \<le> snd iv \<and> snd iv \<le> i) ivs"

definition count_len :: "(nat \<times> nat) list \<Rightarrow> nat \<Rightarrow> nat" where
  "count_len ivs i = tot (\<lambda>_. 1) (\<lambda>iv. iv_len iv \<le> i + 1) ivs"

definition x_sum :: "nat \<Rightarrow> (nat \<times> nat) list \<Rightarrow> nat \<Rightarrow> nat" where
  "x_sum n ivs i = tot (\<lambda>iv. min (n - (i + 1)) (fst iv)) (\<lambda>iv. iv_len iv \<le> i + 1) ivs"

definition y_sum :: "(nat \<times> nat) list \<Rightarrow> nat \<Rightarrow> nat" where
  "y_sum ivs i = tot (y_part (i + 1)) (\<lambda>iv. iv_len iv \<le> i + 1) ivs"

lemma iv_okD: "iv_ok n iv \<Longrightarrow> fst iv \<le> snd iv \<and> snd iv < n \<and> iv_len iv = snd iv - fst iv + 1"
  by (simp add: iv_ok_def iv_len_def)

lemma iv_len_pos: "iv_key iv = j \<longleftrightarrow> iv_len iv = j + 1"
  by (auto simp: iv_len_def iv_key_def)

text \<open>One step of each of the six loops.\<close>

lemma count_start_step: "1 \<le> j \<Longrightarrow> j < n \<Longrightarrow>
    count_start n ivs (j - 1) + tot (\<lambda>_. 1) (\<lambda>iv. fst iv = n - j) ivs = count_start n ivs j"
  unfolding count_start_def by (intro tot_addI) auto

lemma count_end_step: "1 \<le> j \<Longrightarrow> count_end ivs (j - 1) + tot (\<lambda>_. 1) (\<lambda>iv. snd iv = j) ivs = count_end ivs j"
  unfolding count_end_def by (intro tot_addI) auto

lemma count_len_step: "1 \<le> j \<Longrightarrow> count_len ivs (j - 1) + tot (\<lambda>_. 1) (\<lambda>iv. iv_len iv = j + 1) ivs = count_len ivs j"
  unfolding count_len_def by (intro tot_addI) auto

lemma x_sum_step:
  assumes "1 \<le> j" "j < n" "\<forall>iv \<in> set ivs. iv_ok n iv"
  shows "x_sum n ivs (j - 1) + tot (\<lambda>iv. min (n - iv_len iv) (fst iv)) (\<lambda>iv. iv_len iv = j + 1) ivs =
    x_sum n ivs j + count_start n ivs j"
  unfolding x_sum_def count_start_def tot_add
proof (intro arg_cong [where f = sum_list] map_cong refl)
  fix iv assume "iv \<in> set ivs"
  then have "fst iv \<le> snd iv" "snd iv < n" "iv_len iv = snd iv - fst iv + 1" using assms(3) iv_okD by blast+
  then show "(if iv_len iv \<le> j - 1 + 1 then min (n - (j - 1 + 1)) (fst iv) else 0) +
      (if iv_len iv = j + 1 then min (n - iv_len iv) (fst iv) else 0) =
    (if iv_len iv \<le> j + 1 then min (n - (j + 1)) (fst iv) else 0) + (if n - j \<le> fst iv then 1 else 0)"
    using assms(1,2) by (auto simp: min_def)
qed

lemma y_sum_step:
  assumes "1 \<le> j" "\<forall>iv \<in> set ivs. iv_ok n iv"
  shows "y_sum ivs (j - 1) + count_end ivs (j - 1) +
    tot (\<lambda>iv. max (iv_len iv) (snd iv)) (\<lambda>iv. iv_len iv = j + 1) ivs = y_sum ivs j"
proof -
  have "y_sum ivs (j - 1) + count_end ivs (j - 1) =
      tot (\<lambda>iv. y_part j iv + (if 1 \<le> snd iv \<and> snd iv \<le> j - 1 then 1 else 0)) (\<lambda>iv. iv_len iv \<le> j) ivs"
    unfolding y_sum_def count_end_def
  proof (rule tot_addI)
    fix iv assume "iv \<in> set ivs"
    then have "fst iv \<le> snd iv" "iv_len iv = snd iv - fst iv + 1" using assms(2) iv_okD by blast+
    then show "(if iv_len iv \<le> j - 1 + 1 then y_part (j - 1 + 1) iv else 0) +
        (if 1 \<le> snd iv \<and> snd iv \<le> j - 1 then 1 else 0) =
      (if iv_len iv \<le> j then y_part j iv + (if 1 \<le> snd iv \<and> snd iv \<le> j - 1 then 1 else 0) else 0)"
      using assms(1) by auto
  qed
  also have "\<dots> + tot (\<lambda>iv. max (iv_len iv) (snd iv)) (\<lambda>iv. iv_len iv = j + 1) ivs = y_sum ivs j"
    unfolding y_sum_def
  proof (rule tot_addI)
    fix iv assume "iv \<in> set ivs"
    then have "fst iv \<le> snd iv" "iv_len iv = snd iv - fst iv + 1" using assms(2) iv_okD by blast+
    then show "(if iv_len iv \<le> j then y_part j iv + (if 1 \<le> snd iv \<and> snd iv \<le> j - 1 then 1 else 0) else 0) +
        (if iv_len iv = j + 1 then max (iv_len iv) (snd iv) else 0) =
      (if iv_len iv \<le> j + 1 then y_part (j + 1) iv else 0)"
      using assms(1) by (auto simp: y_part_def max_def)
  qed
  finally show ?thesis .
qed

section \<open>The whole computation\<close>

lemma sums_of_simps [simp]:
  "start_index_counts (sums_of n ivs) = bucket n fst (\<lambda>_. 1) ivs"
  "end_index_counts (sums_of n ivs) = bucket n snd (\<lambda>_. 1) ivs"
  "len_counts (sums_of n ivs) = bucket n iv_key (\<lambda>_. 1) ivs"
  "start_indices_sums (sums_of n ivs) = bucket n iv_key fst ivs"
  "start_indices_min_sums (sums_of n ivs) = bucket n iv_key (\<lambda>iv. min (n - iv_len iv) (fst iv)) ivs"
  "end_indices_sums (sums_of n ivs) = bucket n iv_key snd ivs"
  "end_indices_max_sums (sums_of n ivs) = bucket n iv_key (\<lambda>iv. max (iv_len iv) (snd iv)) ivs"
  by (simp_all add: sums_of_def Let_def)

lemma index_map_upt [simp]: "j < n \<Longrightarrow> index_list (map g [0..<n]) j = Inr (g j)"
  by (simp add: index_list_def)

lemma x_sum_0: "\<forall>iv \<in> set ivs. iv_ok n iv \<Longrightarrow> tot fst (\<lambda>iv. iv_len iv = 0 + 1) ivs = x_sum n ivs 0"
proof -
  assume ok: "\<forall>iv \<in> set ivs. iv_ok n iv"
  have "(if iv_len iv = 0 + 1 then fst iv else 0) = (if iv_len iv \<le> 0 + 1 then min (n - (0 + 1)) (fst iv) else 0)"
    if "iv \<in> set ivs" for iv
    using ok that by (auto simp: iv_ok_def iv_len_def)
  then show ?thesis unfolding x_sum_def by (intro tot_eqI)
qed

lemma y_sum_0: "\<forall>iv \<in> set ivs. iv_ok n iv \<Longrightarrow> tot snd (\<lambda>iv. iv_len iv = 0 + 1) ivs = y_sum ivs 0"
proof -
  assume ok: "\<forall>iv \<in> set ivs. iv_ok n iv"
  have "(if iv_len iv = 0 + 1 then snd iv else 0) = (if iv_len iv \<le> 0 + 1 then y_part (0 + 1) iv else 0)"
    if "iv \<in> set ivs" for iv
    using ok that by (auto simp: iv_ok_def iv_len_def y_part_def)
  then show ?thesis unfolding y_sum_def by (intro tot_eqI)
qed

lemma count_len_0: "tot (\<lambda>_. 1) (\<lambda>iv. iv_len iv = 0 + 1) ivs = count_len ivs 0"
  unfolding count_len_def by (intro tot_eqI) (auto simp: iv_len_def)

lemma reuse_xyz_eq:
  assumes n: "0 < n" and ok: "\<forall>iv \<in> set ivs. iv_ok n iv"
  shows "reuse_xyz n ivs = Inr (map (x_sum n ivs) [0..<n], map (y_sum ivs) [0..<n],
    map (\<lambda>i. (i + 1) * count_len ivs i) [0..<n])"
proof -
  let ?r = "sums_of n ivs"
  have "for_each (add_interval n) ivs (zero_sums n) = Inr ?r"
    using add_intervals_sums [OF ok, of "[]"] by (simp add: zero_sums_sums)
  moreover have "scan n (Inr 0) (\<lambda>i prev. rbind (checked_sub n i) (\<lambda>j.
      rbind (index_list (start_index_counts ?r) j) (\<lambda>c. Inr (prev + c)))) = Inr (map (count_start n ivs) [0..<n])"
  proof (rule scan_eq [OF n])
    have "tot (\<lambda>_. 1) (\<lambda>iv. n - 0 \<le> fst iv) ivs = 0"
      using ok by (intro tot_zeroI) (auto simp: iv_ok_def)
    then show "Inr 0 = Inr (count_start n ivs 0)" by (simp only: count_start_def)
  qed (use count_start_step in \<open>auto simp: less_imp_le\<close>)
  moreover have "scan n (Inr 0) (\<lambda>i prev. rbind (index_list (end_index_counts ?r) i) (\<lambda>c. Inr (prev + c))) =
      Inr (map (count_end ivs) [0..<n])"
  proof (rule scan_eq [OF n])
    show "Inr 0 = Inr (count_end ivs 0)" unfolding count_end_def by (subst tot_zeroI) auto
  qed (use count_end_step in auto)
  moreover have "scan n (index_list (len_counts ?r) 0) (\<lambda>i prev. rbind (index_list (len_counts ?r) i)
      (\<lambda>c. Inr (prev + c))) = Inr (map (count_len ivs) [0..<n])"
    by (rule scan_eq [OF n]) (use n count_len_step count_len_0 in \<open>auto simp: iv_len_pos\<close>)
  moreover have "scan n (index_list (start_indices_sums ?r) 0) (\<lambda>i prev.
       rbind (index_list (start_indices_min_sums ?r) i) (\<lambda>a.
       rbind (index_list (map (count_start n ivs) [0..<n]) i) (\<lambda>b. checked_sub (prev + a) b))) =
      Inr (map (x_sum n ivs) [0..<n])"
    by (rule scan_eq [OF n]) (use n x_sum_step [OF _ _ ok] x_sum_0 [OF ok] in \<open>auto simp: iv_len_pos\<close>)
  moreover have "scan n (index_list (end_indices_sums ?r) 0) (\<lambda>i prev.
       rbind (index_list (map (count_end ivs) [0..<n]) (i - 1)) (\<lambda>a.
       rbind (index_list (end_indices_max_sums ?r) i) (\<lambda>b. Inr (prev + a + b)))) = Inr (map (y_sum ivs) [0..<n])"
    by (rule scan_eq [OF n]) (use n y_sum_step [OF _ ok] y_sum_0 [OF ok] in \<open>auto simp: iv_len_pos\<close>)
  moreover have "scan n (index_list (len_counts ?r) 0) (\<lambda>i prev.
       rbind (index_list (map (count_len ivs) [0..<n]) (i - 1)) (\<lambda>a.
       rbind (index_list (len_counts ?r) i) (\<lambda>b. Inr (prev + a + (i + 1) * b)))) =
      Inr (map (\<lambda>i. (i + 1) * count_len ivs i) [0..<n])"
  proof (rule scan_eq [OF n])
    show "index_list (len_counts ?r) 0 = Inr ((0 + 1) * count_len ivs 0)"
      using n count_len_0 [of ivs] by (simp add: iv_len_pos)
    fix j assume j: "1 \<le> j" "j < n"
    then show "rbind (index_list (map (count_len ivs) [0..<n]) (j - 1)) (\<lambda>a. rbind (index_list (len_counts ?r) j)
        (\<lambda>b. Inr ((j - 1 + 1) * count_len ivs (j - 1) + a + (j + 1) * b))) = Inr ((j + 1) * count_len ivs j)"
      using count_len_step [OF j(1), of ivs, symmetric] by (simp add: iv_len_pos algebra_simps)
  qed
  ultimately show ?thesis unfolding reuse_xyz_def by (simp del: sums_of_simps)
qed

section \<open>Windows\<close>

text \<open>The number of windows of length \<open>k\<close> that contain an interval.\<close>

definition windows :: "nat \<Rightarrow> nat \<Rightarrow> nat \<times> nat \<Rightarrow> nat" where
  "windows n k iv = card {w. w + k \<le> n \<and> w \<le> fst iv \<and> snd iv < w + k}"

lemma windows_eq:
  assumes "iv_ok n iv" "1 \<le> k" "k \<le> n"
  shows "windows n k iv = (if iv_len iv \<le> k then min (n - k) (fst iv) + k - max (k - 1) (snd iv) else 0)"
proof -
  have "{w. w + k \<le> n \<and> w \<le> fst iv \<and> snd iv < w + k} = {snd iv + 1 - k..min (n - k) (fst iv)}"
    using assms(2,3) by auto
  then have "windows n k iv = min (n - k) (fst iv) + 1 - (snd iv + 1 - k)" by (simp add: windows_def)
  moreover have "fst iv \<le> snd iv" "snd iv < n" "iv_len iv = snd iv - fst iv + 1" using assms(1) iv_okD by blast+
  ultimately show ?thesis using assms(2,3) by (auto simp: min_def max_def)
qed

text \<open>What an interval contributes to the numerator: the windows that contain it, except that an
  interval that starts before the first allocation counts 0, or \<open>k\<close> when it also ends there.\<close>

definition counted :: "nat \<Rightarrow> nat \<Rightarrow> nat \<times> nat \<Rightarrow> nat" where
  "counted n k iv = (if 0 < fst iv then windows n k iv else if snd iv = 0 then k else 0)"

lemma numerator_eq:
  assumes "1 \<le> k" "k \<le> n" "\<forall>iv \<in> set ivs. iv_ok n iv"
  shows "x_sum n ivs (k - 1) + k * count_len ivs (k - 1) = sum_list (map (counted n k) ivs) + y_sum ivs (k - 1)"
proof -
  have k: "k - 1 + 1 = k" using assms(1) by simp
  have "k * count_len ivs (k - 1) = tot (\<lambda>_. k) (\<lambda>iv. iv_len iv \<le> k) ivs"
    unfolding count_len_def k tot_as_all sum_list_const_mult [symmetric]
    by (intro arg_cong [where f = sum_list] map_cong) auto
  then have "x_sum n ivs (k - 1) + k * count_len ivs (k - 1) =
      sum_list (map (\<lambda>iv. (if iv_len iv \<le> k then min (n - k) (fst iv) else 0) + (if iv_len iv \<le> k then k else 0)) ivs)"
    unfolding x_sum_def k by (simp only: tot_add)
  also have "\<dots> = sum_list (map (\<lambda>iv. counted n k iv + (if iv_len iv \<le> k then y_part k iv else 0)) ivs)"
  proof (intro arg_cong [where f = sum_list] map_cong refl)
    fix iv assume "iv \<in> set ivs"
    then have ok: "iv_ok n iv" using assms(3) by blast
    then have "fst iv \<le> snd iv" "snd iv < n" "iv_len iv = snd iv - fst iv + 1" using iv_okD by blast+
    then show "(if iv_len iv \<le> k then min (n - k) (fst iv) else 0) + (if iv_len iv \<le> k then k else 0) =
      counted n k iv + (if iv_len iv \<le> k then y_part k iv else 0)"
      using assms(1,2) by (auto simp: counted_def windows_eq [OF ok assms(1,2)] y_part_def min_def max_def)
  qed
  also have "\<dots> = sum_list (map (counted n k) ivs) + y_sum ivs (k - 1)"
    unfolding y_sum_def k tot_as_all by (simp add: sum_list_addf)
  finally show ?thesis .
qed

lemma for_each_entries:
  assumes "\<And>k m. k \<in> set ks \<Longrightarrow> reuse_entry n v k m = Inr (m(k \<mapsto> g k))"
  shows "for_each (reuse_entry n v) ks m = Inr (\<lambda>k. if k \<in> set ks then Some (g k) else m k)"
  using assms
proof (induction ks arbitrary: m)
  case (Cons k ks)
  have "for_each (reuse_entry n v) ks (m(k \<mapsto> g k)) = Inr (\<lambda>j. if j \<in> set ks then Some (g j) else (m(k \<mapsto> g k)) j)"
    using Cons.prems by (intro Cons.IH) auto
  moreover have "reuse_entry n v k m = Inr (m(k \<mapsto> g k))" by (rule Cons.prems) simp
  ultimately show ?case by (auto simp: fun_eq_iff)
qed simp

lemma reuse_result:
  assumes "free_intervals t = Inr ivs" "n = alloc_count t" "0 < n" "\<forall>iv \<in> set ivs. iv_ok n iv"
  shows "reuse t = Inr (\<lambda>k. if 1 \<le> k \<and> k \<le> n
    then Some (of_nat (sum_list (map (counted n k) ivs)) / of_nat (n - k + 1)) else None)"
proof -
  let ?v = "(map (x_sum n ivs) [0..<n], map (y_sum ivs) [0..<n], map (\<lambda>i. (i + 1) * count_len ivs i) [0..<n])"
  have entry: "reuse_entry n ?v k m = Inr (m(k \<mapsto> of_nat (sum_list (map (counted n k) ivs)) / of_nat (n - k + 1)))"
    if "k \<in> set [1..<n + 1]" for k m
  proof -
    have k: "1 \<le> k" "k \<le> n" "k - 1 < n" "k - 1 + 1 = k" using that assms(3) by auto
    have "checked_sub (x_sum n ivs (k - 1) + k * count_len ivs (k - 1)) (y_sum ivs (k - 1)) =
        Inr (sum_list (map (counted n k) ivs))"
      unfolding numerator_eq [OF k(1,2) assms(4)] by simp
    then show ?thesis
      unfolding reuse_entry_def Let_def prod.case index_map_upt [OF k(3)] rbind_simps k(4) by (simp only: rbind_simps)
  qed
  from for_each_entries [of "[1..<n + 1]", OF entry]
  have "for_each (reuse_entry n ?v) [1..<n + 1] Map.empty =
      Inr (\<lambda>k. if k \<in> set [1..<n + 1] then Some (of_nat (sum_list (map (counted n k) ivs)) / of_nat (n - k + 1)) else None)"
    by blast
  then show ?thesis
    using assms(1,2) reuse_xyz_eq [OF assms(3,4)] by (simp add: reuse_def less_Suc_eq_le Suc_le_eq fun_eq_iff del: upt_Suc)
qed

lemma windows_sum:
  "k \<le> n \<Longrightarrow> sum_list (map (windows n k) ivs) =
    (\<Sum>w = 0..n - k. length (filter (\<lambda>iv. w \<le> fst iv \<and> snd iv < w + k) ivs))"
proof (induction ivs)
  case (Cons iv ivs)
  have "{w. w + k \<le> n \<and> w \<le> fst iv \<and> snd iv < w + k} = {w \<in> {0..n - k}. w \<le> fst iv \<and> snd iv < w + k}"
    using Cons.prems by auto
  then have "windows n k iv = (\<Sum>w = 0..n - k. if w \<le> fst iv \<and> snd iv < w + k then 1 else 0)"
    unfolding windows_def card_eq_sum by (simp add: sum.inter_filter [symmetric])
  then have "sum_list (map (windows n k) (iv # ivs)) = (\<Sum>w = 0..n - k. (if w \<le> fst iv \<and> snd iv < w + k then 1 else 0) +
      length (filter (\<lambda>iv. w \<le> fst iv \<and> snd iv < w + k) ivs))"
    using Cons by (simp add: sum.distrib)
  then show ?case by (auto intro: sum.cong)
qed simp

text \<open>C29. At the end of a burst in which no slot was freed before the first allocation, \<^verbatim>\<open>reuse\<close> computes
  in linear time exactly the quantity it stands for: for every window length \<open>k\<close> up to the number \<open>n\<close>
  of allocations, the number of free intervals that fit into a window of \<open>k\<close> allocations, averaged
  over the \<open>n - k + 1\<close> windows. No index is out of bounds and no subtraction underflows on the way.\<close>

theorem reuse_average:
  assumes "trace_rep t evs" "n = allocs evs" "0 < n" "free_intervals t = Inr ivs" "\<forall>iv \<in> set ivs. 0 < fst iv"
  shows "\<exists>m. reuse t = Inr m \<and> (\<forall>k. 1 \<le> k \<and> k \<le> n \<longrightarrow> m k = Some
    (of_nat (\<Sum>w = 0..n - k. length (filter (\<lambda>iv. w \<le> fst iv \<and> snd iv < w + k) ivs)) / of_nat (n - k + 1)))"
proof -
  have n: "n = alloc_count t" using assms(1,2) by (simp add: trace_rep_def)
  have "ivs = intervals_loop evs Map.empty 0"
    using trace_events_rep [OF assms(1)] assms(4) by (simp add: free_intervals_def)
  then have ok: "\<forall>iv \<in> set ivs. iv_ok n iv"
    using intervals_spec is_interval_bounds assms(2) by (auto simp: iv_ok_def)
  have "map (counted n k) ivs = map (windows n k) ivs" for k
    using assms(5) by (auto simp: counted_def)
  then have "sum_list (map (counted n k) ivs) =
      (\<Sum>w = 0..n - k. length (filter (\<lambda>iv. w \<le> fst iv \<and> snd iv < w + k) ivs))" if "k \<le> n" for k
    using windows_sum [OF that] by metis
  then show ?thesis
    using reuse_result [OF assms(4) n assms(3) ok] by (auto simp del: of_nat_sum)
qed

text \<open>Free intervals that start before the first allocation of the burst are not counted so: such
  an interval is never counted when it ends later, although the first window contains it, and it is
  counted \<open>k\<close> times when it ends at the first allocation. A burst without allocations makes the
  computation panic.\<close>

theorem reuse_start_zero:
  assumes "trace_rep t evs" "free_intervals t = Inr ivs"
  shows "(allocs evs = 0 \<longrightarrow> reuse t = Inl OutOfBounds) \<and>
    (\<forall>n k. n = allocs evs \<and> 1 \<le> k \<and> k \<le> n \<longrightarrow> (\<exists>m. reuse t = Inr m \<and>
      m k = Some (of_nat (sum_list (map (\<lambda>iv. if 0 < fst iv then windows n k iv else if snd iv = 0 then k else 0) ivs))
        / of_nat (n - k + 1))))"
proof -
  have n: "allocs evs = alloc_count t" using assms(1) by (simp add: trace_rep_def)
  have "ivs = intervals_loop evs Map.empty 0"
    using trace_events_rep [OF assms(1)] assms(2) by (simp add: free_intervals_def)
  then have ok: "\<forall>iv \<in> set ivs. iv_ok (allocs evs) iv"
    using intervals_spec is_interval_bounds by (auto simp: iv_ok_def)
  have "reuse t = Inl OutOfBounds" if "allocs evs = 0"
  proof -
    have "ivs = []" using ok that by (cases ivs) (auto simp: iv_ok_def)
    then show ?thesis using assms(2) that n by (simp add: reuse_def reuse_xyz_def scan_def)
  qed
  moreover have "counted m k = (\<lambda>iv. if 0 < fst iv then windows m k iv else if snd iv = 0 then k else 0)" for m k
    by (simp add: fun_eq_iff counted_def)
  ultimately show ?thesis using reuse_result [OF assms(2) n _ ok] by auto
qed

text \<open>A burst with one interval.\<close>

definition sample_trace :: trace where
  "sample_trace = \<lparr>accesses = (\<lambda>i. [Alloc 1, Alloc 2, Free 1, Alloc 1] ! i), capacity = 8, tr_length = 4, alloc_count = 3\<rparr>"

lemma sample_trace_rep: "trace_rep sample_trace [Alloc 1, Alloc 2, Free 1, Alloc 1]"
  by (simp add: trace_rep_def sample_trace_def allocs_def)

lemma sample_trace_intervals: "free_intervals sample_trace = Inr [(2, 2)]"
  using trace_events_rep [OF sample_trace_rep] by (simp add: free_intervals_def)

theorem reuse_average_witness:
  "\<exists>m. reuse sample_trace = Inr m \<and> m 1 = Some (1 / 3) \<and> m 3 = Some 1"
proof -
  obtain m where m: "reuse sample_trace = Inr m" "\<forall>k. 1 \<le> k \<and> k \<le> 3 \<longrightarrow> m k = Some
    (of_nat (\<Sum>w = 0..3 - k. length (filter (\<lambda>iv. w \<le> fst iv \<and> snd iv < w + k) [(2, 2)])) / of_nat (3 - k + 1))"
    using reuse_average [OF sample_trace_rep _ _ sample_trace_intervals, of 3] by (auto simp: allocs_def)
  have "m 1 = Some (1 / 3)" using m(2) by (simp add: numeral_eq_Suc)
  moreover have "m 3 = Some 1" using m(2) [rule_format, of 3] by simp
  ultimately show ?thesis using m(1) by blast
qed

definition early_trace :: trace where
  "early_trace = \<lparr>accesses = (\<lambda>i. [Free 1, Alloc 1, Alloc 2] ! i), capacity = 8, tr_length = 3, alloc_count = 2\<rparr>"

theorem reuse_start_zero_witness:
  "\<exists>m. reuse early_trace = Inr m \<and> m 2 = Some 2 \<and> windows 2 2 (0, 0) = 1"
proof -
  have r: "trace_rep early_trace [Free 1, Alloc 1, Alloc 2]" by (simp add: trace_rep_def early_trace_def allocs_def)
  then have i: "free_intervals early_trace = Inr [(0, 0)]"
    using trace_events_rep [OF r] by (simp add: free_intervals_def)
  have "windows 2 2 (0, 0) = 1" using windows_eq [of 2 "(0, 0)" 2] by (simp add: iv_ok_def iv_len_def)
  then show ?thesis using reuse_start_zero [OF r i] by (auto simp: allocs_def dest!: spec [of _ "2 :: nat"])
qed

end
