(* ===== verification/Apf_Tuner.thy ===== *)
theory Apf_Tuner
  imports Apf_Reuse
begin

text \<open>
  The histogram, the liveness counter and the tuner of \<^verbatim>\<open>src/apf\<close>. A histogram is the list of its slots;
  \<open>mem_ok\<close> says whether the allocator returns memory for that many slots. Floating-point values are
  rational numbers. The tuner's three callbacks are parameters that act on the state of the thread
  cache; \<open>Thread_Cache\<close> defines the ones the crate installs. The plotting behind the feature
  \<^verbatim>\<open>show_records\<close> is not modelled.
\<close>

section \<open>Histograms\<close>

record histogram =
  histo :: "nat list"
  max_key :: nat

definition INIT_HISTOGRAM_LENGTH :: nat where "INIT_HISTOGRAM_LENGTH = 2 ^ 5"

definition histogram_new :: "(nat \<Rightarrow> bool) \<Rightarrow> histogram res" where
  "histogram_new mem_ok =
     (if mem_ok INIT_HISTOGRAM_LENGTH
      then Inr \<lparr>histo = replicate INIT_HISTOGRAM_LENGTH 0, max_key = INIT_HISTOGRAM_LENGTH\<rparr>
      else Inl AssertFailed)"

partial_function (option) grow_max :: "nat \<Rightarrow> nat \<Rightarrow> nat option" where
  "grow_max out failed_key = (if out \<le> failed_key then grow_max (out * 2) failed_key else Some out)"

definition histogram_grow :: "(nat \<Rightarrow> bool) \<Rightarrow> nat \<Rightarrow> histogram \<Rightarrow> histogram res option" where
  "histogram_grow mem_ok failed_key hg =
     map_option (\<lambda>new_max.
       if mem_ok new_max
       then Inr \<lparr>histo = take (max_key hg) (histo hg) @ replicate (new_max - max_key hg) 0, max_key = new_max\<rparr>
       else Inl AssertFailed)
     (grow_max (max_key hg * 2) failed_key)"

definition histogram_add :: "(nat \<Rightarrow> bool) \<Rightarrow> nat \<Rightarrow> nat \<Rightarrow> histogram \<Rightarrow> histogram res option" where
  "histogram_add mem_ok key val hg =
     (case checked_sub (max_key hg) 1 of
        Inl e \<Rightarrow> Some (Inl e)
      | Inr top_key \<Rightarrow>
          map_option (\<lambda>r. rbind r (\<lambda>hg'. rbind (index_list (histo hg') key) (\<lambda>v.
              rbind (update_list (histo hg') key (v + val)) (\<lambda>h'. Inr (hg'\<lparr>histo := h'\<rparr>)))))
            (if key \<ge> top_key then histogram_grow mem_ok key hg else Some (Inr hg)))"

definition histogram_increment :: "(nat \<Rightarrow> bool) \<Rightarrow> nat \<Rightarrow> histogram \<Rightarrow> histogram res option" where
  "histogram_increment mem_ok key = histogram_add mem_ok key 1"

definition histogram_get :: "histogram \<Rightarrow> nat \<Rightarrow> nat res" where
  "histogram_get hg key = (if key \<ge> max_key hg then Inr 0 else index_list (histo hg) key)"

definition histogram_count :: "histogram \<Rightarrow> nat" where
  "histogram_count hg = length (histo hg)"

definition histogram_ok :: "histogram \<Rightarrow> bool" where
  "histogram_ok hg \<longleftrightarrow> length (histo hg) = max_key hg \<and> 2 \<le> max_key hg"

text \<open>The keys a histogram counts, as a function.\<close>

definition histogram_fun :: "histogram \<Rightarrow> nat \<Rightarrow> nat" where
  "histogram_fun hg key = (if key < max_key hg then histo hg ! key else 0)"

lemma grow_max_returns:
  assumes "0 < out" shows "\<exists>m. grow_max out failed_key = Some m \<and> failed_key < m \<and> out \<le> m"
  using assms
proof (induction "failed_key + 1 - out" arbitrary: out rule: less_induct)
  case less
  show ?case
  proof (cases "out \<le> failed_key")
    case True
    then have "failed_key + 1 - out * 2 < failed_key + 1 - out" using less.prems by linarith
    then obtain m where "grow_max (out * 2) failed_key = Some m" "failed_key < m" "out * 2 \<le> m"
      using less.hyps [of "out * 2"] less.prems by auto
    then show ?thesis using True by (subst grow_max.simps) auto
  next
    case False
    then show ?thesis by (subst grow_max.simps) auto
  qed
qed

lemma histogram_grow_fun:
  assumes "histogram_ok hg" "\<And>n. mem_ok n"
  shows "\<exists>hg'. histogram_grow mem_ok key hg = Some (Inr hg') \<and> histogram_ok hg' \<and> key < max_key hg' \<and>
    histogram_fun hg' = histogram_fun hg"
proof -
  obtain m where m: "grow_max (max_key hg * 2) key = Some m" "key < m" "max_key hg * 2 \<le> m"
    using grow_max_returns [of "max_key hg * 2" key] assms(1) by (auto simp: histogram_ok_def)
  then show ?thesis
    using assms by (auto simp: histogram_grow_def histogram_ok_def histogram_fun_def fun_eq_iff nth_append)
qed

text \<open>A histogram behaves as a total function from keys to counts that is zero at first: for
  every key, however far past its current end, \<^verbatim>\<open>add\<close> returns (it grows the table as often as
  needed), adds the value at that key and changes no other, and \<^verbatim>\<open>get\<close> reads the function.\<close>

theorem histogram_add_get:
  assumes "histogram_ok hg" "\<forall>n. mem_ok n"
  shows "\<exists>hg'. histogram_add mem_ok key val hg = Some (Inr hg') \<and> histogram_ok hg' \<and>
    (\<forall>k. histogram_get hg' k = Inr (histogram_fun hg k + (if k = key then val else 0)))"
proof -
  have top: "checked_sub (max_key hg) 1 = Inr (max_key hg - 1)" using assms(1) by (simp add: histogram_ok_def)
  obtain hg1 where hg1: "(if key \<ge> max_key hg - 1 then histogram_grow mem_ok key hg else Some (Inr hg)) = Some (Inr hg1)"
    "histogram_ok hg1" "key < max_key hg1" "histogram_fun hg1 = histogram_fun hg"
    using histogram_grow_fun [OF assms(1), of mem_ok key] assms(1,2) by (cases "key \<ge> max_key hg - 1") (auto simp: not_le)
  define hg' where "hg' = hg1\<lparr>histo := (histo hg1)[key := histo hg1 ! key + val]\<rparr>"
  have "histogram_add mem_ok key val hg = Some (Inr hg')"
    using hg1(1,2,3) unfolding histogram_add_def top sum.case hg1(1) by (simp add: hg'_def histogram_ok_def)
  moreover have "histogram_ok hg'" using hg1(2) by (simp add: hg'_def histogram_ok_def)
  moreover have "histogram_get hg' k = Inr (histogram_fun hg k + (if k = key then val else 0))" for k
    using hg1(2,3) unfolding hg1(4) [symmetric]
    by (auto simp: histogram_get_def histogram_fun_def hg'_def histogram_ok_def index_list_def nth_list_update)
  ultimately show ?thesis by blast
qed

theorem histogram_add_get_witness:
  "\<exists>hg hg'. histogram_new (\<lambda>_. True) = Inr hg \<and> histogram_add (\<lambda>_. True) 100 7 hg = Some (Inr hg') \<and>
    histogram_get hg' 100 = Inr 7 \<and> histogram_get hg' 3 = Inr 0"
proof -
  let ?hg = "\<lparr>histo = replicate INIT_HISTOGRAM_LENGTH 0, max_key = INIT_HISTOGRAM_LENGTH\<rparr>"
  have ok: "histogram_ok ?hg" by (simp add: histogram_ok_def INIT_HISTOGRAM_LENGTH_def)
  obtain hg' where "histogram_add (\<lambda>_. True) 100 7 ?hg = Some (Inr hg')"
    "\<forall>k. histogram_get hg' k = Inr (histogram_fun ?hg k + (if k = 100 then 7 else 0))"
    using histogram_add_get [OF ok, of "\<lambda>_. True" 100 7] by auto
  then show ?thesis
    by (auto simp: histogram_new_def histogram_fun_def INIT_HISTOGRAM_LENGTH_def)
qed

section \<open>Liveness\<close>

record liveness_counter =
  lc_n :: nat
  lc_m :: nat
  alloc_sum :: histogram
  alloc_counts :: histogram
  free_sum :: histogram
  free_counts :: histogram

definition liveness_new :: "(nat \<Rightarrow> bool) \<Rightarrow> liveness_counter res" where
  "liveness_new mem_ok =
     rbind (histogram_new mem_ok) (\<lambda>a. rbind (histogram_new mem_ok) (\<lambda>b.
     rbind (histogram_new mem_ok) (\<lambda>c. rbind (histogram_new mem_ok) (\<lambda>d.
     Inr \<lparr>lc_n = 0, lc_m = 0, alloc_sum = a, alloc_counts = b, free_sum = c, free_counts = d\<rparr>))))"

definition lc_alloc :: "(nat \<Rightarrow> bool) \<Rightarrow> liveness_counter \<Rightarrow> liveness_counter res option" where
  "lc_alloc mem_ok l =
     orbind (histogram_add mem_ok (lc_n l) (lc_n l) (alloc_sum l)) (\<lambda>a.
     orbind (histogram_increment mem_ok (lc_n l) (alloc_counts l)) (\<lambda>b.
     Some (Inr (l\<lparr>alloc_sum := a, alloc_counts := b, lc_m := Suc (lc_m l)\<rparr>))))"

definition lc_free :: "(nat \<Rightarrow> bool) \<Rightarrow> liveness_counter \<Rightarrow> liveness_counter res option" where
  "lc_free mem_ok l =
     orbind (histogram_add mem_ok (lc_n l) (lc_n l) (free_sum l)) (\<lambda>a.
     orbind (histogram_increment mem_ok (lc_n l) (free_counts l)) (\<lambda>b.
     Some (Inr (l\<lparr>free_sum := a, free_counts := b\<rparr>))))"

definition carry_over :: "(nat \<Rightarrow> bool) \<Rightarrow> nat \<Rightarrow> histogram \<Rightarrow> histogram res option" where
  "carry_over mem_ok n hg = orbind (Some (histogram_get hg (n - 1))) (\<lambda>v. histogram_add mem_ok n v hg)"

definition lc_inc_timer :: "(nat \<Rightarrow> bool) \<Rightarrow> liveness_counter \<Rightarrow> liveness_counter res option" where
  "lc_inc_timer mem_ok l =
     (let n = Suc (lc_n l) in
      orbind (carry_over mem_ok n (alloc_counts l)) (\<lambda>a.
      orbind (carry_over mem_ok n (alloc_sum l)) (\<lambda>b.
      orbind (carry_over mem_ok n (free_counts l)) (\<lambda>c.
      orbind (carry_over mem_ok n (free_sum l)) (\<lambda>d.
      Some (Inr (l\<lparr>lc_n := n, alloc_counts := a, alloc_sum := b, free_counts := c, free_sum := d\<rparr>)))))))"

text \<open>The liveness of windows of length \<open>k\<close>; for \<open>k = n + 1\<close> the source divides by zero, which gives
  a float that is not a finite number: \<open>None\<close>.\<close>

definition liveness :: "liveness_counter \<Rightarrow> nat \<Rightarrow> rat option res" where
  "liveness l k =
     (if lc_n l + 1 < k then Inr (Some 0)
      else let i = lc_n l + 1 - k in
        rbind (histogram_get (free_counts l) i) (\<lambda>fc.
        rbind (checked_sub (lc_m l) fc) (\<lambda>live.
        rbind (histogram_get (free_sum l) i) (\<lambda>fs.
        let tmp1 = live * i + fs in
        rbind (histogram_get (alloc_counts l) k) (\<lambda>ac.
        rbind (histogram_get (alloc_sum l) (lc_n l)) (\<lambda>an.
        rbind (histogram_get (alloc_sum l) k) (\<lambda>ak.
        rbind (checked_sub (ac * k + an) ak) (\<lambda>tmp2.
        rbind (checked_sub (tmp1 + lc_m l * k) tmp2) (\<lambda>num.
        Inr (if i = 0 then None else Some (of_nat num / of_nat i)))))))))))"

section \<open>The tuner\<close>

text \<open>The callbacks act on the thread's state; \<^verbatim>\<open>USE_ALLOCATION_CLOCK\<close> is the constant true, so the
  branches for its negation are left out.\<close>

record 'e callbacks =
  cb_check :: "nat \<Rightarrow> 'e \<Rightarrow> nat res"
  cb_get :: "nat \<Rightarrow> nat \<Rightarrow> 'e \<Rightarrow> (bool \<times> 'e) res option"
  cb_ret :: "nat \<Rightarrow> nat \<Rightarrow> 'e \<Rightarrow> (bool \<times> 'e) res option"

record tuner =
  tu_id :: nat
  l_counter :: liveness_counter
  r_counter :: reuse_counter
  tu_time :: nat
  fetch_count :: nat
  tu_record :: "(nat \<times> nat) list option"

definition tuner_new :: "(nat \<Rightarrow> bool) \<Rightarrow> (nat \<Rightarrow> event) \<Rightarrow> nat \<Rightarrow> nat \<Rightarrow> nat \<Rightarrow> bool \<Rightarrow> tuner res" where
  "tuner_new mem_ok g bl hp i use_record =
     rbind (liveness_new mem_ok) (\<lambda>l. rbind (reuse_counter_new mem_ok g bl hp) (\<lambda>r.
     Inr \<lparr>tu_id = i, l_counter = l, r_counter = r, tu_time = 0, fetch_count = 0,
       tu_record = (if use_record then Some [] else None)\<rparr>))"

definition set_id :: "nat \<Rightarrow> tuner \<Rightarrow> tuner" where
  "set_id i t = t\<lparr>tu_id := i\<rparr>"

definition calculate_dapf :: "nat \<Rightarrow> tuner \<Rightarrow> nat" where
  "calculate_dapf target t =
     (if tu_time t \<ge> target * (fetch_count t + 1) then target
      else target * (fetch_count t + 1) - tu_time t)"

definition demand :: "tuner \<Rightarrow> nat \<Rightarrow> rat option" where
  "demand t k =
     (if k > tu_time t then None
      else case rc_reuse_of (r_counter t) k of Some r \<Rightarrow> Some (of_nat k - r) | None \<Rightarrow> None)"

definition count_fetch :: "tuner \<Rightarrow> tuner" where
  "count_fetch t = t\<lparr>fetch_count := Suc (fetch_count t)\<rparr>"

text \<open>The record of the feature \<^verbatim>\<open>show_records\<close> and the lines \<^verbatim>\<open>show_record\<close> plots, each by the coordinates of its two
  points. (With that feature \<^verbatim>\<open>count_fetch\<close> also calls \<^verbatim>\<open>show_record\<close>, which changes no state.)\<close>

definition get_record :: "tuner \<Rightarrow> (nat \<times> nat) list option" where
  "get_record t = tu_record t"

definition record_axes :: "(nat \<times> nat) list \<Rightarrow> nat list \<times> nat list" where
  "record_axes rec = fold (\<lambda>i (x, y). (x @ [fst (rec ! i)] @ [fst (rec ! i) + snd (rec ! i)], y @ [i + 1] @ [i + 1])) [0..<length rec] ([], [])"

definition show_record :: "tuner \<Rightarrow> (nat list \<times> nat list) list" where
  "show_record t = (case tu_record t of
     None \<Rightarrow> []
   | Some rec \<Rightarrow> (let (x, y) = record_axes rec in
       map (\<lambda>i. (take 2 (drop (i * 2) x), take 2 (drop (i * 2) y))) [0..<length x div 2]))"

definition tuner_malloc ::
  "nat \<Rightarrow> (nat \<Rightarrow> bool) \<Rightarrow> (nat \<Rightarrow> event) \<Rightarrow> 'e callbacks \<Rightarrow> usize \<Rightarrow> tuner \<times> 'e \<Rightarrow> (bool \<times> tuner \<times> 'e) res option" where
  "tuner_malloc target mem_ok g cb ptr x =
     (let (t, e) = x; t1 = t\<lparr>tu_time := Suc (tu_time t)\<rparr> in
      orbind (Some (rbind (rc_alloc mem_ok ptr (r_counter t1)) (rc_inc_timer mem_ok g))) (\<lambda>r.
      let t2 = t1\<lparr>r_counter := r\<rparr> in
      orbind (Some (cb_check cb (tu_id t2) e)) (\<lambda>free_blocks.
      if free_blocks = 0 then
        (case demand t2 (calculate_dapf target t2) of
           Some d \<Rightarrow>
             let t3 = (case tu_record t2 of
                   None \<Rightarrow> t2
                 | Some rec \<Rightarrow> t2\<lparr>tu_record := Some (rec @ [(tu_time t2, calculate_dapf target t2)])\<rparr>)
             in orbind (cb_get cb (tu_id t3) (nat \<lceil>d\<rceil>) e) (\<lambda>(_, e').
                Some (Inr (True, count_fetch t3, e')))
         | None \<Rightarrow> Some (Inr (False, t2, e)))
      else Some (Inr (True, t2, e)))))"

definition tuner_free ::
  "nat \<Rightarrow> (nat \<Rightarrow> bool) \<Rightarrow> 'e callbacks \<Rightarrow> usize \<Rightarrow> tuner \<times> 'e \<Rightarrow> (bool \<times> tuner \<times> 'e) res option" where
  "tuner_free target mem_ok cb ptr x =
     (let (t, e) = x in
      orbind (Some (rc_free mem_ok ptr (r_counter t))) (\<lambda>r.
      let t1 = t\<lparr>r_counter := r\<rparr> in
      case demand t1 (calculate_dapf target t1) of
        None \<Rightarrow> Some (Inr (False, t1, e))
      | Some d \<Rightarrow>
          if d < 0 then Some (Inr (False, t1, e))
          else orbind (Some (cb_check cb (tu_id t1) e)) (\<lambda>free_blocks.
            if of_nat free_blocks \<ge> 2 * d + 1 then
              orbind (cb_ret cb (tu_id t1) (nat \<lceil>d\<rceil> + 1) e) (\<lambda>(_, e'). Some (Inr (True, t1, e')))
            else Some (Inr (True, t1, e)))))"

lemma ceiling_ret_bound: "0 \<le> d \<Longrightarrow> 2 * d + 1 \<le> of_nat c \<Longrightarrow> Suc (nat \<lceil>d :: rat\<rceil>) \<le> c"
proof -
  assume d: "0 \<le> d" "2 * d + 1 \<le> of_nat c"
  then have "d \<le> of_nat c - 1" by linarith
  then have "d \<le> of_int (int c - 1)" by simp
  then have "\<lceil>d\<rceil> \<le> int c - 1" by (rule ceiling_le)
  moreover have "0 \<le> \<lceil>d\<rceil>" using d(1) by linarith
  ultimately show ?thesis by linarith
qed

text \<open>The tuner never asks the thread cache to give back more blocks than it holds: replacing the
  \<^verbatim>\<open>ret\<close> callback by one that fails its assertion whenever the count exceeds what \<^verbatim>\<open>check\<close> reports does
  not change the behaviour of \<^verbatim>\<open>ApfTuner::free\<close>.\<close>

theorem tuner_free_ret_bounded:
  "tuner_free target mem_ok (cb\<lparr>cb_ret := (\<lambda>i c e. case cb_check cb i e of
      Inr n \<Rightarrow> if c \<le> n then cb_ret cb i c e else Some (Inl AssertFailed) | Inl p \<Rightarrow> Some (Inl AssertFailed))\<rparr>) ptr x = tuner_free target mem_ok cb ptr x"
  unfolding tuner_free_def Let_def
  by (auto simp: orbind_def ceiling_ret_bound not_less split: option.splits sum.splits prod.splits)

section \<open>Bursts\<close>

text \<open>What the tuner does with its reuse counter on an allocation and on a free (\<open>tuner_malloc\<close>, \<open>tuner_free\<close>).\<close>

definition rc_do :: "(nat \<Rightarrow> bool) \<Rightarrow> (nat \<Rightarrow> event) \<Rightarrow> event \<Rightarrow> reuse_counter \<Rightarrow> reuse_counter res" where
  "rc_do mem_ok g ev r = (case ev of
     Alloc p \<Rightarrow> rbind (rc_alloc mem_ok p r) (rc_inc_timer mem_ok g)
   | Free p \<Rightarrow> rc_free mem_ok p r)"

abbreviation rc_runs :: "(nat \<Rightarrow> bool) \<Rightarrow> (nat \<Rightarrow> event) \<Rightarrow> event list \<Rightarrow> reuse_counter \<Rightarrow> reuse_counter res" where
  "rc_runs mem_ok g \<equiv> for_each (rc_do mem_ok g)"

lemma allocs_simps [simp]:
  "allocs [] = 0" "allocs (Alloc p # evs) = Suc (allocs evs)" "allocs (Free p # evs) = allocs evs" "allocs (evs @ evs') = allocs evs + allocs evs'"
  by (simp_all add: allocs_def)

text \<open>While a burst lasts, every event is recorded.\<close>

lemma rc_records:
  assumes "rc_trace r = Some t" "trace_rep t evs" "rc_n r + allocs evs' < burst_length r" "\<And>n. mem_ok n"
  shows "\<exists>t'. rc_runs mem_ok g evs' r = Inr (r\<lparr>rc_n := rc_n r + allocs evs', rc_trace := Some t'\<rparr>) \<and> trace_rep t' (evs @ evs')"
  using assms(1-3)
proof (induction evs' arbitrary: r t evs)
  case Nil
  then show ?case by (intro exI [of _ t]) (cases r, simp)
next
  case (Cons ev evs')
  obtain t1 where t1: "trace_add mem_ok ev t = Inr t1" "trace_rep t1 (evs @ [ev])"
    using trace_add_rep [OF Cons.prems(2), of mem_ok ev] assms(4) by blast
  define r1 where "r1 = r\<lparr>rc_n := rc_n r + allocs [ev], rc_trace := Some t1\<rparr>"
  have "rc_do mem_ok g ev r = Inr r1"
    using Cons.prems(1,3) t1(1) by (cases ev) (auto simp: rc_do_def rc_alloc_def rc_free_def rc_event_def rc_inc_timer_def r1_def Let_def)
  moreover have "rc_trace r1 = Some t1" "rc_n r1 + allocs evs' < burst_length r1" using Cons.prems(3) by (cases ev; simp add: r1_def)+
  from Cons.IH [OF this(1) t1(2) this(2)] obtain t' where
    "rc_runs mem_ok g evs' r1 = Inr (r1\<lparr>rc_n := rc_n r1 + allocs evs', rc_trace := Some t'\<rparr>)" "trace_rep t' (evs @ ev # evs')" by auto
  ultimately show ?case by (intro exI [of _ t']) (cases ev; simp add: r1_def)
qed

text \<open>During hibernation no event is recorded.\<close>

lemma rc_ignores:
  assumes "rc_trace r = None" "rc_n r + allocs evs < hibernation_period r"
  shows "rc_runs mem_ok g evs r = Inr (r\<lparr>rc_n := rc_n r + allocs evs\<rparr>)"
  using assms
proof (induction evs arbitrary: r)
  case (Cons ev evs)
  define r1 where "r1 = r\<lparr>rc_n := rc_n r + allocs [ev]\<rparr>"
  have "rc_do mem_ok g ev r = Inr r1"
    using Cons.prems by (cases ev) (auto simp: rc_do_def rc_alloc_def rc_free_def rc_event_def rc_inc_timer_def r1_def Let_def)
  moreover have "rc_runs mem_ok g evs r1 = Inr (r1\<lparr>rc_n := rc_n r1 + allocs evs\<rparr>)"
    using Cons.prems by (intro Cons.IH; cases ev; simp add: r1_def)
  ultimately show ?case by (cases ev; simp add: r1_def)
qed simp

lemma reuse_returns: "trace_rep t evs \<Longrightarrow> 0 < allocs evs \<Longrightarrow> \<exists>m. reuse t = Inr m"
proof -
  assume t: "trace_rep t evs" "0 < allocs evs"
  obtain ivs where ivs: "free_intervals t = Inr ivs" "ivs = intervals_loop evs Map.empty 0"
    using trace_events_rep [OF t(1)] by (simp add: free_intervals_def)
  then have "\<forall>iv \<in> set ivs. iv_ok (allocs evs) iv" using intervals_spec is_interval_bounds by (auto simp: iv_ok_def)
  then show ?thesis using reuse_result [OF ivs(1), of "allocs evs"] t by (auto simp: trace_rep_def)
qed

text \<open>C31. Sampling alternates with hibernation. A counter at the start of a burst records every allocation and
  every free until the allocation that completes the burst length; then it holds the reuse of a
  trace of exactly the events of the burst. During hibernation it ignores all events and keeps that result,
  until the allocation that completes the hibernation period starts the next burst on an empty trace.\<close>

theorem reuse_counter_cycle:
  assumes start: "rc_trace r = Some t" "trace_rep t []" "rc_n r = 0" and mem: "\<And>n. mem_ok n"
    and evs: "allocs pre < burst_length r" "Suc (allocs as) = burst_length r" "allocs bs < hibernation_period r" "Suc (allocs cs) = hibernation_period r"
  shows "(\<exists>r1 t1. rc_runs mem_ok g pre r = Inr r1 \<and> rc_trace r1 = Some t1 \<and> trace_rep t1 pre) \<and>
    (\<exists>t2 m. trace_rep t2 (as @ [Alloc p]) \<and> reuse t2 = Inr m \<and>
      (\<exists>r2. rc_runs mem_ok g (as @ [Alloc p] @ bs) r = Inr r2 \<and> \<not> sampling r2 \<and> rc_reuse r2 = Some m) \<and>
      (\<exists>r3 t3. rc_runs mem_ok g (as @ [Alloc p] @ cs @ [Alloc q]) r = Inr r3 \<and> rc_trace r3 = Some t3 \<and>
        trace_rep t3 [] \<and> rc_n r3 = 0 \<and> rc_reuse r3 = Some m))"
proof -
  obtain t1 where t1: "rc_runs mem_ok g as r = Inr (r\<lparr>rc_n := allocs as, rc_trace := Some t1\<rparr>)" "trace_rep t1 as"
    using rc_records [OF start(1,2), of as mem_ok g] start(3) evs(2) mem by auto
  obtain t2 where t2: "trace_add mem_ok (Alloc p) t1 = Inr t2" "trace_rep t2 (as @ [Alloc p])" using trace_add_rep [OF t1(2)] mem by blast
  obtain m where m: "reuse t2 = Inr m" using reuse_returns [OF t2(2)] by auto
  define r2 where "r2 = r\<lparr>rc_reuse := Some m, rc_n := 0, rc_trace := None\<rparr>"
  have burst: "rc_runs mem_ok g (as @ [Alloc p] @ xs) r = rc_runs mem_ok g xs r2" for xs
    using t1(1) t2(1) m evs(2)
    by (simp add: for_each_append rc_do_def rc_alloc_def rc_event_def rc_inc_timer_def r2_def Let_def)
  have ignored: "rc_runs mem_ok g xs r2 = Inr (r2\<lparr>rc_n := allocs xs\<rparr>)" if "allocs xs < hibernation_period r" for xs
    using rc_ignores [of r2 xs mem_ok g] that by (simp add: r2_def)
  obtain t3 where t3: "trace_new mem_ok g = Inr t3" "trace_rep t3 []" using trace_new_rep mem by blast
  have "rc_runs mem_ok g (cs @ [Alloc q]) r2 = Inr (r2\<lparr>rc_n := 0, rc_trace := Some t3\<rparr>)"
    using ignored [of cs] evs(4) t3(1)
    by (simp add: for_each_append rc_do_def rc_alloc_def rc_event_def rc_inc_timer_def r2_def Let_def)
  moreover have "\<exists>r1 t1. rc_runs mem_ok g pre r = Inr r1 \<and> rc_trace r1 = Some t1 \<and> trace_rep t1 pre"
    using rc_records [OF start(1,2), of pre mem_ok g] start(3) evs(1) mem by fastforce
  ultimately show ?thesis
    using t2(2) m t3(2) ignored [OF evs(3)] burst [of bs] burst [of "cs @ [Alloc q]"] by (auto simp: r2_def sampling_def)
qed

text \<open>A burst of three allocations and a free, then hibernation.\<close>

theorem reuse_counter_cycle_witness:
  "\<exists>t r2 m. trace_new (\<lambda>_. True) (\<lambda>_. Free 0) = Inr t \<and>
    rc_runs (\<lambda>_. True) (\<lambda>_. Free 0) [Alloc 1, Alloc 2, Free 1, Alloc 1, Free 2]
      \<lparr>burst_length = 3, hibernation_period = 2, rc_n = 0, rc_trace = Some t, rc_reuse = None\<rparr> = Inr r2 \<and>
    \<not> sampling r2 \<and> rc_reuse r2 = Some m"
proof -
  obtain t where t: "trace_new (\<lambda>_. True) (\<lambda>_. Free 0) = Inr t" "trace_rep t []" using trace_new_rep [of "\<lambda>_. True" "\<lambda>_. Free 0"] by auto
  let ?r = "\<lparr>burst_length = 3, hibernation_period = 2, rc_n = 0, rc_trace = Some t, rc_reuse = None\<rparr>"
  have "rc_trace ?r = Some t" "rc_n ?r = 0" "allocs [] < burst_length ?r" "Suc (allocs [Alloc 1, Alloc 2, Free 1]) = burst_length ?r"
    "allocs [Free 2] < hibernation_period ?r" "Suc (allocs [Alloc 5]) = hibernation_period ?r" by simp_all
  note c = reuse_counter_cycle [of ?r t "\<lambda>_. True", OF this(1) t(2) this(2) TrueI this(3-6), of "\<lambda>_. Free 0" 1 7]
  from conjunct2 [OF c]
  obtain m r2 where "rc_runs (\<lambda>_. True) (\<lambda>_. Free 0) ([Alloc 1, Alloc 2, Free 1] @ [Alloc 1] @ [Free 2]) ?r = Inr r2" "\<not> sampling r2" "rc_reuse r2 = Some m"
    by (elim exE conjE) (rule that; assumption)
  then have "rc_runs (\<lambda>_. True) (\<lambda>_. Free 0) [Alloc 1, Alloc 2, Free 1, Alloc 1, Free 2] ?r = Inr r2 \<and> \<not> sampling r2 \<and> rc_reuse r2 = Some m"
    unfolding append.simps by (intro conjI)
  then show ?thesis using t(1) by (intro exI [of _ t] exI [of _ r2] exI [of _ m]) (rule conjI)
qed

section \<open>The plotted record\<close>

lemma record_axes_eq:
  "record_axes rec = (concat (map (\<lambda>i. [fst (rec ! i), fst (rec ! i) + snd (rec ! i)]) [0..<length rec]), concat (map (\<lambda>i. [i + 1, i + 1]) [0..<length rec]))"
proof -
  have "fold (\<lambda>i (x, y). (x @ [fst (rec ! i)] @ [fst (rec ! i) + snd (rec ! i)], y @ [i + 1] @ [i + 1])) is (x, y) =
      (x @ concat (map (\<lambda>i. [fst (rec ! i), fst (rec ! i) + snd (rec ! i)]) is), y @ concat (map (\<lambda>i. [i + 1, i + 1]) is))" for "is" x y
    by (induction "is" arbitrary: x y) simp_all
  then show ?thesis by (simp add: record_axes_def)
qed

lemma pairs_at: "i < length xs \<Longrightarrow> take 2 (drop (i * 2) (concat (map (\<lambda>j. [f j, g j]) xs))) = [f (xs ! i), g (xs ! i)]"
proof (induction xs arbitrary: i)
  case (Cons x xs)
  then show ?case by (cases i) (simp_all add: eval_nat_numeral)
qed simp

text \<open>Line \<open>i\<close> of the plot is at the height \<open>i + 1\<close> and runs from the time of fetch \<open>i\<close> over its distance to the next.\<close>

lemma show_record_lines:
  assumes "tu_record t = Some rec"
  shows "show_record t = map (\<lambda>i. ([fst (rec ! i), fst (rec ! i) + snd (rec ! i)], [i + 1, i + 1])) [0..<length rec]"
proof -
  have "length (concat (map (\<lambda>i. [fst (rec ! i), fst (rec ! i) + snd (rec ! i)]) is)) = 2 * length is" for "is" by (induction "is") simp_all
  then show ?thesis using assms pairs_at [of _ "[0..<length rec]"] by (auto simp: show_record_def record_axes_eq)
qed

end
