(* ===== verification/Malloc.thy ===== *)
theory Malloc
  imports Thread_Cache Bootstrap Apf_Tuner
begin

text \<open>
  The allocator's interface, \<^verbatim>\<open>src/lib.rs\<close>: initialisation, \<^verbatim>\<open>do_malloc\<close>, \<^verbatim>\<open>do_aligned_alloc\<close>,
  \<^verbatim>\<open>allocate_to_cache\<close>, \<^verbatim>\<open>do_realloc\<close>, \<^verbatim>\<open>do_free\<close>. The state is the shared state of the crate and the
  thread locals of the calling thread; calls of several threads interleave as whole calls. What is
  fixed when the crate is built or by its surroundings is a configuration. The buffers of the tuners
  come from the allocator itself; those inner calls are represented by \<open>cfg_mem_ok\<close> only. The
  bookkeeping of the features \<^verbatim>\<open>track_allocation\<close> and \<^verbatim>\<open>show_all_allocations\<close> is left out.
\<close>

section \<open>State\<close>

record config =
  cfg_os :: os_env
  cfg_hash :: "usize \<Rightarrow> nat"
  cfg_nm :: bool
  cfg_target :: nat
  cfg_burst :: nat
  cfg_hibernation :: nat
  cfg_use_apf :: bool
  cfg_panicking :: bool
  cfg_mem_ok :: "nat \<Rightarrow> bool"
  cfg_garbage :: "nat \<Rightarrow> event"

record malloc_state = alloc_state +
  boot :: bootstrap
  use_boot :: bool
  malloc_inited :: bool
  use_apf :: bool

record thread =
  bins :: "bin list"
  t_skip :: bool
  skip_tuners :: nat
  apf_init :: bool
  tuners :: "tuner list"

type_synonym 's st = "'s malloc_state_scheme \<times> thread"

definition RECORDED_SC :: nat where "RECORDED_SC = 41"

definition thread_new :: thread where
  "thread_new = \<lparr>bins = replicate MAX_SZ_IDX bin_new, t_skip = False, skip_tuners = 1, apf_init = False, tuners = []\<rparr>"

section \<open>Initialisation\<close>

definition reset_heap :: "nat \<Rightarrow> 's malloc_state_scheme \<Rightarrow> 's malloc_state_scheme res" where
  "reset_heap i s = rbind (get_heap_at i s) (\<lambda>hp. put_heap_at i (hp\<lparr>partial_list := None, size_class_index := i\<rparr>) s)"

definition init_malloc :: "config \<Rightarrow> 's malloc_state_scheme \<Rightarrow> 's malloc_state_scheme res option" where
  "init_malloc cfg s =
     orbind (init_size_class (cfg_target cfg) (sc_table s) (sc_lookup s)) (\<lambda>(cs, lk).
     Some (
       rbind (page_map_init (cfg_os cfg) (cfg_hash cfg) (s\<lparr>sc_table := cs, sc_lookup := lk\<rparr>)) (\<lambda>s1.
       rbind (get_heaps (cfg_os cfg) (s1\<lparr>use_apf := (cfg_use_apf cfg \<and> use_apf s1)\<rparr>)) (\<lambda>s2.
       rbind (for_each reset_heap [0..<MAX_SZ_IDX] s2) (\<lambda>s3.
       rbind (reserve_init (cfg_os cfg) (s3, boot s3)) (\<lambda>(s4, b).
       Inr (s4\<lparr>boot := b\<rparr>)))))))"

definition init_once :: "config \<Rightarrow> 's malloc_state_scheme \<Rightarrow> 's malloc_state_scheme res option" where
  "init_once cfg s =
     (if malloc_inited s then Some (Inr s)
      else orbind (init_malloc cfg s) (\<lambda>s'. Some (Inr (s'\<lparr>malloc_inited := True\<rparr>))))"

section \<open>The tuners of a thread\<close>

text \<open>The callbacks \<^verbatim>\<open>check\<close>, \<^verbatim>\<open>fetch\<close> and \<^verbatim>\<open>ret\<close> find their bin in the thread cache.\<close>

definition get_bin :: "nat \<Rightarrow> thread \<Rightarrow> bin res" where
  "get_bin i t = (if i < length (bins t) then Inr (bins t ! i) else Inl UnwrapNone)"

definition put_bin :: "nat \<Rightarrow> bin \<Rightarrow> thread \<Rightarrow> thread" where
  "put_bin i b t = t\<lparr>bins := (bins t)[i := b]\<rparr>"

definition thread_callbacks :: "config \<Rightarrow> ('s malloc_state_scheme \<times> thread) callbacks" where
  "thread_callbacks cfg =
     \<lparr>cb_check = (\<lambda>i (s, t). rbind (get_bin i t) (\<lambda>b. Inr (check_bin b))),
      cb_get = (\<lambda>i count (s, t). orbind (Some (get_bin i t)) (\<lambda>b.
        orbind (fetch (cfg_os cfg) (cfg_hash cfg) (cfg_nm cfg) i count (s, b)) (\<lambda>(r, s', b').
        Some (Inr (r, s', put_bin i b' t))))),
      cb_ret = (\<lambda>i count (s, t). orbind (Some (get_bin i t)) (\<lambda>b.
        orbind (Some (ret (cfg_nm cfg) count (s, b))) (\<lambda>(r, s', b').
        Some (Inr (r, s', put_bin i b' t)))))\<rparr>"

definition no_tuning :: "(thread \<Rightarrow> thread res) \<Rightarrow> thread \<Rightarrow> thread res" where
  "no_tuning f t =
     rbind (f (t\<lparr>skip_tuners := Suc (skip_tuners t)\<rparr>)) (\<lambda>t'.
     Inr (if skip_tuners t' > 0 then t'\<lparr>skip_tuners := skip_tuners t' - 1\<rparr> else t'))"

definition init_tuners :: "config \<Rightarrow> thread \<Rightarrow> thread res" where
  "init_tuners cfg = no_tuning (\<lambda>t.
     rbind (for_each (\<lambda>i t'. rbind (tuner_new (cfg_mem_ok cfg) (cfg_garbage cfg) (cfg_burst cfg) (cfg_hibernation cfg)
         i (i = RECORDED_SC)) (\<lambda>u. Inr (t'\<lparr>tuners := tuners t' @ [u]\<rparr>))) [0..<MAX_SZ_IDX] t) (\<lambda>t1.
     Inr (t1\<lparr>apf_init := True, skip_tuners := 0\<rparr>)))"

text \<open>Running the tuner of a size class: it is taken out of the thread's vector and put back.\<close>

definition with_tuner ::
  "nat \<Rightarrow> (tuner \<times> 's st \<Rightarrow> (bool \<times> tuner \<times> 's st) res option) \<Rightarrow> 's st \<Rightarrow> 's st res option" where
  "with_tuner i f x =
     (if i < length (tuners (snd x))
      then orbind (f (tuners (snd x) ! i, x)) (\<lambda>(_, u, s, t). Some (Inr (s, t\<lparr>tuners := (tuners t)[i := u]\<rparr>)))
      else Some (Inl UnwrapNone))"

definition tune_malloc :: "config \<Rightarrow> nat \<Rightarrow> usize \<Rightarrow> 's st \<Rightarrow> 's st res option" where
  "tune_malloc cfg i ptr x =
     (let (s, t) = x in
      if use_apf s then
        orbind (Some (
          if \<not> t_skip t then
            (let t1 = t\<lparr>t_skip := True\<rparr> in
             if \<not> apf_init t1 then rbind (init_tuners cfg t1) (\<lambda>t2. Inr (t2\<lparr>apf_init := True\<rparr>)) else Inr t1)
          else Inr t)) (\<lambda>t3.
        if skip_tuners t3 = 0
        then with_tuner i (tuner_malloc (cfg_target cfg) (cfg_mem_ok cfg) (cfg_garbage cfg) (thread_callbacks cfg) ptr) (s, t3)
        else Some (Inr (s, t3)))
      else Some (Inr x))"

definition tune_free :: "config \<Rightarrow> nat \<Rightarrow> usize \<Rightarrow> 's st \<Rightarrow> 's st res option" where
  "tune_free cfg i ptr x =
     (if use_apf (fst x) \<and> apf_init (snd x) \<and> skip_tuners (snd x) = 0
      then with_tuner i (tuner_free (cfg_target cfg) (cfg_mem_ok cfg) (thread_callbacks cfg) ptr) x
      else Some (Inr x))"

section \<open>Allocation\<close>

definition allocate_to_cache :: "config \<Rightarrow> usize \<Rightarrow> nat \<Rightarrow> 's st \<Rightarrow> (usize \<times> 's st) res option" where
  "allocate_to_cache cfg sz sci x =
     (let (s, t) = x in
      if cfg_panicking cfg \<or> use_boot s then
        Some (rbind (reserve_allocate (cfg_os cfg) sz (s, boot s)) (\<lambda>(p, s', b). Inr (p, s'\<lparr>boot := b\<rparr>, t)))
      else
        orbind (Some (get_bin sci t)) (\<lambda>cache.
        orbind (if get_bin_block_num cache = 0
                then orbind (fill_cache (cfg_os cfg) (cfg_hash cfg) (cfg_nm cfg) sci (s, cache)) (\<lambda>(s1, cache1).
                  Some (if block_num cache1 = 0 then Inl (Panic ''Cache didn't fill'') else Inr (s1, cache1)))
                else Some (Inr (s, cache))) (\<lambda>(s1, cache1).
        orbind (Some (pop_block (cfg_nm cfg) (mem s1, cache1))) (\<lambda>(ptr, m, cache2).
        orbind (tune_malloc cfg sci ptr (s1\<lparr>mem := m\<rparr>, put_bin sci cache2 t)) (\<lambda>y.
        Some (Inr (ptr, y)))))))"

definition use_bootstrap :: "'s malloc_state_scheme \<Rightarrow> bool" where "use_bootstrap s = use_boot s"

definition set_use_bootstrap :: "bool \<Rightarrow> 's malloc_state_scheme \<Rightarrow> 's malloc_state_scheme" where
  "set_use_bootstrap val s = s\<lparr>use_boot := val\<rparr>"

text \<open>The descriptor of an allocation that is a super block of its own.\<close>

definition large_desc :: "usize \<Rightarrow> descriptor \<Rightarrow> descriptor" where
  "large_desc pages d = d\<lparr>proc_heap := None, block_size := unat (ucast pages :: u32), max_count := 1\<rparr>"

definition do_malloc :: "config \<Rightarrow> usize \<Rightarrow> 's st \<Rightarrow> (usize \<times> 's st) res option" where
  "do_malloc cfg sz x =
     (let (s0, t) = x in
      orbind (init_once cfg s0) (\<lambda>s.
      if unat sz > MAX_SZ then
        Some (let pages = page_ceiling sz in
          rbind (desc_alloc (cfg_os cfg) (cfg_hash cfg) s) (\<lambda>(d, s1).
          let s2 = upd_desc d (large_desc pages) s1;
              (r, s3) = seg_allocate (cfg_os cfg) pages s2;
              s4 = upd_desc d (\<lambda>q. q\<lparr>super_block := (case r of Inl e \<Rightarrow> None | Inr seg \<Rightarrow> Some seg),
                     d_anchor := set_state FULL anchor_default\<rparr>) s3
          in rbind (register_desc d s4) (\<lambda>s5.
             rbind (unwrap (super_block (descs s5 d))) (\<lambda>seg. Inr (seg_ptr seg, s5, t)))))
      else allocate_to_cache cfg sz (get_size_class (sc_lookup s) (unat sz)) (s, t)))"

definition is_power_of_two :: "usize \<Rightarrow> bool" where
  "is_power_of_two x \<longleftrightarrow> (if x \<noteq> 0 then True else False) \<and> (if NOT (x AND (x - 1)) \<noteq> 0 then True else False)"

definition do_aligned_alloc :: "config \<Rightarrow> usize \<Rightarrow> usize \<Rightarrow> 's st \<Rightarrow> (usize \<times> 's st) res option" where
  "do_aligned_alloc cfg align sz0 x =
     (if \<not> is_power_of_two align then Some (Inr (0, x))
      else let (s0, t) = x; sz = align_size sz0 align in
        orbind (init_once cfg s0) (\<lambda>s.
        if unat sz > PAGE then
          Some (let sz1 = max sz (of_nat (MAX_SZ + 1));
               need_more_pages = unat align > PAGE;
               sz2 = (if need_more_pages then sz1 + align else sz1);
               pages = page_ceiling sz2
           in case seg_allocate (cfg_os cfg) pages s of
                (Inl e, s1) \<Rightarrow> Inr (0, s1, t)
              | (Inr seg, s1) \<Rightarrow>
                  rbind (desc_alloc (cfg_os cfg) (cfg_hash cfg) s1) (\<lambda>(d, s2).
                  let s3 = upd_desc d (\<lambda>q. (large_desc pages q)\<lparr>super_block := Some seg,
                             d_anchor := set_state FULL anchor_default\<rparr>) s2
                  in rbind (register_desc d s3) (\<lambda>s4.
                     if need_more_pages then
                       (let ptr = align_addr (seg_ptr seg) align in
                        rbind (update_page_map None ptr (Some d) 0 s4) (\<lambda>s5. Inr (ptr, s5, t)))
                     else Inr (seg_ptr seg, s4, t))))
        else allocate_to_cache cfg sz (get_size_class (sc_lookup s) (unat sz)) (s, t)))"

definition allocate_type :: "config \<Rightarrow> usize \<Rightarrow> usize \<Rightarrow> 's st \<Rightarrow> (usize \<times> 's st) res option" where
  "allocate_type cfg sz align x = do_aligned_alloc cfg align sz x"

section \<open>Releasing\<close>

definition get_allocation_size :: "usize \<Rightarrow> 's malloc_state_scheme \<Rightarrow> nat option res" where
  "get_allocation_size ptr s =
     rbind (get_page_info_for_ptr ptr s) (\<lambda>info.
     Inr (case info_get_desc info of None \<Rightarrow> None | Some d \<Rightarrow> Some (block_size (descs s d))))"

definition free_large :: "config \<Rightarrow> usize \<Rightarrow> usize \<Rightarrow> 's malloc_state_scheme \<Rightarrow> 's malloc_state_scheme res" where
  "free_large cfg ptr d s =
     rbind (unwrap (super_block (descs s d))) (\<lambda>seg.
     rbind (unregister_desc None seg s) (\<lambda>s1.
     rbind (if ptr \<noteq> seg_ptr seg then unregister_desc None seg s1 else Inr s1) (\<lambda>s2.
     let s3 = upd_desc d (\<lambda>q. q\<lparr>super_block := None\<rparr>) s2;
         (_, s4) = seg_deallocate (cfg_os cfg) seg s3
     in Inr (retire d s4))))"

definition free_small :: "config \<Rightarrow> usize \<Rightarrow> nat \<Rightarrow> 's st \<Rightarrow> 's st res option" where
  "free_small cfg ptr sci x =
     orbind (tune_free cfg sci ptr x) (\<lambda>(s, t).
     orbind (Some (get_bin sci t)) (\<lambda>cache.
     orbind (Some (
       if \<not> use_apf s then
         rbind (index_list (sc_table s) sci) (\<lambda>c.
         if get_bin_block_num cache \<ge> sc_cache_block_num c
         then flush_cache (cfg_os cfg) sci (s, cache) else Inr (s, cache))
       else Inr (s, cache))) (\<lambda>(s1, cache1).
     let (m, cache2) = push_block (cfg_nm cfg) ptr (mem s1, cache1)
     in Some (Inr (s1\<lparr>mem := m\<rparr>, put_bin sci cache2 t)))))"

definition do_free :: "config \<Rightarrow> usize \<Rightarrow> 's st \<Rightarrow> 's st res option" where
  "do_free cfg ptr x =
     (if ptr = 0 then Some (Inr x)
      else orbind (Some (get_page_info_for_ptr ptr (fst x))) (\<lambda>info.
        case info_get_desc info of
          None \<Rightarrow> Some (Inr x)
        | Some d \<Rightarrow>
            (case info_get_size_class_index (fst x) info of
               None \<Rightarrow> orbind (Some (free_large cfg ptr d (fst x))) (\<lambda>s. Some (Inr (s, snd x)))
             | Some 0 \<Rightarrow> orbind (Some (free_large cfg ptr d (fst x))) (\<lambda>s. Some (Inr (s, snd x)))
             | Some sci \<Rightarrow> free_small cfg ptr sci x)))"

text \<open>\<^verbatim>\<open>memcpy\<close> between blocks that do not overlap.\<close>

definition memcpy :: "usize \<Rightarrow> usize \<Rightarrow> nat \<Rightarrow> memory \<Rightarrow> memory" where
  "memcpy dst src n m = (\<lambda>a. if unat (a - dst) < n then m (src + (a - dst)) else m a)"

definition do_realloc :: "config \<Rightarrow> usize \<Rightarrow> usize \<Rightarrow> 's st \<Rightarrow> (usize \<times> 's st) res option" where
  "do_realloc cfg ptr sz x =
     (if ptr = 0 then do_malloc cfg sz x
      else let new_size_class = get_size_class (sc_lookup (fst x)) (unat sz) in
        orbind (Some (get_allocation_size ptr (fst x))) (\<lambda>r.
        case r of
          None \<Rightarrow> do_malloc cfg sz x
        | Some old_size \<Rightarrow>
            (let old_size_class = get_size_class (sc_lookup (fst x)) old_size in
             if old_size_class \<noteq> 0 \<and> old_size_class = new_size_class \<or>
                old_size_class = 0 \<and> new_size_class = 0 \<and> unat sz < old_size
             then Some (Inr (ptr, x))
             else orbind (do_malloc cfg sz x) (\<lambda>(p, s, t).
               let s1 = (if p \<noteq> 0 \<and> p \<noteq> ptr then s\<lparr>mem := memcpy p ptr old_size (mem s)\<rparr> else s)
               in orbind (do_free cfg ptr (s1, t)) (\<lambda>y. Some (Inr (p, y)))))))"

text \<open>\<^verbatim>\<open>Drop\<close> of a trace with the buffer \<open>ptr\<close>.\<close>

definition trace_drop :: "config \<Rightarrow> usize option \<Rightarrow> 's st \<Rightarrow> 's st res option" where
  "trace_drop cfg ptr x = (case ptr of None \<Rightarrow> Some (Inr x) | Some p \<Rightarrow> do_free cfg p x)"

end
