(* ===== verification/Malloc_Facts.thy ===== *)
theory Malloc_Facts
  imports Malloc
begin

text \<open>
  Properties of the allocator's interface: large allocations and their release, small allocations
  through the thread cache, alignment.
\<close>

section \<open>Large allocations\<close>

lemma page_ceiling_large:
  assumes "MAX_SZ < unat sz" "unat sz + PAGE \<le> 2 ^ 64"
  shows "unat sz \<le> unat (page_ceiling sz) \<and> unat (page_ceiling sz) < unat sz + PAGE \<and> PAGE dvd unat (page_ceiling sz)"
  using round_up_ge [of PAGE "unat sz"] round_up_less [of PAGE "unat sz"] unat_page_ceiling [OF assms(2)]
  by (simp add: PAGE_value)

text \<open>A large allocation is a mapping of its own, whose first page leads to its descriptor.\<close>

lemma do_malloc_large:
  fixes s :: "'s malloc_state_scheme"
  assumes "malloc_inited s" "pm_ready s" "mmap_contract (cfg_os cfg)" "pages_ok (cfg_hash cfg) s" "MAX_SZ < unat sz"
    and "desc_alloc (cfg_os cfg) (cfg_hash cfg) s = Inr (d, s1)"
    and "p = mmap (cfg_os cfg) False (os_calls s1) (os_maps s1) (page_ceiling sz)" "p \<noteq> MAP_FAILED"
  shows "\<exists>s2. do_malloc cfg sz (s, t) = Some (Inr (p, s2, t)) \<and>
    os_maps s2 = (p, page_ceiling sz) # os_maps s1 \<and> page_map s2 = (page_map s)(addr_to_key p := d) \<and> pm_ready s2 \<and>
    descs s2 = (descs s1)(d := (large_desc (page_ceiling sz) (descs s1 d))
      \<lparr>super_block := Some \<lparr>seg_ptr = p, seg_length = page_ceiling sz\<rparr>, d_anchor := set_state FULL anchor_default\<rparr>) \<and>
    avail_desc s2 = avail_desc s1 \<and> desc_addr d \<and> valid_map (p, page_ceiling sz) \<and>
    (\<forall>r \<in> set (os_maps s1). maps_disjoint (p, page_ceiling sz) r) \<and> maps_ok (os_maps s1) \<and> sc_lookup s2 = sc_lookup s"
proof -
  let ?pg = "page_ceiling sz" and ?seg = "\<lparr>seg_ptr = p, seg_length = page_ceiling sz\<rparr>"
  note fr = desc_alloc_frame [OF assms(3,4,6)]
  have v: "valid_map (p, ?pg)" "\<forall>r \<in> set (os_maps s1). maps_disjoint (p, ?pg) r"
    using mmap_contractD [OF assms(3)] assms(7,8) by auto
  define s3 where "s3 = (upd_desc d (large_desc ?pg) s1)
    \<lparr>os_calls := Suc (os_calls s1), mem := zero_span p ?pg (mem s1), os_maps := (p, ?pg) # os_maps s1\<rparr>"
  define s4 where "s4 = upd_desc d (\<lambda>q. q\<lparr>super_block := Some ?seg, d_anchor := set_state FULL anchor_default\<rparr>) s3"
  have seg: "map_segment (cfg_os cfg) False ?pg (upd_desc d (large_desc ?pg) s1) = (Inr ?seg, s3)"
    using assms(7,8) by (simp add: map_segment_def s3_def Let_def)
  have d: "info_set_ptr d 0 = d"
    using info_get_desc_set [of d] fr by (auto simp: info_get_desc_def split: if_splits)
  have "p \<noteq> 0" using v(1) by (simp add: valid_map_def)
  moreover have "pm_ready s4" using assms(2) fr by (simp add: s4_def s3_def pm_ready_def)
  ultimately have "register_desc d s4 = Inr (s4\<lparr>page_map := (page_map s4)(addr_to_key p := d)\<rparr>)"
    using d by (simp add: register_desc_def update_page_map_def set_page_info_ready s4_def large_desc_def s3_def)
  then have "do_malloc cfg sz (s, t) = Some (Inr (p, s4\<lparr>page_map := (page_map s4)(addr_to_key p := d)\<rparr>, t))"
    using assms(1,5,6) seg
    by (simp add: do_malloc_def init_once_def seg_allocate_def s4_def [symmetric]) (simp add: s4_def)
  then show ?thesis
    using v fr assms(2) by (intro exI [of _ "s4\<lparr>page_map := (page_map s4)(addr_to_key p := d)\<rparr>"])
      (auto simp: s4_def s3_def pm_ready_def pages_ok_def)
qed

lemma free_large_result:
  fixes s :: "'s malloc_state_scheme"
  assumes "pm_ready s" "munmap_contract (cfg_os cfg)" "super_block (descs s d) = Some seg" "seg_ptr seg \<noteq> 0"
    and "(seg_ptr seg, seg_length seg) \<in> set (os_maps s)" "free_list s fs" "desc_addr d" "d \<notin> set fs"
  shows "\<exists>s'. free_large cfg (seg_ptr seg) d s = Inr s' \<and> page_map s' = (page_map s)(addr_to_key (seg_ptr seg) := 0) \<and>
    os_maps s' = removeAll (seg_ptr seg, seg_length seg) (os_maps s) \<and> free_list s' (d # fs) \<and> pm_ready s'"
proof -
  let ?k = "addr_to_key (seg_ptr seg)"
  have z: "info_set_ptr 0 0 = 0" by (simp add: info_set_ptr_def mem_info_defs)
  define s3 where "s3 = upd_desc d (\<lambda>q. q\<lparr>super_block := None\<rparr>) (s\<lparr>page_map := (page_map s)(?k := 0)\<rparr>)"
  define s4 where "s4 = s3\<lparr>os_calls := Suc (os_calls s3),
    os_maps := removeAll (seg_ptr seg, seg_length seg) (os_maps s)\<rparr>"
  have "unregister_desc None seg s = Inr (s\<lparr>page_map := (page_map s)(?k := 0)\<rparr>)"
    using assms(1,4) z by (simp add: unregister_desc_def update_page_map_def set_page_info_ready)
  moreover have "seg_deallocate (cfg_os cfg) seg s3 = (True, s4)"
    using assms(2,5) by (simp add: seg_deallocate_def munmap_contract_def s3_def s4_def)
  ultimately have "free_large cfg (seg_ptr seg) d s = Inr (retire d s4)"
    using assms(3) by (simp add: free_large_def s3_def [symmetric] Let_def)
  moreover have "free_list s4 fs"
  proof -
    have "desc_list (descs s4) (avail_desc s) fs = desc_list (descs s) (avail_desc s) fs"
      by (intro desc_list_frame) (simp add: s4_def s3_def)
    moreover have "avail_desc s4 = avail_desc s" by (simp add: s4_def s3_def upd_desc_def)
    ultimately show ?thesis using assms(6) by (simp add: free_list_def)
  qed
  then have "free_list (retire d s4) (d # fs)" using assms(7,8) by (intro retire_free_list) auto
  ultimately show ?thesis
    using assms(1) by (intro exI [of _ "retire d s4"])
      (simp add: retire_def Let_def s4_def s3_def pm_ready_def)
qed

text \<open>C9. An allocation above the largest size class, up to 4 GiB, gets whole pages of its own that
  hold the request and overlap no other mapping, and its size is found from the pointer. Freeing
  it unmaps exactly these pages, makes the pointer unknown again (so a second free has no effect)
  and puts the descriptor on the free list.\<close>

theorem malloc_free_large:
  fixes s :: "'s malloc_state_scheme"
  assumes "malloc_inited s" "pm_ready s" "mmap_contract (cfg_os cfg)" "munmap_contract (cfg_os cfg)"
    and "pages_ok (cfg_hash cfg) s" "MAX_SZ < unat sz" "unat sz \<le> 2 ^ 32 - PAGE"
    and "desc_alloc (cfg_os cfg) (cfg_hash cfg) s = Inr (d, s1)" "free_list s1 fs" "d \<notin> set fs"
    and "p = mmap (cfg_os cfg) False (os_calls s1) (os_maps s1) (page_ceiling sz)" "p \<noteq> MAP_FAILED"
  shows "\<exists>s2 s3 len. do_malloc cfg sz (s, t) = Some (Inr (p, s2, t)) \<and>
    os_maps s2 = (p, of_nat len) # os_maps s1 \<and> maps_ok (os_maps s2) \<and> unat sz \<le> len \<and> len < unat sz + PAGE \<and>
    get_allocation_size p s2 = Inr (Some len) \<and>
    do_free cfg p (s2, t) = Some (Inr (s3, t)) \<and> os_maps s3 = os_maps s1 \<and> free_list s3 (d # fs) \<and>
    get_allocation_size p s3 = Inr None \<and> do_free cfg p (s3, t) = Some (Inr (s3, t))"
proof -
  let ?pg = "page_ceiling sz" and ?seg = "\<lparr>seg_ptr = p, seg_length = page_ceiling sz\<rparr>"
  obtain s2 where s2: "do_malloc cfg sz (s, t) = Some (Inr (p, s2, t))" "os_maps s2 = (p, ?pg) # os_maps s1"
    "page_map s2 = (page_map s)(addr_to_key p := d)" "pm_ready s2"
    "descs s2 = (descs s1)(d := (large_desc ?pg (descs s1 d))\<lparr>super_block := Some ?seg, d_anchor := set_state FULL anchor_default\<rparr>)"
    "avail_desc s2 = avail_desc s1" "desc_addr d" "valid_map (p, ?pg)"
    "\<forall>r \<in> set (os_maps s1). maps_disjoint (p, ?pg) r" "maps_ok (os_maps s1)"
    using do_malloc_large [OF assms(1-3,5,6,8,11,12), of t] by blast
  have fit: "unat sz + PAGE \<le> 2 ^ 64" using assms(7) by (simp add: PAGE_value)
  note pc = page_ceiling_large [OF assms(6) fit]
  have len: "unat (ucast ?pg :: u32) = unat ?pg" "MAX_SZ < unat ?pg"
    using pc assms(6,7) by (auto simp: unat_ucast_mod PAGE_value)
  have new: "(p, ?pg) \<notin> set (os_maps s1)" using s2(8,9) not_disjoint_same [OF s2(8,8)] by blast
  have "d \<noteq> 0" "p \<noteq> 0" using s2(7,8) by (auto simp: desc_addr_def valid_map_def)
  have "desc_list (descs s2) (avail_desc s1) fs = desc_list (descs s1) (avail_desc s1) fs"
    using assms(10) s2(5) by (intro desc_list_frame) (auto simp: large_desc_def)
  then have f2: "free_list s2 fs" using assms(9) s2(6) by (simp add: free_list_def)
  have sb: "super_block (descs s2 d) = Some ?seg" by (simp add: s2(5))
  obtain s3 where s3: "free_large cfg p d s2 = Inr s3" "page_map s3 = (page_map s2)(addr_to_key p := 0)"
    "os_maps s3 = removeAll (p, ?pg) (os_maps s2)" "free_list s3 (d # fs)" "pm_ready s3"
    using free_large_result [OF s2(4) assms(4) sb _ _ f2 s2(7) assms(10)] \<open>p \<noteq> 0\<close> s2(2) by auto
  have g: "get_page_info p s2 = Inr d" "get_page_info p s3 = Inr 0"
    using get_page_info_ready [OF s2(4), of p] get_page_info_ready [OF s3(5), of p] s2(3) s3(2) by simp_all
  have bs: "block_size (descs s2 d) = unat ?pg" using len(1) by (simp add: s2(5) large_desc_def)
  then have "do_free cfg p (s2, t) = Some (Inr (s3, t))"
    using \<open>p \<noteq> 0\<close> \<open>d \<noteq> 0\<close> len(2) s3(1) g(1)
    by (simp add: do_free_def get_page_info_for_ptr_def info_get_desc_def info_get_size_class_index_def)
  moreover have "do_free cfg p (s3, t) = Some (Inr (s3, t))" "get_allocation_size p s3 = Inr None"
    using g(2) by (simp_all add: do_free_def get_allocation_size_def get_page_info_for_ptr_def)
  moreover have "get_allocation_size p s2 = Inr (Some (unat ?pg))"
    using g(1) \<open>d \<noteq> 0\<close> bs by (simp add: get_allocation_size_def get_page_info_for_ptr_def info_get_desc_def)
  moreover have "os_maps s3 = os_maps s1" using s3(3) s2(2) new by simp
  moreover have "maps_ok (os_maps s2)" using s2(2,8,9,10) by simp
  ultimately show ?thesis using s2(1,2) s3(4) pc by (intro exI [of _ s2] exI [of _ s3] exI [of _ "unat ?pg"]) simp
qed

text \<open>An initialised allocator with nothing allocated, tuning off, for the concrete kernel.\<close>

definition boot_malloc :: malloc_state where
  "boot_malloc = alloc_state.extend boot_state
     \<lparr>boot = bootstrap_reserve, use_boot = False, malloc_inited = True, use_apf = False\<rparr>"

definition bump_cfg :: config where
  "bump_cfg = \<lparr>cfg_os = bump_env, cfg_hash = unat, cfg_nm = False, cfg_target = 2500, cfg_burst = 300,
     cfg_hibernation = 600, cfg_use_apf = False, cfg_panicking = False, cfg_mem_ok = (\<lambda>_. True),
     cfg_garbage = (\<lambda>_. Free 0)\<rparr>"

lemma boot_malloc_simps [simp]:
  "mem boot_malloc = (\<lambda>_. 0)" "os_maps boot_malloc = []" "os_calls boot_malloc = 0" "size_map boot_malloc = None"
  "avail_desc boot_malloc = 0" "descs boot_malloc = (\<lambda>_. descriptor_default)" "pm_len boot_malloc = 2 ^ 38"
  "page_map boot_malloc = (\<lambda>_. 0)" "sc_table boot_malloc = size_classes[1 := class_8]"
  "heaps boot_malloc = Some (map heap_new_none [0..<MAX_SZ_IDX])" "malloc_inited boot_malloc"
  "\<not> use_apf boot_malloc" "\<not> use_boot boot_malloc"
  by (simp_all add: boot_malloc_def alloc_state.defs boot_state_def map_state.defs empty_map_state_def
      desc_state.defs empty_desc_state_def pages_state.defs empty_pages_state_def)

lemma boot_malloc_ok: "pages_ok h boot_malloc" "free_list boot_malloc []" "pm_ready boot_malloc"
  using empty_pages_state_ok [of h]
  by (simp_all add: pages_ok_def free_list_def empty_pages_state_def size_map_or_new_def pm_ready_def)

lemma boot_malloc_large:
  assumes "map_span len \<le> 2 ^ 46" "len \<noteq> 0"
  shows "\<exists>s1 p. desc_alloc bump_env unat boot_malloc = Inr (1048576, s1) \<and> free_list s1 (drop 1 (desc_block 1048576 512)) \<and>
    1048576 \<notin> set (drop 1 (desc_block 1048576 512)) \<and> p = mmap bump_env False (os_calls s1) (os_maps s1) len \<and> p \<noteq> MAP_FAILED"
proof -
  obtain s1 where s1: "desc_alloc bump_env unat boot_malloc = Inr (1048576, s1)"
    "os_maps s1 = [(1048576, of_nat DESCRIPTOR_BLOCK_SZ)]" "free_list s1 (drop 1 (desc_block 1048576 512))"
    "distinct (desc_block 1048576 512)"
    using first_desc_alloc [of boot_malloc unat] boot_malloc_ok(1,2) by auto
  have "desc_block 1048576 512 = 1048576 # drop 1 (desc_block 1048576 512)"
    using desc_block_Cons [of 1048576 511] by simp
  then have "1048576 \<notin> set (drop 1 (desc_block 1048576 512))" using s1(4) by (metis distinct.simps(2))
  moreover have "mmap bump_env False (os_calls s1) (os_maps s1) len \<noteq> MAP_FAILED"
    using assms s1(2) by (simp add: bump_env_def bump_mmap_def map_span_def round_up_def mem_info_defs MAP_FAILED_def)
  ultimately show ?thesis using s1 by blast
qed

lemma page_ceiling_eval: "page_ceiling 100000 = 102400" "page_ceiling 4294967296 = 4294967296"
  by (simp_all add: page_ceiling_def mem_info_defs)

theorem malloc_free_large_witness:
  "\<exists>p s2 s3 len. do_malloc bump_cfg 100000 (boot_malloc, thread_new) = Some (Inr (p, s2, thread_new)) \<and>
    get_allocation_size p s2 = Inr (Some len) \<and> 100000 \<le> len \<and>
    do_free bump_cfg p (s2, thread_new) = Some (Inr (s3, thread_new)) \<and> get_allocation_size p s3 = Inr None"
proof -
  have "map_span 102400 \<le> 2 ^ 46" by (simp add: map_span_def round_up_def PAGE_value)
  then obtain s1 p where s1: "desc_alloc bump_env unat boot_malloc = Inr (1048576, s1)"
    "free_list s1 (drop 1 (desc_block 1048576 512))" "1048576 \<notin> set (drop 1 (desc_block 1048576 512))"
    "p = mmap bump_env False (os_calls s1) (os_maps s1) (page_ceiling 100000)" "p \<noteq> MAP_FAILED"
    using boot_malloc_large [of 102400] by (auto simp: page_ceiling_eval)
  have c: "cfg_os bump_cfg = bump_env" "cfg_hash bump_cfg = unat" by (simp_all add: bump_cfg_def)
  obtain s2 s3 len where "do_malloc bump_cfg 100000 (boot_malloc, thread_new) = Some (Inr (p, s2, thread_new))"
    "unat (100000 :: usize) \<le> len" "get_allocation_size p s2 = Inr (Some len)"
    "do_free bump_cfg p (s2, thread_new) = Some (Inr (s3, thread_new))" "get_allocation_size p s3 = Inr None"
    using malloc_free_large [where cfg = bump_cfg and s = boot_malloc and sz = 100000 and t = thread_new, unfolded c,
        OF _ boot_malloc_ok(3) bump_env_contract bump_env_munmap boot_malloc_ok(1) _ _ s1]
    by (auto simp: MAX_SZ_value PAGE_value)
  then show ?thesis by auto
qed

text \<open>C38. The descriptor keeps the length of a large allocation in 32 bits. When the pages of a request
  are a multiple of 4 GiB plus at most 14336 bytes, the length that is read back is that remainder,
  and freeing the pointer treats it as a block of a size class instead of unmapping it.\<close>

theorem malloc_length_truncated:
  fixes s :: "'s malloc_state_scheme"
  assumes "malloc_inited s" "pm_ready s" "mmap_contract (cfg_os cfg)" "pages_ok (cfg_hash cfg) s" "MAX_SZ < unat sz"
    and "unat (page_ceiling sz) mod 2 ^ 32 = r" "r \<le> MAX_SZ" "get_size_class (sc_lookup s) r = Suc i"
    and "desc_alloc (cfg_os cfg) (cfg_hash cfg) s = Inr (d, s1)"
    and "p = mmap (cfg_os cfg) False (os_calls s1) (os_maps s1) (page_ceiling sz)" "p \<noteq> MAP_FAILED"
  shows "\<exists>s2. do_malloc cfg sz (s, t) = Some (Inr (p, s2, t)) \<and> get_allocation_size p s2 = Inr (Some r) \<and>
    do_free cfg p (s2, t) = free_small cfg p (Suc i) (s2, t)"
proof -
  obtain s2 where s2: "do_malloc cfg sz (s, t) = Some (Inr (p, s2, t))"
    "page_map s2 = (page_map s)(addr_to_key p := d)" "pm_ready s2" "block_size (descs s2 d) = r"
    "desc_addr d" "valid_map (p, page_ceiling sz)" "sc_lookup s2 = sc_lookup s"
    using do_malloc_large [OF assms(1-5,9,10,11), of t] assms(6) by (auto simp: large_desc_def unat_ucast_mod)
  have g: "get_page_info p s2 = Inr d" using get_page_info_ready [OF s2(3), of p] s2(2) by simp
  have "p \<noteq> 0" "d \<noteq> 0" using s2(5,6) by (auto simp: valid_map_def desc_addr_def)
  then show ?thesis
    using s2 g assms(7,8) by (intro exI [of _ s2])
      (simp add: do_free_def get_allocation_size_def get_page_info_for_ptr_def info_get_desc_def info_get_size_class_index_def)
qed

theorem malloc_length_truncated_witness:
  "\<exists>p s2. do_malloc bump_cfg 4294967296 (boot_malloc\<lparr>sc_lookup := replicate (MAX_SZ + 1) 1\<rparr>, thread_new) =
      Some (Inr (p, s2, thread_new)) \<and> get_allocation_size p s2 = Inr (Some 0)"
proof -
  let ?s = "boot_malloc\<lparr>sc_lookup := replicate (MAX_SZ + 1) 1\<rparr>"
  have ok: "pages_ok unat ?s" "free_list ?s []" "pm_ready ?s"
    using boot_malloc_ok by (simp_all add: pages_ok_def size_map_or_new_def free_list_def pm_ready_def)
  obtain s1 where s1: "desc_alloc bump_env unat ?s = Inr (1048576, s1)"
    "os_maps s1 = [(1048576, of_nat DESCRIPTOR_BLOCK_SZ)]"
    using first_desc_alloc [of ?s unat] ok by auto
  have m: "mmap bump_env False (os_calls s1) (os_maps s1) (page_ceiling 4294967296) \<noteq> MAP_FAILED"
    using s1(2) by (simp add: page_ceiling_eval bump_env_def bump_mmap_def map_span_def round_up_def mem_info_defs MAP_FAILED_def)
  have c: "cfg_os bump_cfg = bump_env" "cfg_hash bump_cfg = unat" by (simp_all add: bump_cfg_def)
  have l: "get_size_class (sc_lookup ?s) 0 = Suc 0" by (simp add: get_size_class_def)
  show ?thesis
    using malloc_length_truncated [where cfg = bump_cfg and s = ?s and sz = 4294967296 and t = thread_new and r = 0 and i = 0,
        unfolded c, OF _ ok(3) bump_env_contract ok(1) _ _ _ l s1(1) refl m]
    by (auto simp: MAX_SZ_value page_ceiling_eval)
qed

section \<open>Small allocations\<close>

text \<open>An initialised allocator that takes its small blocks from the thread cache, tuning off.\<close>

definition quiet :: "config \<Rightarrow> 's malloc_state_scheme \<Rightarrow> bool" where
  "quiet cfg s \<longleftrightarrow> malloc_inited s \<and> \<not> use_apf s \<and> \<not> use_boot s \<and> \<not> cfg_panicking cfg"

text \<open>A pointer that the page map leads to a descriptor of size class \<open>sci\<close>.\<close>

definition block_of_class :: "'s malloc_state_scheme \<Rightarrow> usize \<Rightarrow> nat \<Rightarrow> nat \<Rightarrow> bool" where
  "block_of_class s x bs sci \<longleftrightarrow> (\<exists>d. get_page_info x s = Inr d \<and> d \<noteq> 0 \<and> block_size (descs s d) = bs) \<and>
     bs \<le> MAX_SZ \<and> get_size_class (sc_lookup s) bs = sci \<and> 0 < sci \<and> sci < length (sc_table s)"

lemma put_bin_simps [simp]:
  "bins (put_bin i b t) = (bins t)[i := b]" "t_skip (put_bin i b t) = t_skip t"
  "skip_tuners (put_bin i b t) = skip_tuners t" "apf_init (put_bin i b t) = apf_init t"
  by (simp_all add: put_bin_def)

lemma quiet_mem [simp]: "quiet cfg (s\<lparr>mem := m\<rparr>) = quiet cfg s"
  by (simp add: quiet_def)

lemma block_of_class_mem [simp]: "block_of_class (s\<lparr>mem := m\<rparr>) x bs sci = block_of_class s x bs sci"
  by (simp add: block_of_class_def get_page_info_def Let_def)

lemma allocate_to_cache_bin:
  assumes "quiet cfg s" "sci < length (bins t)" "bin_rep (cfg_nm cfg) (mem s, bins t ! sci) (x # xs)"
  shows "\<exists>b'. allocate_to_cache cfg sz sci (s, t) = Some (Inr (x, s, put_bin sci b' t)) \<and>
    bin_rep (cfg_nm cfg) (mem s, b') xs"
proof -
  obtain b' where "pop_block (cfg_nm cfg) (mem s, bins t ! sci) = Inr (x, mem s, b')" "bin_rep (cfg_nm cfg) (mem s, b') xs"
    using pop_block_keeps [OF assms(3)] by blast
  moreover have "block_num (bins t ! sci) \<noteq> 0" using bin_rep_num [OF assms(3)] by simp
  ultimately show ?thesis
    using assms(1,2) by (auto simp: quiet_def allocate_to_cache_def get_bin_def get_bin_block_num_def tune_malloc_def)
qed

lemma do_malloc_bin:
  assumes "quiet cfg s" "unat sz \<le> MAX_SZ" "get_size_class (sc_lookup s) (unat sz) = sci" "sci < length (bins t)"
    and "bin_rep (cfg_nm cfg) (mem s, bins t ! sci) (x # xs)"
  shows "\<exists>b'. do_malloc cfg sz (s, t) = Some (Inr (x, s, put_bin sci b' t)) \<and> bin_rep (cfg_nm cfg) (mem s, b') xs"
  using allocate_to_cache_bin [OF assms(1,4,5), of sz] assms(1-3) by (auto simp: do_malloc_def init_once_def quiet_def)

lemma do_free_bin:
  assumes "quiet cfg s" "block_of_class s x bs sci" "sci < length (bins t)"
    and "bin_rep (cfg_nm cfg) (mem s, bins t ! sci) xs" "bin_fits xs x"
    and "length xs < sc_cache_block_num (sc_table s ! sci)"
  shows "\<exists>v b'. do_free cfg x (s, t) = Some (Inr (s\<lparr>mem := store64 (mem s) x v\<rparr>, put_bin sci b' t)) \<and>
    bin_rep (cfg_nm cfg) (store64 (mem s) x v, b') (x # xs)"
proof -
  obtain v b' where p: "push_block (cfg_nm cfg) x (mem s, bins t ! sci) = (store64 (mem s) x v, b')"
    using push_block_next [of "cfg_nm cfg" x "mem s" "bins t ! sci"] by blast
  have r: "bin_rep (cfg_nm cfg) (store64 (mem s) x v, b') (x # xs)"
    using push_block_rep [OF assms(4,5)] by (simp add: p)
  have "block_num (bins t ! sci) = length xs" using bin_rep_num [OF assms(4)] by simp
  then have "free_small cfg x sci (s, t) = Some (Inr (s\<lparr>mem := store64 (mem s) x v\<rparr>, put_bin sci b' t))"
    using assms(1,2,3,6) p
    by (simp add: quiet_def block_of_class_def free_small_def tune_free_def get_bin_def get_bin_block_num_def)
  moreover obtain d where "get_page_info x s = Inr d" "d \<noteq> 0" "info_get_size_class_index s d = Some sci" "0 < sci"
    using assms(2) by (auto simp: block_of_class_def info_get_size_class_index_def)
  moreover have "x \<noteq> 0" using assms(5) by (simp add: bin_fits_def)
  ultimately have "do_free cfg x (s, t) = Some (Inr (s\<lparr>mem := store64 (mem s) x v\<rparr>, put_bin sci b' t))"
    by (cases sci) (simp_all add: do_free_def get_page_info_for_ptr_def info_get_desc_def)
  then show ?thesis using r by blast
qed

text \<open>C10. With tuning off, allocation and release of small blocks are a stack discipline on the bin of
  the size class: \<^verbatim>\<open>do_malloc\<close> returns the top block of a bin that is not empty, without touching
  memory or the central reserve; freeing it puts it back on top, so the bin holds the same blocks
  as before and the next request of that class gets the same block again.\<close>

theorem malloc_free_small:
  fixes s :: "'s malloc_state_scheme"
  assumes "quiet cfg s" "unat sz \<le> MAX_SZ" "get_size_class (sc_lookup s) (unat sz) = sci" "sci < length (bins t)"
    and "bin_rep (cfg_nm cfg) (mem s, bins t ! sci) (x # xs)"
    and "block_of_class s x bs sci" "length xs < sc_cache_block_num (sc_table s ! sci)"
  shows "\<exists>t1 s2 t2. do_malloc cfg sz (s, t) = Some (Inr (x, s, t1)) \<and> bin_rep (cfg_nm cfg) (mem s, bins t1 ! sci) xs \<and>
    do_free cfg x (s, t1) = Some (Inr (s2, t2)) \<and> bin_rep (cfg_nm cfg) (mem s2, bins t2 ! sci) (x # xs) \<and>
    (\<exists>t3. do_malloc cfg sz (s2, t2) = Some (Inr (x, s2, t3)))"
proof -
  obtain b1 where b1: "do_malloc cfg sz (s, t) = Some (Inr (x, s, put_bin sci b1 t))" "bin_rep (cfg_nm cfg) (mem s, b1) xs"
    using do_malloc_bin [OF assms(1-5)] by blast
  let ?t1 = "put_bin sci b1 t"
  have fit: "bin_fits xs x" using assms(5) by (auto simp: bin_rep_def bin_fits_def)
  obtain v b2 where b2: "do_free cfg x (s, ?t1) = Some (Inr (s\<lparr>mem := store64 (mem s) x v\<rparr>, put_bin sci b2 ?t1))"
    "bin_rep (cfg_nm cfg) (store64 (mem s) x v, b2) (x # xs)"
    using do_free_bin [OF assms(1,6), of ?t1 xs] b1(2) fit assms(4,7) by auto
  let ?s2 = "s\<lparr>mem := store64 (mem s) x v\<rparr>" and ?t2 = "put_bin sci b2 ?t1"
  have "\<exists>t3. do_malloc cfg sz (?s2, ?t2) = Some (Inr (x, ?s2, t3))"
    using do_malloc_bin [of cfg ?s2 sz sci ?t2 x xs] assms(1-4) b2(2) by auto
  then show ?thesis
    using b1 b2 assms(4) by (intro exI [of _ ?t1] exI [of _ ?s2] exI [of _ ?t2]) simp
qed

text \<open>A bin with two blocks of 8 bytes in the page from 1114112 on.\<close>

definition small_malloc :: malloc_state where
  "small_malloc = boot_malloc\<lparr>sc_lookup := replicate (MAX_SZ + 1) 1, page_map := (\<lambda>_. 1048576),
     descs := (\<lambda>_. descriptor_default\<lparr>block_size := 8\<rparr>)\<rparr>"

definition small_thread :: thread where
  "small_thread = thread_new\<lparr>bins := replicate MAX_SZ_IDX \<lparr>block = 1114112, block_num = 2, bin_block_size = Some 8\<rparr>\<rparr>"

lemma small_bin: "bin_rep (cfg_nm bump_cfg) (mem small_malloc, bins small_thread ! 1) [1114112, 1114120]"
proof -
  let ?b = "\<lparr>block = 1114112, block_num = 2, bin_block_size = Some 8\<rparr>"
  have z: "load64 (\<lambda>_. 0) a = 0" for a by (rule load64_zero) simp
  have "bins small_thread ! 1 = ?b" by (simp add: small_thread_def MAX_SZ_IDX_def)
  moreover have "mem small_malloc = (\<lambda>_. 0)" by (simp add: small_malloc_def)
  moreover have "chain f a 2 = [a, f a]" for f :: "usize \<Rightarrow> usize" and a by (simp add: numeral_2_eq_2)
  ultimately show ?thesis
    by (simp add: bump_cfg_def bin_rep_def bin_blocks_def next_of_def z cells_apart_def)
qed

lemma small_class: "n \<le> MAX_SZ \<Longrightarrow> get_size_class (sc_lookup small_malloc) n = 1"
  using nth_replicate [of n "MAX_SZ + 1" "1 :: nat"]
  by (simp add: small_malloc_def get_size_class_def del: replicate_Suc nth_replicate)

lemma small_block: "block_of_class small_malloc 1114112 8 1"
proof -
  have "get_page_info 1114112 small_malloc = Inr 1048576"
    using get_page_info_ready [of small_malloc 1114112] by (simp add: pm_ready_def small_malloc_def)
  then show ?thesis
    using small_class [of 8] by (simp add: block_of_class_def MAX_SZ_value) (simp add: small_malloc_def size_classes_def)
qed

lemma small_quiet: "quiet bump_cfg small_malloc"
  by (simp add: quiet_def small_malloc_def bump_cfg_def)

lemma small_lengths:
  "length (bins small_thread) = MAX_SZ_IDX" "sc_cache_block_num (sc_table small_malloc ! Suc 0) = 512"
  by (simp_all add: small_thread_def small_malloc_def size_classes_def class_8_def)

theorem malloc_free_small_witness:
  "\<exists>t1 s2 t2. do_malloc bump_cfg 5 (small_malloc, small_thread) = Some (Inr (1114112, small_malloc, t1)) \<and>
    do_free bump_cfg 1114112 (small_malloc, t1) = Some (Inr (s2, t2))"
  using malloc_free_small [OF small_quiet _ _ _ small_bin small_block, of 5] small_class [of 5]
  by (auto simp: MAX_SZ_value small_lengths MAX_SZ_IDX_def)

end
