(* ===== verification/Start_Up.thy ===== *)
theory Start_Up
  imports Malloc_Facts
begin

text \<open>
  How the allocator comes to life: \<^verbatim>\<open>init_malloc\<close> of \<^verbatim>\<open>src/lib.rs\<close> behind its \<^verbatim>\<open>SingleAccess\<close> establishes
  the invariants that the properties of the other components assume, and the first request of a
  size class goes from there through the central reserve and the thread cache.
\<close>

section \<open>The invariant of a running allocator\<close>

text \<open>The size class tables.\<close>

definition tables_ok :: "nat \<Rightarrow> 's map_state_scheme \<Rightarrow> bool" where
  "tables_ok target s \<longleftrightarrow> length (sc_table s) = MAX_SZ_IDX \<and>
     (\<forall>i. 1 \<le> i \<and> i < MAX_SZ_IDX \<longrightarrow> class_ok target (sc_block_size (size_classes ! i)) (sc_table s ! i)) \<and>
     (\<forall>n \<le> MAX_SZ. 1 \<le> get_size_class (sc_lookup s) n \<and> get_size_class (sc_lookup s) n < MAX_SZ_IDX \<and>
        n \<le> sc_block_size (sc_table s ! get_size_class (sc_lookup s) n) \<and>
        (\<forall>j. 1 \<le> j \<and> j < get_size_class (sc_lookup s) n \<longrightarrow> sc_block_size (sc_table s ! j) < n))"

text \<open>A descriptor that lies in a live mapping, and what holds of the shared state between calls: the
  tables, and for every class a heap whose partial list is a finite chain of such descriptors.\<close>

definition desc_live :: "'s os_state_scheme \<Rightarrow> usize \<Rightarrow> bool" where
  "desc_live s d \<longleftrightarrow> (\<exists>r \<in> set (os_maps s). unat (fst r) \<le> unat d \<and> unat d < unat (fst r) + map_span (snd r))"

definition alloc_ok :: "(usize \<Rightarrow> nat) \<Rightarrow> nat \<Rightarrow> 's alloc_state_scheme \<Rightarrow> bool" where
  "alloc_ok h target s \<longleftrightarrow> pm_ready s \<and> pages_ok h s \<and> tables_ok target s \<and>
     (\<forall>i. 1 \<le> i \<and> i < MAX_SZ_IDX \<longrightarrow>
        heap_class s i (sc_table s ! i) \<and> (\<exists>xs. partial_rep i s xs \<and> (\<forall>d \<in> set xs. desc_live s d)))"

definition malloc_ready :: "config \<Rightarrow> 's malloc_state_scheme \<Rightarrow> bool" where
  "malloc_ready cfg s \<longleftrightarrow> malloc_inited s \<and> alloc_ok (cfg_hash cfg) (cfg_target cfg) s"

lemma malloc_readyD:
  assumes "malloc_ready cfg s"
  shows "malloc_inited s" "pm_ready s" "pages_ok (cfg_hash cfg) s" "tables_ok (cfg_target cfg) s"
    "1 \<le> i \<Longrightarrow> i < MAX_SZ_IDX \<Longrightarrow> heap_class s i (sc_table s ! i)"
  using assms by (simp_all add: malloc_ready_def alloc_ok_def)

text \<open>The static data of the crate before its first use.\<close>

definition fresh_malloc :: "config \<Rightarrow> 's malloc_state_scheme \<Rightarrow> bool" where
  "fresh_malloc cfg s \<longleftrightarrow> \<not> malloc_inited s \<and> sc_table s = size_classes \<and> sc_lookup s = replicate (MAX_SZ + 1) 0 \<and>
     heaps s = None \<and> boot s = bootstrap_reserve \<and> free_list s [] \<and> pages_ok (cfg_hash cfg) s"

lemma init_tables:
  assumes "target \<le> 250000"
  shows "\<exists>cs lk. init_size_class target size_classes (replicate (MAX_SZ + 1) 0) = Some (Inr (cs, lk)) \<and>
    (\<forall>s. sc_table s = cs \<longrightarrow> sc_lookup s = lk \<longrightarrow> tables_ok target s)"
proof -
  obtain f lk where f: "init_size_class target size_classes (replicate (MAX_SZ + 1) 0) = Some (Inr (hd size_classes # f, lk))"
    "list_all2 (class_ok target) block_sizes f" "\<forall>n \<le> MAX_SZ. lk ! n = 1 + length (takeWhile (\<lambda>b. b < n) block_sizes)"
    using init_size_class_result [OF assms] by blast
  have len: "length f = MAX_SZ_IDX - 1" using f(2) length_block_sizes by (auto dest: list_all2_lengthD)
  have ok: "class_ok target (block_sizes ! j) (f ! j)" if "j < MAX_SZ_IDX - 1" for j
    using f(2) that length_block_sizes by (auto simp: list_all2_conv_all_nth)
  have nth: "size_classes ! Suc j = tl size_classes ! j" for j by (simp add: size_classes_def)
  have cls: "class_ok target (sc_block_size (size_classes ! i)) ((hd size_classes # f) ! i)" if "1 \<le> i" "i < MAX_SZ_IDX" for i
    using that ok [of "i - 1"] nth [of "i - 1"] length_block_sizes by (cases i) (auto simp: block_sizes_def)
  have look: "lk ! n < MAX_SZ_IDX \<and> 1 \<le> lk ! n \<and> n \<le> sc_block_size ((hd size_classes # f) ! (lk ! n)) \<and>
      (\<forall>j. 1 \<le> j \<and> j < lk ! n \<longrightarrow> sc_block_size ((hd size_classes # f) ! j) < n)" if "n \<le> MAX_SZ" for n
  proof -
    let ?k = "length (takeWhile (\<lambda>b. b < n) block_sizes)"
    have "MAX_SZ \<in> set block_sizes"
      by (simp add: block_sizes_def size_classes_def sc_def size_class_bin_yes_def mem_info_defs)
    then have lt: "?k < length block_sizes" using that by (intro length_takeWhile_less) auto
    then have "n \<le> block_sizes ! ?k" using nth_length_takeWhile [OF lt] by simp
    moreover have "sc_block_size ((hd size_classes # f) ! j) < n" if "1 \<le> j" "j < Suc ?k" for j
    proof -
      have j: "j - 1 < ?k" "(hd size_classes # f) ! j = f ! (j - 1)" using that by (auto simp: nth_Cons')
      then have "block_sizes ! (j - 1) < n"
        using takeWhile_nth [OF j(1)] nth_mem [OF j(1)] set_takeWhileD by fastforce
      then show ?thesis using ok [of "j - 1"] j lt length_block_sizes by (simp add: class_ok_def)
    qed
    ultimately show ?thesis using ok [of ?k] lt length_block_sizes f(3) that by (simp add: class_ok_def)
  qed
  show ?thesis using f(1) cls look len
    by (intro exI [of _ "hd size_classes # f"] exI [of _ lk]) (auto simp: tables_ok_def get_size_class_def MAX_SZ_IDX_def)
qed

section \<open>Initialisation\<close>

lemma page_map_init_granted:
  assumes "mmap_contract env" "pages_ok h s" "p = mmap env True (os_calls s) (os_maps s) PM_SZ" "p \<noteq> MAP_FAILED"
  shows "\<exists>m mp. page_map_init env h s = Inr (s\<lparr>mem := m, os_maps := (p, PM_SZ) # os_maps s, os_calls := Suc (os_calls s),
      size_map := Some mp, page_map := (\<lambda>_. 0), pm_len := 2 ^ 38, pm_location := Some p\<rparr>) \<and>
    pages_ok h (s\<lparr>os_maps := (p, PM_SZ) # os_maps s, size_map := Some mp\<rparr>)"
proof -
  let ?s0 = "s\<lparr>size_map := Some (size_map_or_new s)\<rparr>"
  have g: "map_segment env True PM_SZ ?s0 = (Inr \<lparr>seg_ptr = p, seg_length = PM_SZ\<rparr>,
      ?s0\<lparr>os_calls := Suc (os_calls s), mem := zero_span p PM_SZ (mem s), os_maps := (p, PM_SZ) # os_maps s\<rparr>)"
    using assms(3,4) by (simp add: map_segment_def Let_def)
  obtain mp where mp: "hm_insert h p PM_SZ (size_map_or_new s) = Inr (None, mp)"
    "pages_ok h (?s0\<lparr>os_calls := Suc (os_calls s), mem := zero_span p PM_SZ (mem s), os_maps := (p, PM_SZ) # os_maps s\<rparr>
       \<lparr>size_map := Some mp\<rparr>)"
    using map_pages_ok [OF assms(1,2) g] by auto
  have "PM_SZ AND PAGE_MASK = 0" by (simp add: page_map_consts PAGE_MASK_mask mask_eq_exp_minus_1)
  then have "page_map_init env h s = Inr (s\<lparr>mem := zero_span p PM_SZ (mem s), os_maps := (p, PM_SZ) # os_maps s,
      os_calls := Suc (os_calls s), size_map := Some mp, page_map := (\<lambda>_. 0), pm_len := 2 ^ 38, pm_location := Some p\<rparr>)"
    using g mp(1) by (simp add: page_map_init_def page_alloc_over_commit_def allocate_massive_def)
      (simp add: page_map_consts)
  moreover have "pages_ok h (s\<lparr>os_maps := (p, PM_SZ) # os_maps s, size_map := Some mp\<rparr>)"
    using mp(2) by (simp add: pages_ok_def size_map_or_new_def)
  ultimately show ?thesis by blast
qed

lemma reset_new_heaps:
  "heaps s = Some (map heap_new_none [0..<MAX_SZ_IDX]) \<Longrightarrow> for_each reset_heap [0..<MAX_SZ_IDX] s = Inr s"
  by (rule for_each_skip)
    (simp add: reset_heap_def get_heap_at_def put_heap_at_def heap_new_none_def update_list_def index_list_def
      list_update_same_conv del: upt_rec_numeral)

text \<open>Where the kernel puts the page map and the first segment of the bootstrap reserve, and that it
  grants these two requests and the one for the heaps between them.\<close>

definition pm_addr :: "config \<Rightarrow> 's malloc_state_scheme \<Rightarrow> usize" where
  "pm_addr cfg s = mmap (cfg_os cfg) True (os_calls s) (os_maps s) PM_SZ"

definition boot_addr :: "config \<Rightarrow> 's malloc_state_scheme \<Rightarrow> usize" where
  "boot_addr cfg s = mmap (cfg_os cfg) False (os_calls s + 2) ((pm_addr cfg s, PM_SZ) # os_maps s) (of_nat (128 * KB))"

definition init_granted :: "config \<Rightarrow> 's malloc_state_scheme \<Rightarrow> bool" where
  "init_granted cfg s \<longleftrightarrow> pm_addr cfg s \<noteq> MAP_FAILED \<and>
     map_anon (cfg_os cfg) (os_calls s + 1) (size_of_proc_heap * MAX_SZ_IDX) \<and> boot_addr cfg s \<noteq> MAP_FAILED"

lemma new_heaps_ready:
  assumes "heaps s = Some (map heap_new_none [0..<MAX_SZ_IDX])" "tables_ok target s" "1 \<le> i" "i < MAX_SZ_IDX"
  shows "heap_class s i (sc_table s ! i) \<and> partial_rep i s []"
  using assms by (auto simp: heap_class_def tables_ok_def partial_rep_def heap_new_none_def class_ok_def)

lemma init_once_fresh:
  fixes s :: "'s malloc_state_scheme"
  assumes "mmap_contract (cfg_os cfg)" "fresh_malloc cfg s" "cfg_target cfg \<le> 250000" "init_granted cfg s"
  shows "\<exists>s'. init_once cfg s = Some (Inr s') \<and> malloc_ready cfg s' \<and> (\<forall>i. 1 \<le> i \<and> i < MAX_SZ_IDX \<longrightarrow> partial_rep i s' []) \<and>
    page_map s' = (\<lambda>_. 0) \<and> free_list s' [] \<and> reserve_ok [] (s', boot s') \<and> bs_avail (boot s') = 128 * KB \<and>
    os_maps s' = (boot_addr cfg s, of_nat (128 * KB)) # (pm_addr cfg s, PM_SZ) # os_maps s \<and>
    use_apf s' = (cfg_use_apf cfg \<and> use_apf s) \<and> use_boot s' = use_boot s \<and> descs s' = descs s"
proof -
  let ?env = "cfg_os cfg" and ?h = "cfg_hash cfg"
  have fr: "\<not> malloc_inited s" "sc_table s = size_classes" "sc_lookup s = replicate (MAX_SZ + 1) 0" "heaps s = None"
    "boot s = bootstrap_reserve" "free_list s []" "pages_ok ?h s"
    using assms(2) by (auto simp: fresh_malloc_def)
  define p where "p = pm_addr cfg s"
  define q where "q = boot_addr cfg s"
  have g: "p \<noteq> MAP_FAILED" "map_anon ?env (Suc (os_calls s)) (size_of_proc_heap * MAX_SZ_IDX)" "q \<noteq> MAP_FAILED"
    using assms(4) by (simp_all add: init_granted_def p_def q_def)
  obtain cs lk where tab: "init_size_class (cfg_target cfg) size_classes (replicate (MAX_SZ + 1) 0) = Some (Inr (cs, lk))"
    "\<And>u :: 's malloc_state_scheme. sc_table u = cs \<Longrightarrow> sc_lookup u = lk \<Longrightarrow> tables_ok (cfg_target cfg) u"
    using init_tables [OF assms(3)] by blast
  let ?s0 = "s\<lparr>sc_table := cs, sc_lookup := lk\<rparr>"
  have s0: "pages_ok ?h ?s0" using fr(7) by (simp add: pages_ok_def size_map_or_new_def)
  obtain m mp where pm: "page_map_init ?env ?h ?s0 = Inr (?s0\<lparr>mem := m, os_maps := (p, PM_SZ) # os_maps s,
      os_calls := Suc (os_calls s), size_map := Some mp, page_map := (\<lambda>_. 0), pm_len := 2 ^ 38, pm_location := Some p\<rparr>)"
    "pages_ok ?h (?s0\<lparr>os_maps := (p, PM_SZ) # os_maps s, size_map := Some mp\<rparr>)"
    using page_map_init_granted [OF assms(1) s0, of p] g(1) by (auto simp: p_def pm_addr_def)
  define s3 where "s3 = ?s0\<lparr>mem := m, os_maps := (p, PM_SZ) # os_maps s, os_calls := Suc (Suc (os_calls s)), size_map := Some mp,
      page_map := (\<lambda>_. 0), pm_len := 2 ^ 38, pm_location := Some p, use_apf := (cfg_use_apf cfg \<and> use_apf s),
      heaps := Some (map heap_new_none [0..<MAX_SZ_IDX])\<rparr>"
  have s3: "os_maps s3 = (p, PM_SZ) # os_maps s" "os_calls s3 = Suc (Suc (os_calls s))" "boot s3 = bootstrap_reserve"
    by (simp_all add: s3_def fr(5))
  define s4 where "s4 = s3\<lparr>os_calls := Suc (os_calls s3), mem := zero_span q (of_nat (128 * KB)) (mem s3),
       os_maps := (q, of_nat (128 * KB)) # (p, PM_SZ) # os_maps s\<rparr>"
  have "maps_ok (os_maps s3)" using pm(2) by (simp add: s3(1) pages_ok_def)
  then obtain b where rs: "reserve_init ?env (s3, boot s3) = Inr (s4, b)" and res: "reserve_ok [] (s4, b)" "bs_avail b = 128 * KB"
    using reserve_init_granted [OF assms(1), of s3 q s4] g(3) by (auto simp: s3 q_def s4_def boot_addr_def p_def)
  define s' where "s' = s4\<lparr>boot := b, malloc_inited := True\<rparr>"
  have "for_each reset_heap [0..<MAX_SZ_IDX] s3 = Inr s3" by (rule reset_new_heaps) (simp add: s3_def)
  moreover have "get_heaps ?env (?s0\<lparr>mem := m, os_maps := (p, PM_SZ) # os_maps s, os_calls := Suc (os_calls s), size_map := Some mp,
      page_map := (\<lambda>_. 0), pm_len := 2 ^ 38, pm_location := Some p, use_apf := (cfg_use_apf cfg \<and> use_apf s)\<rparr>) = Inr s3"
    using fr(4) g(2) by (simp add: get_heaps_def init_heaps_def s3_def del: upt_rec_numeral)
  ultimately have init: "init_once cfg s = Some (Inr s')"
    using fr(1) tab(1) pm(1) rs by (simp add: init_once_def init_malloc_def fr(2,3) s'_def)
  have "heaps s' = Some (map heap_new_none [0..<MAX_SZ_IDX])" "tables_ok (cfg_target cfg) s'"
    by (simp_all add: tab(2) s'_def s4_def s3_def del: upt_rec_numeral)
  note heaps = new_heaps_ready [OF this] this(2)
  have maps: "os_maps s' = (q, of_nat (128 * KB)) # (p, PM_SZ) # os_maps s" by (simp add: s'_def s4_def)
  have "maps_ok (os_maps s')" using res(1) by (simp add: reserve_ok_def s'_def)
  moreover have "size_map s' = Some mp" by (simp add: s'_def s4_def s3_def)
  ultimately have pg: "pages_ok ?h s'" using pm(2) maps by (auto simp: pages_ok_def size_map_or_new_def)
  have "pm_ready s'" "malloc_inited s'" "page_map s' = (\<lambda>_. 0)"
    "use_apf s' = (cfg_use_apf cfg \<and> use_apf s)" "use_boot s' = use_boot s" "boot s' = b"
    by (simp_all add: s'_def s4_def s3_def pm_ready_def)
  moreover have "free_list s' []" using fr(6) by (simp add: free_list_def s'_def s4_def s3_def)
  moreover have "reserve_ok [] (s', boot s')" using res(1) by (simp add: reserve_ok_def s'_def)
  moreover have "malloc_ready cfg s'"
    using calculation pg heaps by (force simp: malloc_ready_def alloc_ok_def intro: exI [of _ "[] :: usize list"])
  moreover have "descs s' = descs s" by (simp add: s'_def s4_def s3_def)
  ultimately show ?thesis using init heaps(1) res(2) maps unfolding p_def q_def by blast
qed

text \<open>C11. The first use of the allocator initialises it, whenever the kernel grants the three requests
  for it: the call returns, every size class has a usable heap with an empty partial list, the size
  class tables, the page map, the table of mappings and the bootstrap reserve satisfy their
  invariants, nothing is known to the page map, and every further call leaves the state alone. The memory of the
  lists inside the reserve and of the size map is taken as granted and is not among the mappings.\<close>

theorem init_establishes_ready:
  fixes s :: "'s malloc_state_scheme"
  assumes "mmap_contract (cfg_os cfg)" "fresh_malloc cfg s" "cfg_target cfg \<le> 250000" "init_granted cfg s"
  shows "\<exists>s'. init_once cfg s = Some (Inr s') \<and> malloc_ready cfg s' \<and> (\<forall>i. 1 \<le> i \<and> i < MAX_SZ_IDX \<longrightarrow> partial_rep i s' []) \<and>
    (\<forall>a. get_page_info a s' = Inr page_info_default) \<and> free_list s' [] \<and> reserve_ok [] (s', boot s') \<and>
    os_maps s' = (boot_addr cfg s, of_nat (128 * KB)) # (pm_addr cfg s, PM_SZ) # os_maps s \<and>
    init_once cfg s' = Some (Inr s')"
proof -
  obtain s' where s': "init_once cfg s = Some (Inr s')" "malloc_ready cfg s'" "\<forall>i. 1 \<le> i \<and> i < MAX_SZ_IDX \<longrightarrow> partial_rep i s' []"
    "page_map s' = (\<lambda>_. 0)" "free_list s' []" "reserve_ok [] (s', boot s')"
    "os_maps s' = (boot_addr cfg s, of_nat (128 * KB)) # (pm_addr cfg s, PM_SZ) # os_maps s"
    using init_once_fresh [OF assms] by blast
  have "pm_ready s'" "malloc_inited s'" using malloc_readyD [OF s'(2)] by blast+
  then have "get_page_info a s' = Inr page_info_default" "init_once cfg s' = Some (Inr s')" for a
    using s'(4) by (simp_all add: get_page_info_ready page_info_default_def init_once_def)
  then show ?thesis using s' by blast
qed

text \<open>The program before its first allocation, on the concrete kernel.\<close>

definition new_malloc :: malloc_state where
  "new_malloc = alloc_state.extend (map_state.extend
     (empty_map_state\<lparr>sc_table := size_classes, sc_lookup := replicate (MAX_SZ + 1) 0\<rparr>) \<lparr>heaps = None\<rparr>)
     \<lparr>boot = bootstrap_reserve, use_boot = False, malloc_inited = False, use_apf = True\<rparr>"

lemma new_malloc_simps [simp]:
  "os_maps new_malloc = []" "os_calls new_malloc = 0" "size_map new_malloc = None" "avail_desc new_malloc = 0"
  "sc_table new_malloc = size_classes" "sc_lookup new_malloc = replicate (MAX_SZ + 1) 0" "heaps new_malloc = None"
  "boot new_malloc = bootstrap_reserve" "\<not> malloc_inited new_malloc" "\<not> use_boot new_malloc"
  by (simp_all add: new_malloc_def alloc_state.defs map_state.defs empty_map_state_def desc_state.defs
      empty_desc_state_def pages_state.defs empty_pages_state_def)

lemma new_malloc_fresh: "fresh_malloc bump_cfg new_malloc"
  using empty_pages_state_ok [of unat]
  by (simp add: fresh_malloc_def free_list_def pages_ok_def size_map_or_new_def bump_cfg_def empty_pages_state_def)

lemma bump_cfg_simps [simp]:
  "cfg_os bump_cfg = bump_env" "cfg_hash bump_cfg = unat" "cfg_target bump_cfg = 2500" "\<not> cfg_panicking bump_cfg"
  "\<not> cfg_use_apf bump_cfg" "\<not> cfg_nm bump_cfg"
  by (simp_all add: bump_cfg_def)

lemma new_malloc_granted:
  "init_granted bump_cfg new_malloc" "unat (pm_addr bump_cfg new_malloc) \<le> 1048576"
  "unat (boot_addr bump_cfg new_malloc) \<le> 1048576 + 2 ^ 41"
proof -
  have sp: "map_span PM_SZ = 2 ^ 41" "map_span (of_nat (128 * KB)) = 135168"
    by (simp_all add: map_span_def page_map_consts KB_def round_up_def PAGE_value)
  have ne: "PM_SZ \<noteq> 0" "(of_nat (128 * KB) :: usize) \<noteq> 0" by (simp_all add: page_map_consts KB_def)
  note p = bump_mmap_granted [of "[]" 1048576 PM_SZ True 0]
  show p2: "unat (pm_addr bump_cfg new_malloc) \<le> 1048576" using p(2) ne sp by (simp add: pm_addr_def PAGE_value)
  note q = bump_mmap_granted [of "[(pm_addr bump_cfg new_malloc, PM_SZ)]" "1048576 + 2 ^ 41" "of_nat (128 * KB)" False "Suc (Suc 0)"]
  show "unat (boot_addr bump_cfg new_malloc) \<le> 1048576 + 2 ^ 41"
    using q(2) p2 ne sp by (simp add: boot_addr_def PAGE_value)
  have "boot_addr bump_cfg new_malloc \<noteq> MAP_FAILED" using q(1) p2 ne sp by (simp add: boot_addr_def PAGE_value)
  moreover have "pm_addr bump_cfg new_malloc \<noteq> MAP_FAILED" using p(1) ne sp by (simp add: pm_addr_def PAGE_value)
  moreover have "map_anon bump_env n k" for n k by (simp add: bump_env_def)
  ultimately show "init_granted bump_cfg new_malloc" by (simp add: init_granted_def)
qed

theorem init_establishes_ready_witness:
  "\<exists>s'. init_once bump_cfg new_malloc = Some (Inr s') \<and> malloc_ready bump_cfg s' \<and> partial_rep 1 s' []"
  using init_establishes_ready [OF _ new_malloc_fresh _ new_malloc_granted(1)] bump_env_contract
  by (auto simp: MAX_SZ_IDX_def)

section \<open>The first block of a size class\<close>

text \<open>The extension fields survive the central reserve.\<close>

lemma more_malloc:
  fixes s s' :: "'s malloc_state_scheme"
  assumes "alloc_state.more s' = alloc_state.more s"
  shows "malloc_inited s' = malloc_inited s" "use_apf s' = use_apf s" "use_boot s' = use_boot s" "boot s' = boot s"
  using assms by (cases s; cases s'; simp)+

lemma quiet_more: "alloc_state.more s' = alloc_state.more s \<Longrightarrow> quiet cfg s' = quiet cfg s"
  by (simp add: quiet_def more_malloc [of s' s])

lemma block_size_bounds:
  assumes "1 \<le> i" "i < MAX_SZ_IDX" shows "8 \<le> sc_block_size (size_classes ! i)" "sc_block_size (size_classes ! i) \<le> MAX_SZ"
proof -
  have "\<forall>c \<in> set (tl size_classes). 8 \<le> sc_block_size c \<and> sc_block_size c \<le> MAX_SZ"
    by (simp add: size_classes_def sc_def size_class_bin_yes_def MAX_SZ_value)
  moreover have "size_classes ! i = tl size_classes ! (i - 1)" "i - 1 < length (tl size_classes)"
    using assms length_block_sizes by (auto simp: nth_tl block_sizes_def size_classes_def)
  ultimately show "8 \<le> sc_block_size (size_classes ! i)" "sc_block_size (size_classes ! i) \<le> MAX_SZ" by simp_all
qed

text \<open>A class is the best fit for its own block size.\<close>

lemma class_of_block_size:
  assumes "tables_ok target s" "n \<le> MAX_SZ" "get_size_class (sc_lookup s) n = i" "sc_block_size (sc_table s ! i) \<le> MAX_SZ"
  shows "get_size_class (sc_lookup s) (sc_block_size (sc_table s ! i)) = i"
proof -
  let ?b = "sc_block_size (sc_table s ! i)"
  define k where "k = get_size_class (sc_lookup s) ?b"
  have i: "1 \<le> i" "n \<le> ?b" "\<And>j. 1 \<le> j \<Longrightarrow> j < i \<Longrightarrow> sc_block_size (sc_table s ! j) < n"
    using assms(1-3) by (auto simp: tables_ok_def)
  have k: "1 \<le> k" "?b \<le> sc_block_size (sc_table s ! k)" "\<And>j. 1 \<le> j \<Longrightarrow> j < k \<Longrightarrow> sc_block_size (sc_table s ! j) < ?b"
    using assms(1,4) by (auto simp: tables_ok_def k_def)
  have "\<not> k < i" using i(2) i(3) [of k] k(1,2) by auto
  moreover have "\<not> i < k" using k(3) [of i] i(1) by auto
  ultimately show ?thesis by (simp add: k_def)
qed

lemma sb_blocks_inside:
  assumes "unat sb + bs * n \<le> 2 ^ 47" "bs * n \<le> len" "0 < bs" "x \<in> set (sb_blocks sb bs n)"
  shows "in_block sb len x"
proof -
  obtain i where i: "i < n" "x = sb_block sb bs i" using assms(4) by (auto simp: sb_blocks_def)
  then show ?thesis
    using unat_sb_block [OF assms(1) i(1)] block_end_le [OF i(1), of bs] assms(2,3) by (simp add: in_block_def)
qed

text \<open>What is true of a size class of a running allocator.\<close>

lemma ready_class:
  assumes "malloc_ready cfg s" "n \<le> MAX_SZ" "get_size_class (sc_lookup s) n = sci" "sc_table s ! sci = c"
    and "sc_block_size c = bs"
  shows "heap_class s sci c" "sci < length (sc_table s)" "class_ok (cfg_target cfg) bs c" "8 \<le> bs" "n \<le> bs" "0 < sci"
    "bs \<le> MAX_SZ" "get_size_class (sc_lookup s) bs = sci"
proof -
  have t: "tables_ok (cfg_target cfg) s" using malloc_readyD(4) [OF assms(1)] .
  then have i: "1 \<le> sci" "sci < MAX_SZ_IDX" "n \<le> bs" "length (sc_table s) = MAX_SZ_IDX"
    using assms(2-5) by (auto simp: tables_ok_def)
  then show "heap_class s sci c" using malloc_readyD(5) [OF assms(1)] assms(4) by auto
  have c: "class_ok (cfg_target cfg) (sc_block_size (size_classes ! sci)) c" using t i assms(4) by (auto simp: tables_ok_def)
  then have "bs = sc_block_size (size_classes ! sci)" using assms(5) by (simp add: class_ok_def)
  then show "class_ok (cfg_target cfg) bs c" "8 \<le> bs" "bs \<le> MAX_SZ" using c block_size_bounds [OF i(1,2)] by simp_all
  then show "get_size_class (sc_lookup s) bs = sci" using class_of_block_size [OF t assms(2,3)] assms(4,5) by simp
  show "sci < length (sc_table s)" "n \<le> bs" "0 < sci" using i by simp_all
qed

text \<open>The first request of a class takes the first block of a new super block.\<close>

lemma do_malloc_first:
  fixes s :: "'s malloc_state_scheme"
  assumes ready: "mmap_contract (cfg_os cfg)" "malloc_ready cfg s" "quiet cfg s"
    and sz: "unat sz \<le> MAX_SZ" "get_size_class (sc_lookup s) (unat sz) = sci" "sc_table s ! sci = c"
      "sc_block_size c = bs"
    and empty: "sci < length (bins t)" "block_num (bins t ! sci) = 0" "partial_rep sci s []"
    and granted: "desc_alloc (cfg_os cfg) (cfg_hash cfg) s = Inr (d, s1)"
      "sb = mmap (cfg_os cfg) False (os_calls s1) (os_maps s1) (of_nat (sc_sb_size c))" "sb \<noteq> MAP_FAILED"
  shows "\<exists>s' t'. do_malloc cfg sz (s, t) = Some (Inr (sb, s', t')) \<and>
    bin_rep (cfg_nm cfg) (mem s', bins t' ! sci) (tl (sb_blocks sb bs (sc_block_num c))) \<and>
    (\<forall>x \<in> set (sb_blocks sb bs (sc_block_num c)). block_of_class s' x bs sci) \<and>
    os_maps s' = (sb, of_nat (sc_sb_size c)) # os_maps s1 \<and> maps_ok (os_maps s')"
proof -
  let ?bl = "sb_blocks sb bs (sc_block_num c)"
  note cls = ready_class [OF ready(2) sz]
  have r: "pages_ok (cfg_hash cfg) s" "pm_ready s" "malloc_inited s" using malloc_readyD [OF ready(2)] by blast+
  obtain s' cache' where f: "fill_cache (cfg_os cfg) (cfg_hash cfg) (cfg_nm cfg) sci (s, bins t ! sci) = Some (Inr (s', cache'))"
    "bin_rep (cfg_nm cfg) (mem s', cache') ?bl" "os_maps s' = (sb, of_nat (sc_sb_size c)) # os_maps s1" "maps_ok (os_maps s')"
    "\<forall>a. in_block sb (sc_sb_size c) a \<longrightarrow> get_page_info a s' = Inr d" "desc_addr d" "block_size (descs s' d) = bs"
    "sc_table s' = sc_table s" "sc_lookup s' = sc_lookup s" "alloc_state.more s' = alloc_state.more s"
    using fill_cache_new_sb [OF ready(1) r(1,2) cls(1,2) sz(3) cls(3,4) empty(2,3) granted, of "cfg_nm cfg"] by blast
  have c: "0 < sc_block_num c" "bs * sc_block_num c \<le> sc_sb_size c" "PAGE dvd sc_sb_size c" "sc_sb_size c < 2 ^ 32"
    using cls(3) by (auto simp: class_ok_def)
  then obtain xs where bl: "?bl = sb # xs" by (auto simp: sb_blocks_def sb_block_def upt_conv_Cons)
  have "valid_map (sb, of_nat (sc_sb_size c))" using f(3,4) by simp
  then have lim: "unat sb + bs * sc_block_num c \<le> 2 ^ 47" using c map_span_pages [OF c(3,4)] by (auto simp: valid_map_def)
  have blk: "block_of_class s' x bs sci" if "x \<in> set ?bl" for x
    using sb_blocks_inside [OF lim c(2) _ that] cls f(5-9) by (auto simp: block_of_class_def desc_addr_def)
  have q: "quiet cfg s'" using ready(3) quiet_more [OF f(10)] by blast
  obtain b' where b': "pop_block (cfg_nm cfg) (mem s', cache') = Inr (sb, mem s', b')" "bin_rep (cfg_nm cfg) (mem s', b') xs"
    using pop_block_keeps [of "cfg_nm cfg" "mem s'" cache' sb xs] f(2) bl by auto
  have "block_num cache' \<noteq> 0" using bin_rep_num [OF f(2)] bl by simp
  then have "do_malloc cfg sz (s, t) = Some (Inr (sb, s', put_bin sci b' t))"
    using f(1) b'(1) q ready(3) empty(1,2) sz(1,2)
    by (simp add: do_malloc_def init_once_def quiet_def allocate_to_cache_def get_bin_def get_bin_block_num_def tune_malloc_def)
  then show ?thesis
    using blk bl b'(2) f(3,4) empty(1) by (intro exI [of _ s'] exI [of _ "put_bin sci b' t"]) simp
qed

text \<open>In a running allocator with tuning off, the first request of a size class whose bin and
  partial list are empty maps a super block for the class, returns its first block, which holds the
  request, and keeps all the others in the bin. Every block is recognised by \<^verbatim>\<open>do_free\<close> as one of its
  class, and the super block overlaps no earlier mapping.\<close>

theorem malloc_first_block:
  fixes s :: "'s malloc_state_scheme"
  assumes ready: "mmap_contract (cfg_os cfg)" "malloc_ready cfg s" "quiet cfg s"
    and sz: "unat sz \<le> MAX_SZ" "get_size_class (sc_lookup s) (unat sz) = sci" "sc_table s ! sci = c"
      "sc_block_size c = bs"
    and empty: "sci < length (bins t)" "block_num (bins t ! sci) = 0" "partial_rep sci s []"
    and granted: "desc_alloc (cfg_os cfg) (cfg_hash cfg) s = Inr (d, s1)"
      "sb = mmap (cfg_os cfg) False (os_calls s1) (os_maps s1) (of_nat (sc_sb_size c))" "sb \<noteq> MAP_FAILED"
  shows "\<exists>s' t'. do_malloc cfg sz (s, t) = Some (Inr (sb, s', t')) \<and> unat sz \<le> bs \<and>
    get_allocation_size sb s' = Inr (Some bs) \<and>
    bin_rep (cfg_nm cfg) (mem s', bins t' ! sci) (tl (sb_blocks sb bs (sc_block_num c))) \<and>
    (\<forall>x \<in> set (sb_blocks sb bs (sc_block_num c)). block_of_class s' x bs sci) \<and>
    os_maps s' = (sb, of_nat (sc_sb_size c)) # os_maps s1 \<and> maps_ok (os_maps s')"
proof -
  let ?bl = "sb_blocks sb bs (sc_block_num c)"
  note cls = ready_class [OF ready(2) sz]
  obtain s' t' where s': "do_malloc cfg sz (s, t) = Some (Inr (sb, s', t'))"
    "bin_rep (cfg_nm cfg) (mem s', bins t' ! sci) (tl ?bl)" "\<forall>x \<in> set ?bl. block_of_class s' x bs sci"
    "os_maps s' = (sb, of_nat (sc_sb_size c)) # os_maps s1" "maps_ok (os_maps s')"
    using do_malloc_first [OF assms] by blast
  have "0 < sc_block_num c" using cls(3) by (simp add: class_ok_def)
  then have "sb \<in> set ?bl" by (auto simp: sb_blocks_def sb_block_def upt_conv_Cons)
  then have "block_of_class s' sb bs sci" using s'(3) by blast
  then have "get_allocation_size sb s' = Inr (Some bs)"
    by (auto simp: block_of_class_def get_allocation_size_def get_page_info_for_ptr_def info_get_desc_def)
  then show ?thesis using s' cls(5) by blast
qed

text \<open>The first allocation of a program on the concrete kernel: 100 bytes, after the initialisation.\<close>

lemma new_malloc_maps:
  assumes "os_maps s = (boot_addr bump_cfg new_malloc, of_nat (128 * KB)) # (pm_addr bump_cfg new_malloc, PM_SZ) # os_maps new_malloc"
  shows "\<forall>r \<in> set (os_maps s). unat (fst r) + map_span (snd r) \<le> 1048576 + 2 ^ 41 + 135168"
proof -
  have "map_span PM_SZ = 2 ^ 41" "map_span (of_nat (128 * KB)) = 135168"
    by (simp_all add: map_span_def page_map_consts KB_def round_up_def PAGE_value)
  then show ?thesis using new_malloc_granted(2,3) assms by simp
qed

lemma new_malloc_first_desc:
  assumes "pages_ok unat s" "free_list s []"
    and "\<forall>r \<in> set (os_maps s). unat (fst r) + map_span (snd r) \<le> 1048576 + 2 ^ 41 + 135168" "len < 2 ^ 32" "0 < len"
  shows "\<exists>d s1. desc_alloc bump_env unat s = Inr (d, s1) \<and> mmap bump_env False (os_calls s1) (os_maps s1) (of_nat len) \<noteq> MAP_FAILED"
proof -
  let ?sz = "of_nat DESCRIPTOR_BLOCK_SZ :: usize" and ?e = "1048576 + 2 ^ 41 + 135168 :: nat"
  have sz: "?sz AND PAGE_MASK = 0" "?sz \<noteq> 0" "map_span ?sz = 65536"
    by (simp_all add: mem_info_defs map_span_def round_up_def)
  define p where "p = mmap bump_env False (os_calls s) (os_maps s) ?sz"
  have p: "p \<noteq> MAP_FAILED" "unat p \<le> ?e"
    using bump_mmap_granted [OF assms(3), of ?sz] sz by (simp_all add: p_def PAGE_value)
  obtain s0 where "page_alloc bump_env unat ?sz s = Inr (Inr p, s0)"
    using page_alloc_returns [OF bump_env_contract assms(1) sz(1) p_def p(1)] by blast
  then obtain s1 where s1: "desc_alloc bump_env unat s = Inr (p, s1)" "os_maps s1 = (p, ?sz) # os_maps s"
    using desc_alloc_fresh [OF bump_env_contract assms(1,2)] by blast
  have maps: "\<forall>r \<in> set (os_maps s1). unat (fst r) + map_span (snd r) \<le> ?e + 65536"
  proof
    fix r assume "r \<in> set (os_maps s1)"
    then consider "r = (p, ?sz)" | "r \<in> set (os_maps s)" using s1(2) by auto
    then show "unat (fst r) + map_span (snd r) \<le> ?e + 65536"
    proof cases
      case 2
      then have "unat (fst r) + map_span (snd r) \<le> ?e" using assms(3) by blast
      then show ?thesis by simp
    qed (use p(2) sz(3) in simp)
  qed
  have u: "unat (of_nat len :: usize) = len" using assms(4) by (simp add: unat_of_nat)
  then have "(of_nat len :: usize) \<noteq> 0" using assms(5) by (metis unat_0 less_irrefl)
  moreover have "map_span (of_nat len) \<le> 2 ^ 33"
    using u assms(4) round_up_less [of PAGE len] by (simp add: map_span_def PAGE_value)
  ultimately have "mmap bump_env False (os_calls s1) (os_maps s1) (of_nat len) \<noteq> MAP_FAILED"
    using bump_mmap_granted(1) [OF maps, of "of_nat len"] by (simp add: PAGE_value)
  then show ?thesis using s1(1) by blast
qed

text \<open>After the initialisation there is memory for the first super block of the class of 100 bytes.\<close>

lemma ready_first:
  fixes s :: "'s malloc_state_scheme"
  assumes r: "malloc_ready bump_cfg s" "\<forall>i. 1 \<le> i \<and> i < MAX_SZ_IDX \<longrightarrow> partial_rep i s []" "free_list s []"
    "\<forall>r \<in> set (os_maps s). unat (fst r) + map_span (snd r) \<le> 1048576 + 2 ^ 41 + 135168"
  shows "\<exists>sci c d s1. unat (100 :: usize) \<le> MAX_SZ \<and> get_size_class (sc_lookup s) (unat (100 :: usize)) = sci \<and> sc_table s ! sci = c \<and>
    sci < length (bins thread_new) \<and> block_num (bins thread_new ! sci) = 0 \<and> partial_rep sci s [] \<and>
    desc_alloc (cfg_os bump_cfg) (cfg_hash bump_cfg) s = Inr (d, s1) \<and>
    mmap (cfg_os bump_cfg) False (os_calls s1) (os_maps s1) (of_nat (sc_sb_size c)) \<noteq> MAP_FAILED"
proof -
  define sci c where "sci = get_size_class (sc_lookup s) (unat (100 :: usize))" and "c = sc_table s ! sci"
  have le: "unat (100 :: usize) \<le> MAX_SZ" by (simp add: MAX_SZ_value)
  note cls = ready_class [OF r(1) le sci_def [symmetric] c_def [symmetric] refl]
  have sci: "1 \<le> sci" "sci < MAX_SZ_IDX" using cls(2,6) malloc_readyD(4) [OF r(1)] by (auto simp: tables_ok_def)
  have c: "0 < sc_sb_size c" "sc_sb_size c < 2 ^ 32" using cls(3,4) by (auto simp: class_ok_def intro: gr0I)
  have "pages_ok unat s" using malloc_readyD(3) [OF r(1)] by simp
  then obtain d s1 where d: "desc_alloc bump_env unat s = Inr (d, s1)"
    "mmap bump_env False (os_calls s1) (os_maps s1) (of_nat (sc_sb_size c)) \<noteq> MAP_FAILED"
    using new_malloc_first_desc [OF _ r(3,4) c(2,1)] by blast
  have "sci < length (bins thread_new)" "block_num (bins thread_new ! sci) = 0"
    using sci(2) by (simp_all add: thread_new_def bin_new_def)
  moreover have "partial_rep sci s []" using r(2) sci by blast
  ultimately show ?thesis using le d sci_def [symmetric] c_def [symmetric] by (simp only: bump_cfg_simps) blast
qed

text \<open>The initialisation on the concrete kernel, of any state with the fields of \<open>new_malloc\<close>.\<close>

lemma first_init:
  fixes s0 :: "'s malloc_state_scheme"
  assumes "fresh_malloc bump_cfg s0" "os_maps s0 = []" "os_calls s0 = 0" "\<not> use_boot s0"
  shows "init_granted bump_cfg s0"
    "\<exists>s. init_once bump_cfg s0 = Some (Inr s) \<and> malloc_ready bump_cfg s \<and> quiet bump_cfg s \<and>
      (\<forall>i. 1 \<le> i \<and> i < MAX_SZ_IDX \<longrightarrow> partial_rep i s []) \<and> free_list s [] \<and>
      (\<forall>r \<in> set (os_maps s). unat (fst r) + map_span (snd r) \<le> 1048576 + 2 ^ 41 + 135168)"
proof -
  have same: "pm_addr bump_cfg s0 = pm_addr bump_cfg new_malloc" "boot_addr bump_cfg s0 = boot_addr bump_cfg new_malloc"
    using assms(2,3) by (simp_all add: pm_addr_def boot_addr_def)
  show g: "init_granted bump_cfg s0" using new_malloc_granted(1) assms(2,3) same by (simp add: init_granted_def)
  obtain s where s: "init_once bump_cfg s0 = Some (Inr s)" "malloc_ready bump_cfg s"
    "\<forall>i. 1 \<le> i \<and> i < MAX_SZ_IDX \<longrightarrow> partial_rep i s []" "free_list s []"
    "os_maps s = (boot_addr bump_cfg s0, of_nat (128 * KB)) # (pm_addr bump_cfg s0, PM_SZ) # os_maps s0"
    "use_apf s = (cfg_use_apf bump_cfg \<and> use_apf s0)" "use_boot s = use_boot s0"
    using init_once_fresh [OF _ assms(1) _ g] bump_env_contract by auto
  have q: "quiet bump_cfg s" using malloc_readyD(1) [OF s(2)] s(6,7) assms(4) by (simp add: quiet_def)
  have "\<forall>r \<in> set (os_maps s). unat (fst r) + map_span (snd r) \<le> 1048576 + 2 ^ 41 + 135168"
    using s(5) same assms(2) by (intro new_malloc_maps) simp
  then show "\<exists>s. init_once bump_cfg s0 = Some (Inr s) \<and> malloc_ready bump_cfg s \<and> quiet bump_cfg s \<and>
      (\<forall>i. 1 \<le> i \<and> i < MAX_SZ_IDX \<longrightarrow> partial_rep i s []) \<and> free_list s [] \<and>
      (\<forall>r \<in> set (os_maps s). unat (fst r) + map_span (snd r) \<le> 1048576 + 2 ^ 41 + 135168)" using s q by blast
qed

lemma new_malloc_start:
  "\<exists>s sci c d s1. init_once bump_cfg new_malloc = Some (Inr s) \<and> malloc_ready bump_cfg s \<and> quiet bump_cfg s \<and>
    unat (100 :: usize) \<le> MAX_SZ \<and> get_size_class (sc_lookup s) (unat (100 :: usize)) = sci \<and> sc_table s ! sci = c \<and>
    sci < length (bins thread_new) \<and> block_num (bins thread_new ! sci) = 0 \<and> partial_rep sci s [] \<and>
    desc_alloc (cfg_os bump_cfg) (cfg_hash bump_cfg) s = Inr (d, s1) \<and>
    mmap (cfg_os bump_cfg) False (os_calls s1) (os_maps s1) (of_nat (sc_sb_size c)) \<noteq> MAP_FAILED"
proof -
  obtain s where s: "init_once bump_cfg new_malloc = Some (Inr s)" "malloc_ready bump_cfg s" "quiet bump_cfg s"
    "\<forall>i. 1 \<le> i \<and> i < MAX_SZ_IDX \<longrightarrow> partial_rep i s []" "free_list s []"
    "\<forall>r \<in> set (os_maps s). unat (fst r) + map_span (snd r) \<le> 1048576 + 2 ^ 41 + 135168"
    using first_init(2) [OF new_malloc_fresh] by auto
  show ?thesis using s(1-3) ready_first [OF s(2,4-6)] by blast
qed

theorem malloc_first_block_witness:
  "\<exists>s s' sb t' bs. init_once bump_cfg new_malloc = Some (Inr s) \<and>
    do_malloc bump_cfg 100 (s, thread_new) = Some (Inr (sb, s', t')) \<and> get_allocation_size sb s' = Inr (Some bs) \<and> 100 \<le> bs"
proof -
  obtain s sci c d s1 where s: "init_once bump_cfg new_malloc = Some (Inr s)" and r: "malloc_ready bump_cfg s" "quiet bump_cfg s"
    "unat (100 :: usize) \<le> MAX_SZ" "get_size_class (sc_lookup s) (unat (100 :: usize)) = sci" "sc_table s ! sci = c"
    and e: "sci < length (bins thread_new)" "block_num (bins thread_new ! sci) = 0" "partial_rep sci s []"
      "desc_alloc (cfg_os bump_cfg) (cfg_hash bump_cfg) s = Inr (d, s1)"
    and g: "mmap (cfg_os bump_cfg) False (os_calls s1) (os_maps s1) (of_nat (sc_sb_size c)) \<noteq> MAP_FAILED"
    using new_malloc_start by blast
  have "mmap_contract (cfg_os bump_cfg)" using bump_env_contract by simp
  from malloc_first_block [OF this r refl e refl g] show ?thesis using s by auto
qed

end
