(* ===== verification/Running.thy ===== *)
theory Running
  imports Start_Up
begin

text \<open>
  A running allocator stays well formed: every allocation that returns, whichever way it goes, keeps the
  invariant \<open>malloc_ready\<close> that the initialisation establishes, so it holds in every state that
  threads reach by allocating. An allocation that panics, because the kernel refuses memory, ends the run. Tuning is off here.
\<close>

section \<open>Growing states\<close>

text \<open>A state that has more mappings, the same tables and heaps, and the same partial-list links in
  all descriptors that were in live memory before.\<close>

definition grows :: "'s alloc_state_scheme \<Rightarrow> 's alloc_state_scheme \<Rightarrow> bool" where
  "grows s s' \<longleftrightarrow> heaps s' = heaps s \<and> sc_table s' = sc_table s \<and> sc_lookup s' = sc_lookup s \<and> pm_len s' = pm_len s \<and>
     alloc_state.more s' = alloc_state.more s \<and> set (os_maps s) \<subseteq> set (os_maps s') \<and>
     (\<forall>d. desc_live s d \<longrightarrow> next_partial (descs s' d) = next_partial (descs s d))"

lemma desc_live_mono: "set (os_maps s) \<subseteq> set (os_maps s') \<Longrightarrow> desc_live s d \<Longrightarrow> desc_live s' d"
  by (auto simp: desc_live_def)

lemma grows_refl [simp]: "grows s s"
  by (simp add: grows_def)

lemma grows_trans [trans]: "grows s1 s2 \<Longrightarrow> grows s2 s3 \<Longrightarrow> grows s1 s3"
  using desc_live_mono [of s1 s2] by (auto simp: grows_def)

lemma alloc_ok_grows:
  assumes "alloc_ok h target s" "grows s s'" "pages_ok h s'"
  shows "alloc_ok h target s'"
proof -
  have g: "heaps s' = heaps s" "sc_table s' = sc_table s" "sc_lookup s' = sc_lookup s" "pm_len s' = pm_len s"
    "set (os_maps s) \<subseteq> set (os_maps s')" "\<And>d. desc_live s d \<Longrightarrow> next_partial (descs s' d) = next_partial (descs s d)"
    using assms(2) by (auto simp: grows_def)
  have rep: "partial_rep i s' xs" if "partial_rep i s xs" "\<forall>d \<in> set xs. desc_live s d" for i xs
    using that partial_chain_frame [of xs "descs s'" "descs s"] g(1,6) by (auto simp: partial_rep_def)
  have hc: "heap_class s' i c = heap_class s i c" for i c by (simp add: heap_class_def g(1,2))
  have "tables_ok target s' = tables_ok target s" "pm_ready s' = pm_ready s"
    by (simp_all add: tables_ok_def pm_ready_def g(2-4))
  then show ?thesis
    using assms(1,3) rep desc_live_mono [OF g(5)] unfolding alloc_ok_def hc g(2) by meson
qed

text \<open>Updates that only grow a state.\<close>

lemma grows_upd_desc: "(\<And>q. next_partial (f q) = next_partial q) \<Longrightarrow> grows s (upd_desc d f s)"
  by (simp add: grows_def)

lemma grows_fields [simp]:
  "grows s (s\<lparr>mem := m\<rparr>)" "grows s (s\<lparr>page_map := pm\<rparr>)" "grows s (s\<lparr>avail_desc := a\<rparr>)"
  by (simp_all add: grows_def)

lemma pages_ok_upd_desc [simp]: "pages_ok h (upd_desc d f s) = pages_ok h s"
  by (simp add: pages_ok_def size_map_or_new_def upd_desc_def)

lemma pages_ok_fields [simp]:
  "pages_ok h (s\<lparr>mem := m\<rparr>) = pages_ok h s" "pages_ok h (s'\<lparr>page_map := pm\<rparr>) = pages_ok h s'"
  by (simp_all add: pages_ok_def size_map_or_new_def)

lemma seg_allocate_grows:
  fixes s :: "'s alloc_state_scheme"
  assumes "mmap_contract env" "pages_ok h s" "seg_allocate env sz s = (r, s')"
  shows "grows s s' \<and> pages_ok h s'"
proof -
  have "maps_ok (os_maps s')" "set (os_maps s) \<subseteq> set (os_maps s')" "size_map s' = size_map s"
    using assms map_segment_maps [OF assms(1), of s False sz r s']
    by (auto simp: seg_allocate_def map_segment_def pages_ok_def Let_def split: if_splits)
  moreover have "heaps s' = heaps s \<and> sc_table s' = sc_table s \<and> sc_lookup s' = sc_lookup s \<and> pm_len s' = pm_len s \<and>
      alloc_state.more s' = alloc_state.more s \<and> descs s' = descs s"
    using assms(3) by (auto simp: seg_allocate_def map_segment_def Let_def split: if_splits)
  ultimately show ?thesis using assms(2) by (auto simp: grows_def pages_ok_def size_map_or_new_def)
qed

lemma desc_block_fresh:
  assumes "valid_map (p, of_nat DESCRIPTOR_BLOCK_SZ)" "\<forall>r \<in> set (os_maps s). maps_disjoint (p, of_nat DESCRIPTOR_BLOCK_SZ) r"
    and "d \<in> set (desc_block p 512)"
  shows "\<not> desc_live s d"
proof -
  obtain i where i: "i < 512" "d = p + of_nat (i * 128)" using assms(3) by (auto simp: desc_block_def size_of_descriptor_def)
  have sp: "map_span (of_nat DESCRIPTOR_BLOCK_SZ) = 65536" by (simp add: map_span_def round_up_def mem_info_defs)
  have "unat (of_nat (i * 128) :: usize) = i * 128" using i(1) by (simp only: unat_of_nat) simp
  moreover have "unat p + 65536 \<le> 2 ^ 47" using assms(1) sp by (simp add: valid_map_def)
  ultimately have "unat d = unat p + i * 128" unfolding i(2) using i(1) by (subst unat_add_no_overflow) simp_all
  then show ?thesis using assms(2) sp i(1) by (fastforce simp: desc_live_def maps_disjoint_def)
qed

lemma desc_alloc_grows:
  fixes s :: "'s alloc_state_scheme"
  assumes "mmap_contract env" "pages_ok h s" "desc_alloc env h s = Inr (d, s1)"
  shows "grows s s1 \<and> pages_ok h s1"
proof -
  note fr = desc_alloc_frame [OF assms]
  have "set (os_maps s) \<subseteq> set (os_maps s1) \<and> (\<forall>d. desc_live s d \<longrightarrow> next_partial (descs s1 d) = next_partial (descs s d))"
  proof (cases "node_get_desc (avail_desc s)")
    case None
    then obtain p s0 where p: "page_alloc env h (of_nat DESCRIPTOR_BLOCK_SZ) s = Inr (Inr p, s0)"
      using assms(3) by (auto simp: desc_alloc_def Let_def rbind_def split: sum.splits)
    have f: "free_list s []" using None by (simp add: free_list_def)
    have pg: "valid_map (p, of_nat DESCRIPTOR_BLOCK_SZ)" "os_maps s0 = (p, of_nat DESCRIPTOR_BLOCK_SZ) # os_maps s" "pages_ok h s0"
      using page_alloc_mapped [OF assms(1,2) p] by auto
    have "\<forall>r \<in> set (os_maps s). maps_disjoint (p, of_nat DESCRIPTOR_BLOCK_SZ) r" using pg(2,3) by (simp add: pages_ok_def)
    then have "d' \<notin> set (desc_block p 512)" if "desc_live s d'" for d' using desc_block_fresh [OF pg(1), of s d'] that by blast
    then show ?thesis using desc_alloc_fresh [OF assms(1,2) f p] assms(3) by auto
  next
    case (Some e)
    then show ?thesis using assms(3) by (auto simp: desc_alloc_def Let_def)
  qed
  then show ?thesis using fr by (simp add: grows_def)
qed

lemma update_page_map_only:
  assumes "update_page_map hi p d i s = Inr s'" shows "\<exists>pm. s' = s\<lparr>page_map := pm\<rparr>"
proof -
  have one: "\<exists>pm. u' = u\<lparr>page_map := pm\<rparr>" if "set_page_info q info u = Inr u'" for q info and u u' :: "'a alloc_state_scheme"
    using that by (auto simp: set_page_info_def Let_def split: if_splits)
  have loop: "\<exists>pm. u' = u\<lparr>page_map := pm\<rparr>" if "for_each (\<lambda>k. set_page_info (f k) info) ks u = Inr u'"
    for f info ks and u u' :: "'a alloc_state_scheme"
    using that
  proof (induction ks arbitrary: u)
    case Nil
    then show ?case by (intro exI [of _ "page_map u"]) simp
  next
    case (Cons k ks)
    then obtain u1 where "set_page_info (f k) info u = Inr u1" "for_each (\<lambda>k. set_page_info (f k) info) ks u1 = Inr u'"
      by (auto simp: rbind_eq_Inr)
    then obtain pm where "u1 = u\<lparr>page_map := pm\<rparr>" "\<exists>pm'. u' = u1\<lparr>page_map := pm'\<rparr>" using one Cons.IH by blast
    then show ?case by auto
  qed
  show ?thesis
  proof (cases hi)
    case None
    then show ?thesis using assms one by (auto simp: update_page_map_def Let_def split: if_splits)
  next
    case (Some k)
    then obtain ks where "for_each (\<lambda>k. set_page_info (p + of_nat (k * PAGE)) (info_set_ptr (case d of None \<Rightarrow> 0 | Some d \<Rightarrow> d) i)) ks s = Inr s'"
      using assms by (auto simp: update_page_map_def Let_def rbind_eq_Inr split: if_splits)
    then show ?thesis by (rule loop)
  qed
qed

lemma register_desc_grows:
  assumes "register_desc d s = Inr s'" shows "grows s s' \<and> pages_ok h s' = pages_ok h s"
  using assms update_page_map_only by (fastforce simp: register_desc_def rbind_eq_Inr)

section \<open>Filling a bin\<close>

lemma new_super_block_grows:
  fixes s :: "'s alloc_state_scheme"
  assumes "mmap_contract env" "pages_ok h s" "new_super_block env h nm sci c len cnt (s, cache, got) = Inr (s', cache', got')"
  shows "grows s s' \<and> pages_ok h s'"
proof -
  obtain d s1 where d: "desc_alloc env h s = Inr (d, s1)"
    using assms(3) by (auto simp: new_super_block_def rbind_eq_Inr)
  define s2 where "s2 = upd_desc d (\<lambda>r. r\<lparr>proc_heap := Some sci, block_size := sc_block_size c, max_count := get_block_num c\<rparr>) s1"
  obtain r s3 where r: "seg_allocate env len s2 = (r, s3)" by (cases "seg_allocate env len s2")
  define s4 where "s4 = upd_desc d (\<lambda>q. q\<lparr>super_block := (case r of Inl e \<Rightarrow> None | Inr seg \<Rightarrow> Some seg)\<rparr>) s3"
  obtain m where reg: "register_desc d (upd_desc d (\<lambda>q. q\<lparr>d_anchor := fresh_anchor cnt\<rparr>) (s4\<lparr>mem := m\<rparr>)) = Inr s'"
    using assms(3) d r by (auto simp: new_super_block_def s2_def [symmetric] s4_def [symmetric] rbind_eq_Inr Let_def)
  have 1: "grows s s1" "pages_ok h s1" using desc_alloc_grows [OF assms(1,2) d] by auto
  have 2: "grows s1 s2" "pages_ok h s2" using 1(2) by (simp_all add: s2_def grows_upd_desc)
  have 3: "grows s2 s3" "pages_ok h s3" using seg_allocate_grows [OF assms(1) 2(2) r] by auto
  have 4: "grows s3 s4" "pages_ok h s4" using 3(2) by (simp_all add: s4_def grows_upd_desc)
  define s6 where "s6 = upd_desc d (\<lambda>q. q\<lparr>d_anchor := fresh_anchor cnt\<rparr>) (s4\<lparr>mem := m\<rparr>)"
  have "grows s4 s6" unfolding s6_def by (rule grows_trans [OF grows_fields(1) grows_upd_desc]) simp
  moreover have "pages_ok h s6" using 4(2) by (simp add: s6_def)
  moreover have "grows s6 s'" "pages_ok h s' = pages_ok h s6"
    using register_desc_grows [OF reg, of h] by (simp_all add: s6_def)
  ultimately show ?thesis using 1(1) 2(1) 3(1) 4(1) by (meson grows_trans)
qed

lemma malloc_from_new_sb_grows:
  fixes s :: "'s alloc_state_scheme"
  assumes "mmap_contract env" "pages_ok h s" "heaps s \<noteq> None" "malloc_from_new_sb env h nm sci (s, cache, got) = Inr (s', cache', got')"
  shows "grows s s' \<and> pages_ok h s'"
proof -
  have "get_heaps env s = Inr s" using assms(3) by (auto simp: get_heaps_def)
  then show ?thesis
    using assms(4) new_super_block_grows [OF assms(1,2)] by (auto simp: malloc_from_new_sb_def rbind_eq_Inr)
qed

text \<open>Taking the first descriptor off a partial list.\<close>

lemma list_pop_partial_heaps:
  assumes "list_pop_partial hi s = Inr (r, s')"
  shows "s' = s \<or> (\<exists>hs n. heaps s = Some hs \<and> hi < length hs \<and> s' = s\<lparr>heaps := Some (hs[hi := (hs ! hi)\<lparr>partial_list := n\<rparr>])\<rparr>)"
proof -
  obtain hp where hp: "get_heap_at hi s = Inr hp" using assms by (auto simp: list_pop_partial_def rbind_eq_Inr)
  then obtain hs where hs: "heaps s = Some hs" "hi < length hs" "hp = hs ! hi"
    by (cases "heaps s") (auto simp: get_heap_at_def index_list_def split: if_splits)
  show ?thesis
  proof (cases "partial_list hp")
    case (Some node)
    then obtain n where "put_heap_at hi (hp\<lparr>partial_list := n\<rparr>) s = Inr s'"
      using assms hp by (auto simp: list_pop_partial_def rbind_eq_Inr Let_def)
    then show ?thesis using hs by (auto simp: put_heap_at_def)
  qed (use assms hp in \<open>simp add: list_pop_partial_def\<close>)
qed

lemma list_pop_partial_ok:
  fixes s :: "'s alloc_state_scheme"
  assumes "alloc_ok h target s" "1 \<le> hi" "hi < MAX_SZ_IDX" "list_pop_partial hi s = Inr (r, s')"
  shows "alloc_ok h target s' \<and> alloc_state.more s' = alloc_state.more s \<and> os_maps s' = os_maps s"
proof -
  obtain xs where xs: "partial_rep hi s xs" "\<forall>d \<in> set xs. desc_live s d" using assms(1-3) by (auto simp: alloc_ok_def)
  have hi': "\<exists>ys. partial_rep hi s' ys \<and> (\<forall>d \<in> set ys. desc_live s d)"
  proof (cases xs)
    case Nil
    then show ?thesis using xs list_pop_partial_empty [of hi s] assms(4) by auto
  next
    case (Cons d ys)
    then show ?thesis using xs list_pop_partial_rep [of hi s d ys] assms(4) by auto
  qed
  show ?thesis
  proof (cases "s' = s")
    case False
    then obtain hs n where h: "heaps s = Some hs" "hi < length hs" "s' = s\<lparr>heaps := Some (hs[hi := (hs ! hi)\<lparr>partial_list := n\<rparr>])\<rparr>"
      using list_pop_partial_heaps [OF assms(4)] by blast
    have "partial_rep i s' ys = partial_rep i s ys" if "i \<noteq> hi" for i ys using that h by (simp add: partial_rep_def)
    moreover have "heap_class s' i c = heap_class s i c" for i c
      using h by (cases "i = hi") (auto simp: heap_class_def nth_list_update)
    moreover have "desc_live s' d = desc_live s d" for d using h(3) by (simp add: desc_live_def)
    moreover have "pm_ready s' = pm_ready s" "pages_ok h s' = pages_ok h s" "tables_ok target s' = tables_ok target s"
      "sc_table s' = sc_table s"
      using h(3) by (simp_all add: pm_ready_def pages_ok_def size_map_or_new_def tables_ok_def)
    ultimately have "alloc_ok h target s'" using assms(1) hi' unfolding alloc_ok_def by metis
    then show ?thesis using h by simp
  qed (use assms(1) in simp)
qed

lemma retire_grows:
  fixes s :: "'s alloc_state_scheme" shows "grows s (retire d s)" "pages_ok h (retire d s) = pages_ok h s"
  by (simp_all add: grows_def retire_def Let_def pages_ok_def size_map_or_new_def)

lemma take_partial_result:
  "take_partial d (s, cache, got) = Inr (s', cache', got') \<Longrightarrow> \<exists>a. s' = upd_desc d (\<lambda>r. r\<lparr>d_anchor := a\<rparr>) s"
  by (auto simp: take_partial_def Let_def rbind_eq_Inr split: if_splits)

lemma malloc_from_partial_ok:
  fixes s :: "'s alloc_state_scheme"
  assumes "alloc_ok h target s" "1 \<le> sci" "sci < MAX_SZ_IDX" "malloc_from_partial env sci (s, b, n) = Some (Inr (s', b', n'))"
  shows "alloc_ok h target s' \<and> alloc_state.more s' = alloc_state.more s \<and> set (os_maps s) \<subseteq> set (os_maps s')"
proof -
  obtain xs where "partial_rep sci s xs" using assms(1-3) by (auto simp: alloc_ok_def)
  then show ?thesis using assms(1,4)
  proof (induction xs arbitrary: s)
    case Nil
    then show ?case using malloc_from_partial_Nil [OF Nil(1), of env b n] by auto
  next
    case (Cons d xs)
    obtain s1 where s1: "list_pop_partial sci s = Inr (Some d, s1)" "partial_rep sci s1 xs" "descs s1 = descs s"
      using list_pop_partial_rep [OF Cons.prems(1)] by blast
    have ok1: "alloc_ok h target s1" "alloc_state.more s1 = alloc_state.more s" "os_maps s1 = os_maps s"
      using list_pop_partial_ok [OF Cons.prems(2) assms(2,3) s1(1)] by auto
    have step: "malloc_from_partial env sci (s, b, n) = (if a_state (d_anchor (descs s1 d)) = EMPTY
        then malloc_from_partial env sci (retire d s1, b, n) else Some (take_partial d (s1, b, n)))"
      using s1(1) partial_rep_get_heaps [OF Cons.prems(1), of env]
      by (subst malloc_from_partial.simps) (simp add: heap_pop_partial_def)
    show ?case
    proof (cases "a_state (d_anchor (descs s1 d)) = EMPTY")
      case True
      have r: "alloc_ok h target (retire d s1)" "alloc_state.more (retire d s1) = alloc_state.more s"
        using alloc_ok_grows [OF ok1(1) retire_grows(1)] retire_grows(2) ok1 by (auto simp: alloc_ok_def grows_def retire_def Let_def)
      moreover have "os_maps (retire d s1) = os_maps s" using ok1(3) by (simp add: retire_def Let_def)
      ultimately show ?thesis using Cons.IH [OF partial_rep_retire [OF s1(2)] r(1)] step True Cons.prems(3) by simp
    next
      case False
      then have "take_partial d (s1, b, n) = Inr (s', b', n')" using step Cons.prems(3) by simp
      then obtain a where a: "s' = upd_desc d (\<lambda>r. r\<lparr>d_anchor := a\<rparr>) s1" using take_partial_result by blast
      have "pages_ok h s1" using ok1(1) by (simp add: alloc_ok_def)
      then show ?thesis using alloc_ok_grows [OF ok1(1) grows_upd_desc] ok1(2,3) by (simp add: a)
    qed
  qed
qed

lemma fill_cache_ok:
  fixes s :: "'s alloc_state_scheme"
  assumes "mmap_contract env" "alloc_ok h target s" "1 \<le> sci" "sci < MAX_SZ_IDX"
    and "fill_cache env h nm sci (s, cache) = Some (Inr (s', cache'))"
  shows "alloc_ok h target s' \<and> alloc_state.more s' = alloc_state.more s \<and> set (os_maps s) \<subseteq> set (os_maps s')"
proof -
  obtain s1 c1 n1 where f: "malloc_from_partial env sci (s, cache, 0) = Some (Inr (s1, c1, n1))"
    using assms(5) by (auto simp: fill_cache_def rbind_eq_Inr split: option.splits)
  then obtain c2 n2 where g: "(if n1 = 0 then malloc_from_new_sb env h nm sci (s1, c1, n1) else Inr (s1, c1, n1)) = Inr (s', c2, n2)"
    using assms(5) by (auto simp: fill_cache_def rbind_eq_Inr split: if_splits)
  have ok: "alloc_ok h target s1" "alloc_state.more s1 = alloc_state.more s" "set (os_maps s) \<subseteq> set (os_maps s1)"
    using malloc_from_partial_ok [OF assms(2-4) f] by auto
  then obtain xs where "partial_rep sci s1 xs" using assms(3,4) by (auto simp: alloc_ok_def)
  then have hp: "heaps s1 \<noteq> None" "pages_ok h s1" using ok(1) by (auto simp: partial_rep_def alloc_ok_def)
  show ?thesis
  proof (cases "n1 = 0")
    case True
    then have "grows s1 s'" "pages_ok h s'" using malloc_from_new_sb_grows [OF assms(1) hp(2,1)] g by auto
    then show ?thesis using alloc_ok_grows [OF ok(1)] ok(2,3) by (auto simp: grows_def)
  qed (use g ok in simp)
qed

section \<open>Allocations\<close>

lemma alloc_ok_frame [simp]:
  fixes s :: "'s malloc_state_scheme"
  shows "alloc_ok h target (s\<lparr>boot := b\<rparr>) = alloc_ok h target s" "alloc_ok h target (s\<lparr>mem := m\<rparr>) = alloc_ok h target s"
  by (simp_all add: alloc_ok_def pm_ready_def pages_ok_def size_map_or_new_def tables_ok_def heap_class_def partial_rep_def
      desc_live_def)

text \<open>What the calls keep: readiness, and that tuning is off.\<close>

definition calm :: "config \<Rightarrow> 's malloc_state_scheme \<Rightarrow> bool" where
  "calm cfg s \<longleftrightarrow> malloc_ready cfg s \<and> \<not> use_apf s"

lemma calm_frame [simp]: "calm cfg (s\<lparr>boot := b\<rparr>) = calm cfg s" "calm cfg (s\<lparr>mem := m\<rparr>) = calm cfg s"
  by (simp_all add: calm_def malloc_ready_def)

lemma calm_grows:
  fixes s :: "'s malloc_state_scheme"
  assumes "calm cfg s" "grows s s'" "pages_ok (cfg_hash cfg) s'" shows "calm cfg s' \<and> set (os_maps s) \<subseteq> set (os_maps s')"
proof -
  have "alloc_state.more s' = alloc_state.more s" using assms(2) by (simp add: grows_def)
  then show ?thesis
    using assms alloc_ok_grows [of "cfg_hash cfg" "cfg_target cfg" s s'] more_malloc [of s' s] by (simp add: calm_def malloc_ready_def grows_def)
qed

lemma calm_pages: "calm cfg s \<Longrightarrow> pages_ok (cfg_hash cfg) s"
  by (simp add: calm_def malloc_ready_def alloc_ok_def)

lemma reserve_allocate_grows:
  fixes s :: "'s alloc_state_scheme"
  assumes "mmap_contract env" "pages_ok h s" "reserve_allocate env sz (s, b) = Inr (p, s', b')"
  shows "grows s s' \<and> pages_ok h s'"
proof (cases "unat sz > bs_avail b")
  case True
  then obtain b1 where "add_new_segment env (unat sz) (s, b) = Inr (s', b1)"
    using assms(3) by (auto simp: reserve_allocate_def rbind_eq_Inr)
  then obtain m where "seg_allocate env (of_nat (max (bs_max b) (unat sz))) s = (Inr m, s')"
    by (auto simp: add_new_segment_def reserve_segment_def split: prod.splits sum.splits)
  then show ?thesis by (rule seg_allocate_grows [OF assms(1,2)])
qed (use assms in \<open>simp add: reserve_allocate_def\<close>)

lemma fill_bin_calm:
  fixes s :: "'s malloc_state_scheme"
  assumes "mmap_contract (cfg_os cfg)" "calm cfg s" "1 \<le> sci" "sci < MAX_SZ_IDX"
    and "fill_cache (cfg_os cfg) (cfg_hash cfg) (cfg_nm cfg) sci (s, cache) = Some (Inr (s1, cache1))"
  shows "calm cfg s1 \<and> set (os_maps s) \<subseteq> set (os_maps s1)"
proof -
  have "alloc_ok (cfg_hash cfg) (cfg_target cfg) s" using assms(2) by (simp add: calm_def malloc_ready_def)
  then have "alloc_ok (cfg_hash cfg) (cfg_target cfg) s1" "alloc_state.more s1 = alloc_state.more s" "set (os_maps s) \<subseteq> set (os_maps s1)"
    using fill_cache_ok [OF assms(1) _ assms(3-5)] by blast+
  then show ?thesis using assms(2) more_malloc [of s1 s] by (simp add: calm_def malloc_ready_def)
qed

lemma allocate_to_cache_calm:
  fixes s :: "'s malloc_state_scheme"
  assumes "mmap_contract (cfg_os cfg)" "calm cfg s" "1 \<le> sci" "sci < MAX_SZ_IDX"
    and "allocate_to_cache cfg sz sci (s, t) = Some (Inr (p, s', t'))"
  shows "calm cfg s' \<and> set (os_maps s) \<subseteq> set (os_maps s')"
proof (cases "cfg_panicking cfg \<or> use_boot s")
  case True
  then obtain s1 b where "reserve_allocate (cfg_os cfg) sz (s, boot s) = Inr (p, s1, b)" "s' = s1\<lparr>boot := b\<rparr>"
    using assms(5) by (auto simp: allocate_to_cache_def rbind_eq_Inr)
  then show ?thesis
    using calm_grows [OF assms(2)] reserve_allocate_grows [OF assms(1) calm_pages [OF assms(2)]] by auto
next
  case False
  then obtain cache where cache: "get_bin sci t = Inr cache" using assms(5) by (auto simp: allocate_to_cache_def orbind_eq_Inr)
  obtain s1 cache1 ptr m cache2 where
    f: "(if get_bin_block_num cache = 0
         then orbind (fill_cache (cfg_os cfg) (cfg_hash cfg) (cfg_nm cfg) sci (s, cache)) (\<lambda>(s1, cache1).
           Some (if block_num cache1 = 0 then Inl (Panic ''Cache didn't fill'') else Inr (s1, cache1)))
         else Some (Inr (s, cache))) = Some (Inr (s1, cache1))"
    and tune: "tune_malloc cfg sci ptr (s1\<lparr>mem := m\<rparr>, put_bin sci cache2 t) = Some (Inr (s', t'))"
    using assms(5) False cache by (auto simp: allocate_to_cache_def orbind_eq_Inr)
  have c1: "calm cfg s1 \<and> set (os_maps s) \<subseteq> set (os_maps s1)"
  proof (cases "get_bin_block_num cache = 0")
    case True
    then have "fill_cache (cfg_os cfg) (cfg_hash cfg) (cfg_nm cfg) sci (s, cache) = Some (Inr (s1, cache1))"
      using f by (auto simp: orbind_eq_Inr split: if_splits)
    then show ?thesis by (rule fill_bin_calm [OF assms(1-4)])
  qed (use f assms(2) in simp)
  then have "s' = s1\<lparr>mem := m\<rparr>" using tune by (simp add: tune_malloc_def calm_def)
  then show ?thesis using c1 by simp
qed

lemma calm_class:
  assumes "calm cfg s" "unat sz \<le> MAX_SZ"
  shows "1 \<le> get_size_class (sc_lookup s) (unat sz)" "get_size_class (sc_lookup s) (unat sz) < MAX_SZ_IDX"
  using assms by (auto simp: calm_def malloc_ready_def alloc_ok_def tables_ok_def)

lemma calm_init_once: "calm cfg s \<Longrightarrow> init_once cfg s = Some (Inr s)"
  by (simp add: calm_def malloc_ready_def init_once_def)

lemma do_malloc_calm:
  fixes s :: "'s malloc_state_scheme"
  assumes "mmap_contract (cfg_os cfg)" "calm cfg s" "do_malloc cfg sz (s, t) = Some (Inr (p, s', t'))"
  shows "calm cfg s' \<and> set (os_maps s) \<subseteq> set (os_maps s')"
proof (cases "unat sz > MAX_SZ")
  case True
  let ?h = "cfg_hash cfg"
  obtain d s1 where d: "desc_alloc (cfg_os cfg) ?h s = Inr (d, s1)"
    using assms True by (auto simp: do_malloc_def calm_init_once rbind_eq_Inr Let_def)
  define s2 where "s2 = upd_desc d (large_desc (page_ceiling sz)) s1"
  obtain r s3 where r: "seg_allocate (cfg_os cfg) (page_ceiling sz) s2 = (r, s3)" by (cases "seg_allocate (cfg_os cfg) (page_ceiling sz) s2")
  define s4 where "s4 = upd_desc d (\<lambda>q. q\<lparr>super_block := (case r of Inl e \<Rightarrow> None | Inr seg \<Rightarrow> Some seg),
    d_anchor := set_state FULL anchor_default\<rparr>) s3"
  have reg: "register_desc d s4 = Inr s'"
    using assms True d r by (auto simp: do_malloc_def calm_init_once rbind_eq_Inr Let_def s2_def [symmetric] s4_def)
  have 1: "grows s s1" "pages_ok ?h s1" using desc_alloc_grows [OF assms(1) calm_pages [OF assms(2)] d] by auto
  have 2: "grows s1 s2" "pages_ok ?h s2" using 1(2) by (simp_all add: s2_def grows_upd_desc large_desc_def)
  have 3: "grows s2 s3" "pages_ok ?h s3" using seg_allocate_grows [OF assms(1) 2(2) r] by auto
  have 4: "grows s3 s4" "pages_ok ?h s4" using 3(2) by (simp_all add: s4_def grows_upd_desc)
  have "grows s4 s'" "pages_ok ?h s'" using register_desc_grows [OF reg, of ?h] 4(2) by auto
  then show ?thesis using 1(1) 2(1) 3(1) 4(1) by (meson grows_trans calm_grows [OF assms(2)])
next
  case False
  then show ?thesis
    using assms allocate_to_cache_calm [OF assms(1,2) calm_class [OF assms(2), of sz]] by (simp add: do_malloc_def calm_init_once)
qed

lemma do_aligned_alloc_calm:
  fixes s :: "'s malloc_state_scheme"
  assumes "mmap_contract (cfg_os cfg)" "calm cfg s" "do_aligned_alloc cfg align sz0 (s, t) = Some (Inr (p, s', t'))"
  shows "calm cfg s' \<and> set (os_maps s) \<subseteq> set (os_maps s')"
proof (cases "is_power_of_two align")
  case pow: True
  let ?h = "cfg_hash cfg"
  define sz where "sz = align_size sz0 align"
  show ?thesis
  proof (cases "unat sz > PAGE")
    case True
    define sz1 where "sz1 = max sz (of_nat (Suc MAX_SZ))"
    define pages where "pages = page_ceiling (if PAGE < unat align then sz1 + align else sz1)"
    note defs = sz_def [symmetric] sz1_def [symmetric] pages_def [symmetric]
    obtain r s1 where r: "seg_allocate (cfg_os cfg) pages s = (r, s1)" by (cases "seg_allocate (cfg_os cfg) pages s")
    have 1: "grows s s1" "pages_ok ?h s1" using seg_allocate_grows [OF assms(1) calm_pages [OF assms(2)] r] by auto
    show ?thesis
    proof (cases r)
      case (Inl e)
      then have "s' = s1" using assms(2,3) pow True r
        by (simp add: do_aligned_alloc_def calm_init_once Let_def defs cong: if_cong del: of_nat_add of_nat_Suc)
      then show ?thesis using 1 by (simp add: calm_grows [OF assms(2)])
    next
      case (Inr seg)
      define f where "f = (\<lambda>q. (large_desc pages q)\<lparr>super_block := Some seg, d_anchor := set_state FULL anchor_default\<rparr>)"
      obtain d s2 s4 where d: "desc_alloc (cfg_os cfg) ?h s1 = Inr (d, s2)" and reg: "register_desc d (upd_desc d f s2) = Inr s4"
        and last: "s' = s4 \<or> update_page_map None (align_addr (seg_ptr seg) align) (Some d) 0 s4 = Inr s'"
        using assms(2,3) pow True r Inr
        by (auto simp: do_aligned_alloc_def calm_init_once Let_def defs f_def [symmetric] rbind_eq_Inr
            simp del: of_nat_add of_nat_Suc cong: if_cong split: if_splits)
      have 2: "grows s1 s2" "pages_ok ?h s2" using desc_alloc_grows [OF assms(1) 1(2) d] by auto
      have 3: "grows s2 (upd_desc d f s2)" by (rule grows_upd_desc) (simp add: f_def large_desc_def)
      have 4: "grows (upd_desc d f s2) s4" "pages_ok ?h s4" using register_desc_grows [OF reg, of ?h] 2(2) by auto
      have "grows s4 s' \<and> pages_ok ?h s'" using last update_page_map_only 4(2) by fastforce
      then show ?thesis using 1(1) 2(1) 3 4(1) by (meson grows_trans calm_grows [OF assms(2)])
    qed
  next
    case False
    then have "unat sz \<le> MAX_SZ" by (simp add: mem_info_defs)
    then show ?thesis
      using assms pow False allocate_to_cache_calm [OF assms(1,2) calm_class [OF assms(2), of sz]]
      by (simp add: do_aligned_alloc_def calm_init_once Let_def sz_def [symmetric])
  qed
qed (use assms in \<open>simp add: do_aligned_alloc_def\<close>)

text \<open>An allocation always comes back, with a result or a panic: the only loop of the code it runs, over
  the partial list, is over a finite chain.\<close>

lemma malloc_from_partial_total:
  "partial_rep sci s xs \<Longrightarrow> malloc_from_partial env sci (s, b, n) \<noteq> None"
proof (induction xs arbitrary: s)
  case Nil
  then show ?case by (simp add: malloc_from_partial_Nil)
next
  case (Cons d xs)
  obtain s1 where "partial_rep sci s1 xs" "malloc_from_partial env sci (s, b, n) =
      (if a_state (d_anchor (descs s d)) = EMPTY then malloc_from_partial env sci (retire d s1, b, n)
       else Some (take_partial d (s1, b, n)))"
    using malloc_from_partial_Cons [OF Cons.prems] by blast
  then show ?case using Cons.IH [OF partial_rep_retire [of sci s1 xs d]] by simp
qed

lemma allocate_to_cache_total:
  fixes s :: "'s malloc_state_scheme"
  assumes "mmap_contract (cfg_os cfg)" "calm cfg s" "1 \<le> sci" "sci < MAX_SZ_IDX"
  shows "allocate_to_cache cfg sz sci (s, t) \<noteq> None"
proof -
  obtain xs where xs: "partial_rep sci s xs" using assms by (auto simp: calm_def malloc_ready_def alloc_ok_def)
  have fill: "fill_cache env h nm sci (s, c) \<noteq> None" for env h nm c
    using malloc_from_partial_total [OF xs, of env c 0] by (auto simp: fill_cache_def split: option.splits)
  have tune: "tune_malloc cfg sci ptr (s1\<lparr>mem := m\<rparr>, u) \<noteq> None" if "calm cfg s1" for m ptr u and s1 :: "'s malloc_state_scheme"
    using that by (simp add: tune_malloc_def calm_def)
  show ?thesis
  proof
    assume none: "allocate_to_cache cfg sz sci (s, t) = None"
    show False
      using none fill tune fill_bin_calm [OF assms] assms(2)
      by (auto simp: allocate_to_cache_def orbind_eq_None orbind_eq_Inr simp del: not_None_eq split: if_splits)
  qed
qed

lemma do_malloc_total:
  assumes "mmap_contract (cfg_os cfg)" "calm cfg s" shows "do_malloc cfg sz (s, t) \<noteq> None"
  using allocate_to_cache_total [OF assms calm_class [OF assms(2), of sz]] assms(2)
  by (cases "MAX_SZ < unat sz") (simp_all add: do_malloc_def calm_init_once)

section \<open>Threads that allocate\<close>

text \<open>A free that stays in the thread: the address leads to a size class whose bin has room.\<close>

definition bin_has_room :: "usize \<Rightarrow> 's malloc_state_scheme \<Rightarrow> thread \<Rightarrow> bool" where
  "bin_has_room ptr s t \<longleftrightarrow> (\<forall>info sci. get_page_info_for_ptr ptr s = Inr info \<longrightarrow> info \<noteq> 0 \<longrightarrow>
     info_get_size_class_index s info = Some sci \<longrightarrow> 0 < sci \<and>
     (sci < length (bins t) \<and> sci < length (sc_table s) \<longrightarrow>
        get_bin_block_num (bins t ! sci) < sc_cache_block_num (sc_table s ! sci)))"

lemma do_free_calm:
  assumes "calm cfg s" "bin_has_room ptr s t" "do_free cfg ptr (s, t) = Some (Inr (s', t'))"
  shows "calm cfg s' \<and> set (os_maps s) \<subseteq> set (os_maps s')"
proof (cases "s' = s")
  case False
  obtain info where info: "get_page_info_for_ptr ptr s = Inr info" "info \<noteq> 0"
    using False assms(3) by (auto simp: do_free_def orbind_eq_Inr info_get_desc_def split: if_splits)
  then obtain sci where sci: "info_get_size_class_index s info = Some sci" "0 < sci"
    using assms(2) by (auto simp: bin_has_room_def info_get_size_class_index_def Let_def split: if_splits)
  then have "free_small cfg ptr sci (s, t) = Some (Inr (s', t'))"
    using False assms(3) info by (auto simp: do_free_def info_get_desc_def split: if_splits nat.splits)
  moreover have "\<not> use_apf s" using assms(1) by (simp add: calm_def)
  ultimately obtain m where "s' = s\<lparr>mem := m\<rparr>"
    using assms(2) info sci
    by (auto simp: free_small_def tune_free_def orbind_eq_Inr rbind_eq_Inr get_bin_def index_list_def bin_has_room_def Let_def
        split: if_splits prod.splits)
  then show ?thesis using assms(1) by simp
qed (use assms in simp)

text \<open>Calls of any number of threads, one whole call after the other.\<close>

inductive alloc_step ::
  "config \<Rightarrow> 's malloc_state_scheme \<times> (nat \<Rightarrow> thread) \<Rightarrow> 's malloc_state_scheme \<times> (nat \<Rightarrow> thread) \<Rightarrow> bool" for cfg where
  step_malloc: "do_malloc cfg sz (s, ts i) = Some (Inr (p, s', t')) \<Longrightarrow> alloc_step cfg (s, ts) (s', ts(i := t'))"
| step_aligned: "do_aligned_alloc cfg align sz (s, ts i) = Some (Inr (p, s', t')) \<Longrightarrow> alloc_step cfg (s, ts) (s', ts(i := t'))"
| step_free: "bin_has_room ptr s (ts i) \<Longrightarrow> do_free cfg ptr (s, ts i) = Some (Inr (s', t')) \<Longrightarrow> alloc_step cfg (s, ts) (s', ts(i := t'))"

inductive_cases alloc_stepE: "alloc_step cfg (s, ts) w"

lemma alloc_steps_calm:
  assumes "mmap_contract (cfg_os cfg)" "(alloc_step cfg)\<^sup>*\<^sup>* w w'" "calm cfg (fst w)"
  shows "calm cfg (fst w') \<and> set (os_maps (fst w)) \<subseteq> set (os_maps (fst w'))"
  using assms(2,3)
proof (induction rule: rtranclp_induct)
  case (step v u)
  obtain s ts where v: "v = (s, ts)" by (cases v)
  then have s: "calm cfg s" "set (os_maps (fst w)) \<subseteq> set (os_maps s)" using step by simp_all
  have "calm cfg (fst u) \<and> set (os_maps s) \<subseteq> set (os_maps (fst u))"
    using step.hyps(2) unfolding v
    by (rule alloc_stepE)
      (use do_malloc_calm [OF assms(1) s(1)] do_aligned_alloc_calm [OF assms(1) s(1)] do_free_calm [OF s(1)] in \<open>simp; blast\<close>)+
  then show ?case using s(2) by blast
qed simp

text \<open>C12. A running allocator stays well formed while tuning is off: from every state that satisfies the
  invariant, with whatever descriptors on the partial lists, any sequence of allocations that return (aligned or
  not, of any size; a large aligned request that the kernel refuses returns null, any other refused request
  panics and is no step) and of frees that stay in their thread's cache,
  by any number of threads, ends in a state that satisfies it again: the size class tables, the page map
  and the table of mappings, pairwise disjoint mappings, and for every size class a partial list that is
  a finite chain of descriptors in mapped memory. No mapping is lost, and in the end every further
  allocation of any thread returns, with a block or with a panic.\<close>

theorem allocations_keep_ready:
  fixes s :: "'s malloc_state_scheme"
  assumes "mmap_contract (cfg_os cfg)" "malloc_ready cfg s" "\<not> use_apf s" "(alloc_step cfg)\<^sup>*\<^sup>* (s, ts) (s', ts')"
  shows "malloc_ready cfg s' \<and> maps_ok (os_maps s') \<and> set (os_maps s) \<subseteq> set (os_maps s') \<and>
    (\<forall>sz i. do_malloc cfg sz (s', ts' i) \<noteq> None)"
proof -
  have s: "calm cfg s" using assms(2,3) by (simp add: calm_def)
  then have s': "calm cfg s'" "set (os_maps s) \<subseteq> set (os_maps s')" using alloc_steps_calm [OF assms(1,4)] by simp_all
  then have "malloc_ready cfg s'" "pages_ok (cfg_hash cfg) s'" "do_malloc cfg sz (s', ts' i) \<noteq> None" for sz i
    using do_malloc_total [OF assms(1), of s'] calm_pages [of cfg s'] by (simp_all add: calm_def)
  then show ?thesis using s'(2) by (simp add: pages_ok_def)
qed

text \<open>On the concrete kernel, two threads: thread 3 allocates 100 bytes and maps a super block; the
  allocator is still well formed, and a request of thread 4 returns.\<close>

theorem allocations_keep_ready_witness:
  "\<exists>s1 p s' t'. init_once bump_cfg new_malloc = Some (Inr s1) \<and>
    do_malloc bump_cfg 100 (s1, thread_new) = Some (Inr (p, s', t')) \<and> malloc_ready bump_cfg s' \<and>
    do_malloc bump_cfg 5000 (s', thread_new) \<noteq> None"
proof -
  obtain s1 sci c d s2 where s: "init_once bump_cfg new_malloc = Some (Inr s1)" and r: "malloc_ready bump_cfg s1" "quiet bump_cfg s1"
    "unat (100 :: usize) \<le> MAX_SZ" "get_size_class (sc_lookup s1) (unat (100 :: usize)) = sci" "sc_table s1 ! sci = c"
    and e: "sci < length (bins thread_new)" "block_num (bins thread_new ! sci) = 0" "partial_rep sci s1 []"
      "desc_alloc (cfg_os bump_cfg) (cfg_hash bump_cfg) s1 = Inr (d, s2)"
    and g: "mmap (cfg_os bump_cfg) False (os_calls s2) (os_maps s2) (of_nat (sc_sb_size c)) \<noteq> MAP_FAILED"
    using new_malloc_start by blast
  have env: "mmap_contract (cfg_os bump_cfg)" using bump_env_contract by simp
  obtain p s' t' where m: "do_malloc bump_cfg 100 (s1, thread_new) = Some (Inr (p, s', t'))"
    using do_malloc_first [OF env r refl e refl g] by blast
  let ?ts = "\<lambda>_ :: nat. thread_new"
  have "alloc_step bump_cfg (s1, ?ts) (s', ?ts(3 := t'))" by (rule step_malloc) (rule m)
  then have star: "(alloc_step bump_cfg)\<^sup>*\<^sup>* (s1, ?ts) (s', ?ts(3 := t'))" by blast
  have "\<not> use_apf s1" using r(2) by (simp add: quiet_def)
  from allocations_keep_ready [OF env r(1) this star]
  have "malloc_ready bump_cfg s'" "do_malloc bump_cfg 5000 (s', (?ts(3 := t')) 4) \<noteq> None" by blast+
  then show ?thesis using s m by simp
qed

end
