(* ===== verification/Ownership.thy ===== *)
theory Ownership
  imports Running
begin

text \<open>
  Who owns which memory. The descriptors that have a super block, the partial lists, the free list of
  descriptors and the page map agree with each other (\<open>descs_ok\<close>); every block of a super block has one
  owner: the super block itself, the cache of one thread, or the client (\<open>blocks_ok\<close>). This is the
  invariant that \<^verbatim>\<open>do_malloc\<close> and \<^verbatim>\<open>do_free\<close> keep; the bins use the plain pointer encoding
  (feature \<^verbatim>\<open>no_met_stack\<close>), because a flush loses blocks in the other one.
\<close>

section \<open>Tables and super blocks\<close>

definition class_ix :: "nat \<Rightarrow> bool" where
  "class_ix i \<longleftrightarrow> 1 \<le> i \<and> i < MAX_SZ_IDX"

abbreviation class_size :: "'s map_state_scheme \<Rightarrow> nat \<Rightarrow> nat" where
  "class_size s i \<equiv> sc_block_size (sc_table s ! i)"

text \<open>The parts of the shared state that are set up once, and the table of mappings.\<close>

definition base_ok :: "(usize \<Rightarrow> nat) \<Rightarrow> nat \<Rightarrow> 's alloc_state_scheme \<Rightarrow> bool" where
  "base_ok h target s \<longleftrightarrow> pm_ready s \<and> pages_ok h s \<and> tables_ok target s \<and>
     (\<forall>i. class_ix i \<longrightarrow> heap_class s i (sc_table s ! i))"

text \<open>A descriptor in memory that stays mapped: it came from the page allocator.\<close>

definition desc_kept :: "(usize \<Rightarrow> nat) \<Rightarrow> 's desc_state_scheme \<Rightarrow> usize \<Rightarrow> bool" where
  "desc_kept h s d \<longleftrightarrow> desc_addr d \<and> (\<exists>p len. hm_lookup h (size_map_or_new s) p = Some len \<and>
     unat p \<le> unat d \<and> unat d < unat p + map_span len)"

text \<open>The descriptor of a super block of class \<open>i\<close>, found from every address of it, and the descriptor of
  a large allocation, found from its first page.\<close>

definition small_sb :: "'s alloc_state_scheme \<Rightarrow> usize \<Rightarrow> nat \<Rightarrow> segment \<Rightarrow> bool" where
  "small_sb s d i seg \<longleftrightarrow> super_block (descs s d) = Some seg \<and> proc_heap (descs s d) = Some i \<and> class_ix i \<and>
     block_size (descs s d) = class_size s i \<and> max_count (descs s d) = sc_block_num (sc_table s ! i) \<and>
     seg_length seg = of_nat (sc_sb_size (sc_table s ! i)) \<and>
     (\<forall>a. in_block (seg_ptr seg) (sc_sb_size (sc_table s ! i)) a \<longrightarrow> get_page_info a s = Inr d)"

definition large_sb :: "'s alloc_state_scheme \<Rightarrow> usize \<Rightarrow> segment \<Rightarrow> bool" where
  "large_sb s d seg \<longleftrightarrow> super_block (descs s d) = Some seg \<and> proc_heap (descs s d) = None \<and>
     MAX_SZ < block_size (descs s d) \<and> block_size (descs s d) = unat (seg_length seg) \<and>
     get_page_info (seg_ptr seg) s = Inr d"

definition used_ok :: "(usize \<Rightarrow> nat) \<Rightarrow> 's alloc_state_scheme \<Rightarrow> usize \<Rightarrow> segment \<Rightarrow> bool" where
  "used_ok h s d seg \<longleftrightarrow> desc_kept h s d \<and> (seg_ptr seg, seg_length seg) \<in> set (os_maps s) \<and>
     hm_lookup h (size_map_or_new s) (seg_ptr seg) = None \<and> ((\<exists>i. small_sb s d i seg) \<or> large_sb s d seg)"

text \<open>A descriptor that is on a partial list: of a super block with free blocks, or of one that was
  given back since.\<close>

definition listed_ok :: "(usize \<Rightarrow> nat) \<Rightarrow> 's alloc_state_scheme \<Rightarrow> usize list \<Rightarrow> nat \<Rightarrow> usize \<Rightarrow> bool" where
  "listed_ok h s fs i d \<longleftrightarrow> desc_kept h s d \<and> d \<notin> set fs \<and> proc_heap (descs s d) = Some i \<and>
     a_state (d_anchor (descs s d)) = (if super_block (descs s d) = None then EMPTY else PARTIAL)"

text \<open>A super block of a size class is full and has no free block of its own, or it is on the partial
  list of its class and has.\<close>

definition anchor_ok :: "(nat \<Rightarrow> usize list) \<Rightarrow> nat \<Rightarrow> usize \<Rightarrow> anchor \<Rightarrow> bool" where
  "anchor_ok P i d a \<longleftrightarrow> a_avail a < 2 ^ 30 \<and>
     (a_state a = FULL \<and> a_count a = 0 \<or> a_state a = PARTIAL \<and> 0 < a_count a \<and> d \<in> set (P i))"

definition descs_ok :: "(usize \<Rightarrow> nat) \<Rightarrow> 's alloc_state_scheme \<Rightarrow> (nat \<Rightarrow> usize list) \<Rightarrow> usize list \<Rightarrow> bool" where
  "descs_ok h s P fs \<longleftrightarrow>
     (\<forall>d seg. super_block (descs s d) = Some seg \<longrightarrow> used_ok h s d seg) \<and>
     (\<forall>d i seg. small_sb s d i seg \<longrightarrow> anchor_ok P i d (d_anchor (descs s d))) \<and>
     free_list s fs \<and> (\<forall>d \<in> set fs. desc_kept h s d \<and> super_block (descs s d) = None) \<and>
     (\<forall>i. class_ix i \<longrightarrow> partial_rep i s (P i) \<and> (\<forall>d \<in> set (P i). listed_ok h s fs i d))"

section \<open>Blocks and their owners\<close>

datatype owner = Central | Cached nat | Client

definition blocks :: "'s alloc_state_scheme \<Rightarrow> usize \<Rightarrow> segment \<Rightarrow> usize list" where
  "blocks s d seg = sb_blocks (seg_ptr seg) (block_size (descs s d)) (max_count (descs s d))"

text \<open>The free blocks that the anchor of a super block counts, and the blocks in a bin.\<close>

definition own_chain :: "'s alloc_state_scheme \<Rightarrow> usize \<Rightarrow> segment \<Rightarrow> usize list" where
  "own_chain s d seg = (let a = d_anchor (descs s d) in
     chain (load64 (mem s)) (seg_ptr seg + of_nat (a_avail a * block_size (descs s d))) (a_count a))"

definition bin_list :: "'s os_state_scheme \<Rightarrow> bin \<Rightarrow> usize list" where
  "bin_list s b = chain (load64 (mem s)) (block b) (block_num b)"

definition class_block :: "'s alloc_state_scheme \<Rightarrow> nat \<Rightarrow> usize \<Rightarrow> bool" where
  "class_block s i x \<longleftrightarrow> (\<exists>d seg. small_sb s d i seg \<and> x \<in> set (blocks s d seg))"

definition sb_ok :: "'s alloc_state_scheme \<Rightarrow> (usize \<Rightarrow> owner) \<Rightarrow> usize \<Rightarrow> segment \<Rightarrow> bool" where
  "sb_ok s own d seg \<longleftrightarrow> distinct (own_chain s d seg) \<and>
     (\<forall>x \<in> set (own_chain s d seg). x \<in> set (blocks s d seg) \<and> own x = Central)"

definition bin_ok :: "'s alloc_state_scheme \<Rightarrow> (usize \<Rightarrow> owner) \<Rightarrow> nat \<Rightarrow> nat \<Rightarrow> bin \<Rightarrow> bool" where
  "bin_ok s own j i b \<longleftrightarrow> distinct (bin_list s b) \<and> (\<forall>x \<in> set (bin_list s b). class_block s i x \<and> own x = Cached j)"

text \<open>An allocation of the client: a block of a size class, or a large one.\<close>

definition live_ok :: "'s alloc_state_scheme \<Rightarrow> (usize \<Rightarrow> owner) \<Rightarrow> usize \<times> nat \<Rightarrow> bool" where
  "live_ok s own r \<longleftrightarrow> (\<exists>i. class_block s i (fst r) \<and> own (fst r) = Client \<and> snd r \<le> class_size s i) \<or>
     (\<exists>d seg. large_sb s d seg \<and> seg_ptr seg = fst r \<and> snd r \<le> block_size (descs s d))"

definition blocks_ok ::
  "'s alloc_state_scheme \<Rightarrow> (nat \<Rightarrow> bin list) \<Rightarrow> (usize \<times> nat) list \<Rightarrow> (usize \<Rightarrow> owner) \<Rightarrow> bool" where
  "blocks_ok s bs live own \<longleftrightarrow>
     (\<forall>d i seg. small_sb s d i seg \<longrightarrow> sb_ok s own d seg) \<and>
     (\<forall>j. length (bs j) = MAX_SZ_IDX \<and> (\<forall>i. class_ix i \<longrightarrow> bin_ok s own j i (bs j ! i))) \<and>
     distinct (map fst live) \<and> (\<forall>r \<in> set live. live_ok s own r)"

section \<open>Geometry\<close>

lemma block_sizes_increasing:
  assumes "class_ix i" "class_ix j" "i < j" shows "sc_block_size (size_classes ! i) < sc_block_size (size_classes ! j)"
proof -
  have "sorted_wrt (<) block_sizes"
    by (simp add: block_sizes_def size_classes_def sc_def size_class_bin_yes_def mem_info_defs)
  moreover have "block_sizes ! (k - 1) = sc_block_size (size_classes ! k)" if "class_ix k" for k
    using that length_block_sizes by (auto simp: class_ix_def block_sizes_def nth_tl)
  moreover have "i - 1 < j - 1" "j - 1 < length block_sizes" using assms length_block_sizes by (auto simp: class_ix_def)
  ultimately show ?thesis using assms sorted_wrt_nth_less by metis
qed

lemma class_facts:
  assumes "base_ok h target s" "class_ix i"
  shows "class_ok target (class_size s i) (sc_table s ! i)" "8 \<le> class_size s i" "class_size s i \<le> MAX_SZ"
    "get_size_class (sc_lookup s) (class_size s i) = i" "i < length (sc_table s)" "heap_class s i (sc_table s ! i)"
proof -
  have t: "tables_ok target s" using assms(1) by (simp add: base_ok_def)
  have ok: "class_ok target (sc_block_size (size_classes ! k)) (sc_table s ! k)" "class_size s k = sc_block_size (size_classes ! k)"
    if "class_ix k" for k
    using t that by (auto simp: tables_ok_def class_ix_def class_ok_def)
  show "class_ok target (class_size s i) (sc_table s ! i)" using ok [OF assms(2)] by simp
  show b: "8 \<le> class_size s i" "class_size s i \<le> MAX_SZ"
    using ok(2) [OF assms(2)] block_size_bounds [of i] assms(2) by (auto simp: class_ix_def)
  show "i < length (sc_table s)" "heap_class s i (sc_table s ! i)"
    using assms t by (auto simp: tables_ok_def class_ix_def base_ok_def)
  define k where "k = get_size_class (sc_lookup s) (class_size s i)"
  have k: "class_ix k" "class_size s i \<le> class_size s k" "\<forall>j. 1 \<le> j \<and> j < k \<longrightarrow> class_size s j < class_size s i"
    using t b(2) by (auto simp: tables_ok_def class_ix_def k_def)
  have "\<not> k < i" using k(2) ok(2) [OF k(1)] ok(2) [OF assms(2)] block_sizes_increasing [OF k(1) assms(2)] by auto
  moreover have "\<not> i < k" using k(3) assms(2) by (auto simp: class_ix_def)
  ultimately show "get_size_class (sc_lookup s) (class_size s i) = i" by (simp add: k_def)
qed

lemma small_sb_block: "small_sb s d i seg \<Longrightarrow> super_block (descs s d) = Some seg"
  by (simp add: small_sb_def)

lemma large_sb_block: "large_sb s d seg \<Longrightarrow> super_block (descs s d) = Some seg"
  by (simp add: large_sb_def)

text \<open>All super blocks are in order.\<close>

definition used_all_ok :: "(usize \<Rightarrow> nat) \<Rightarrow> nat \<Rightarrow> 's alloc_state_scheme \<Rightarrow> bool" where
  "used_all_ok h target s \<longleftrightarrow> base_ok h target s \<and> (\<forall>d seg. super_block (descs s d) = Some seg \<longrightarrow> used_ok h s d seg)"

lemma small_sbD:
  assumes "used_all_ok h target s" "small_sb s d i seg"
  shows "used_ok h s d seg" "class_ix i" "map_span (seg_length seg) = sc_sb_size (sc_table s ! i)"
    "unat (seg_ptr seg) + sc_sb_size (sc_table s ! i) \<le> 2 ^ 47" "seg_ptr seg \<noteq> 0"
    "unat (seg_ptr seg) + class_size s i * sc_block_num (sc_table s ! i) \<le> 2 ^ 47"
    "class_size s i * sc_block_num (sc_table s ! i) \<le> sc_sb_size (sc_table s ! i)" "0 < sc_sb_size (sc_table s ! i)"
    "blocks s d seg = sb_blocks (seg_ptr seg) (class_size s i) (sc_block_num (sc_table s ! i))"
    "valid_map (seg_ptr seg, of_nat (sc_sb_size (sc_table s ! i)))" "(seg_ptr seg, seg_length seg) \<in> set (os_maps s)"
proof -
  let ?c = "sc_table s ! i"
  show u: "used_ok h s d seg" and i: "class_ix i" using assms by (auto simp: used_all_ok_def small_sb_def)
  have base: "base_ok h target s" using assms(1) by (simp add: used_all_ok_def)
  have c: "class_ok target (class_size s i) ?c" "8 \<le> class_size s i" using class_facts [OF base i] by auto
  have l: "seg_length seg = of_nat (sc_sb_size ?c)" using assms(2) by (simp add: small_sb_def)
  have "maps_ok (os_maps s)" using base by (simp add: base_ok_def pages_ok_def)
  then show v: "valid_map (seg_ptr seg, of_nat (sc_sb_size ?c))" and "(seg_ptr seg, seg_length seg) \<in> set (os_maps s)"
    using u maps_ok_valid l by (auto simp: used_ok_def)
  show "map_span (seg_length seg) = sc_sb_size ?c" using map_span_pages l c(1) by (simp add: class_ok_def)
  show "unat (seg_ptr seg) + sc_sb_size ?c \<le> 2 ^ 47" "seg_ptr seg \<noteq> 0" "unat (seg_ptr seg) + class_size s i * sc_block_num ?c \<le> 2 ^ 47"
    using fresh_super_block [OF v c(1)] by auto
  show "class_size s i * sc_block_num ?c \<le> sc_sb_size ?c" using c(1) by (simp add: class_ok_def)
  show "0 < sc_sb_size ?c" using c(1) by (auto simp: class_ok_def intro: gr0I)
  show "blocks s d seg = sb_blocks (seg_ptr seg) (class_size s i) (sc_block_num ?c)"
    using assms(2) by (simp add: blocks_def small_sb_def)
qed

lemma used_page_info:
  assumes "used_all_ok h target s" "super_block (descs s d) = Some seg"
  shows "get_page_info (seg_ptr seg) s = Inr d"
proof -
  have "used_ok h s d seg" using assms by (simp add: used_all_ok_def)
  then consider i where "small_sb s d i seg" | "large_sb s d seg" by (auto simp: used_ok_def)
  then show ?thesis
  proof cases
    case 1
    then show ?thesis using small_sbD(8) [OF assms(1) 1] by (simp add: small_sb_def in_block_def)
  qed (simp add: large_sb_def)
qed

lemma used_apart:
  assumes "used_all_ok h target s" "super_block (descs s d) = Some seg" "super_block (descs s e) = Some seg'" "d \<noteq> e"
  shows "maps_disjoint (seg_ptr seg, seg_length seg) (seg_ptr seg', seg_length seg')"
proof (rule maps_ok_disjoint)
  show "maps_ok (os_maps s)" using assms(1) by (simp add: used_all_ok_def base_ok_def pages_ok_def)
  show "(seg_ptr seg, seg_length seg) \<in> set (os_maps s)" "(seg_ptr seg', seg_length seg') \<in> set (os_maps s)"
    using assms(1-3) by (auto simp: used_all_ok_def used_ok_def)
  show "(seg_ptr seg, seg_length seg) \<noteq> (seg_ptr seg', seg_length seg')"
    using used_page_info [OF assms(1,2)] used_page_info [OF assms(1,3)] assms(4) by auto
qed

lemma block_inside:
  assumes "used_all_ok h target s" "small_sb s d i seg" "x \<in> set (blocks s d seg)"
  shows "unat (seg_ptr seg) \<le> unat x" "unat x + class_size s i \<le> unat (seg_ptr seg) + sc_sb_size (sc_table s ! i)"
    "get_page_info x s = Inr d"
proof -
  note sb = small_sbD [OF assms(1,2)]
  obtain k where k: "k < sc_block_num (sc_table s ! i)" "x = sb_block (seg_ptr seg) (class_size s i) k"
    using assms(3) by (auto simp: sb(9) sb_blocks_def)
  have u: "unat x = unat (seg_ptr seg) + class_size s i * k" using unat_sb_block [OF sb(6) k(1)] k(2) by simp
  show a: "unat (seg_ptr seg) \<le> unat x" "unat x + class_size s i \<le> unat (seg_ptr seg) + sc_sb_size (sc_table s ! i)"
    using u block_end_le [OF k(1), of "class_size s i"] sb(7) by simp_all
  have "8 \<le> class_size s i" using class_facts [OF _ sb(2)] assms(1) by (auto simp: used_all_ok_def)
  then have "in_block (seg_ptr seg) (sc_sb_size (sc_table s ! i)) x" using a by (simp add: in_block_def)
  then show "get_page_info x s = Inr d" using assms(2) by (simp add: small_sb_def)
qed

text \<open>Two blocks do not overlap, whichever super blocks and classes they are from.\<close>

lemma class_block_apart:
  assumes "used_all_ok h target s" "class_block s i x" "class_block s j y" "x \<noteq> y"
  shows "unat x + class_size s i \<le> unat y \<or> unat y + class_size s j \<le> unat x"
proof -
  obtain d seg e seg' where d: "small_sb s d i seg" "x \<in> set (blocks s d seg)" and e: "small_sb s e j seg'" "y \<in> set (blocks s e seg')"
    using assms(2,3) by (auto simp: class_block_def)
  note sd = small_sbD [OF assms(1) d(1)] and se = small_sbD [OF assms(1) e(1)]
  note xd = block_inside [OF assms(1) d] and ye = block_inside [OF assms(1) e]
  show ?thesis
  proof (cases "d = e")
    case True
    then have eq: "seg' = seg" "j = i" using d(1) e(1) by (auto simp: small_sb_def)
    obtain k l where k: "k < sc_block_num (sc_table s ! i)" "x = sb_block (seg_ptr seg) (class_size s i) k"
      and l: "l < sc_block_num (sc_table s ! i)" "y = sb_block (seg_ptr seg) (class_size s i) l"
      using d(2) e(2) True unfolding eq by (auto simp: sd(9) [unfolded True] sb_blocks_def)
    have "unat x = unat (seg_ptr seg) + class_size s i * k" "unat y = unat (seg_ptr seg) + class_size s i * l"
      using unat_sb_block [OF sd(6) k(1)] unat_sb_block [OF sd(6) l(1)] k(2) l(2) by auto
    moreover have "k < l \<or> l < k" using assms(4) k(2) l(2) by (metis nat_neq_iff)
    ultimately show ?thesis using block_end_le [of k l "class_size s i"] block_end_le [of l k "class_size s i"] eq by auto
  next
    case False
    then have "maps_disjoint (seg_ptr seg, seg_length seg) (seg_ptr seg', seg_length seg')"
      using used_apart [OF assms(1) small_sb_block [OF d(1)] small_sb_block [OF e(1)]] by blast
    then show ?thesis using xd(1,2) ye(1,2) sd(3) se(3) by (auto simp: maps_disjoint_def)
  qed
qed

lemma class_blockD:
  assumes "used_all_ok h target s" "class_block s i x"
  shows "class_ix i" "8 \<le> class_size s i" "unat x + class_size s i \<le> 2 ^ 47" "x \<noteq> 0"
    "\<exists>d seg. small_sb s d i seg \<and> x \<in> set (blocks s d seg) \<and> get_page_info x s = Inr d"
proof -
  obtain d seg where d: "small_sb s d i seg" "x \<in> set (blocks s d seg)" using assms(2) by (auto simp: class_block_def)
  note sd = small_sbD [OF assms(1) d(1)] and xd = block_inside [OF assms(1) d]
  show "class_ix i" "8 \<le> class_size s i" using sd(2) class_facts [OF _ sd(2)] assms(1) by (auto simp: used_all_ok_def)
  show "unat x + class_size s i \<le> 2 ^ 47" using xd(2) sd(4) by linarith
  have "unat (seg_ptr seg) \<noteq> 0" using sd(5) by (simp add: unat_eq_zero)
  then show "x \<noteq> 0" using xd(1) by auto
  show "\<exists>d seg. small_sb s d i seg \<and> x \<in> set (blocks s d seg) \<and> get_page_info x s = Inr d" using d xd(3) by blast
qed

lemma class_block_unique:
  assumes "used_all_ok h target s" "class_block s i x" "class_block s j x" shows "i = j"
  using class_blockD(5) [OF assms(1,2)] class_blockD(5) [OF assms(1,3)] by (auto simp: small_sb_def)

lemma class_block_cells:
  assumes "used_all_ok h target s" "class_block s i x" "class_block s j y" "x \<noteq> y" shows "cells_apart x y"
proof -
  note x = class_blockD [OF assms(1,2)] and y = class_blockD [OF assms(1,3)]
  show ?thesis
    using class_block_apart [OF assms]
  proof
    assume "unat x + class_size s i \<le> unat y"
    then show ?thesis using x(2) y(3) by (intro cells_apart_unat) auto
  next
    assume "unat y + class_size s j \<le> unat x"
    then show ?thesis using y(2) x(3) by (intro cells_apart_sym [OF cells_apart_unat]) auto
  qed
qed

lemma map_span_ge: "unat l \<le> map_span l"
  using round_up_ge [of PAGE "unat l"] by (simp add: map_span_def PAGE_value)

lemma class_block_large:
  assumes "used_all_ok h target s" "class_block s i x" "large_sb s e seg"
  shows "unat x + class_size s i \<le> unat (seg_ptr seg) \<or> unat (seg_ptr seg) + block_size (descs s e) \<le> unat x"
proof -
  obtain d seg' where d: "small_sb s d i seg'" "x \<in> set (blocks s d seg')" using assms(2) by (auto simp: class_block_def)
  have "d \<noteq> e" using d(1) assms(3) by (auto simp: small_sb_def large_sb_def)
  then have "maps_disjoint (seg_ptr seg', seg_length seg') (seg_ptr seg, seg_length seg)"
    using used_apart [OF assms(1) small_sb_block [OF d(1)] large_sb_block [OF assms(3)]] by blast
  moreover have "unat (seg_length seg) \<le> map_span (seg_length seg)" by (rule map_span_ge)
  moreover have "block_size (descs s e) = unat (seg_length seg)" using assms(3) by (simp add: large_sb_def)
  ultimately show ?thesis
    using block_inside [OF assms(1) d] small_sbD(3) [OF assms(1) d(1)] unfolding maps_disjoint_def fst_conv snd_conv by linarith
qed

lemma large_large:
  assumes "used_all_ok h target s" "large_sb s d seg" "large_sb s e seg'" "seg_ptr seg \<noteq> seg_ptr seg'"
  shows "unat (seg_ptr seg) + block_size (descs s d) \<le> unat (seg_ptr seg') \<or>
    unat (seg_ptr seg') + block_size (descs s e) \<le> unat (seg_ptr seg)"
proof -
  have "d \<noteq> e" using assms(2-4) by (auto simp: large_sb_def)
  then have "maps_disjoint (seg_ptr seg, seg_length seg) (seg_ptr seg', seg_length seg')"
    using used_apart [OF assms(1) large_sb_block [OF assms(2)] large_sb_block [OF assms(3)]] by blast
  moreover have "unat (seg_length seg) \<le> map_span (seg_length seg)" "unat (seg_length seg') \<le> map_span (seg_length seg')"
    by (rule map_span_ge)+
  moreover have "block_size (descs s d) = unat (seg_length seg)" "block_size (descs s e) = unat (seg_length seg')"
    using assms(2,3) by (simp_all add: large_sb_def)
  ultimately show ?thesis unfolding maps_disjoint_def fst_conv snd_conv by linarith
qed

end
