(* ===== verification/Ownership_Frames.thy ===== *)
theory Ownership_Frames
  imports Ownership
begin

text \<open>
  How the invariant of \<open>Ownership\<close> survives the single changes that the operations make: a write to
  memory, a fresh descriptor, an entry of the page map, a new or a released mapping.
\<close>

section \<open>Descriptors\<close>

text \<open>What the invariant reads of a descriptor.\<close>

definition view :: "descriptor \<Rightarrow> segment option \<times> nat option \<times> nat \<times> nat \<times> anchor" where
  "view r = (super_block r, proc_heap r, block_size r, max_count r, d_anchor r)"

lemma view_eq:
  "view r = view q \<longleftrightarrow> super_block r = super_block q \<and> proc_heap r = proc_heap q \<and> block_size r = block_size q \<and>
     max_count r = max_count q \<and> d_anchor r = d_anchor q"
  by (simp add: view_def)

text \<open>The memory of every mapping is as before.\<close>

definition mem_kept :: "'s os_state_scheme \<Rightarrow> 's os_state_scheme \<Rightarrow> bool" where
  "mem_kept s s' \<longleftrightarrow> (\<forall>r \<in> set (os_maps s). \<forall>a. unat (fst r) \<le> unat a \<and> unat a < unat (fst r) + map_span (snd r) \<longrightarrow>
     mem s' a = mem s a)"

lemma zero_span_outside:
  assumes "valid_map (p, len)" "unat a < unat p \<or> unat p + map_span len \<le> unat a" shows "zero_span p len m a = m a"
proof -
  have v: "unat p + map_span len \<le> 2 ^ 47" using assms(1) by (simp add: valid_map_def)
  have "map_span len \<le> unat (a - p)"
    using assms(2)
  proof
    assume "unat a < unat p"
    then have "unat (a - p) = 2 ^ 64 + unat a - unat p" by (simp add: unat_sub_if')
    then show ?thesis using v by simp
  next
    assume le: "unat p + map_span len \<le> unat a"
    then have "unat (a - p) = unat a - unat p" by (intro unat_sub_le) (simp add: word_le_nat_alt)
    then show ?thesis using le by simp
  qed
  then show ?thesis by (simp add: zero_span_def)
qed

lemma mem_kept_zero_span:
  assumes "valid_map (p, len)" "\<forall>r \<in> set (os_maps s). maps_disjoint (p, len) r" "mem s' = zero_span p len (mem s)"
  shows "mem_kept s s'"
  using assms by (fastforce simp: mem_kept_def maps_disjoint_def intro!: zero_span_outside)

lemma load64_cong: "(\<And>i. i < 8 \<Longrightarrow> m' (x + of_nat i) = m (x + of_nat i)) \<Longrightarrow> load64 m' x = load64 m x"
  unfolding load64_def by (intro arg_cong [where f = word_of_bytes] map_cong) auto

lemma unat_cell: "unat (x :: usize) + 8 \<le> 2 ^ 47 \<Longrightarrow> i < 8 \<Longrightarrow> unat (x + of_nat i) = unat x + i"
  by (subst unat_add_no_overflow) (simp_all add: unat_of_nat)

text \<open>A cell at the start of a block does not change when the bytes of the block do not.\<close>

lemma class_block_load:
  assumes "used_all_ok h target s" "class_block s i x"
    and "\<And>a. unat x \<le> unat a \<Longrightarrow> unat a < unat x + class_size s i \<Longrightarrow> m' a = mem s a"
  shows "load64 m' x = load64 (mem s) x"
proof (rule load64_cong)
  fix k :: nat assume k: "k < 8"
  note x = class_blockD [OF assms(1,2)]
  have "unat (x + of_nat k) = unat x + k" using unat_cell k x(2,3) by simp
  then show "m' (x + of_nat k) = mem s (x + of_nat k)" using assms(3) k x(2) by simp
qed

lemma mem_kept_load:
  assumes "used_all_ok h target s" "mem_kept s s'" "class_block s i x"
  shows "load64 (mem s') x = load64 (mem s) x"
proof (rule class_block_load [OF assms(1,3)])
  fix a :: usize assume a: "unat x \<le> unat a" "unat a < unat x + class_size s i"
  obtain d seg where d: "small_sb s d i seg" "x \<in> set (blocks s d seg)" using assms(3) by (auto simp: class_block_def)
  have "(seg_ptr seg, seg_length seg) \<in> set (os_maps s)" "map_span (seg_length seg) = sc_sb_size (sc_table s ! i)"
    using small_sbD [OF assms(1) d(1)] by blast+
  then show "mem s' a = mem s a" using block_inside [OF assms(1) d] a assms(2) by (fastforce simp: mem_kept_def)
qed

section \<open>Frames\<close>

lemma small_sb_frame:
  assumes "small_sb s d i seg" "view (descs s' d) = view (descs s d)" "sc_table s' = sc_table s"
    and "\<And>a. in_block (seg_ptr seg) (sc_sb_size (sc_table s ! i)) a \<Longrightarrow> get_page_info a s' = get_page_info a s"
  shows "small_sb s' d i seg"
  using assms by (auto simp: small_sb_def view_eq)

lemma blocks_frame: "view (descs s' d) = view (descs s d) \<Longrightarrow> blocks s' d seg = blocks s d seg"
  by (simp add: blocks_def view_eq)

lemma desc_kept_mono:
  assumes "desc_kept h s d" "\<And>p len. hm_lookup h (size_map_or_new s) p = Some len \<Longrightarrow> hm_lookup h (size_map_or_new s') p = Some len"
  shows "desc_kept h s' d"
  using assms by (fastforce simp: desc_kept_def)

lemma used_ok_frame:
  assumes "used_all_ok h target s" "super_block (descs s d) = Some seg" "view (descs s' d) = view (descs s d)" "sc_table s' = sc_table s"
    and "\<And>a. unat (seg_ptr seg) \<le> unat a \<Longrightarrow> unat a < unat (seg_ptr seg) + map_span (seg_length seg) \<Longrightarrow> get_page_info a s' = get_page_info a s"
    and "\<And>p len. hm_lookup h (size_map_or_new s) p = Some len \<Longrightarrow> hm_lookup h (size_map_or_new s') p = Some len"
    and "hm_lookup h (size_map_or_new s') (seg_ptr seg) = None" "(seg_ptr seg, seg_length seg) \<in> set (os_maps s')"
  shows "used_ok h s' d seg"
proof -
  have u: "used_ok h s d seg" using assms(1,2) by (simp add: used_all_ok_def)
  then have "desc_kept h s d" by (simp add: used_ok_def)
  then have "desc_kept h s' d" using assms(6) by (rule desc_kept_mono)
  moreover consider i where "small_sb s d i seg" | "large_sb s d seg" using u by (auto simp: used_ok_def)
  then have "(\<exists>i. small_sb s' d i seg) \<or> large_sb s' d seg"
  proof cases
    case 1
    then have "small_sb s' d i seg"
      using small_sb_frame [OF 1 assms(3,4)] assms(5) small_sbD(3) [OF assms(1) 1] by (auto simp: in_block_def)
    then show ?thesis by blast
  next
    case 2
    have "valid_map (seg_ptr seg, seg_length seg)"
      using u assms(1) maps_ok_valid by (auto simp: used_ok_def used_all_ok_def base_ok_def pages_ok_def)
    then have "get_page_info (seg_ptr seg) s' = get_page_info (seg_ptr seg) s"
      using map_span_pos [of "(seg_ptr seg, seg_length seg)"] by (intro assms(5)) auto
    then show ?thesis using 2 assms(3) by (simp add: large_sb_def view_eq)
  qed
  ultimately show ?thesis using assms(7,8) by (simp add: used_ok_def)
qed

section \<open>A fresh descriptor\<close>

lemma page_alloc_kept:
  assumes "mmap_contract env" "pages_ok h s" "page_alloc env h sz s = Inr (Inr p, s1)"
  shows "hm_lookup h (size_map_or_new s1) = (hm_lookup h (size_map_or_new s))(p \<mapsto> sz)"
    "\<forall>r \<in> set (os_maps s). maps_disjoint (p, sz) r" "mem_kept s s1" "pages_ok h s1" "valid_map (p, sz)"
    "os_maps s1 = (p, sz) # os_maps s"
proof -
  let ?s0 = "s\<lparr>size_map := Some (size_map_or_new s)\<rparr>"
  obtain seg s' where seg: "map_segment env False sz ?s0 = (Inr seg, s')"
    using assms(3) by (auto simp: page_alloc_def seg_allocate_def Let_def split: if_splits prod.splits sum.splits)
  obtain m' where m: "hm_insert h (seg_ptr seg) sz (size_map_or_new s) = Inr (None, m')" "size_map s' = Some (size_map_or_new s)"
    "hm_lookup h m' = (hm_lookup h (size_map_or_new s))(seg_ptr seg \<mapsto> sz)"
    using map_pages_ok [OF assms(1,2) seg] by blast
  then have e: "p = seg_ptr seg" "s1 = s'\<lparr>size_map := Some m'\<rparr>"
    using assms(3) seg by (auto simp: page_alloc_def seg_allocate_def split: if_splits)
  then show "hm_lookup h (size_map_or_new s1) = (hm_lookup h (size_map_or_new s))(p \<mapsto> sz)"
    using m(3) by (simp add: size_map_or_new_def)
  have "maps_ok (os_maps ?s0)" using assms(2) by (simp add: pages_ok_def)
  note ms = map_segment_maps [OF assms(1) this seg]
  show v: "valid_map (p, sz)" and d: "\<forall>r \<in> set (os_maps s). maps_disjoint (p, sz) r" using ms e(1) by auto
  have "mem s1 = zero_span p sz (mem s)" using ms e by simp
  then show "mem_kept s s1" by (rule mem_kept_zero_span [OF v d])
  show "pages_ok h s1" "os_maps s1 = (p, sz) # os_maps s" using page_alloc_mapped [OF assms] by auto
qed

lemma link_free_view: "link_free prev rest ds = Inr ds' \<Longrightarrow> view (ds' x) = view (ds x)"
  by (induction prev rest ds rule: link_free.induct)
    (auto simp: rbind_eq_Inr unwrap_def view_def split: option.splits if_splits)

lemma fold_default: "x \<in> set xs \<Longrightarrow> fold (\<lambda>d m. m(d := descriptor_default)) xs m x = descriptor_default"
proof (induction xs arbitrary: m)
  case (Cons y ys)
  have "x \<notin> set ys \<Longrightarrow> fold (\<lambda>d m. m(d := descriptor_default)) ys m' x = m' x" for m'
    by (induction ys arbitrary: m') auto
  then show ?case using Cons by (cases "x \<in> set ys") (auto simp del: fun_upd_apply, simp)
qed simp

text \<open>What \<^verbatim>\<open>Descriptor::alloc\<close> leaves as it was.\<close>

definition desc_frame :: "(usize \<Rightarrow> nat) \<Rightarrow> 's alloc_state_scheme \<Rightarrow> 's alloc_state_scheme \<Rightarrow> bool" where
  "desc_frame h s s' \<longleftrightarrow> heaps s' = heaps s \<and> sc_table s' = sc_table s \<and> sc_lookup s' = sc_lookup s \<and> pm_len s' = pm_len s \<and>
     page_map s' = page_map s \<and> alloc_state.more s' = alloc_state.more s \<and> set (os_maps s) \<subseteq> set (os_maps s') \<and> mem_kept s s' \<and>
     pages_ok h s' \<and> (\<forall>d. desc_kept h s d \<longrightarrow> desc_kept h s' d \<and> view (descs s' d) = view (descs s d) \<and> next_partial (descs s' d) = next_partial (descs s d)) \<and>
     (\<forall>d. super_block (descs s' d) \<noteq> None \<longrightarrow> super_block (descs s d) \<noteq> None) \<and>
     (\<forall>p len. hm_lookup h (size_map_or_new s) p = Some len \<longrightarrow> hm_lookup h (size_map_or_new s') p = Some len) \<and>
     (\<forall>p len. (p, len) \<in> set (os_maps s) \<longrightarrow> hm_lookup h (size_map_or_new s) p = None \<longrightarrow> hm_lookup h (size_map_or_new s') p = None)"

lemma desc_frameD:
  assumes "desc_frame h s s'"
  shows "heaps s' = heaps s" "sc_table s' = sc_table s" "sc_lookup s' = sc_lookup s" "pm_len s' = pm_len s" "page_map s' = page_map s"
    "alloc_state.more s' = alloc_state.more s" "set (os_maps s) \<subseteq> set (os_maps s')" "mem_kept s s'" "pages_ok h s'"
    "desc_kept h s d \<Longrightarrow> desc_kept h s' d" "desc_kept h s d \<Longrightarrow> view (descs s' d) = view (descs s d)"
    "desc_kept h s d \<Longrightarrow> next_partial (descs s' d) = next_partial (descs s d)"
    "super_block (descs s' d) \<noteq> None \<Longrightarrow> super_block (descs s d) \<noteq> None"
    "hm_lookup h (size_map_or_new s) p = Some len \<Longrightarrow> hm_lookup h (size_map_or_new s') p = Some len"
    "(p, l) \<in> set (os_maps s) \<Longrightarrow> hm_lookup h (size_map_or_new s) p = None \<Longrightarrow> hm_lookup h (size_map_or_new s') p = None"
  using assms unfolding desc_frame_def by blast+

lemma desc_kept_live: "pages_ok h s \<Longrightarrow> desc_kept h s d \<Longrightarrow> desc_live s d"
  unfolding desc_kept_def pages_ok_def desc_live_def by (metis fst_conv snd_conv)

lemma desc_alloc_new:
  fixes s :: "'s alloc_state_scheme"
  assumes "mmap_contract env" "pages_ok h s" "free_list s []" "desc_alloc env h s = Inr (d, s1)"
  shows "desc_frame h s s1 \<and> (\<exists>fs. free_list s1 fs \<and> d \<notin> set fs \<and>
    (\<forall>e \<in> insert d (set fs). desc_kept h s1 e \<and> \<not> desc_kept h s e \<and> super_block (descs s1 e) = None))"
proof -
  let ?sz = "of_nat DESCRIPTOR_BLOCK_SZ :: usize"
  obtain p s0 ds' where p: "page_alloc env h ?sz s = Inr (Inr p, s0)" "d = p"
    "link_free None (drop 1 (desc_block p (DESCRIPTOR_BLOCK_SZ div size_of_descriptor)))
       (fold (\<lambda>d m. m(d := descriptor_default)) (desc_block p (DESCRIPTOR_BLOCK_SZ div size_of_descriptor)) (descs s0)) = Inr ds'"
    "s1 = s0\<lparr>descs := ds', avail_desc := node_set (Some (p + of_nat size_of_descriptor)) 0\<rparr>"
    using assms(3,4) by (auto simp: desc_alloc_def free_list_def Let_def rbind_def split: sum.splits)
  note k = page_alloc_kept [OF assms(1,2) p(1)]
  have n: "DESCRIPTOR_BLOCK_SZ div size_of_descriptor = 512" by (simp add: mem_info_defs size_of_descriptor_def)
  have view: "super_block (descs s1 e) = None" if "e \<in> set (desc_block p 512)" for e
    using link_free_view [OF p(3), of e] fold_default [of e "desc_block p 512" "descs s0"] that
    by (simp add: p(4) n view_eq descriptor_default_def)
  obtain s2 where s2: "desc_alloc env h s = Inr (p, s2)" "free_list s2 (drop 1 (desc_block p 512))"
    "\<forall>d. d \<notin> set (desc_block p 512) \<longrightarrow> descs s2 d = descs s d"
    using desc_alloc_fresh [OF assms(1-3) p(1)] by blast
  then have s1: "s2 = s1" using assms(4) by simp
  have blk: "desc_block p 512 = p # drop 1 (desc_block p 512)" using desc_block_Cons [of p 511] by simp
  then have dist: "d \<notin> set (drop 1 (desc_block p 512))" "set (desc_block p 512) = insert d (set (drop 1 (desc_block p 512)))"
    using desc_block_ok(1) [OF k(5)] p(2) by (metis distinct.simps(2), metis list.simps(15))
  have fresh: "\<not> desc_kept h s e" if "e \<in> set (desc_block p 512)" for e
    using desc_block_fresh [OF k(5,2) that] desc_kept_live [OF assms(2)] by blast
  have sm: "size_map_or_new s1 = size_map_or_new s0" by (simp add: p(4) size_map_or_new_def)
  have kept: "desc_kept h s1 e" if e: "e \<in> set (desc_block p 512)" for e
  proof -
    obtain i where i: "i < 512" "e = p + of_nat (i * size_of_descriptor)" using e by (auto simp: desc_block_def)
    have "map_span ?sz = 65536" by (simp add: map_span_def round_up_def mem_info_defs)
    then have "unat p \<le> unat e" "unat e < unat p + map_span ?sz" using unat_desc_addr [OF k(5) i(1)] i by simp_all
    moreover have "hm_lookup h (size_map_or_new s1) p = Some ?sz" by (simp add: sm k(1))
    ultimately show ?thesis using desc_block_ok(2) [OF k(5)] e unfolding desc_kept_def by blast
  qed
  have nomap: "(p, len) \<notin> set (os_maps s)" for len
  proof
    assume m: "(p, len) \<in> set (os_maps s)"
    then have "valid_map (p, len)" using assms(2) maps_ok_valid by (auto simp: pages_ok_def)
    then show False using not_disjoint_same [OF k(5)] k(2) m by blast
  qed
  then have new: "hm_lookup h (size_map_or_new s) p = None" using assms(2) unfolding pages_ok_def by (meson not_None_eq)
  have "heaps s1 = heaps s \<and> sc_table s1 = sc_table s \<and> sc_lookup s1 = sc_lookup s \<and> pm_len s1 = pm_len s \<and>
      page_map s1 = page_map s \<and> alloc_state.more s1 = alloc_state.more s"
    using page_alloc_frame [OF p(1)] by (simp add: p(4))
  moreover have "mem_kept s s1" "pages_ok h s1" "os_maps s1 = (p, ?sz) # os_maps s"
    using k(3,4,6) by (simp_all add: p(4) mem_kept_def pages_ok_def size_map_or_new_def)
  moreover have same: "descs s1 e = descs s e" if "desc_kept h s e" for e using s2(3) fresh that unfolding s1 by blast
  moreover have "super_block (descs s e) \<noteq> None" if "super_block (descs s1 e) \<noteq> None" for e
    using that view s2(3) unfolding s1 by metis
  moreover have up: "hm_lookup h (size_map_or_new s1) q = Some len" if "hm_lookup h (size_map_or_new s) q = Some len" for q len
    using that new by (auto simp: sm k(1))
  moreover have "hm_lookup h (size_map_or_new s1) q = None"
    if "(q, len) \<in> set (os_maps s)" "hm_lookup h (size_map_or_new s) q = None" for q len
    using that nomap by (auto simp: sm k(1))
  moreover have "desc_kept h s1 e" if "desc_kept h s e" for e using that up by (rule desc_kept_mono)
  ultimately have "desc_frame h s s1" by (auto simp: desc_frame_def)
  moreover have "free_list s1 (drop 1 (desc_block p 512))" using s2(2) s1 by simp
  ultimately show ?thesis
    using dist view fresh kept by (intro conjI exI [of _ "drop 1 (desc_block p 512)"] ballI) simp_all
qed

lemma partial_rep_frame:
  assumes "partial_rep i s xs" "heaps s' = heaps s" "\<And>d. d \<in> set xs \<Longrightarrow> next_partial (descs s' d) = next_partial (descs s d)"
  shows "partial_rep i s' xs"
  using assms partial_chain_frame [of xs "descs s'" "descs s"] by (auto simp: partial_rep_def)

lemma base_ok_frame:
  assumes "base_ok h target s" "heaps s' = heaps s" "sc_table s' = sc_table s" "sc_lookup s' = sc_lookup s" "pm_len s' = pm_len s"
    "pages_ok h s'"
  shows "base_ok h target s'"
  using assms by (auto simp: base_ok_def tables_ok_def heap_class_def pm_ready_def)

lemma get_page_info_frame: "pm_len s' = pm_len s \<Longrightarrow> page_map s' = page_map s \<Longrightarrow> get_page_info a s' = get_page_info a s"
  by (simp add: get_page_info_def Let_def)

text \<open>The invariant of the descriptors as a whole.\<close>

lemma descs_ok_used: "base_ok h target s \<Longrightarrow> descs_ok h s P fs \<Longrightarrow> used_all_ok h target s"
  by (simp add: used_all_ok_def descs_ok_def)

lemma descs_okD:
  assumes "descs_ok h s P fs"
  shows "super_block (descs s d) = Some seg \<Longrightarrow> used_ok h s d seg" "small_sb s d i seg \<Longrightarrow> anchor_ok P i d (d_anchor (descs s d))"
    "free_list s fs" "d \<in> set fs \<Longrightarrow> desc_kept h s d \<and> super_block (descs s d) = None" "class_ix i \<Longrightarrow> partial_rep i s (P i)"
    "class_ix i \<Longrightarrow> d \<in> set (P i) \<Longrightarrow> listed_ok h s fs i d"
  using assms unfolding descs_ok_def by blast+

text \<open>The descriptors of a state whose frame is kept satisfy the invariant again, with any free list that
  has no used or listed descriptor.\<close>

lemma desc_frame_ok:
  assumes "base_ok h target s" "descs_ok h s P fs" "desc_frame h s s'" "free_list s' fs'"
    and "\<And>e. e \<in> set fs' \<Longrightarrow> desc_kept h s' e \<and> super_block (descs s' e) = None"
    and "\<And>e. e \<in> set fs' \<Longrightarrow> e \<in> set fs \<or> \<not> desc_kept h s e"
  shows "base_ok h target s' \<and> descs_ok h s' P fs' \<and> (\<forall>d i seg. small_sb s' d i seg \<longleftrightarrow> small_sb s d i seg) \<and>
    (\<forall>d seg. large_sb s' d seg \<longleftrightarrow> large_sb s d seg)"
proof -
  note fr = desc_frameD [OF assms(3)]
  have base: "base_ok h target s'" by (rule base_ok_frame [OF assms(1) fr(1-4,9)])
  have pi: "get_page_info a s' = get_page_info a s" for a by (rule get_page_info_frame [OF fr(4,5)])
  have all: "used_all_ok h target s" by (rule descs_ok_used [OF assms(1,2)])
  have kept: "desc_kept h s d" if "super_block (descs s d) = Some seg" for d seg
    using descs_okD(1) [OF assms(2) that] by (simp add: used_ok_def)
  have fwd: "view (descs s' d) = view (descs s d)" if "super_block (descs s d) = Some seg" for d seg by (rule fr(11) [OF kept [OF that]])
  have bwd: "super_block (descs s d) = Some seg" if d: "super_block (descs s' d) = Some seg" for d seg
  proof -
    obtain seg' where s: "super_block (descs s d) = Some seg'" using fr(13) [of d] d by auto
    then show ?thesis using fwd [OF s] d by (simp add: view_eq)
  qed
  have used: "used_ok h s' d seg" if d: "super_block (descs s' d) = Some seg" for d seg
  proof -
    have s: "super_block (descs s d) = Some seg" by (rule bwd [OF d])
    have u: "(seg_ptr seg, seg_length seg) \<in> set (os_maps s)" "hm_lookup h (size_map_or_new s) (seg_ptr seg) = None"
      using descs_okD(1) [OF assms(2) s] by (auto simp: used_ok_def)
    show ?thesis by (rule used_ok_frame [OF all s fwd [OF s] fr(2) pi fr(14) fr(15) [OF u] subsetD [OF fr(7) u(1)]])
  qed
  have small: "small_sb s' d i seg \<longleftrightarrow> small_sb s d i seg" for d i seg
    using bwd [of d seg] fwd [of d seg] by (auto simp: small_sb_def view_eq fr(2) pi)
  have large: "large_sb s' d seg \<longleftrightarrow> large_sb s d seg" for d seg
    using bwd [of d seg] fwd [of d seg] by (auto simp: large_sb_def view_eq pi)
  have anchor: "anchor_ok P i d (d_anchor (descs s' d))" if d: "small_sb s' d i seg" for d i seg
  proof -
    have s: "small_sb s d i seg" using d small by simp
    then show ?thesis using descs_okD(2) [OF assms(2) s] fwd [OF small_sb_block [OF s]] by (simp add: view_eq)
  qed
  have lists: "partial_rep i s' (P i) \<and> (\<forall>d \<in> set (P i). listed_ok h s' fs' i d)" if i: "class_ix i" for i
  proof -
    have l: "listed_ok h s fs i d" if "d \<in> set (P i)" for d by (rule descs_okD(6) [OF assms(2) i that])
    have "partial_rep i s' (P i)"
      using l by (intro partial_rep_frame [OF descs_okD(5) [OF assms(2) i] fr(1)] fr(12)) (simp add: listed_ok_def)
    moreover have "listed_ok h s' fs' i d" if d: "d \<in> set (P i)" for d
    proof -
      have k: "desc_kept h s d" "d \<notin> set fs" using l [OF d] by (auto simp: listed_ok_def)
      then show ?thesis using l [OF d] fr(10) [OF k(1)] fr(11) [OF k(1)] assms(6) [of d] by (auto simp: listed_ok_def view_eq)
    qed
    ultimately show ?thesis by blast
  qed
  show ?thesis using base used anchor assms(4,5) lists small large unfolding descs_ok_def by blast
qed

lemma desc_alloc_ok:
  fixes s :: "'s alloc_state_scheme"
  assumes "mmap_contract env" "base_ok h target s" "descs_ok h s P fs" "desc_alloc env h s = Inr (d, s1)"
  shows "desc_frame h s s1 \<and> (\<exists>fs1. base_ok h target s1 \<and> descs_ok h s1 P fs1 \<and> d \<notin> set fs1) \<and>
    (\<forall>i. class_ix i \<longrightarrow> d \<notin> set (P i)) \<and> desc_kept h s1 d \<and> super_block (descs s1 d) = None \<and>
    (\<forall>d i seg. small_sb s1 d i seg \<longleftrightarrow> small_sb s d i seg) \<and> (\<forall>d seg. large_sb s1 d seg \<longleftrightarrow> large_sb s d seg)"
proof (cases fs)
  case Nil
  have p: "pages_ok h s" "free_list s []" using assms(2) descs_okD(3) [OF assms(3)] Nil by (auto simp: base_ok_def)
  obtain fs1 where f: "desc_frame h s s1" "free_list s1 fs1" "d \<notin> set fs1"
    "\<And>e. e \<in> insert d (set fs1) \<Longrightarrow> desc_kept h s1 e \<and> \<not> desc_kept h s e \<and> super_block (descs s1 e) = None"
    using desc_alloc_new [OF assms(1) p assms(4)] by blast
  have "d \<notin> set (P i)" if "class_ix i" for i using descs_okD(6) [OF assms(3) that] f(4) by (auto simp: listed_ok_def)
  then show ?thesis using desc_frame_ok [OF assms(2,3) f(1,2)] f by auto
next
  case (Cons e fs1)
  then have fl: "free_list s (e # fs1)" using descs_okD(3) [OF assms(3)] by simp
  obtain s' where s': "desc_alloc env h s = Inr (e, s')" "free_list s' fs1" "s' = s\<lparr>avail_desc := avail_desc s'\<rparr>"
    using desc_alloc_Cons [OF fl] by blast
  then have eq: "e = d" "s1 = s\<lparr>avail_desc := avail_desc s1\<rparr>" "free_list s1 fs1" using assms(4) by auto
  have "size_map_or_new s1 = size_map_or_new s" by (subst eq(2)) (simp add: size_map_or_new_def)
  moreover have "pages_ok h s1" using assms(2) by (subst eq(2)) (simp add: base_ok_def pages_ok_def size_map_or_new_def)
  moreover have "mem_kept s s1" by (subst eq(2)) (simp add: mem_kept_def)
  moreover have k: "desc_kept h s1 x = desc_kept h s x" for x using calculation(1) by (simp add: desc_kept_def)
  moreover have v: "descs s1 = descs s" "heaps s1 = heaps s" "sc_table s1 = sc_table s" "sc_lookup s1 = sc_lookup s" "pm_len s1 = pm_len s"
    "page_map s1 = page_map s" "alloc_state.more s1 = alloc_state.more s" "os_maps s1 = os_maps s"
    by (subst eq(2), simp)+
  ultimately have f: "desc_frame h s s1" by (simp add: desc_frame_def)
  have d: "d \<in> set fs" "d \<notin> set fs1" using Cons eq(1) fl by (auto simp: free_list_def)
  then have "d \<notin> set (P i)" if "class_ix i" for i using descs_okD(6) [OF assms(3) that] by (auto simp: listed_ok_def)
  moreover have "set fs1 \<subseteq> set fs" using Cons by auto
  ultimately show ?thesis
    using desc_frame_ok [OF assms(2,3) f eq(3)] f d k v(1) descs_okD(4) [OF assms(3)] by (auto simp: subset_iff)
qed

end
