(* ===== verification/Ownership_Ops.thy ===== *)
theory Ownership_Ops
  imports Ownership_Frames
begin

text \<open>
  The changes of \<open>Ownership_Frames\<close> as the operations of the central reserve make them: a super block
  is added, given up, taken from or put on a partial list, and a descriptor is retired.
\<close>

section \<open>Changing one descriptor\<close>

lemma user_addr: "unat a < 2 ^ 47 \<Longrightarrow> unat (a :: usize) < 2 ^ 50"
  using power_strict_increasing [of 47 50 "2::nat"] by linarith

lemma used_range:
  assumes "used_all_ok h target s" "super_block (descs s e) = Some sg"
  shows "(seg_ptr sg, seg_length sg) \<in> set (os_maps s)" "valid_map (seg_ptr sg, seg_length sg)"
    "unat (seg_ptr sg) + map_span (seg_length sg) \<le> 2 ^ 47"
proof -
  show m: "(seg_ptr sg, seg_length sg) \<in> set (os_maps s)" using assms by (auto simp: used_all_ok_def used_ok_def)
  then show v: "valid_map (seg_ptr sg, seg_length sg)"
    using assms(1) maps_ok_valid by (auto simp: used_all_ok_def base_ok_def pages_ok_def)
  then show "unat (seg_ptr sg) + map_span (seg_length sg) \<le> 2 ^ 47" by (simp add: valid_map_def)
qed

text \<open>The addresses of a segment.\<close>

definition seg_range :: "segment \<Rightarrow> usize \<Rightarrow> bool" where
  "seg_range sg a \<longleftrightarrow> unat (seg_ptr sg) \<le> unat a \<and> unat a < unat (seg_ptr sg) + map_span (seg_length sg)"

text \<open>Only the descriptor \<open>d\<close> changes; the pages and the mappings of the others stay.\<close>

definition desc_change :: "(usize \<Rightarrow> nat) \<Rightarrow> usize \<Rightarrow> 's alloc_state_scheme \<Rightarrow> 's alloc_state_scheme \<Rightarrow> bool" where
  "desc_change h d s s' \<longleftrightarrow> size_map_or_new s' = size_map_or_new s \<and> heaps s' = heaps s \<and> sc_table s' = sc_table s \<and>
     sc_lookup s' = sc_lookup s \<and> pm_len s' = pm_len s \<and> avail_desc s' = avail_desc s \<and> pages_ok h s' \<and>
     (\<forall>e. e \<noteq> d \<longrightarrow> descs s' e = descs s e) \<and>
     (\<forall>e sg. e \<noteq> d \<longrightarrow> super_block (descs s e) = Some sg \<longrightarrow> (seg_ptr sg, seg_length sg) \<in> set (os_maps s') \<and>
        (\<forall>a. seg_range sg a \<longrightarrow> get_page_info a s' = get_page_info a s))"

lemma desc_changeD:
  assumes "desc_change h d s s'"
  shows "size_map_or_new s' = size_map_or_new s" "heaps s' = heaps s" "sc_table s' = sc_table s" "sc_lookup s' = sc_lookup s"
    "pm_len s' = pm_len s" "avail_desc s' = avail_desc s" "pages_ok h s'" "e \<noteq> d \<Longrightarrow> descs s' e = descs s e"
    "e \<noteq> d \<Longrightarrow> super_block (descs s e) = Some sg \<Longrightarrow> (seg_ptr sg, seg_length sg) \<in> set (os_maps s')"
    "e \<noteq> d \<Longrightarrow> super_block (descs s e) = Some sg \<Longrightarrow> seg_range sg a \<Longrightarrow> get_page_info a s' = get_page_info a s"
  using assms unfolding desc_change_def by blast+

lemma desc_change_sb:
  assumes "used_all_ok h target s" "desc_change h d s s'" "e \<noteq> d"
  shows "small_sb s' e i sg \<longleftrightarrow> small_sb s e i sg" "large_sb s' e sg \<longleftrightarrow> large_sb s e sg"
    "super_block (descs s' e) = Some sg \<Longrightarrow> used_ok h s' e sg"
proof -
  note c = desc_changeD [OF assms(2)]
  have iff: "super_block (descs s' e) = Some sg \<longleftrightarrow> super_block (descs s e) = Some sg" using c(8) [OF assms(3)] by simp
  have info: "get_page_info a s' = get_page_info a s" if "super_block (descs s e) = Some sg" "seg_range sg a" for a
    by (rule c(10) [OF assms(3) that])
  have span: "map_span (seg_length sg) = sc_sb_size (sc_table s ! i)" if "class_ix i" "seg_length sg = of_nat (sc_sb_size (sc_table s ! i))"
    using map_span_pages class_facts(1) [OF _ that(1)] assms(1) that(2) by (auto simp: used_all_ok_def class_ok_def)
  then show "small_sb s' e i sg \<longleftrightarrow> small_sb s e i sg"
    using c(8) [OF assms(3)] info by (auto simp: small_sb_def c(3) in_block_def seg_range_def)
  have first: "get_page_info (seg_ptr sg) s' = get_page_info (seg_ptr sg) s" if "super_block (descs s e) = Some sg"
    using info [OF that] map_span_pos [OF used_range(2) [OF assms(1) that]] by (simp add: seg_range_def)
  then show "large_sb s' e sg \<longleftrightarrow> large_sb s e sg" using c(8) [OF assms(3)] by (auto simp: large_sb_def)
  assume "super_block (descs s' e) = Some sg"
  then have e: "super_block (descs s e) = Some sg" "view (descs s' e) = view (descs s e)" using iff c(8) [OF assms(3)] by simp_all
  then have "hm_lookup h (size_map_or_new s') (seg_ptr sg) = None" using assms(1) c(1) by (simp add: used_all_ok_def used_ok_def)
  then show "used_ok h s' e sg"
    using info [OF e(1)] c(1) by (intro used_ok_frame [OF assms(1) e c(3) _ _ _ c(9) [OF assms(3) e(1)]]) (simp_all add: seg_range_def)
qed

lemma desc_change_ok:
  assumes "base_ok h target s" "descs_ok h s P fs" "desc_change h d s s'" "d \<notin> set fs"
    and "\<And>seg. super_block (descs s' d) = Some seg \<Longrightarrow> used_ok h s' d seg"
    and "\<And>i seg. small_sb s' d i seg \<Longrightarrow> anchor_ok P i d (d_anchor (descs s' d))"
    and "\<And>i. class_ix i \<Longrightarrow> d \<in> set (P i) \<Longrightarrow> listed_ok h s' fs i d \<and> next_partial (descs s' d) = next_partial (descs s d)"
  shows "base_ok h target s'" "descs_ok h s' P fs"
proof -
  note c = desc_changeD [OF assms(3)]
  have all: "used_all_ok h target s" by (rule descs_ok_used [OF assms(1,2)])
  note sb = desc_change_sb [OF all assms(3)]
  have kept: "desc_kept h s' e = desc_kept h s e" for e by (simp add: desc_kept_def c(1))
  show "base_ok h target s'" by (rule base_ok_frame [OF assms(1) c(2-5,7)])
  have used: "used_ok h s' e sg" if "super_block (descs s' e) = Some sg" for e sg
    using that assms(5) sb(3) by (cases "e = d") auto
  have anchor: "anchor_ok P i e (d_anchor (descs s' e))" if "small_sb s' e i sg" for e i sg
    using that assms(6) sb(1) descs_okD(2) [OF assms(2)] c(8) by (cases "e = d") auto
  have fl: "free_list s' fs"
    using descs_okD(3) [OF assms(2)] desc_list_frame [of fs "descs s'" "descs s"] assms(4) c(6,8) by (metis free_list_def)
  have free: "desc_kept h s' e \<and> super_block (descs s' e) = None" if "e \<in> set fs" for e
  proof -
    have "e \<noteq> d" using that assms(4) by auto
    then show ?thesis using descs_okD(4) [OF assms(2) that] c(8) kept by simp
  qed
  have "partial_rep i s' (P i) \<and> (\<forall>e \<in> set (P i). listed_ok h s' fs i e)" if i: "class_ix i" for i
  proof -
    have "next_partial (descs s' e) = next_partial (descs s e)" if "e \<in> set (P i)" for e
      using assms(7) [OF i] that c(8) by (cases "e = d") auto
    moreover have "listed_ok h s' fs i e" if "e \<in> set (P i)" for e
      using assms(7) [OF i] that descs_okD(6) [OF assms(2) i that] c(8) by (cases "e = d") (auto simp: listed_ok_def kept)
    ultimately show ?thesis using partial_rep_frame [OF descs_okD(5) [OF assms(2) i] c(2)] by blast
  qed
  then show "descs_ok h s' P fs" using used anchor fl free unfolding descs_ok_def by blast
qed

section \<open>New and released super blocks\<close>

text \<open>A descriptor that was not in use gets a super block in a mapping that no other descriptor uses.\<close>

lemma use_mapping_ok:
  fixes s :: "'s alloc_state_scheme"
  assumes base: "base_ok h target s" and ok: "descs_ok h s P fs"
    and d: "desc_kept h s d" "super_block (descs s d) = None" "d \<notin> set fs" "\<And>i. class_ix i \<Longrightarrow> d \<notin> set (P i)"
    and s': "s' = s\<lparr>os_calls := n, mem := m, os_maps := ms, descs := (descs s)(d := r), page_map := pm\<rparr>"
    and maps: "pages_ok h s'" "set (os_maps s) \<subseteq> set ms" "(p, len) \<in> set ms" "hm_lookup h (size_map_or_new s) p = None"
      "\<And>e sg. super_block (descs s e) = Some sg \<Longrightarrow> maps_disjoint (p, len) (seg_ptr sg, seg_length sg)"
    and r: "super_block r = Some seg" "seg_ptr seg = p" "seg_length seg = len"
    and pm: "\<And>a. unat a < 2 ^ 50 \<Longrightarrow> \<not> seg_range seg a \<Longrightarrow> pm (addr_to_key a) = page_map s (addr_to_key a)"
    and new: "(\<exists>i. small_sb s' d i seg) \<or> large_sb s' d seg" "\<And>i. small_sb s' d i seg \<Longrightarrow> anchor_ok P i d (d_anchor r)"
  shows "desc_change h d s s' \<and> base_ok h target s' \<and> descs_ok h s' P fs"
proof -
  have all: "used_all_ok h target s" by (rule descs_ok_used [OF base ok])
  have pr: "pm_ready s" "pm_ready s'" using base by (simp_all add: base_ok_def s' pm_ready_def)
  have same: "size_map_or_new s' = size_map_or_new s" "os_maps s' = ms" "descs s' = (descs s)(d := r)" "page_map s' = pm"
    by (simp_all add: s' size_map_or_new_def)
  have "get_page_info a s' = get_page_info a s" if "super_block (descs s e) = Some sg" "seg_range sg a" for e sg a
  proof -
    have "\<not> seg_range seg a" using maps(5) [OF that(1)] that(2) r(2,3) by (auto simp: maps_disjoint_def seg_range_def)
    then have "pm (addr_to_key a) = page_map s (addr_to_key a)"
      using pm user_addr [of a] used_range(3) [OF all that(1)] that(2) by (simp add: seg_range_def)
    then show ?thesis using pr by (simp add: get_page_info_ready same(4))
  qed
  moreover have "(seg_ptr sg, seg_length sg) \<in> set (os_maps s')" if "super_block (descs s e) = Some sg" for e sg
    using used_range(1) [OF all that] maps(2) by (auto simp: same(2))
  ultimately have ch: "desc_change h d s s'" using same maps(1) by (auto simp: desc_change_def s')
  have "used_ok h s' d seg" using d(1) new(1) r maps(3,4) by (auto simp: used_ok_def same(1,2) desc_kept_def)
  then show ?thesis
    using ch desc_change_ok [OF base ok ch d(3)] new(2) r(1) d(4) small_sb_block [of s' d] by (auto simp: same(3))
qed

text \<open>In particular, in a mapping that is new.\<close>

lemma unmapped_unknown:
  assumes "pages_ok h s" "valid_map (p, len)" "\<forall>r \<in> set (os_maps s). maps_disjoint (p, len) r"
  shows "hm_lookup h (size_map_or_new s) p = None"
proof -
  have "(p, l) \<notin> set (os_maps s)" for l
    using assms not_disjoint_same [OF assms(2)] maps_ok_valid by (fastforce simp: pages_ok_def)
  then show ?thesis using assms(1) unfolding pages_ok_def by (meson not_None_eq)
qed

lemma add_used_ok:
  fixes s :: "'s alloc_state_scheme"
  assumes base: "base_ok h target s" and ok: "descs_ok h s P fs"
    and map: "valid_map (p, len)" "\<forall>r \<in> set (os_maps s). maps_disjoint (p, len) r"
    and d: "desc_kept h s d" "super_block (descs s d) = None" "d \<notin> set fs" "\<And>i. class_ix i \<Longrightarrow> d \<notin> set (P i)"
    and s': "s' = s\<lparr>os_calls := n, mem := m, os_maps := (p, len) # os_maps s, descs := (descs s)(d := r), page_map := pm\<rparr>"
    and r: "super_block r = Some seg" "seg_ptr seg = p" "seg_length seg = len"
    and pm: "\<And>a. unat a < 2 ^ 50 \<Longrightarrow> \<not> seg_range seg a \<Longrightarrow> pm (addr_to_key a) = page_map s (addr_to_key a)"
    and new: "(\<exists>i. small_sb s' d i seg) \<or> large_sb s' d seg" "\<And>i. small_sb s' d i seg \<Longrightarrow> anchor_ok P i d (d_anchor r)"
  shows "desc_change h d s s' \<and> base_ok h target s' \<and> descs_ok h s' P fs"
proof (rule use_mapping_ok [OF base ok d s' _ _ _ _ _ r pm new])
  have pg: "pages_ok h s" using base by (simp add: base_ok_def)
  then show "pages_ok h s'" using map by (auto simp: pages_ok_def s' size_map_or_new_def)
  show "hm_lookup h (size_map_or_new s) p = None" by (rule unmapped_unknown [OF pg map])
  show "maps_disjoint (p, len) (seg_ptr sg, seg_length sg)" if "super_block (descs s e) = Some sg" for e sg
    using map(2) used_range(1) [OF descs_ok_used [OF base ok] that] by blast
qed auto

text \<open>A descriptor gives its super block up, and the mapping goes.\<close>

lemma remove_used_ok:
  fixes s :: "'s alloc_state_scheme"
  assumes base: "base_ok h target s" and ok: "descs_ok h s P fs"
    and d: "super_block (descs s d) = Some seg" "d \<notin> set fs"
    and s': "s' = s\<lparr>os_calls := n, mem := m, os_maps := removeAll (seg_ptr seg, seg_length seg) (os_maps s),
      descs := (descs s)(d := r), page_map := pm\<rparr>"
    and r: "super_block r = None" "proc_heap r = proc_heap (descs s d)" "next_partial r = next_partial (descs s d)"
      "proc_heap r \<noteq> None \<Longrightarrow> a_state (d_anchor r) = EMPTY"
    and pm: "\<And>a. unat a < 2 ^ 50 \<Longrightarrow> \<not> seg_range seg a \<Longrightarrow> pm (addr_to_key a) = page_map s (addr_to_key a)"
  shows "desc_change h d s s' \<and> base_ok h target s' \<and> descs_ok h s' P fs"
proof -
  have all: "used_all_ok h target s" by (rule descs_ok_used [OF base ok])
  have pg: "pages_ok h s" and pr: "pm_ready s" "pm_ready s'" using base by (simp_all add: base_ok_def s' pm_ready_def)
  have same: "size_map_or_new s' = size_map_or_new s" "os_maps s' = removeAll (seg_ptr seg, seg_length seg) (os_maps s)"
    "descs s' = (descs s)(d := r)" "page_map s' = pm"
    by (simp_all add: s' size_map_or_new_def)
  have "hm_lookup h (size_map_or_new s) (seg_ptr seg) = None" using all d(1) by (simp add: used_all_ok_def used_ok_def)
  then have "pages_ok h s'" using pg maps_ok_removeAll by (auto simp: pages_ok_def same(1,2))
  moreover have dis: "maps_disjoint (seg_ptr seg, seg_length seg) (seg_ptr sg, seg_length sg)"
    if "e \<noteq> d" "super_block (descs s e) = Some sg" for e sg
    using used_apart [OF all d(1) that(2)] that(1) by simp
  have "get_page_info a s' = get_page_info a s" if "e \<noteq> d" "super_block (descs s e) = Some sg" "seg_range sg a" for e sg a
  proof -
    have "\<not> seg_range seg a" using dis [OF that(1,2)] that(3) by (auto simp: maps_disjoint_def seg_range_def)
    then have "pm (addr_to_key a) = page_map s (addr_to_key a)"
      using pm user_addr [of a] used_range(3) [OF all that(2)] that(3) by (simp add: seg_range_def)
    then show ?thesis using pr by (simp add: get_page_info_ready same(4))
  qed
  moreover have "(seg_ptr sg, seg_length sg) \<in> set (os_maps s')" if "e \<noteq> d" "super_block (descs s e) = Some sg" for e sg
  proof -
    have "(seg_ptr sg, seg_length sg) \<noteq> (seg_ptr seg, seg_length seg)"
      using dis [OF that] not_disjoint_same [OF used_range(2) [OF all d(1)] used_range(2) [OF all d(1)]] by auto
    then show ?thesis using used_range(1) [OF all that(2)] by (simp add: same(2))
  qed
  ultimately have ch: "desc_change h d s s'" using same by (auto simp: desc_change_def s')
  moreover have "listed_ok h s' fs i d" if "class_ix i" "d \<in> set (P i)" for i
    using descs_okD(6) [OF ok that] r(1,2,4) by (auto simp: listed_ok_def same(1,3) desc_kept_def)
  ultimately show ?thesis
    using desc_change_ok [OF base ok ch d(2)] r small_sb_block [of s' d] by (auto simp: same(3))
qed

section \<open>Partial lists and the free list\<close>

lemma mem_frames [simp]:
  "small_sb (s\<lparr>mem := m\<rparr>) = small_sb s" "large_sb (s\<lparr>mem := m\<rparr>) = large_sb s" "blocks (s\<lparr>mem := m\<rparr>) = blocks s"
  "class_block (s\<lparr>mem := m\<rparr>) = class_block s" "desc_kept h (s1\<lparr>mem := m\<rparr>) = desc_kept h s1"
  by (auto simp: fun_eq_iff small_sb_def large_sb_def blocks_def class_block_def get_page_info_def desc_kept_def size_map_or_new_def Let_def)

lemma mem_frames_ok [simp]:
  "base_ok h target (s\<lparr>mem := m\<rparr>) = base_ok h target s" "descs_ok h (s\<lparr>mem := m\<rparr>) P fs = descs_ok h s P fs"
  "used_all_ok h target (s\<lparr>mem := m\<rparr>) = used_all_ok h target s"
  by (simp_all add: base_ok_def used_all_ok_def descs_ok_def used_ok_def listed_ok_def pm_ready_def tables_ok_def heap_class_def
      partial_rep_def free_list_def pages_ok_def size_map_or_new_def)

text \<open>The lists and one descriptor change, its super block and class do not.\<close>

lemma relist_ok:
  fixes s :: "'s alloc_state_scheme"
  assumes ok: "base_ok h target s" "descs_ok h s P fs"
    and s': "s' = s\<lparr>heaps := hs, descs := (descs s)(d := r)\<rparr>" "\<And>i. class_ix i \<Longrightarrow> heap_class s' i (sc_table s' ! i)"
    and r: "super_block r = super_block (descs s d)" "proc_heap r = proc_heap (descs s d)" "block_size r = block_size (descs s d)"
      "max_count r = max_count (descs s d)"
    and d: "d \<notin> set fs" "\<And>i seg. small_sb s d i seg \<Longrightarrow> anchor_ok P' i d (d_anchor r)" "\<And>i. class_ix i \<Longrightarrow> d \<in> set (P' i) \<Longrightarrow> listed_ok h s' fs i d"
    and P': "\<And>i. class_ix i \<Longrightarrow> partial_rep i s' (P' i)" "\<And>i e. e \<noteq> d \<Longrightarrow> e \<in> set (P' i) \<longleftrightarrow> e \<in> set (P i)"
  shows "base_ok h target s' \<and> descs_ok h s' P' fs \<and> small_sb s' = small_sb s \<and> large_sb s' = large_sb s"
proof -
  have same: "size_map_or_new s' = size_map_or_new s" "sc_table s' = sc_table s" "os_maps s' = os_maps s" "descs s' = (descs s)(d := r)"
    "get_page_info a s' = get_page_info a s" "avail_desc s' = avail_desc s" for a
    by (simp_all add: s'(1) size_map_or_new_def get_page_info_def Let_def)
  have base: "base_ok h target s'"
    using ok(1) s'(2) by (simp add: base_ok_def) (simp add: s'(1) pm_ready_def pages_ok_def tables_ok_def size_map_or_new_def)
  have small: "small_sb s' = small_sb s" using r by (auto simp: fun_eq_iff small_sb_def same)
  have large: "large_sb s' = large_sb s" using r by (auto simp: fun_eq_iff large_sb_def same)
  have used: "used_ok h s' e sg" if "super_block (descs s' e) = Some sg" for e sg
  proof -
    have "super_block (descs s e) = Some sg" using that r(1) by (auto simp: same split: if_splits)
    then have "used_ok h s e sg" by (rule descs_okD(1) [OF ok(2)])
    then show ?thesis by (simp add: used_ok_def desc_kept_def same small large)
  qed
  have anchor: "anchor_ok P' i e (d_anchor (descs s' e))" if e: "small_sb s' e i sg" for e i sg
    using e d(2) descs_okD(2) [OF ok(2), of e i sg] P'(2) [of e i] by (cases "e = d") (auto simp: small same anchor_ok_def)
  have "free_list s fs" "\<And>e. e \<in> set fs \<Longrightarrow> desc_kept h s e \<and> super_block (descs s e) = None"
    using descs_okD(3,4) [OF ok(2)] by blast+
  moreover have "desc_list (descs s') (avail_desc s) fs = desc_list (descs s) (avail_desc s) fs"
    using d(1) by (intro desc_list_frame) (auto simp: same)
  ultimately have free: "free_list s' fs" "\<And>e. e \<in> set fs \<Longrightarrow> desc_kept h s' e \<and> super_block (descs s' e) = None"
    using d(1) r(1) by (auto simp: free_list_def same desc_kept_def)
  have "listed_ok h s' fs i e" if "class_ix i" "e \<in> set (P' i)" for i e
  proof (cases "e = d")
    case True
    then show ?thesis using d(3) that by simp
  next
    case False
    then have "listed_ok h s fs i e" using descs_okD(6) [OF ok(2) that(1)] that(2) P'(2) by blast
    then show ?thesis using False by (simp add: listed_ok_def desc_kept_def same)
  qed
  then show ?thesis using base used anchor free P'(1) small large unfolding descs_ok_def by blast
qed

lemma retire_ok:
  fixes s :: "'s alloc_state_scheme"
  assumes ok: "base_ok h target s" "descs_ok h s P fs"
    and d: "desc_kept h s d" "super_block (descs s d) = None" "d \<notin> set fs" "\<And>i. class_ix i \<Longrightarrow> d \<notin> set (P i)"
  shows "base_ok h target (retire d s) \<and> descs_ok h (retire d s) P (d # fs) \<and> small_sb (retire d s) = small_sb s \<and>
    large_sb (retire d s) = large_sb s"
proof -
  let ?s = "retire d s"
  have same: "size_map_or_new ?s = size_map_or_new s" "sc_table ?s = sc_table s" "os_maps ?s = os_maps s" "heaps ?s = heaps s"
    "get_page_info a ?s = get_page_info a s" "sc_lookup ?s = sc_lookup s" "pm_len ?s = pm_len s" "size_map ?s = size_map s" for a
    by (simp_all add: retire_def Let_def size_map_or_new_def get_page_info_def)
  have sb: "super_block (descs ?s e) = super_block (descs s e)" "proc_heap (descs ?s e) = proc_heap (descs s e)" for e
    by (simp_all add: retire_def Let_def)
  have base: "base_ok h target ?s"
    using ok(1) by (intro base_ok_frame [OF ok(1) same(4,2,6,7)]) (simp add: base_ok_def pages_ok_def same)
  have small: "small_sb ?s = small_sb s" using d(2) by (auto simp: fun_eq_iff small_sb_def same sb, (metis not_None_eq retire_simps(4))+)
  have large: "large_sb ?s = large_sb s" using d(2) by (auto simp: fun_eq_iff large_sb_def same sb, (metis not_None_eq retire_simps(4))+)
  have kept: "desc_kept h ?s e = desc_kept h s e" for e by (simp add: desc_kept_def same)
  have "used_ok h ?s e sg" if "super_block (descs ?s e) = Some sg" for e sg
    using descs_okD(1) [OF ok(2)] that by (simp add: used_ok_def kept same small large sb)
  moreover have "anchor_ok P i e (d_anchor (descs ?s e))" if "small_sb ?s e i sg" for e i sg
    using descs_okD(2) [OF ok(2)] that by (simp add: small)
  moreover have "free_list ?s (d # fs)"
    using retire_free_list [OF descs_okD(3) [OF ok(2)]] d(1,3) by (simp add: desc_kept_def)
  moreover have "desc_kept h ?s e \<and> super_block (descs ?s e) = None" if "e \<in> set (d # fs)" for e
    using that d(1,2) descs_okD(4) [OF ok(2)] by (auto simp: kept sb)
  moreover have "partial_rep i ?s (P i) \<and> (\<forall>e \<in> set (P i). listed_ok h ?s (d # fs) i e)" if i: "class_ix i" for i
    using partial_rep_retire [OF descs_okD(5) [OF ok(2) i]] descs_okD(6) [OF ok(2) i] d(4) [OF i] by (auto simp: listed_ok_def kept sb)
  ultimately show ?thesis using base small large unfolding descs_ok_def by blast
qed

lemma partial_chain_unique: "partial_chain ds n xs \<Longrightarrow> partial_chain ds n ys \<Longrightarrow> xs = ys"
proof (induction xs arbitrary: n ys)
  case Nil
  then show ?case by (cases ys) auto
next
  case (Cons x xs)
  then show ?case by (cases ys) auto
qed

lemma partial_rep_unique: "partial_rep i s xs \<Longrightarrow> partial_rep i s ys \<Longrightarrow> xs = ys"
  unfolding partial_rep_def using partial_chain_unique by (metis option.inject)

text \<open>Taking the first descriptor off a partial list, which is then full or has no super block.\<close>

lemma heap_class_partial:
  assumes "heap_class s i c" "heaps s = Some hs" "hi < length hs" "heaps s' = Some (hs[hi := (hs ! hi)\<lparr>partial_list := n\<rparr>])" "sc_table s' = sc_table s"
  shows "heap_class s' i c"
  using assms by (cases "i = hi") (auto simp: heap_class_def)

lemma pop_first_ok:
  fixes s :: "'s alloc_state_scheme"
  assumes ok: "base_ok h target s" "descs_ok h s P fs" "class_ix i" "P i = d # xs"
    and a: "super_block (descs s d) = None \<or> a_state a = FULL \<and> a_count a = 0 \<and> a_avail a < 2 ^ 30"
  shows "\<exists>s1. list_pop_partial i s = Inr (Some d, s1) \<and> descs s1 = descs s \<and> mem s1 = mem s \<and> alloc_state.more s1 = alloc_state.more s \<and>
    os_maps s1 = os_maps s \<and> sc_table s1 = sc_table s \<and>
    (let s' = upd_desc d (\<lambda>q. q\<lparr>d_anchor := a\<rparr>) s1 in
     base_ok h target s' \<and> descs_ok h s' (P(i := xs)) fs \<and> small_sb s' = small_sb s \<and> large_sb s' = large_sb s)"
proof -
  have rep: "partial_rep i s (d # xs)" using descs_okD(5) [OF ok(2,3)] ok(4) by simp
  obtain s1 where s1: "list_pop_partial i s = Inr (Some d, s1)" "partial_rep i s1 xs" "descs s1 = descs s"
    using list_pop_partial_rep [OF rep] by blast
  have "s1 \<noteq> s"
  proof
    assume "s1 = s"
    then have "xs = d # xs" using partial_rep_unique [OF _ rep] s1(2) by simp
    then show False by simp
  qed
  then obtain hs n where hs: "heaps s = Some hs" "i < length hs" "s1 = s\<lparr>heaps := Some (hs[i := (hs ! i)\<lparr>partial_list := n\<rparr>])\<rparr>"
    using list_pop_partial_heaps [OF s1(1)] by blast
  let ?s' = "upd_desc d (\<lambda>q. q\<lparr>d_anchor := a\<rparr>) s1" and ?r = "(descs s d)\<lparr>d_anchor := a\<rparr>"
  have eq: "?s' = s\<lparr>heaps := Some (hs[i := (hs ! i)\<lparr>partial_list := n\<rparr>]), descs := (descs s)(d := ?r)\<rparr>"
    by (simp add: upd_desc_def hs(3))
  have l: "listed_ok h s fs i d" using descs_okD(6) [OF ok(2,3)] ok(4) by simp
  have lists: "d \<notin> set ((P(i := xs)) k)" if "class_ix k" for k
    using partial_rep_addr [OF rep] descs_okD(6) [OF ok(2) that, of d] l by (auto simp: listed_ok_def)
  have "partial_rep k ?s' ((P(i := xs)) k)" if k: "class_ix k" for k
  proof (cases "k = i")
    case True
    then show ?thesis using partial_rep_frame [OF s1(2), of ?s'] by (simp add: hs(3))
  next
    case False
    have "partial_rep k s1 (P k)" using descs_okD(5) [OF ok(2) k] False hs by (auto simp: partial_rep_def)
    then show ?thesis using partial_rep_frame [of k s1 "P k" ?s'] False by simp
  qed
  moreover have "heap_class ?s' k (sc_table ?s' ! k)" if "class_ix k" for k
    using heap_class_partial [OF class_facts(6) [OF ok(1) that] hs(1,2), of ?s' n] by (simp add: hs(3))
  moreover have "anchor_ok (P(i := xs)) k d (d_anchor ?r)" if "small_sb s d k seg" for k seg
    using that a by (auto simp: anchor_ok_def small_sb_def)
  moreover have "e \<in> set ((P(i := xs)) k) \<longleftrightarrow> e \<in> set (P k)" if "e \<noteq> d" for k e using that ok(4) by simp
  ultimately have "base_ok h target ?s' \<and> descs_ok h ?s' (P(i := xs)) fs \<and> small_sb ?s' = small_sb s \<and> large_sb ?s' = large_sb s"
    using l lists by (intro relist_ok [OF ok(1,2) eq]) (auto simp: listed_ok_def)
  then show ?thesis using s1(1,3) hs(3) by (simp add: Let_def)
qed

text \<open>A descriptor that was full goes on the partial list of its class.\<close>

lemma push_full_ok:
  fixes s :: "'s alloc_state_scheme"
  assumes ok: "base_ok h target s" "descs_ok h s P fs" "small_sb s d i seg" "a_state (d_anchor (descs s d)) = FULL"
    and a: "a_state a = PARTIAL" "0 < a_count a" "a_avail a < 2 ^ 30"
  shows "\<exists>s'. heap_push_partial d (upd_desc d (\<lambda>q. q\<lparr>d_anchor := a\<rparr>) s) = Inr s' \<and> base_ok h target s' \<and> descs_ok h s' (P(i := d # P i)) fs \<and>
    small_sb s' = small_sb s \<and> large_sb s' = large_sb s \<and> mem s' = mem s \<and> os_maps s' = os_maps s \<and> sc_table s' = sc_table s \<and>
    alloc_state.more s' = alloc_state.more s \<and> d_anchor (descs s' d) = a \<and> (\<forall>e. e \<noteq> d \<longrightarrow> descs s' e = descs s e)"
proof -
  have i: "class_ix i" and sb: "super_block (descs s d) = Some seg" "proc_heap (descs s d) = Some i" using ok(3) by (auto simp: small_sb_def)
  have rep: "partial_rep i s (P i)" by (rule descs_okD(5) [OF ok(2) i])
  have u: "used_ok h s d seg" by (rule descs_okD(1) [OF ok(2) sb(1)])
  then have kept: "desc_kept h s d" "desc_addr d" by (simp_all add: used_ok_def desc_kept_def)
  have out: "d \<notin> set (P k)" if "class_ix k" for k using descs_okD(6) [OF ok(2) that] ok(4) by (auto simp: listed_ok_def split: if_splits)
  have nf: "d \<notin> set fs" using descs_okD(4) [OF ok(2)] sb(1) by auto
  obtain hs where hs: "heaps s = Some hs" "i < length hs" "partial_chain (descs s) (partial_list (hs ! i)) (P i)"
    using rep by (auto simp: partial_rep_def)
  define n where "n = node_set (Some d) (case partial_list (hs ! i) of None \<Rightarrow> 0 | Some n \<Rightarrow> node_get_counter n + 1)"
  define r where "r = (descs s d)\<lparr>d_anchor := a, next_partial := partial_list (hs ! i)\<rparr>"
  define s' where "s' = s\<lparr>heaps := Some (hs[i := (hs ! i)\<lparr>partial_list := Some n\<rparr>]), descs := (descs s)(d := r)\<rparr>"
  have push: "heap_push_partial d (upd_desc d (\<lambda>q. q\<lparr>d_anchor := a\<rparr>) s) = Inr s'"
    using hs(1,2) sb(2) by (simp add: heap_push_partial_def list_push_partial_def get_heap_at_def put_heap_at_def upd_desc_def
        s'_def n_def r_def Let_def)
  have "partial_rep k s' ((P(i := d # P i)) k)" if k: "class_ix k" for k
  proof (cases "k = i")
    case True
    have "partial_chain (descs s') (partial_list (hs ! i)) (P i)"
      using hs(3) out [OF i] by (subst partial_chain_frame [of _ _ "descs s"]) (auto simp: s'_def)
    then show ?thesis using True hs(2) out [OF i] kept(2) by (simp add: partial_rep_def s'_def n_def r_def)
  next
    case False
    have "partial_chain (descs s') m (P k) = partial_chain (descs s) m (P k)" for m
      using out [OF k] by (intro partial_chain_frame) (auto simp: s'_def)
    then show ?thesis using descs_okD(5) [OF ok(2) k] False hs(1) by (auto simp: partial_rep_def s'_def)
  qed
  moreover have "heap_class s' k (sc_table s' ! k)" if "class_ix k" for k
    using heap_class_partial [OF class_facts(6) [OF ok(1) that] hs(1,2), of s' "Some n"] by (simp add: s'_def)
  moreover have "listed_ok h s' fs k d" if k: "class_ix k" "d \<in> set ((P(i := d # P i)) k)" for k
  proof -
    have "k = i" using out [OF k(1)] k(2) by (auto split: if_splits)
    then show ?thesis using kept(1) nf sb a(1) by (simp add: listed_ok_def s'_def r_def desc_kept_def size_map_or_new_def)
  qed
  moreover have "anchor_ok (P(i := d # P i)) k d (d_anchor r)" if "small_sb s d k sg" for k sg
    using that sb(2) a by (simp add: anchor_ok_def r_def small_sb_def)
  moreover have "e \<in> set ((P(i := d # P i)) k) \<longleftrightarrow> e \<in> set (P k)" if "e \<noteq> d" for k e using that by simp
  ultimately have "base_ok h target s' \<and> descs_ok h s' (P(i := d # P i)) fs \<and> small_sb s' = small_sb s \<and> large_sb s' = large_sb s"
    using nf by (intro relist_ok [OF ok(1,2) s'_def]) (simp_all add: r_def)
  then show ?thesis using push by (simp add: s'_def r_def)
qed

text \<open>The anchor of a super block that is on a partial list changes.\<close>

lemma anchor_change_ok:
  fixes s :: "'s alloc_state_scheme"
  assumes ok: "base_ok h target s" "descs_ok h s P fs" "small_sb s d i seg" "a_state (d_anchor (descs s d)) = PARTIAL"
    and a: "a_state a = PARTIAL" "0 < a_count a" "a_avail a < 2 ^ 30" and s': "s' = upd_desc d (\<lambda>q. q\<lparr>d_anchor := a\<rparr>) s"
  shows "base_ok h target s' \<and> descs_ok h s' P fs \<and> small_sb s' = small_sb s \<and> large_sb s' = large_sb s"
proof -
  have sb: "super_block (descs s d) = Some seg" "proc_heap (descs s d) = Some i" "class_ix i" using ok(3) by (auto simp: small_sb_def)
  have "d \<in> set (P i)" using descs_okD(2) [OF ok(2,3)] ok(4) by (simp add: anchor_ok_def)
  then have "anchor_ok P i d a" using a by (simp add: anchor_ok_def)
  have eq: "s' = s\<lparr>heaps := heaps s, descs := (descs s)(d := (descs s d)\<lparr>d_anchor := a\<rparr>)\<rparr>" by (simp add: s' upd_desc_def)
  have nf: "d \<notin> set fs" using descs_okD(4) [OF ok(2)] sb(1) by auto
  have "listed_ok h s' fs k d" if "class_ix k" "d \<in> set (P k)" for k
    using descs_okD(6) [OF ok(2) that] a(1) sb(1) by (simp add: listed_ok_def s' upd_desc_def desc_kept_def size_map_or_new_def)
  moreover have "heap_class s' k (sc_table s' ! k)" if "class_ix k" for k
    using class_facts(6) [OF ok(1) that] by (simp add: s' heap_class_def)
  moreover have "partial_rep k s' (P k)" if "class_ix k" for k
    using partial_rep_frame [OF descs_okD(5) [OF ok(2) that], of s'] by (simp add: s')
  ultimately show ?thesis
    using nf \<open>anchor_ok P i d a\<close> sb(2) by (intro relist_ok [OF ok(1,2) eq]) (auto simp: small_sb_def)
qed

end
