(* ===== verification/Ownership_Blocks.thy ===== *)
theory Ownership_Blocks
  imports Ownership_Ops
begin

text \<open>
  Blocks change hands: from a bin to the client and back, from a super block to a bin and back, with
  a new super block and when one is given up. Each lemma moves the blocks of one such step.
\<close>

section \<open>Frames\<close>

lemma blocks_okD:
  assumes "blocks_ok s bs live own"
  shows "small_sb s d i seg \<Longrightarrow> sb_ok s own d seg" "length (bs j) = MAX_SZ_IDX" "class_ix i \<Longrightarrow> bin_ok s own j i (bs j ! i)"
    "distinct (map fst live)" "r \<in> set live \<Longrightarrow> live_ok s own r"
  using assms unfolding blocks_ok_def by blast+

lemma own_chain_frame:
  assumes "view (descs s' d) = view (descs s d)" "\<And>x. x \<in> set (own_chain s d seg) \<Longrightarrow> load64 (mem s') x = load64 (mem s) x"
  shows "own_chain s' d seg = own_chain s d seg"
proof -
  have "chain (load64 (mem s)) p n = chain (load64 (mem s')) p n" if "\<And>x. x \<in> set (chain (load64 (mem s)) p n) \<Longrightarrow> load64 (mem s') x = load64 (mem s) x" for p n
    using that by (intro chain_cong) simp
  then show ?thesis using assms by (simp add: own_chain_def view_eq Let_def)
qed

lemma bin_list_frame:
  "(\<And>x. x \<in> set (bin_list s b) \<Longrightarrow> load64 (mem s') x = load64 (mem s) x) \<Longrightarrow> bin_list s' b = bin_list s b"
  unfolding bin_list_def by (intro chain_cong [symmetric]) simp

lemma sb_ok_frame:
  assumes "sb_ok s own d seg" "own_chain s' d seg = own_chain s d seg" "blocks s' d seg = blocks s d seg"
    and "\<And>x. x \<in> set (own_chain s d seg) \<Longrightarrow> own' x = own x"
  shows "sb_ok s' own' d seg"
  using assms by (simp add: sb_ok_def)

lemma bin_ok_frame:
  assumes "bin_ok s own j i b" "bin_list s' b = bin_list s b"
    and "\<And>x. x \<in> set (bin_list s b) \<Longrightarrow> own' x = own x \<and> (class_block s i x \<longrightarrow> class_block s' i x)"
  shows "bin_ok s' own' j i b"
  using assms by (simp add: bin_ok_def)

text \<open>Blocks that somebody holds: the cells that the allocator follows.\<close>

definition same_cells :: "'s alloc_state_scheme \<Rightarrow> 's alloc_state_scheme \<Rightarrow> (usize \<Rightarrow> owner) \<Rightarrow> bool" where
  "same_cells s s' own \<longleftrightarrow> (\<forall>i x. class_block s i x \<longrightarrow> own x \<noteq> Client \<longrightarrow> load64 (mem s') x = load64 (mem s) x)"

lemma sb_chain_cells:
  assumes "blocks_ok s bs live own" "small_sb s d i seg" "same_cells s s' own" "view (descs s' d) = view (descs s d)"
  shows "own_chain s' d seg = own_chain s d seg" "blocks s' d seg = blocks s d seg"
proof -
  have "class_block s i x \<and> own x = Central" if "x \<in> set (own_chain s d seg)" for x
    using blocks_okD(1) [OF assms(1,2)] that assms(2) by (auto simp: sb_ok_def class_block_def)
  then show "own_chain s' d seg = own_chain s d seg"
    using assms(3) by (intro own_chain_frame [OF assms(4)]) (metis owner.distinct(3) same_cells_def)
  show "blocks s' d seg = blocks s d seg" by (rule blocks_frame [OF assms(4)])
qed

lemma bin_chain_cells:
  assumes "blocks_ok s bs live own" "class_ix i" "same_cells s s' own"
  shows "bin_list s' (bs j ! i) = bin_list s (bs j ! i)"
  using blocks_okD(3) [OF assms(1,2), of j] assms(3) by (intro bin_list_frame) (auto simp: bin_ok_def same_cells_def)

lemma class_block_frame:
  assumes "class_block s i x" "\<And>d seg. small_sb s d i seg \<Longrightarrow> x \<in> set (blocks s d seg) \<Longrightarrow> small_sb s' d i seg \<and> view (descs s' d) = view (descs s d)"
  shows "class_block s' i x"
  using assms blocks_frame unfolding class_block_def by metis

lemma blocks_ok_same:
  assumes "blocks_ok s bs live own" "same_cells s s' own" "small_sb s' = small_sb s" "large_sb s' = large_sb s" "sc_table s' = sc_table s"
    and "\<And>d seg. super_block (descs s d) = Some seg \<Longrightarrow> view (descs s' d) = view (descs s d)"
  shows "blocks_ok s' bs live own"
proof -
  have cb: "class_block s' i x" if "class_block s i x" for i x
    using class_block_frame [OF that, of s'] assms(3,6) small_sb_block by metis
  have "sb_ok s' own d seg" if "small_sb s' d i seg" for d i seg
  proof -
    have d: "small_sb s d i seg" using that assms(3) by simp
    show ?thesis using sb_ok_frame [OF blocks_okD(1) [OF assms(1) d] sb_chain_cells [OF assms(1) d assms(2) assms(6) [OF small_sb_block [OF d]]]] by simp
  qed
  moreover have "bin_ok s' own j i (bs j ! i)" if "class_ix i" for i j
    using bin_ok_frame [OF blocks_okD(3) [OF assms(1) that] bin_chain_cells [OF assms(1) that assms(2)]] cb by blast
  moreover have "live_ok s' own r" if r: "r \<in> set live" for r
    using blocks_okD(5) [OF assms(1) r] cb assms(4,5,6) large_sb_block by (fastforce simp: live_ok_def view_eq)
  ultimately show ?thesis using blocks_okD(2,4) [OF assms(1)] unfolding blocks_ok_def by blast
qed

section \<open>Between a bin and the client\<close>

lemma bin_ok_own:
  assumes "bin_ok s own l k b" "x \<notin> set (bin_list s b)" shows "bin_ok s (own(x := w)) l k b"
  using assms by (auto simp: bin_ok_def)

lemma bins_upd_ok:
  assumes "length (bs j) = MAX_SZ_IDX" "class_ix i" "class_ix k" "bin_ok s' own' j i b'"
    and "l \<noteq> j \<or> k \<noteq> i \<Longrightarrow> bin_ok s' own' l k (bs l ! k)"
  shows "bin_ok s' own' l k ((bs(j := (bs j)[i := b'])) l ! k)"
  using assms by (cases "l = j"; cases "k = i") (auto simp: class_ix_def)

lemma take_block:
  assumes all: "used_all_ok h target s" and ok: "blocks_ok s bs live own" and i: "class_ix i"
    and x: "bin_list s (bs j ! i) = x # xs" "bin_list s b' = xs" "n \<le> class_size s i"
  shows "blocks_ok s (bs(j := (bs j)[i := b'])) ((x, n) # live) (own(x := Client))"
proof -
  have b: "distinct (x # xs)" "\<And>y. y \<in> set (x # xs) \<Longrightarrow> class_block s i y \<and> own y = Cached j"
    using blocks_okD(3) [OF ok i, of j] x(1) by (auto simp: bin_ok_def)
  have xi: "class_block s i x" "own x = Cached j" using b(2) by auto
  have sb: "sb_ok s (own(x := Client)) d seg" if "small_sb s d k seg" for d k seg
    using blocks_okD(1) [OF ok that] xi(2) by (auto simp: sb_ok_def)
  have bin: "bin_ok s (own(x := Client)) l k ((bs(j := (bs j)[i := b'])) l ! k)" if k: "class_ix k" for l k
  proof (rule bins_upd_ok [OF blocks_okD(2) [OF ok] i k])
    show "bin_ok s (own(x := Client)) j i b'" using b x(2) by (auto simp: bin_ok_def)
    assume ne: "l \<noteq> j \<or> k \<noteq> i"
    have "x \<notin> set (bin_list s (bs l ! k))"
    proof
      assume "x \<in> set (bin_list s (bs l ! k))"
      then have "class_block s k x" "own x = Cached l" using blocks_okD(3) [OF ok k, of l] by (auto simp: bin_ok_def)
      then show False using ne xi(2) class_block_unique [OF all xi(1)] by auto
    qed
    then show "bin_ok s (own(x := Client)) l k (bs l ! k)" by (rule bin_ok_own [OF blocks_okD(3) [OF ok k]])
  qed
  have "x \<noteq> fst r" if r: "r \<in> set live" for r
  proof
    assume e: "x = fst r"
    then have "\<exists>e sg. large_sb s e sg \<and> seg_ptr sg = x" using blocks_okD(5) [OF ok r] xi(2) by (auto simp: live_ok_def)
    then obtain e sg where g: "large_sb s e sg" "seg_ptr sg = x" by blast
    have "MAX_SZ < block_size (descs s e)" using g(1) by (simp add: large_sb_def)
    then show False using class_block_large [OF all xi(1) g(1)] g(2) class_blockD(2) [OF all xi(1)] by simp
  qed
  then have "distinct (map fst ((x, n) # live))" using blocks_okD(4) [OF ok] by auto
  moreover have "live_ok s (own(x := Client)) r" if "r \<in> set live" for r
    using blocks_okD(5) [OF ok that] by (auto simp: live_ok_def)
  moreover have "live_ok s (own(x := Client)) (x, n)" using xi(1) x(3) by (auto simp: live_ok_def)
  ultimately have "distinct (map fst ((x, n) # live)) \<and> (\<forall>r \<in> set ((x, n) # live). live_ok s (own(x := Client)) r)" by simp
  moreover have "length ((bs(j := (bs j)[i := b'])) l) = MAX_SZ_IDX" for l using blocks_okD(2) [OF ok] by simp
  ultimately show ?thesis using sb bin unfolding blocks_ok_def by blast
qed

lemma give_block:
  assumes all: "used_all_ok h target s" and ok: "blocks_ok s bs live own"
    and p: "class_block s i p" "own p = Client" "bin_list s b' = p # bin_list s (bs j ! i)"
  shows "blocks_ok s (bs(j := (bs j)[i := b'])) (filter (\<lambda>r. fst r \<noteq> p) live) (own(p := Cached j))"
proof -
  have i: "class_ix i" by (rule class_blockD(1) [OF all p(1)])
  have sb: "sb_ok s (own(p := Cached j)) d seg" if "small_sb s d k seg" for d k seg
    using blocks_okD(1) [OF ok that] p(2) by (auto simp: sb_ok_def)
  have notin: "p \<notin> set (bin_list s (bs l ! k))" if "class_ix k" for l k
    using blocks_okD(3) [OF ok that, of l] p(2) by (auto simp: bin_ok_def)
  have bin: "bin_ok s (own(p := Cached j)) l k ((bs(j := (bs j)[i := b'])) l ! k)" if k: "class_ix k" for l k
  proof (rule bins_upd_ok [OF blocks_okD(2) [OF ok] i k])
    show "bin_ok s (own(p := Cached j)) j i b'" using blocks_okD(3) [OF ok i, of j] notin [OF i, of j] p by (auto simp: bin_ok_def)
    show "bin_ok s (own(p := Cached j)) l k (bs l ! k)" by (rule bin_ok_own [OF blocks_okD(3) [OF ok k] notin [OF k]])
  qed
  have "live_ok s (own(p := Cached j)) r" if "r \<in> set live" "fst r \<noteq> p" for r
    using blocks_okD(5) [OF ok that(1)] that(2) by (auto simp: live_ok_def)
  then show ?thesis
    using sb bin blocks_okD(2,4) [OF ok] unfolding blocks_ok_def by (auto simp: distinct_map_filter)
qed

section \<open>Between a super block and a bin\<close>

lemma block_desc_unique:
  assumes "used_all_ok h target s" "small_sb s d i seg" "x \<in> set (blocks s d seg)" "small_sb s e k sg" "x \<in> set (blocks s e sg)"
  shows "d = e"
  using block_inside(3) [OF assms(1-3)] block_inside(3) [OF assms(1,4,5)] by simp

text \<open>How the invariant is put together again after one bin has changed.\<close>

lemma blocks_ok_upd:
  assumes ok: "blocks_ok s bs live own" and i: "class_ix i" "bin_ok s' own' j i b'"
    and rest: "\<And>e k sg. small_sb s' e k sg \<Longrightarrow> sb_ok s' own' e sg" "\<And>l k. class_ix k \<Longrightarrow> l \<noteq> j \<or> k \<noteq> i \<Longrightarrow> bin_ok s' own' l k (bs l ! k)"
      "\<And>r. r \<in> set live \<Longrightarrow> live_ok s' own' r"
  shows "blocks_ok s' (bs(j := (bs j)[i := b'])) live own'"
proof -
  have "length ((bs(j := (bs j)[i := b'])) l) = MAX_SZ_IDX" for l using blocks_okD(2) [OF ok] by simp
  moreover have "bin_ok s' own' l k ((bs(j := (bs j)[i := b'])) l ! k)" if "class_ix k" for l k
    by (rule bins_upd_ok [OF blocks_okD(2) [OF ok] i(1) that i(2) rest(2) [OF that]])
  ultimately show ?thesis using rest(1,3) blocks_okD(4) [OF ok] unfolding blocks_ok_def by blast
qed

lemma live_ok_frame:
  assumes r: "live_ok s own r" and t: "sc_table s' = sc_table s"
    and small: "\<And>k. class_block s k (fst r) \<Longrightarrow> own (fst r) = Client \<Longrightarrow> class_block s' k (fst r) \<and> own' (fst r) = Client"
    and large: "\<And>e sg. large_sb s e sg \<Longrightarrow> large_sb s' e sg \<and> block_size (descs s' e) = block_size (descs s e)"
  shows "live_ok s' own' r"
proof -
  from r have "(\<exists>k. class_block s k (fst r) \<and> own (fst r) = Client \<and> snd r \<le> class_size s k) \<or>
      (\<exists>e sg. large_sb s e sg \<and> seg_ptr sg = fst r \<and> snd r \<le> block_size (descs s e))" by (simp only: live_ok_def)
  then show ?thesis
  proof (elim disjE exE conjE)
    fix k assume k: "class_block s k (fst r)" "own (fst r) = Client" "snd r \<le> class_size s k"
    then have "class_block s' k (fst r) \<and> own' (fst r) = Client \<and> snd r \<le> class_size s' k" using small [OF k(1,2)] t by simp
    then show ?thesis unfolding live_ok_def by blast
  next
    fix e sg assume e: "large_sb s e sg" "seg_ptr sg = fst r" "snd r \<le> block_size (descs s e)"
    then have "large_sb s' e sg \<and> seg_ptr sg = fst r \<and> snd r \<le> block_size (descs s' e)" using large [OF e(1)] by simp
    then show ?thesis unfolding live_ok_def by blast
  qed
qed

text \<open>Blocks of one bin are in no other one; so other bins and super blocks keep their chains when a cell of
  them changes.\<close>

lemma other_bin:
  assumes "used_all_ok h target s" "blocks_ok s bs live own" "class_ix i" "class_ix k" "l \<noteq> j \<or> k \<noteq> i"
    and "x \<in> set (bin_list s (bs l ! k))"
  shows "x \<notin> set (bin_list s (bs j ! i))"
proof
  assume "x \<in> set (bin_list s (bs j ! i))"
  then have "class_block s i x" "own x = Cached j" using blocks_okD(3) [OF assms(2,3), of j] by (auto simp: bin_ok_def)
  moreover have "class_block s k x" "own x = Cached l" using blocks_okD(3) [OF assms(2,4), of l] assms(6) by (auto simp: bin_ok_def)
  ultimately show False using assms(5) class_block_unique [OF assms(1)] by auto
qed

lemma other_bin_list:
  assumes all: "used_all_ok h target s" and ok: "blocks_ok s bs live own" and ix: "class_ix i" "class_ix k" "l \<noteq> j \<or> k \<noteq> i"
    and y: "y \<in> set (bin_list s (bs j ! i))" "\<forall>k x. class_block s k x \<longrightarrow> x \<noteq> y \<longrightarrow> load64 (mem s') x = load64 (mem s) x"
  shows "bin_list s' (bs l ! k) = bin_list s (bs l ! k)"
  using blocks_okD(3) [OF ok ix(2), of l] other_bin [OF all ok ix] y(1)
  by (intro bin_list_frame y(2) [rule_format, of k]) (auto simp: bin_ok_def)

lemma other_chain:
  assumes ok: "blocks_ok s bs live own" and e: "small_sb s e k sg" "view (descs s' e) = view (descs s e)"
    and y: "own y \<noteq> Central" "\<forall>k x. class_block s k x \<longrightarrow> x \<noteq> y \<longrightarrow> load64 (mem s') x = load64 (mem s) x"
  shows "own_chain s' e sg = own_chain s e sg" "x \<in> set (own_chain s e sg) \<Longrightarrow> own x = Central"
proof -
  note c = blocks_okD(1) [OF ok e(1)]
  show home: "own x = Central" if "x \<in> set (own_chain s e sg)" for x using c that by (auto simp: sb_ok_def)
  have "x \<noteq> y \<and> class_block s k x" if "x \<in> set (own_chain s e sg)" for x
    using c home [OF that] y(1) that e(1) by (auto simp: sb_ok_def class_block_def)
  then show "own_chain s' e sg = own_chain s e sg" using y(2) by (intro own_chain_frame e(2)) blast
qed

text \<open>The blocks \<open>X\<close> of one super block go to a bin: the free blocks of a partial super block, or all blocks
  of a new one.\<close>

lemma fill_blocks:
  assumes all: "used_all_ok h target s'" and ok: "blocks_ok s bs live own" and d: "small_sb s' d i seg" "own_chain s' d seg = []"
    and X: "set X \<subseteq> set (blocks s' d seg)" "distinct X" "\<And>x k. x \<in> set X \<Longrightarrow> class_block s k x \<Longrightarrow> own x = Central" "bin_list s' b' = X"
    and fr: "\<And>e k sg. e \<noteq> d \<Longrightarrow> small_sb s' e k sg \<longleftrightarrow> small_sb s e k sg" "\<And>e sg. large_sb s e sg \<Longrightarrow> large_sb s' e sg \<and> view (descs s' e) = view (descs s e)"
      "\<And>e k sg. e \<noteq> d \<Longrightarrow> small_sb s e k sg \<Longrightarrow> view (descs s' e) = view (descs s e)" "sc_table s' = sc_table s" "same_cells s s' own"
      "\<And>k x. class_block s k x \<Longrightarrow> class_block s' k x"
  shows "blocks_ok s' (bs(j := (bs j)[i := b'])) live (\<lambda>x. if x \<in> set X then Cached j else own x)"
proof -
  let ?own = "\<lambda>x. if x \<in> set X then Cached j else own x"
  have i: "class_ix i" using d(1) by (simp add: small_sb_def)
  have sb: "sb_ok s' ?own e sg" if e: "small_sb s' e k sg" for e k sg
  proof (cases "e = d")
    case True
    then have "sg = seg" using e d(1) by (auto simp: small_sb_def)
    then show ?thesis using True d(2) by (simp add: sb_ok_def)
  next
    case False
    then have e': "small_sb s e k sg" using e fr(1) by simp
    note v = fr(3) [OF False e']
    note c = sb_chain_cells [OF ok e' fr(5) v]
    have "x \<notin> set X" if "x \<in> set (own_chain s e sg)" for x
    proof
      assume "x \<in> set X"
      moreover have "x \<in> set (blocks s' e sg)" using blocks_okD(1) [OF ok e'] that c(2) by (simp add: sb_ok_def)
      ultimately show False using block_desc_unique [OF all d(1) _ e] X(1) False by blast
    qed
    then show ?thesis using sb_ok_frame [OF blocks_okD(1) [OF ok e'] c, of ?own] by simp
  qed
  have out: "x \<notin> set X" if "class_block s k x" "own x \<noteq> Central" for k x using X(3) that by auto
  show ?thesis
  proof (rule blocks_ok_upd [OF ok i _ sb])
    show "bin_ok s' ?own j i b'" using X(1,2,4) d(1) by (auto simp: bin_ok_def class_block_def)
    show "bin_ok s' ?own l k (bs l ! k)" if k: "class_ix k" for l k
    proof -
      note b = blocks_okD(3) [OF ok k, of l]
      have "x \<notin> set X" if "x \<in> set (bin_list s (bs l ! k))" for x using b out that by (auto simp: bin_ok_def)
      then show ?thesis using bin_ok_frame [OF b bin_chain_cells [OF ok k fr(5)], of ?own] fr(6) by simp
    qed
    show "live_ok s' ?own r" if "r \<in> set live" for r
      using out fr(2,6) by (intro live_ok_frame [OF blocks_okD(5) [OF ok that] fr(4)]) (auto simp: view_eq)
  qed
qed

text \<open>The first blocks \<open>ys\<close> of a bin go back to their super block.\<close>

lemma flush_blocks:
  assumes all: "used_all_ok h target s" and ok: "blocks_ok s bs live own" and d: "small_sb s d i seg"
    and bin: "bin_list s (bs j ! i) = ys @ rest" "set ys \<subseteq> set (blocks s d seg)" "bin_list s' b' = rest" "own_chain s' d seg = ys" "y \<in> set ys"
    and fr: "small_sb s' = small_sb s" "large_sb s' = large_sb s" "\<And>e. e \<noteq> d \<Longrightarrow> view (descs s' e) = view (descs s e)" "sc_table s' = sc_table s"
      "\<And>k x. class_block s k x \<Longrightarrow> x \<noteq> y \<Longrightarrow> load64 (mem s') x = load64 (mem s) x" "blocks s' d seg = blocks s d seg"
  shows "blocks_ok s' (bs(j := (bs j)[i := b'])) live (\<lambda>x. if x \<in> set ys then Central else own x)"
    "class_block s k x \<Longrightarrow> class_block s' k x"
proof -
  let ?own = "\<lambda>x. if x \<in> set ys then Central else own x"
  have i: "class_ix i" using d by (simp add: small_sb_def)
  have z: "distinct (ys @ rest)" "\<And>x. x \<in> set (ys @ rest) \<Longrightarrow> class_block s i x \<and> own x = Cached j"
    using blocks_okD(3) [OF ok i, of j] bin(1) by (auto simp: bin_ok_def)
  have y: "y \<in> set (bin_list s (bs j ! i))" "own y \<noteq> Central" using bin(1,5) z(2) [of y] by auto
  have ld: "\<forall>k x. class_block s k x \<longrightarrow> x \<noteq> y \<longrightarrow> load64 (mem s') x = load64 (mem s) x" using fr(5) by blast
  show cb: "class_block s' k x" if x: "class_block s k x" for k x
  proof -
    obtain e sg where e: "small_sb s e k sg" "x \<in> set (blocks s e sg)" using x by (auto simp: class_block_def)
    have "seg = sg" if "e = d" using that d e(1) by (simp add: small_sb_def)
    then have "blocks s' e sg = blocks s e sg" using fr(6) blocks_frame [OF fr(3), of e sg] by (cases "e = d") auto
    then show ?thesis using e fr(1) unfolding class_block_def by metis
  qed
  show "blocks_ok s' (bs(j := (bs j)[i := b'])) live ?own"
  proof (rule blocks_ok_upd [OF ok i])
    show "bin_ok s' ?own j i b'" using z cb bin(3) by (auto simp: bin_ok_def)
    show "sb_ok s' ?own e sg" if e: "small_sb s' e k sg" for e k sg
    proof (cases "e = d")
      case True
      then have "sg = seg" using e d fr(1) by (auto simp: small_sb_def)
      then show ?thesis using True bin(2,4) z(1) fr(6) by (auto simp: sb_ok_def)
    next
      case False
      then have e': "small_sb s e k sg" using e fr(1) by simp
      note c = other_chain [OF ok e' fr(3) [OF False] y(2) ld]
      then show ?thesis using sb_ok_frame [OF blocks_okD(1) [OF ok e'] c(1) blocks_frame [OF fr(3) [OF False]], of ?own] by simp
    qed
    show "bin_ok s' ?own l k (bs l ! k)" if k: "class_ix k" "l \<noteq> j \<or> k \<noteq> i" for l k
      using bin_ok_frame [OF blocks_okD(3) [OF ok k(1), of l] other_bin_list [OF all ok i k y(1) ld], of ?own]
        other_bin [OF all ok i k] bin(1) cb by auto
    show "live_ok s' ?own r" if r: "r \<in> set live" for r
    proof (rule live_ok_frame [OF blocks_okD(5) [OF ok r] fr(4)])
      show "class_block s' k (fst r) \<and> ?own (fst r) = Client" if "class_block s k (fst r)" "own (fst r) = Client" for k
        using that cb z(2) [of "fst r"] by auto
      show "large_sb s' e sg \<and> block_size (descs s' e) = block_size (descs s e)" if "large_sb s e sg" for e sg
        using that d fr(2) fr(3) [of e] by (cases "e = d") (auto simp: large_sb_def small_sb_def view_eq)
    qed
  qed
qed

text \<open>When the blocks that come back and the free blocks of the super block are all its blocks, nobody else
  holds one, and the super block can go.\<close>

lemma all_blocks_back:
  assumes ok: "blocks_ok s bs live own" and d: "small_sb s d i seg"
    and ys: "set ys \<subseteq> set (blocks s d seg)" "distinct ys" "\<And>y. y \<in> set ys \<Longrightarrow> own y = Cached j"
      "a_count (d_anchor (descs s d)) + length ys = max_count (descs s d)"
  shows "set (blocks s d seg) = set (own_chain s d seg) \<union> set ys"
proof -
  let ?own = "own_chain s d seg" and ?bl = "blocks s d seg"
  have c: "distinct ?own" "set ?own \<subseteq> set ?bl" "\<And>x. x \<in> set ?own \<Longrightarrow> own x = Central"
    using blocks_okD(1) [OF ok d] by (auto simp: sb_ok_def)
  have "set ?own \<inter> set ys = {}" using c(3) ys(3) by fastforce
  then have "card (set ?own \<union> set ys) = length ?own + length ys"
    using c(1) ys(2) by (simp add: card_Un_disjoint distinct_card)
  also have "\<dots> = length ?bl" using ys(4) by (simp add: own_chain_def blocks_def sb_blocks_def Let_def)
  finally have "card (set ?bl) \<le> card (set ?own \<union> set ys)" using card_length [of ?bl] by simp
  then show ?thesis using c(2) ys(1) card_seteq [of "set ?bl" "set ?own \<union> set ys"] by simp
qed

lemma flush_release:
  assumes all: "used_all_ok h target s" and ok: "blocks_ok s bs live own" and d: "small_sb s d i seg"
    and bin: "bin_list s (bs j ! i) = ys @ rest" "set ys \<subseteq> set (blocks s d seg)" "bin_list s' b' = rest" "y \<in> set ys"
      "a_count (d_anchor (descs s d)) + length ys = max_count (descs s d)"
    and fr: "\<And>e k sg. small_sb s' e k sg \<longleftrightarrow> e \<noteq> d \<and> small_sb s e k sg" "\<And>e sg. large_sb s e sg \<Longrightarrow> large_sb s' e sg"
      "\<And>e. e \<noteq> d \<Longrightarrow> view (descs s' e) = view (descs s e)" "sc_table s' = sc_table s"
      "\<And>k x. class_block s k x \<Longrightarrow> x \<noteq> y \<Longrightarrow> load64 (mem s') x = load64 (mem s) x"
  shows "blocks_ok s' (bs(j := (bs j)[i := b'])) live own"
    "class_block s k x \<Longrightarrow> own x = Client \<Longrightarrow> class_block s' k x"
proof -
  have i: "class_ix i" using d by (simp add: small_sb_def)
  have z: "distinct (ys @ rest)" "\<And>x. x \<in> set (ys @ rest) \<Longrightarrow> class_block s i x \<and> own x = Cached j"
    using blocks_okD(3) [OF ok i, of j] bin(1) by (auto simp: bin_ok_def)
  have "set (blocks s d seg) = set (own_chain s d seg) \<union> set ys"
    using z by (intro all_blocks_back [OF ok d bin(2) _ _ bin(5)]) auto
  then have home: "own x = Central \<or> x \<in> set ys" if "x \<in> set (blocks s d seg)" for x
    using blocks_okD(1) [OF ok d] that by (auto simp: sb_ok_def)
  have cb: "class_block s' k x" if x: "class_block s k x" "own x \<noteq> Central" "x \<notin> set ys" for k x
  proof -
    obtain e sg where e: "small_sb s e k sg" "x \<in> set (blocks s e sg)" using x(1) by (auto simp: class_block_def)
    have "e \<noteq> d" using home [of x] e x(2,3) d by (auto simp: small_sb_def)
    then show ?thesis using e fr(1) blocks_frame [OF fr(3)] unfolding class_block_def by metis
  qed
  then show "class_block s' k x" if "class_block s k x" "own x = Client" for k x
    using cb [OF that(1)] that(2) z(2) [of x] by (cases "x \<in> set ys") auto
  have y: "y \<in> set (bin_list s (bs j ! i))" "own y \<noteq> Central" using bin(1,4) z(2) [of y] by auto
  have ld: "\<forall>k x. class_block s k x \<longrightarrow> x \<noteq> y \<longrightarrow> load64 (mem s') x = load64 (mem s) x" using fr(5) by blast
  show "blocks_ok s' (bs(j := (bs j)[i := b'])) live own"
  proof (rule blocks_ok_upd [OF ok i])
    have "class_block s' i x \<and> own x = Cached j" if "x \<in> set rest" for x
      using z(1) z(2) [of x] cb [of i x] that by auto
    then show "bin_ok s' own j i b'" using z(1) bin(3) by (simp add: bin_ok_def)
    show "sb_ok s' own e sg" if e: "small_sb s' e k sg" for e k sg
    proof -
      have e': "e \<noteq> d" "small_sb s e k sg" using e fr(1) by auto
      show ?thesis using sb_ok_frame [OF blocks_okD(1) [OF ok e'(2)] other_chain(1) [OF ok e'(2) fr(3) [OF e'(1)] y(2) ld] blocks_frame [OF fr(3) [OF e'(1)]]] by blast
    qed
    show "bin_ok s' own l k (bs l ! k)" if k: "class_ix k" "l \<noteq> j \<or> k \<noteq> i" for l k
      using blocks_okD(3) [OF ok k(1), of l] other_bin_list [OF all ok i k y(1) ld] other_bin [OF all ok i k] bin(1) cb by (auto simp: bin_ok_def)
    show "live_ok s' own r" if r: "r \<in> set live" for r
    proof (rule live_ok_frame [OF blocks_okD(5) [OF ok r] fr(4)])
      show "class_block s' k (fst r) \<and> own (fst r) = Client" if "class_block s k (fst r)" "own (fst r) = Client" for k
        using that cb [OF that(1)] z(2) [of "fst r"] by auto
      show "large_sb s' e sg \<and> block_size (descs s' e) = block_size (descs s e)" if "large_sb s e sg" for e sg
        using that d fr(2,3) [of e] by (cases "e = d") (auto simp: large_sb_def small_sb_def view_eq)
    qed
  qed
qed

section \<open>Large allocations and the client\<close>

lemma blocks_ok_live:
  assumes "blocks_ok s bs live own" "same_cells s s' own" "small_sb s' = small_sb s"
    and "\<And>d i seg. small_sb s d i seg \<Longrightarrow> view (descs s' d) = view (descs s d)"
    and "distinct (map fst live')" "\<And>r. r \<in> set live' \<Longrightarrow> live_ok s' own r"
  shows "blocks_ok s' bs live' own"
proof -
  have cb: "class_block s' i x" if "class_block s i x" for i x
    using class_block_frame [OF that, of s'] assms(3,4) by metis
  have "sb_ok s' own d seg" if "small_sb s' d i seg" for d i seg
  proof -
    have d: "small_sb s d i seg" using that assms(3) by simp
    show ?thesis using sb_ok_frame [OF blocks_okD(1) [OF assms(1) d] sb_chain_cells [OF assms(1) d assms(2) assms(4) [OF d]]] by simp
  qed
  moreover have "bin_ok s' own j i (bs j ! i)" if "class_ix i" for i j
    using bin_ok_frame [OF blocks_okD(3) [OF assms(1) that] bin_chain_cells [OF assms(1) that assms(2)]] cb by blast
  ultimately show ?thesis using blocks_okD(2) [OF assms(1)] assms(5,6) unfolding blocks_ok_def by blast
qed

text \<open>The client may write to its own allocations.\<close>

lemma client_write:
  assumes all: "used_all_ok h target s" and ok: "blocks_ok s bs live own" and r: "(p, n) \<in> set live"
    and m: "\<And>a. unat a < unat p \<or> unat p + n \<le> unat a \<Longrightarrow> m a = mem s a"
  shows "blocks_ok (s\<lparr>mem := m\<rparr>) bs live own"
proof -
  have "load64 m x = load64 (mem s) x" if x: "class_block s i x" "own x \<noteq> Client" for i x
  proof (rule class_block_load [OF all x(1)])
    fix a :: usize assume a: "unat x \<le> unat a" "unat a < unat x + class_size s i"
    have "(\<exists>k. class_block s k p \<and> own p = Client \<and> n \<le> class_size s k) \<or>
        (\<exists>d seg. large_sb s d seg \<and> seg_ptr seg = p \<and> n \<le> block_size (descs s d))"
      using blocks_okD(5) [OF ok r] by (simp add: live_ok_def)
    then show "m a = mem s a"
    proof (elim disjE exE conjE)
      fix k assume k: "class_block s k p" "own p = Client" "n \<le> class_size s k"
      then have "x \<noteq> p" using x(2) by auto
      then show ?thesis using class_block_apart [OF all x(1) k(1)] k(3) a by (intro m) auto
    next
      fix d seg assume g: "large_sb s d seg" "seg_ptr seg = p" "n \<le> block_size (descs s d)"
      then show ?thesis using class_block_large [OF all x(1) g(1)] a by (intro m) auto
    qed
  qed
  then have "same_cells s (s\<lparr>mem := m\<rparr>) own" by (simp add: same_cells_def)
  then show ?thesis by (intro blocks_ok_same [OF ok]) simp_all
qed

text \<open>An allocation of a size class is a block that the client owns.\<close>

lemma live_small:
  assumes all: "used_all_ok h target s" and r: "live_ok s own r" "class_block s k (fst r)"
  shows "own (fst r) = Client" "snd r \<le> class_size s k"
proof -
  have "\<not> (large_sb s d seg \<and> seg_ptr seg = fst r)" for d seg
    using class_block_large [OF all r(2), of d seg] class_blockD(2) [OF all r(2)] by (auto simp: large_sb_def)
  then obtain i where "class_block s i (fst r)" "own (fst r) = Client" "snd r \<le> class_size s i" using r(1) by (auto simp: live_ok_def)
  then show "own (fst r) = Client" "snd r \<le> class_size s k" using class_block_unique [OF all r(2)] by auto
qed

text \<open>The allocations of the client keep their size classes.\<close>

definition classes_kept :: "'s alloc_state_scheme \<Rightarrow> 's alloc_state_scheme \<Rightarrow> (usize \<times> nat) list \<Rightarrow> bool" where
  "classes_kept s s' live \<longleftrightarrow> (\<forall>r \<in> set live. \<forall>k. class_block s k (fst r) \<longrightarrow> class_block s' k (fst r))"

lemma classes_kept_trans: "classes_kept s s1 live \<Longrightarrow> classes_kept s1 s' live \<Longrightarrow> classes_kept s s' live"
  by (simp add: classes_kept_def)

section \<open>Where the allocations of the client are\<close>

lemma live_used:
  assumes all: "used_all_ok h target s" and r: "live_ok s own r"
  shows "\<exists>e sg. super_block (descs s e) = Some sg \<and> unat (seg_ptr sg) \<le> unat (fst r) \<and>
    unat (fst r) + max 1 (snd r) \<le> unat (seg_ptr sg) + map_span (seg_length sg)"
proof -
  have "(\<exists>i. class_block s i (fst r) \<and> own (fst r) = Client \<and> snd r \<le> class_size s i) \<or>
      (\<exists>d seg. large_sb s d seg \<and> seg_ptr seg = fst r \<and> snd r \<le> block_size (descs s d))"
    using r by (simp add: live_ok_def)
  then show ?thesis
  proof (elim disjE exE conjE)
    fix i assume i: "class_block s i (fst r)" "snd r \<le> class_size s i"
    then obtain d seg where d: "small_sb s d i seg" "fst r \<in> set (blocks s d seg)" by (auto simp: class_block_def)
    have "8 \<le> class_size s i" by (rule class_blockD(2) [OF all i(1)])
    then show ?thesis using block_inside [OF all d] small_sbD(3) [OF all d(1)] small_sb_block [OF d(1)] i(2)
      by (intro exI [of _ d] exI [of _ seg]) auto
  next
    fix d seg assume d: "large_sb s d seg" "seg_ptr seg = fst r" "snd r \<le> block_size (descs s d)"
    have "max 1 (snd r) \<le> map_span (seg_length seg)" using d(1,3) map_span_ge [of "seg_length seg"] by (auto simp: large_sb_def)
    then show ?thesis using d(2) large_sb_block [OF d(1)] by (intro exI [of _ d] exI [of _ seg]) auto
  qed
qed

lemma live_mapped:
  assumes all: "used_all_ok h target s" and r: "live_ok s own r"
  shows "\<exists>m \<in> set (os_maps s). unat (fst m) \<le> unat (fst r) \<and> unat (fst r) + max 1 (snd r) \<le> unat (fst m) + map_span (snd m)"
  using live_used [OF assms] used_range(1) [OF all] by (metis fst_conv snd_conv)

text \<open>Two allocations of the client do not overlap.\<close>

lemma live_apart:
  assumes all: "used_all_ok h target s" and r: "live_ok s own r" "live_ok s own q" "fst r \<noteq> fst q"
  shows "unat (fst r) + snd r \<le> unat (fst q) \<or> unat (fst q) + snd q \<le> unat (fst r)"
proof -
  have k: "(\<exists>i. class_block s i (fst r) \<and> snd r \<le> class_size s i) \<or>
      (\<exists>d seg. large_sb s d seg \<and> seg_ptr seg = fst r \<and> snd r \<le> block_size (descs s d))" if "live_ok s own r" for r
    using that by (auto simp: live_ok_def)
  from k [OF r(1)] k [OF r(2)] show ?thesis
  proof (elim disjE exE conjE)
    fix i i' assume "class_block s i (fst r)" "snd r \<le> class_size s i" "class_block s i' (fst q)" "snd q \<le> class_size s i'"
    then show ?thesis using class_block_apart [OF all _ _ r(3)] by fastforce
  next
    fix i d seg assume "class_block s i (fst r)" "snd r \<le> class_size s i" "large_sb s d seg" "seg_ptr seg = fst q" "snd q \<le> block_size (descs s d)"
    then show ?thesis using class_block_large [OF all] by fastforce
  next
    fix i d seg assume "large_sb s d seg" "seg_ptr seg = fst r" "snd r \<le> block_size (descs s d)" "class_block s i (fst q)" "snd q \<le> class_size s i"
    then show ?thesis using class_block_large [OF all] by fastforce
  next
    fix d seg d' seg' assume "large_sb s d seg" "seg_ptr seg = fst r" "snd r \<le> block_size (descs s d)"
      "large_sb s d' seg'" "seg_ptr seg' = fst q" "snd q \<le> block_size (descs s d')"
    then show ?thesis using large_large [OF all, of d seg d' seg'] r(3) by fastforce
  qed
qed

text \<open>The bytes of the client's allocations do not change.\<close>

definition data_kept :: "'s alloc_state_scheme \<Rightarrow> 's alloc_state_scheme \<Rightarrow> (usize \<times> nat) list \<Rightarrow> bool" where
  "data_kept s s' live \<longleftrightarrow> (\<forall>r \<in> set live. \<forall>a. unat (fst r) \<le> unat a \<and> unat a < unat (fst r) + snd r \<longrightarrow> mem s' a = mem s a)"

lemma data_kept_refl [simp]: "mem s' = mem s \<Longrightarrow> data_kept s s' live"
  by (simp add: data_kept_def)

lemma data_kept_trans: "data_kept s s1 live \<Longrightarrow> data_kept s1 s' live \<Longrightarrow> data_kept s s' live"
  by (simp add: data_kept_def)

lemma mem_kept_data:
  assumes "used_all_ok h target s" "blocks_ok s bs live own" "mem_kept s s'" shows "data_kept s s' live"
  unfolding data_kept_def
proof (intro ballI allI impI)
  fix r and a :: usize assume r: "r \<in> set live" "unat (fst r) \<le> unat a \<and> unat a < unat (fst r) + snd r"
  obtain m where "m \<in> set (os_maps s)" "unat (fst m) \<le> unat (fst r)" "unat (fst r) + max 1 (snd r) \<le> unat (fst m) + map_span (snd m)"
    using live_mapped [OF assms(1) blocks_okD(5) [OF assms(2) r(1)]] by blast
  then show "mem s' a = mem s a" using r(2) assms(3) by (auto simp: mem_kept_def)
qed

text \<open>A link that is written to a block that the client does not own.\<close>

lemma store64_elsewhere:
  assumes "unat p + 8 \<le> 2 ^ 47" "unat a < unat p \<or> unat p + 8 \<le> unat a" shows "store64 m p v a = m a"
proof -
  have "8 \<le> unat (a - p)"
    using assms(2)
  proof
    assume "unat a < unat p"
    then have "unat (a - p) = 2 ^ 64 + unat a - unat p" by (simp add: unat_sub_if')
    then show ?thesis using assms(1) by simp
  next
    assume le: "unat p + 8 \<le> unat a"
    then have "unat (a - p) = unat a - unat p" by (intro unat_sub_le) (simp add: word_le_nat_alt)
    then show ?thesis using le by simp
  qed
  then show ?thesis by (simp add: store64_def word_less_nat_alt)
qed

lemma write_data_kept:
  assumes all: "used_all_ok h target s" and ok: "\<And>r. r \<in> set live \<Longrightarrow> live_ok s own r \<and> fst r \<noteq> t" and t: "class_block s i t"
    and m: "mem s' = store64 (mem s) t v"
  shows "data_kept s s' live"
  unfolding data_kept_def
proof (intro ballI allI impI)
  fix r and a :: usize assume r: "r \<in> set live" "unat (fst r) \<le> unat a \<and> unat a < unat (fst r) + snd r"
  note tD = class_blockD [OF all t]
  have "(\<exists>k. class_block s k (fst r) \<and> snd r \<le> class_size s k) \<or> (\<exists>d seg. large_sb s d seg \<and> seg_ptr seg = fst r \<and> snd r \<le> block_size (descs s d))"
    using ok [OF r(1)] by (auto simp: live_ok_def)
  then have "unat a < unat t \<or> unat t + class_size s i \<le> unat a"
  proof (elim disjE exE conjE)
    fix k assume k: "class_block s k (fst r)" "snd r \<le> class_size s k"
    have "t \<noteq> fst r" using ok [OF r(1)] by auto
    then show ?thesis using class_block_apart [OF all t k(1)] k(2) r(2) by linarith
  next
    fix d seg assume "large_sb s d seg" "seg_ptr seg = fst r" "snd r \<le> block_size (descs s d)"
    then show ?thesis using class_block_large [OF all t, of d seg] r(2) by auto
  qed
  then show "mem s' a = mem s a" unfolding m using tD(2,3) by (intro store64_elsewhere) auto
qed

text \<open>What giving blocks back keeps for the client.\<close>

definition client_kept :: "'s alloc_state_scheme \<Rightarrow> 's alloc_state_scheme \<Rightarrow> (usize \<times> nat) list \<Rightarrow> bool" where
  "client_kept s s' live \<longleftrightarrow> classes_kept s s' live \<and> data_kept s s' live"

lemma client_kept_refl [simp]: "client_kept s s live"
  by (simp add: client_kept_def classes_kept_def)

lemma client_kept_trans: "client_kept s s1 live \<Longrightarrow> client_kept s1 s' live \<Longrightarrow> client_kept s s' live"
  unfolding client_kept_def using classes_kept_trans data_kept_trans by blast

end
