(* ===== verification/Ownership_Malloc.thy ===== *)
theory Ownership_Malloc
  imports Ownership_Blocks
begin

text \<open>
  Allocation keeps the ownership invariant: a bin is filled from a partial super block or from a new one,
  and a request takes the first block of the bin or a mapping of its own.
\<close>

definition heap_ok :: "(usize \<Rightarrow> nat) \<Rightarrow> nat \<Rightarrow> 's alloc_state_scheme \<Rightarrow> (nat \<Rightarrow> bin list) \<Rightarrow> (usize \<times> nat) list \<Rightarrow> bool" where
  "heap_ok h target s bs live \<longleftrightarrow>
     (\<exists>P fs own. base_ok h target s \<and> descs_ok h s P fs \<and> blocks_ok s bs live own)"

lemma heap_okI: "base_ok h target s \<Longrightarrow> descs_ok h s P fs \<Longrightarrow> blocks_ok s bs live own \<Longrightarrow> heap_ok h target s bs live"
  by (auto simp: heap_ok_def)

section \<open>Partial super blocks\<close>

text \<open>A descriptor on a partial list that has a super block.\<close>

lemma listed_small:
  assumes "base_ok h target s" "descs_ok h s P fs" "class_ix i" "d \<in> set (P i)" "super_block (descs s d) = Some seg"
  shows "small_sb s d i seg" "a_state (d_anchor (descs s d)) = PARTIAL" "0 < a_count (d_anchor (descs s d))"
    "a_avail (d_anchor (descs s d)) < 2 ^ 30"
proof -
  have l: "listed_ok h s fs i d" by (rule descs_okD(6) [OF assms(2-4)])
  have "used_ok h s d seg" by (rule descs_okD(1) [OF assms(2,5)])
  then show d: "small_sb s d i seg" using l by (auto simp: used_ok_def listed_ok_def small_sb_def large_sb_def)
  show st: "a_state (d_anchor (descs s d)) = PARTIAL" using l assms(5) by (simp add: listed_ok_def)
  then show "0 < a_count (d_anchor (descs s d))" "a_avail (d_anchor (descs s d)) < 2 ^ 30"
    using descs_okD(2) [OF assms(2) d] by (auto simp: anchor_ok_def)
qed

text \<open>The index that an anchor keeps is the one of the first free block.\<close>

lemma block_index:
  assumes "used_all_ok h target s" "small_sb s d i seg" "a < 2 ^ 30"
    and "seg_ptr seg + of_nat (a * block_size (descs s d)) \<in> set (blocks s d seg)"
  shows "a < max_count (descs s d)"
proof -
  note sd = small_sbD [OF assms(1,2)]
  let ?z = "class_size s i" and ?n = "sc_block_num (sc_table s ! i)"
  have bs: "block_size (descs s d) = ?z" "max_count (descs s d) = ?n" using assms(2) by (simp_all add: small_sb_def)
  have z: "8 \<le> ?z" "?z \<le> MAX_SZ" using class_facts [OF _ sd(2)] assms(1) by (auto simp: used_all_ok_def)
  obtain k where k: "k < ?n" "seg_ptr seg + of_nat (a * ?z) = sb_block (seg_ptr seg) ?z k"
    using assms(4) by (auto simp: sd(9) bs sb_blocks_def)
  then have e: "(of_nat (a * ?z) :: usize) = of_nat (?z * k)" by (simp add: sb_block_def)
  have "a * ?z \<le> 2 ^ 30 * MAX_SZ" using assms(3) z(2) by (intro mult_le_mono) auto
  then have 1: "a * ?z < 2 ^ 64" by (simp add: MAX_SZ_value)
  have "?z * k \<le> ?z * ?n" using k(1) by simp
  then have 2: "?z * k < 2 ^ 64" using sd(6) pow2_47_64 by linarith
  have "unat (of_nat (a * ?z) :: usize) = a * ?z" "unat (of_nat (?z * k) :: usize) = ?z * k"
    using 1 2 by (simp_all only: unat_of_nat mod_less len_of_numeral_defs) simp_all
  then have "a * ?z = ?z * k" using e by metis
  then have "a = k" using z(1) by (simp add: mult.commute)
  then show ?thesis using k(1) bs(2) by simp
qed

lemma take_partial_owned:
  fixes s :: "'s alloc_state_scheme"
  assumes base: "base_ok h target s" and descs: "descs_ok h s P fs" and ok: "blocks_ok s bs live own"
    and d: "class_ix i" "P i = d # xs" "super_block (descs s d) = Some seg" and b: "block_num (bs j ! i) = 0"
  shows "\<exists>s1 s' b'. list_pop_partial i s = Inr (Some d, s1) \<and> a_state (d_anchor (descs s1 d)) \<noteq> EMPTY \<and>
    take_partial d (s1, bs j ! i, n) = Inr (s', b', n + 1) \<and> 0 < block_num b' \<and>
    heap_ok h target s' (bs(j := (bs j)[i := b'])) live \<and> alloc_state.more s' = alloc_state.more s \<and> mem s' = mem s"
proof -
  let ?old = "d_anchor (descs s d)" and ?bl = "own_chain s d seg"
  have all: "used_all_ok h target s" by (rule descs_ok_used [OF base descs])
  have "d \<in> set (P i)" using d(2) by simp
  note sb = listed_small [OF base descs d(1) this d(3)]
  define a where "a = set_state FULL (set_avail (max_count (descs s d)) (set_count 0 ?old))"
  have a: "a_state a = FULL \<and> a_count a = 0 \<and> a_avail a < 2 ^ 30" by (simp add: a_def set_state_def set_avail_def set_count_def)
  then obtain s1 where s1: "list_pop_partial i s = Inr (Some d, s1)" "descs s1 = descs s" "mem s1 = mem s"
    "alloc_state.more s1 = alloc_state.more s" "sc_table s1 = sc_table s"
    "let s' = upd_desc d (\<lambda>q. q\<lparr>d_anchor := a\<rparr>) s1 in base_ok h target s' \<and> descs_ok h s' (P(i := xs)) fs \<and>
       small_sb s' = small_sb s \<and> large_sb s' = large_sb s"
    using pop_first_ok [OF base descs d(1,2), of a] by blast
  define s' where "s' = upd_desc d (\<lambda>q. q\<lparr>d_anchor := a\<rparr>) s1"
  have s': "base_ok h target s'" "descs_ok h s' (P(i := xs)) fs" "small_sb s' = small_sb s" "large_sb s' = large_sb s"
    using s1(6) by (auto simp: Let_def s'_def)
  have f: "descs s' = (descs s)(d := (descs s d)\<lparr>d_anchor := a\<rparr>)" "mem s' = mem s" "sc_table s' = sc_table s"
    "alloc_state.more s' = alloc_state.more s"
    using s1(2-5) by (simp_all add: s'_def)
  define b' where "b' = (bs j ! i)\<lparr>block := seg_ptr seg + of_nat (a_avail ?old * block_size (descs s d)), block_num := a_count ?old\<rparr>"
  have sbok: "distinct ?bl" "\<And>x. x \<in> set ?bl \<Longrightarrow> x \<in> set (blocks s d seg) \<and> own x = Central"
    using blocks_okD(1) [OF ok sb(1)] by (auto simp: sb_ok_def)
  have bl: "bin_list s' b' = ?bl" by (simp add: bin_list_def b'_def own_chain_def f Let_def)
  have "seg_ptr seg + of_nat (a_avail ?old * block_size (descs s d)) \<in> set ?bl"
    using sb(3) by (cases "a_count ?old") (auto simp: own_chain_def Let_def)
  then have "a_avail ?old < max_count (descs s d)" using block_index [OF all sb(1,4)] sbok(2) by blast
  then have "take_partial d (s1, bs j ! i, n) = Inr (s', b', n + 1)"
    using d(3) b s1(2) by (simp add: take_partial_def Let_def push_list_def get_bin_block_num_def b'_def s'_def a_def)
  moreover have sb': "small_sb s' d i seg" "own_chain s' d seg = []" "blocks s' d seg = blocks s d seg"
    using sb(1) a by (simp_all add: s'(3) own_chain_def f Let_def blocks_def)
  have vw: "view (descs s' e) = view (descs s e)" if "e \<noteq> d" for e using that by (simp add: f)
  have cb: "class_block s' = class_block s" by (auto simp: fun_eq_iff class_block_def s'(3) blocks_def f)
  have "blocks_ok s' (bs(j := (bs j)[i := b'])) live (\<lambda>x. if x \<in> set ?bl then Cached j else own x)"
  proof (rule fill_blocks [OF descs_ok_used [OF s'(1,2)] ok sb'(1,2)])
    show "set ?bl \<subseteq> set (blocks s' d seg)" "distinct ?bl" "bin_list s' b' = ?bl" using sbok bl sb'(3) by auto
    show "own x = Central" if "x \<in> set ?bl" for x using sbok(2) that by blast
    show "small_sb s' e k sg \<longleftrightarrow> small_sb s e k sg" for e k sg by (simp add: s'(3))
    show "large_sb s' e sg \<and> view (descs s' e) = view (descs s e)" if "large_sb s e sg" for e sg
    proof -
      have "e \<noteq> d" using that sb(1) by (auto simp: large_sb_def small_sb_def)
      then show ?thesis using that vw by (simp add: s'(4))
    qed
    show "same_cells s s' own" by (simp add: same_cells_def f)
  qed (simp_all add: vw f(3) cb)
  then have "heap_ok h target s' (bs(j := (bs j)[i := b'])) live" by (rule heap_okI [OF s'(1,2)])
  moreover have "0 < block_num b'" "a_state (d_anchor (descs s1 d)) \<noteq> EMPTY" using sb(2,3) s1(2) by (simp_all add: b'_def)
  ultimately show ?thesis using s1(1) f(2,4) by blast
qed

text \<open>A descriptor on a partial list whose super block is gone is retired.\<close>

lemma retire_listed:
  fixes s :: "'s alloc_state_scheme"
  assumes base: "base_ok h target s" and descs: "descs_ok h s P fs" and ok: "blocks_ok s bs live own"
    and d: "class_ix i" "P i = d # xs" "super_block (descs s d) = None"
  shows "\<exists>s1. list_pop_partial i s = Inr (Some d, s1) \<and> a_state (d_anchor (descs s1 d)) = EMPTY \<and>
    base_ok h target (retire d s1) \<and> descs_ok h (retire d s1) (P(i := xs)) (d # fs) \<and> blocks_ok (retire d s1) bs live own \<and>
    alloc_state.more (retire d s1) = alloc_state.more s \<and> mem (retire d s1) = mem s"
proof -
  have l: "listed_ok h s fs i d" using descs_okD(6) [OF descs d(1)] d(2) by simp
  obtain s1 where s1: "list_pop_partial i s = Inr (Some d, s1)" "descs s1 = descs s" "mem s1 = mem s"
    "alloc_state.more s1 = alloc_state.more s" "sc_table s1 = sc_table s"
    "let s' = upd_desc d (\<lambda>q. q\<lparr>d_anchor := d_anchor (descs s d)\<rparr>) s1 in base_ok h target s' \<and> descs_ok h s' (P(i := xs)) fs \<and>
       small_sb s' = small_sb s \<and> large_sb s' = large_sb s"
    using pop_first_ok [OF base descs d(1,2), of "d_anchor (descs s d)"] d(3) by blast
  have "upd_desc d (\<lambda>q. q\<lparr>d_anchor := d_anchor (descs s d)\<rparr>) s1 = s1" using s1(2) by (simp add: upd_desc_def)
  then have ok1: "base_ok h target s1" "descs_ok h s1 (P(i := xs)) fs" "small_sb s1 = small_sb s" "large_sb s1 = large_sb s"
    using s1(6) by (auto simp: Let_def)
  have "size_map_or_new s1 = size_map_or_new s" using list_pop_partial_heaps [OF s1(1)] by (auto simp: size_map_or_new_def)
  then have "desc_kept h s1 d = desc_kept h s d" by (simp add: desc_kept_def)
  then have kept: "desc_kept h s1 d" "d \<notin> set fs" "super_block (descs s1 d) = None" "a_state (d_anchor (descs s1 d)) = EMPTY"
    using l d(3) s1(2) by (auto simp: listed_ok_def)
  have "d \<notin> set xs" using partial_rep_addr descs_okD(5) [OF descs d(1)] d(2) by metis
  then have "d \<notin> set ((P(i := xs)) k)" if "class_ix k" for k
    using descs_okD(6) [OF descs that, of d] l by (auto simp: listed_ok_def)
  then have r: "base_ok h target (retire d s1)" "descs_ok h (retire d s1) (P(i := xs)) (d # fs)" "small_sb (retire d s1) = small_sb s"
    "large_sb (retire d s1) = large_sb s"
    using retire_ok [OF ok1(1,2) kept(1,3,2)] ok1(3,4) by auto
  have "blocks_ok (retire d s1) bs live own"
  proof (rule blocks_ok_same [OF ok _ r(3,4)])
    show "same_cells s (retire d s1) own" "sc_table (retire d s1) = sc_table s"
      using s1(3,5) by (simp_all add: same_cells_def retire_def Let_def)
    show "view (descs (retire d s1) e) = view (descs s e)" if "super_block (descs s e) = Some seg" for e seg
      using that d(3) s1(2) by (cases "e = d") simp_all
  qed
  moreover have "alloc_state.more (retire d s1) = alloc_state.more s" "mem (retire d s1) = mem s"
    using s1(3,4) by (simp_all add: retire_def Let_def)
  ultimately show ?thesis using s1(1) kept(4) r(1,2) by blast
qed

lemma malloc_from_partial_owned:
  fixes s :: "'s alloc_state_scheme"
  assumes "base_ok h target s" "descs_ok h s P fs" "blocks_ok s bs live own" "class_ix i" "block_num (bs j ! i) = 0"
  shows "\<exists>s' b' n. malloc_from_partial env i (s, bs j ! i, 0) = Some (Inr (s', b', n)) \<and> alloc_state.more s' = alloc_state.more s \<and>
    mem s' = mem s \<and>
    (n = 0 \<and> b' = bs j ! i \<and> heap_ok h target s' bs live \<or>
     n \<noteq> 0 \<and> 0 < block_num b' \<and> heap_ok h target s' (bs(j := (bs j)[i := b'])) live)"
  using assms(1-3)
proof (induction "P i" arbitrary: s P fs)
  case Nil
  then have "partial_rep i s []" using descs_okD(5) [OF Nil(3) assms(4)] by simp
  then show ?case using heap_okI [OF Nil(2-4)] malloc_from_partial_Nil [of i s env "bs j ! i" 0] by auto
next
  case (Cons d xs)
  have rep: "partial_rep i s (d # xs)" using descs_okD(5) [OF Cons.prems(2) assms(4)] Cons.hyps(2) by simp
  have step: "malloc_from_partial env i (s, bs j ! i, 0) = (if a_state (d_anchor (descs s1 d)) = EMPTY
      then malloc_from_partial env i (retire d s1, bs j ! i, 0) else Some (take_partial d (s1, bs j ! i, 0)))"
    if "list_pop_partial i s = Inr (Some d, s1)" for s1
    using that partial_rep_get_heaps [OF rep, of env] by (subst malloc_from_partial.simps) (simp add: heap_pop_partial_def)
  show ?case
  proof (cases "super_block (descs s d)")
    case None
    obtain s1 where s1: "list_pop_partial i s = Inr (Some d, s1)" "a_state (d_anchor (descs s1 d)) = EMPTY"
      "base_ok h target (retire d s1)" "descs_ok h (retire d s1) (P(i := xs)) (d # fs)" "blocks_ok (retire d s1) bs live own"
      "alloc_state.more (retire d s1) = alloc_state.more s" "mem (retire d s1) = mem s"
      using retire_listed [OF Cons.prems assms(4) Cons.hyps(2) [symmetric] None] by blast
    then show ?thesis using Cons.hyps(1) [of "P(i := xs)", OF _ s1(3-5)] step [OF s1(1)] by simp
  next
    case (Some seg)
    obtain s1 s' b' where "list_pop_partial i s = Inr (Some d, s1)" "a_state (d_anchor (descs s1 d)) \<noteq> EMPTY"
      "take_partial d (s1, bs j ! i, 0) = Inr (s', b', 0 + 1)" "0 < block_num b'"
      "heap_ok h target s' (bs(j := (bs j)[i := b'])) live" "alloc_state.more s' = alloc_state.more s" "mem s' = mem s"
      using take_partial_owned [OF Cons.prems assms(4) Cons.hyps(2) [symmetric] Some assms(5)] by blast
    then show ?thesis using step by simp
  qed
qed


section \<open>New super blocks\<close>

lemma init_blocks_outside:
  assumes "unat sb + bs * n \<le> 2 ^ 47" "8 \<le> bs" "unat a < unat sb \<or> unat sb + bs * n \<le> unat a"
  shows "init_blocks True sb bs n m a = m a"
proof -
  let ?f = "\<lambda>i (m', lst). (store64 m' (sb_block sb bs i) lst, sb_block sb bs i)"
  have "fst (fold ?f is (m, l)) a = m a" if "set is \<subseteq> {..<n}" for "is" m l
    using that
  proof (induction "is" arbitrary: m l)
    case (Cons i "is")
    then have i: "i < n" by simp
    have "unat (sb_block sb bs i) = unat sb + bs * i" by (rule unat_sb_block [OF assms(1) i])
    then have "store64 m (sb_block sb bs i) l a = m a"
      using block_end_le [OF i, of bs] assms by (intro store64_elsewhere) auto
    then show ?case using Cons by simp
  qed simp
  then have "fst (fold ?f (rev [0..<n]) (m, 0)) a = m a" by (rule meta_mp) auto
  then show ?thesis by (simp add: init_blocks_def sb_block_def)
qed

lemma distinct_sb_blocks: "unat sb + bs * n \<le> 2 ^ 47 \<Longrightarrow> 0 < bs \<Longrightarrow> distinct (sb_blocks sb bs n)"
  using unat_sb_block [of sb bs n] by (auto simp: sb_blocks_def distinct_map inj_on_def) (metis add_left_cancel mult_cancel1 not_less_zero)

lemma upd_maps_mem: "s\<lparr>os_maps := x, mem := m\<rparr> = s\<lparr>mem := m, os_maps := x\<rparr>"
  by simp

text \<open>What \<^verbatim>\<open>malloc_from_new_sb\<close> leaves when the kernel grants the super block.\<close>

definition new_sb_desc :: "nat \<Rightarrow> size_class_data \<Rightarrow> usize \<Rightarrow> descriptor \<Rightarrow> descriptor" where
  "new_sb_desc sci c sb q = q\<lparr>proc_heap := Some sci, block_size := sc_block_size c, max_count := sc_block_num c,
     super_block := Some \<lparr>seg_ptr = sb, seg_length = of_nat (sc_sb_size c)\<rparr>, d_anchor := fresh_anchor (sc_block_num c)\<rparr>"

definition new_sb_state :: "nat \<Rightarrow> size_class_data \<Rightarrow> usize \<Rightarrow> usize \<Rightarrow> (u64 \<Rightarrow> page_info) \<Rightarrow> 's alloc_state_scheme \<Rightarrow> 's alloc_state_scheme" where
  "new_sb_state sci c d sb pm s = s\<lparr>os_calls := Suc (os_calls s),
     mem := init_blocks True sb (sc_block_size c) (sc_block_num c) (zero_span sb (of_nat (sc_sb_size c)) (mem s)),
     os_maps := (sb, of_nat (sc_sb_size c)) # os_maps s,
     descs := (descs s)(d := new_sb_desc sci c sb (descs s d)), page_map := pm\<rparr>"

lemma new_sb_result:
  fixes s :: "'s alloc_state_scheme"
  assumes env: "mmap_contract env" "pages_ok h s" "pm_ready s"
    and cls: "heap_class s sci c" "sci < length (sc_table s)" "sc_table s ! sci = c"
    and cache: "block_num cache = 0"
    and granted: "desc_alloc env h s = Inr (d, s1)"
      "sb = mmap env False (os_calls s1) (os_maps s1) (of_nat (sc_sb_size c))" "sb \<noteq> MAP_FAILED"
  shows "\<exists>pm. malloc_from_new_sb env h True sci (s, cache, n) =
      Inr (new_sb_state sci c d sb pm s1, cache\<lparr>block := sb, block_num := sc_block_num c\<rparr>, n + sc_block_num c) \<and>
    (\<forall>a. unat a < 2 ^ 50 \<longrightarrow> pm (addr_to_key a) = (if in_block sb (sc_sb_size c) a then d else page_map s1 (addr_to_key a)))"
proof -
  let ?len = "of_nat (sc_sb_size c) :: usize"
  note fr = desc_alloc_frame [OF env(1,2) granted(1)]
  have v: "valid_map (sb, ?len)" using mmap_contractD [OF env(1)] granted(2,3) by auto
  define s6 where "s6 = new_sb_state sci c d sb (page_map s1) s1"
  have f: "super_block (descs s6 d) = Some \<lparr>seg_ptr = sb, seg_length = ?len\<rparr>" "proc_heap (descs s6 d) = Some sci"
    "page_map s6 = page_map s1"
    by (simp_all add: s6_def new_sb_state_def new_sb_desc_def)
  have hc: "heap_class s6 sci c" "pm_ready s6"
    using cls(1) env(3) fr by (auto simp: heap_class_def s6_def new_sb_state_def pm_ready_def)
  have d: "info_set_ptr d 0 = d" using info_get_desc_set [of d] fr by (auto simp: info_get_desc_def split: if_splits)
  obtain pm where pm: "update_page_map (Some sci) sb (Some d) 0 s6 = Inr (s6\<lparr>page_map := pm\<rparr>)"
    "\<And>a. unat a < 2 ^ 50 \<Longrightarrow> pm (addr_to_key a) = (if in_block sb (sc_sb_size c) a then d else page_map s1 (addr_to_key a))"
    using update_page_map_heap [OF hc(2,1) v, of "Some d"] d f(3) by auto
  have 1: "get_heap_at sci s = Inr (the (heaps s) ! sci)" "get_heaps env s = Inr s" "index_list (sc_table s) sci = Inr c"
    using cls by (auto simp: heap_class_def get_heap_at_def get_heaps_def)
  have 2: "map_segment env False ?len u = (Inr \<lparr>seg_ptr = sb, seg_length = ?len\<rparr>, u\<lparr>os_calls := Suc (os_calls s1),
      mem := zero_span sb ?len (mem s1), os_maps := (sb, ?len) # os_maps s1\<rparr>)"
    if "os_calls u = os_calls s1" "os_maps u = os_maps s1" "mem u = mem s1" for u :: "'s alloc_state_scheme"
    using that granted(2,3) by (simp add: map_segment_def Let_def)
  have 3: "register_desc d s6 = Inr (s6\<lparr>page_map := pm\<rparr>)" using pm(1) by (simp add: register_desc_def f)
  have "malloc_from_new_sb env h True sci (s, cache, n) =
      rbind (register_desc d s6) (\<lambda>s7. Inr (s7, cache\<lparr>block := sb, block_num := sc_block_num c\<rparr>, n + sc_block_num c))"
    using granted(1) cache
    by (simp add: malloc_from_new_sb_def new_super_block_def 1 seg_allocate_def 2 push_list_def get_block_num_def upd_desc_def
        s6_def new_sb_state_def new_sb_desc_def upd_maps_mem)
  then have "malloc_from_new_sb env h True sci (s, cache, n) =
      Inr (new_sb_state sci c d sb pm s1, cache\<lparr>block := sb, block_num := sc_block_num c\<rparr>, n + sc_block_num c)"
    by (simp add: 3) (simp add: s6_def new_sb_state_def)
  then show ?thesis using pm(2) by blast
qed


lemma desc_alloc_blocks:
  assumes "base_ok h target s" "descs_ok h s P fs" "blocks_ok s bs live own" "desc_frame h s s1"
    and "\<forall>d i seg. small_sb s1 d i seg \<longleftrightarrow> small_sb s d i seg" "\<forall>d seg. large_sb s1 d seg \<longleftrightarrow> large_sb s d seg"
  shows "blocks_ok s1 bs live own"
proof (rule blocks_ok_same [OF assms(3)])
  note fr = desc_frameD [OF assms(4)]
  show "same_cells s s1 own"
    using mem_kept_load [OF descs_ok_used [OF assms(1,2)] fr(8)] by (auto simp: same_cells_def)
  show "small_sb s1 = small_sb s" "large_sb s1 = large_sb s" using assms(5,6) by (simp_all add: fun_eq_iff)
  show "sc_table s1 = sc_table s" by (rule fr(2))
  show "view (descs s1 d) = view (descs s d)" if "super_block (descs s d) = Some seg" for d seg
    using descs_okD(1) [OF assms(2) that] by (intro fr(11)) (simp add: used_ok_def)
qed

lemma new_sb_mem_kept:
  assumes "class_ok target (sc_block_size c) c" "8 \<le> sc_block_size c" "valid_map (sb, of_nat (sc_sb_size c))"
    "\<forall>r \<in> set (os_maps s). maps_disjoint (sb, of_nat (sc_sb_size c)) r"
  shows "mem_kept s (new_sb_state i c d sb pm s)"
proof -
  have c: "PAGE dvd sc_sb_size c" "sc_sb_size c < 2 ^ 32" "sc_block_size c * sc_block_num c \<le> sc_sb_size c"
    using assms(1) by (auto simp: class_ok_def)
  note sp = map_span_pages [OF c(1,2)]
  have sb: "unat sb + sc_sb_size c \<le> 2 ^ 47" using assms(3) sp by (simp add: valid_map_def)
  have "mem (new_sb_state i c d sb pm s) a = mem s a" if "unat a < unat sb \<or> unat sb + sc_sb_size c \<le> unat a" for a
    using init_blocks_outside [of sb "sc_block_size c" "sc_block_num c" a] zero_span_outside [OF assms(3), of a] sb c(3) assms(2) that
    by (auto simp: new_sb_state_def sp)
  then show ?thesis using assms(4) by (fastforce simp: mem_kept_def maps_disjoint_def sp)
qed

lemma new_sb_bin:
  assumes "valid_map (sb, of_nat (sc_sb_size c))" "class_ok target (sc_block_size c) c" "8 \<le> sc_block_size c"
  shows "bin_list (new_sb_state i c d sb pm s) (b\<lparr>block := sb, block_num := sc_block_num c\<rparr>) = sb_blocks sb (sc_block_size c) (sc_block_num c)"
    "distinct (sb_blocks sb (sc_block_size c) (sc_block_num c))"
proof -
  have "chain (\<lambda>q. next_of True (Some z) (load64 m q) q) p n = chain (load64 m) p n" for z m p n
    by (intro chain_cong) (simp add: next_of_def)
  then show "bin_list (new_sb_state i c d sb pm s) (b\<lparr>block := sb, block_num := sc_block_num c\<rparr>) = sb_blocks sb (sc_block_size c) (sc_block_num c)"
    using fresh_super_block(4) [OF assms(1,2,3), of True] by (simp add: bin_rep_def bin_blocks_def bin_list_def new_sb_state_def)
  show "distinct (sb_blocks sb (sc_block_size c) (sc_block_num c))"
    using distinct_sb_blocks [OF fresh_super_block(2) [OF assms(1,2)]] assms(3) by simp
qed

lemma new_sb_descs:
  fixes s :: "'s alloc_state_scheme"
  assumes base: "base_ok h target s" and ok: "descs_ok h s P fs" and i: "class_ix i" "sc_table s ! i = c"
    and map: "valid_map (sb, of_nat (sc_sb_size c))" "\<forall>r \<in> set (os_maps s). maps_disjoint (sb, of_nat (sc_sb_size c)) r"
    and d: "desc_kept h s d" "super_block (descs s d) = None" "d \<notin> set fs" "\<And>i. class_ix i \<Longrightarrow> d \<notin> set (P i)"
    and pm: "\<And>a. unat a < 2 ^ 50 \<Longrightarrow> pm (addr_to_key a) = (if in_block sb (sc_sb_size c) a then d else page_map s (addr_to_key a))"
    and s': "s' = new_sb_state i c d sb pm s"
  shows "desc_change h d s s'" "base_ok h target s'" "descs_ok h s' P fs"
    "small_sb s' d i \<lparr>seg_ptr = sb, seg_length = of_nat (sc_sb_size c)\<rparr>"
proof -
  let ?seg = "\<lparr>seg_ptr = sb, seg_length = of_nat (sc_sb_size c)\<rparr> :: segment"
  note cls = class_facts [OF base i(1), unfolded i(2)]
  have c: "map_span (of_nat (sc_sb_size c)) = sc_sb_size c" using cls(1) map_span_pages by (auto simp: class_ok_def)
  note fits = fresh_super_block [OF map(1) cls(1)]
  have pr: "pm_ready s'" using base by (simp add: base_ok_def s' new_sb_state_def pm_ready_def)
  have pi: "get_page_info a s' = Inr d" if "in_block sb (sc_sb_size c) a" for a
    using pm by (intro filled_page_info [OF pr _ fits(1) that]) (simp add: s' new_sb_state_def)
  then show small: "small_sb s' d i ?seg"
    using i by (simp add: small_sb_def) (simp add: s' new_sb_state_def new_sb_desc_def)
  have "anchor_ok P k d (d_anchor (new_sb_desc i c sb (descs s d)))" for k
    by (simp add: anchor_ok_def new_sb_desc_def fresh_anchor_def set_state_def set_count_def set_avail_def)
  moreover have "pm (addr_to_key a) = page_map s (addr_to_key a)" if "unat a < 2 ^ 50" "\<not> seg_range ?seg a" for a
    using pm [OF that(1)] that(2) by (auto simp: seg_range_def in_block_def c)
  ultimately have "desc_change h d s s' \<and> base_ok h target s' \<and> descs_ok h s' P fs"
    using small by (intro add_used_ok [OF base ok map d s' [unfolded new_sb_state_def], of ?seg]) (auto simp: new_sb_desc_def)
  then show "desc_change h d s s'" "base_ok h target s'" "descs_ok h s' P fs" by blast+
qed


lemma new_sb_blocks:
  fixes s :: "'s alloc_state_scheme"
  assumes all: "used_all_ok h target s" "used_all_ok h target s'" and ok: "blocks_ok s bs live own" and ch: "desc_change h d s s'"
    and d: "super_block (descs s d) = None" "small_sb s' d i seg" "own_chain s' d seg = []" "mem_kept s s'"
    and b: "bin_list s' b' = blocks s' d seg" "distinct (blocks s' d seg)"
  shows "blocks_ok s' (bs(j := (bs j)[i := b'])) live (\<lambda>x. if x \<in> set (blocks s' d seg) then Cached j else own x)"
proof (rule fill_blocks [OF all(2) ok d(2,3) _ b(2) _ b(1)])
  note sb = desc_change_sb [OF all(1) ch]
  have other: "e \<noteq> d" if "super_block (descs s e) = Some sg" for e sg using that d(1) by auto
  have vw: "view (descs s' e) = view (descs s e)" if "e \<noteq> d" for e using desc_changeD(8) [OF ch that] by simp
  have up: "small_sb s' e k sg" "view (descs s' e) = view (descs s e)" "e \<noteq> d" if "small_sb s e k sg" for e k sg
    using that other [OF small_sb_block [OF that]] sb(1) vw by auto
  show "own x = Central" if x: "x \<in> set (blocks s' d seg)" "class_block s k x" for x k
  proof -
    obtain e sg where e: "small_sb s e k sg" "x \<in> set (blocks s e sg)" using x(2) by (auto simp: class_block_def)
    have "x \<in> set (blocks s' e sg)" using e(2) blocks_frame [OF up(2) [OF e(1)]] by simp
    then have "d = e" by (rule block_desc_unique [OF all(2) d(2) x(1) up(1) [OF e(1)]])
    then show ?thesis using up(3) [OF e(1)] by simp
  qed
  show "small_sb s' e k sg \<longleftrightarrow> small_sb s e k sg" if "e \<noteq> d" for e k sg by (rule sb(1) [OF that])
  show "large_sb s' e sg \<and> view (descs s' e) = view (descs s e)" if "large_sb s e sg" for e sg
    using that other [OF large_sb_block [OF that]] sb(2) vw by auto
  show "view (descs s' e) = view (descs s e)" if "e \<noteq> d" for e by (rule vw [OF that])
  show "sc_table s' = sc_table s" by (rule desc_changeD(3) [OF ch])
  show "same_cells s s' own" using mem_kept_load [OF all(1) d(4)] by (auto simp: same_cells_def)
  show "class_block s' k x" if "class_block s k x" for k x
    using class_block_frame [OF that, of s'] up by blast
qed simp

lemma new_sb_owned:
  fixes s :: "'s alloc_state_scheme"
  assumes env: "mmap_contract env" and base: "base_ok h target s" and descs: "descs_ok h s P fs" and ok: "blocks_ok s bs live own"
    and i: "class_ix i" "sc_table s ! i = c" and b: "block_num (bs j ! i) = 0"
    and granted: "desc_alloc env h s = Inr (d, s1)" "mmap env False (os_calls s1) (os_maps s1) (of_nat (sc_sb_size c)) \<noteq> MAP_FAILED"
  shows "\<exists>s' b'. malloc_from_new_sb env h True i (s, bs j ! i, n) = Inr (s', b', n + sc_block_num c) \<and> 0 < block_num b' \<and>
    0 < sc_block_num c \<and> heap_ok h target s' (bs(j := (bs j)[i := b'])) live \<and> alloc_state.more s' = alloc_state.more s \<and>
    data_kept s s' live"
proof -
  define sb where "sb = mmap env False (os_calls s1) (os_maps s1) (of_nat (sc_sb_size c))"
  let ?seg = "\<lparr>seg_ptr = sb, seg_length = of_nat (sc_sb_size c)\<rparr> :: segment"
  obtain fs1 where f: "desc_frame h s s1" "base_ok h target s1" "descs_ok h s1 P fs1" "d \<notin> set fs1" "\<And>i. class_ix i \<Longrightarrow> d \<notin> set (P i)"
    "desc_kept h s1 d" "super_block (descs s1 d) = None"
    "\<forall>d i seg. small_sb s1 d i seg \<longleftrightarrow> small_sb s d i seg" "\<forall>d seg. large_sb s1 d seg \<longleftrightarrow> large_sb s d seg"
    using desc_alloc_ok [OF env base descs granted(1)] by blast
  note fr = desc_frameD [OF f(1)]
  have ok1: "blocks_ok s1 bs live own" by (rule desc_alloc_blocks [OF base descs ok f(1,8,9)])
  have c1: "sc_table s1 ! i = c" using i(2) fr(2) by simp
  note cls = class_facts [OF f(2) i(1), unfolded c1]
  have v: "valid_map (sb, of_nat (sc_sb_size c))" "\<forall>r \<in> set (os_maps s1). maps_disjoint (sb, of_nat (sc_sb_size c)) r"
    using mmap_contractD [OF env] granted(2) by (auto simp: sb_def)
  obtain pm where pm: "malloc_from_new_sb env h True i (s, bs j ! i, n) =
      Inr (new_sb_state i c d sb pm s1, (bs j ! i)\<lparr>block := sb, block_num := sc_block_num c\<rparr>, n + sc_block_num c)"
    "\<And>a. unat a < 2 ^ 50 \<Longrightarrow> pm (addr_to_key a) = (if in_block sb (sc_sb_size c) a then d else page_map s1 (addr_to_key a))"
    using new_sb_result [OF env _ _ _ _ i(2) b granted(1) sb_def, of n] granted(2) class_facts(5,6) [OF base i(1)] base i(2)
    by (auto simp: base_ok_def sb_def)
  define s' b' where "s' = new_sb_state i c d sb pm s1" and "b' = (bs j ! i)\<lparr>block := sb, block_num := sc_block_num c\<rparr>"
  note ds = new_sb_descs [OF f(2,3) i(1) c1 v f(6,7,4,5) pm(2) s'_def]
  note all = descs_ok_used [OF f(2,3)] descs_ok_used [OF ds(2,3)]
  have bl: "blocks s' d ?seg = sb_blocks sb (sc_block_size c) (sc_block_num c)" "own_chain s' d ?seg = []"
    by (simp_all add: s'_def new_sb_state_def blocks_def own_chain_def new_sb_desc_def fresh_anchor_def set_state_def set_count_def Let_def)
  have mk: "mem_kept s1 s'" unfolding s'_def by (rule new_sb_mem_kept [OF cls(1,2) v])
  have "data_kept s s1 live" "data_kept s1 s' live"
    using mem_kept_data [OF descs_ok_used [OF base descs] ok fr(8)] mem_kept_data [OF all(1) ok1 mk] by auto
  then have dk: "data_kept s s' live" by (rule data_kept_trans)
  note mk
  moreover have "bin_list s' b' = blocks s' d ?seg" "distinct (blocks s' d ?seg)"
    using new_sb_bin [OF v(1) cls(1,2)] unfolding bl(1) by (simp_all add: s'_def b'_def)
  ultimately have "blocks_ok s' (bs(j := (bs j)[i := b'])) live (\<lambda>x. if x \<in> set (blocks s' d ?seg) then Cached j else own x)"
    using new_sb_blocks [OF all ok1 ds(1) f(7) ds(4) bl(2)] by blast
  moreover have "0 < sc_block_num c" using cls(1) by (simp add: class_ok_def)
  moreover have "alloc_state.more s' = alloc_state.more s" using fr(6) by (simp add: s'_def new_sb_state_def)
  ultimately show ?thesis using dk pm(1) heap_okI [OF ds(2,3)] unfolding s'_def [symmetric] b'_def [symmetric] by (auto simp: b'_def)
qed


section \<open>Filling a bin\<close>

text \<open>The kernel refuses the pages for a descriptor or a mapping of the given length.\<close>

definition kernel_refuses :: "os_env \<Rightarrow> (usize \<Rightarrow> nat) \<Rightarrow> usize \<Rightarrow> 's alloc_state_scheme \<Rightarrow> bool" where
  "kernel_refuses env h len s = (case desc_alloc env h s of Inl e \<Rightarrow> True
     | Inr (d, s1) \<Rightarrow> mmap env False (os_calls s1) (os_maps s1) len = MAP_FAILED)"

lemma new_sb_refused:
  assumes "heap_class s i c" "i < length (sc_table s)" "sc_table s ! i = c" "kernel_refuses env h (of_nat (sc_sb_size c)) s"
  shows "\<exists>e. malloc_from_new_sb env h nm i (s, b, n) = Inl e"
proof -
  have 1: "get_heap_at i s = Inr (the (heaps s) ! i)" "get_heaps env s = Inr s" "index_list (sc_table s) i = Inr c"
    using assms(1-3) by (auto simp: heap_class_def get_heap_at_def get_heaps_def)
  show ?thesis
  proof (cases "desc_alloc env h s")
    case (Inr r)
    then show ?thesis using assms(4) by (cases r)
      (simp add: malloc_from_new_sb_def new_super_block_def 1 seg_allocate_def map_segment_def kernel_refuses_def)
  qed (simp add: malloc_from_new_sb_def new_super_block_def 1)
qed

lemma bin_list_size [simp]: "bin_list s (b\<lparr>bin_block_size := v\<rparr>) = bin_list s b"
  by (simp add: bin_list_def)

lemma heap_ok_bin:
  assumes "heap_ok h target s (bs(j := (bs j)[i := b])) live" "class_ix i" "\<And>s :: 's alloc_state_scheme. bin_list s b' = bin_list s b"
  shows "heap_ok h target (s :: 's alloc_state_scheme) (bs(j := (bs j)[i := b'])) live"
proof -
  obtain P fs own where o: "base_ok h target s" "descs_ok h s P fs" "blocks_ok s (bs(j := (bs j)[i := b])) live own"
    using assms(1) by (auto simp: heap_ok_def)
  note k = blocks_okD [OF o(3)]
  have l: "length (bs l) = MAX_SZ_IDX" for l using k(2) [of l] by (auto split: if_splits)
  have "bin_ok s own l m ((bs(j := (bs j)[i := b'])) l ! m)" if "class_ix m" for l m
    using k(3) [OF that, of l] l assms(2,3) by (cases "l = j"; cases "m = i") (auto simp: bin_ok_def class_ix_def)
  then have "blocks_ok s (bs(j := (bs j)[i := b'])) live own" using k(1,4,5) l unfolding blocks_ok_def by simp
  then show ?thesis by (rule heap_okI [OF o(1,2)])
qed

lemma fill_cache_owned:
  fixes s :: "'s alloc_state_scheme"
  assumes env: "mmap_contract env" and ok: "heap_ok h target s bs live" and i: "class_ix i" "block_num (bs j ! i) = 0"
  shows "(\<exists>s' b'. fill_cache env h True i (s, bs j ! i) = Some (Inr (s', b')) \<and> 0 < block_num b' \<and>
      heap_ok h target s' (bs(j := (bs j)[i := b'])) live \<and> alloc_state.more s' = alloc_state.more s \<and> data_kept s s' live) \<or>
    (\<exists>s1 e. fill_cache env h True i (s, bs j ! i) = Some (Inl e) \<and> malloc_from_partial env i (s, bs j ! i, 0) = Some (Inr (s1, bs j ! i, 0)) \<and>
      kernel_refuses env h (of_nat (sc_sb_size (sc_table s1 ! i))) s1)"
proof -
  obtain P fs own where o: "base_ok h target s" "descs_ok h s P fs" "blocks_ok s bs live own" using ok by (auto simp: heap_ok_def)
  obtain s1 b1 n where p: "malloc_from_partial env i (s, bs j ! i, 0) = Some (Inr (s1, b1, n))" "alloc_state.more s1 = alloc_state.more s" "mem s1 = mem s"
    "n = 0 \<and> b1 = bs j ! i \<and> heap_ok h target s1 bs live \<or> n \<noteq> 0 \<and> 0 < block_num b1 \<and> heap_ok h target s1 (bs(j := (bs j)[i := b1])) live"
    using malloc_from_partial_owned [OF o i, of env] by blast
  have filled: "\<exists>s' b'. fill_cache env h True i (s, bs j ! i) = Some (Inr (s', b')) \<and> 0 < block_num b' \<and>
      heap_ok h target s' (bs(j := (bs j)[i := b'])) live \<and> alloc_state.more s' = alloc_state.more s \<and> data_kept s s' live"
    if r: "(if n = 0 then malloc_from_new_sb env h True i (s1, b1, n) else Inr (s1, b1, n)) = Inr (s2, b2, m)" "m \<noteq> 0" "0 < block_num b2"
      "heap_ok h target s2 (bs(j := (bs j)[i := b2])) live" "alloc_state.more s2 = alloc_state.more s" "data_kept s s2 live" for s2 b2 m
  proof -
    have "i < length (sc_table s2)" using r(4) class_facts(5) [OF _ i(1)] by (auto simp: heap_ok_def)
    then have "fill_cache env h True i (s, bs j ! i) = Some (Inr (s2, b2\<lparr>bin_block_size := Some (class_size s2 i)\<rparr>))"
      using p(1) r(1-3) by (simp add: fill_cache_def del: if_split)
    moreover have "heap_ok h target s2 (bs(j := (bs j)[i := b2\<lparr>bin_block_size := Some (class_size s2 i)\<rparr>])) live"
      by (rule heap_ok_bin [OF r(4) i(1)]) simp
    ultimately show ?thesis
      using r(3,5,6) by (intro exI [of _ s2] exI [of _ "b2\<lparr>bin_block_size := Some (class_size s2 i)\<rparr>"]) simp
  qed
  show ?thesis
  proof (cases "n = 0")
    case True
    then have q: "b1 = bs j ! i" "heap_ok h target s1 bs live" using p(4) by auto
    then obtain P1 fs1 own1 where o1: "base_ok h target s1" "descs_ok h s1 P1 fs1" "blocks_ok s1 bs live own1" by (auto simp: heap_ok_def)
    show ?thesis
    proof (cases "kernel_refuses env h (of_nat (sc_sb_size (sc_table s1 ! i))) s1")
      case True
      obtain e where "malloc_from_new_sb env h True i (s1, b1, n) = Inl e"
        using new_sb_refused [OF class_facts(6,5) [OF o1(1) i(1)] refl True] by blast
      then have "fill_cache env h True i (s, bs j ! i) = Some (Inl e)" using p(1) \<open>n = 0\<close> by (simp add: fill_cache_def)
      then show ?thesis using p(1) \<open>n = 0\<close> q(1) True by blast
    next
      case False
      then obtain d s2 where g: "desc_alloc env h s1 = Inr (d, s2)"
        "mmap env False (os_calls s2) (os_maps s2) (of_nat (sc_sb_size (sc_table s1 ! i))) \<noteq> MAP_FAILED"
        by (auto simp: kernel_refuses_def split: sum.splits)
      have "data_kept s s2 live" if "data_kept s1 s2 live" for s2 using that p(3) by (simp add: data_kept_def)
      then show ?thesis using new_sb_owned [OF env o1 i(1) refl i(2) g, of n] q(1) \<open>n = 0\<close> p(2) by (intro disjI1) (auto intro: filled)
    qed
  next
    case False
    then show ?thesis using p by (intro disjI1) (auto intro: filled)
  qed
qed

end
