(* ===== verification/Ownership_Requests.thy ===== *)
theory Ownership_Requests
  imports Ownership_Malloc
begin

text \<open>
  \<^verbatim>\<open>do_malloc\<close> keeps the ownership invariant and hands the client a block or a mapping that nobody else
  has. It fails only when the kernel refuses pages.
\<close>

section \<open>Small requests\<close>

text \<open>The setting: plain pointers in the bins, initialised, no tuning, not in the bootstrap phase.\<close>

definition plain :: "config \<Rightarrow> 's malloc_state_scheme \<Rightarrow> bool" where
  "plain cfg s \<longleftrightarrow> cfg_nm cfg \<and> \<not> cfg_panicking cfg \<and> malloc_inited s \<and> \<not> use_apf s \<and> \<not> use_boot s"

lemma plain_more:
  assumes "plain cfg s" "alloc_state.more s' = alloc_state.more s" shows "plain cfg s'"
  using assms more_malloc [OF assms(2)] by (simp add: plain_def)

lemma plain_mem [simp]: "plain cfg (s\<lparr>mem := m\<rparr>) = plain cfg s"
  by (simp add: plain_def)

text \<open>The first block of a bin goes to the client.\<close>

lemma pop_owned:
  fixes s :: "'s malloc_state_scheme"
  assumes ok: "heap_ok h target s bs live" and i: "class_ix i" "0 < block_num (bs j ! i)" "n \<le> class_size s i"
  shows "\<exists>p b'. pop_block True (mem s, bs j ! i) = Inr (p, mem s, b') \<and> heap_ok h target s (bs(j := (bs j)[i := b'])) ((p, n) # live) \<and> class_block s i p"
proof -
  obtain P fs own where o: "base_ok h target s" "descs_ok h s P fs" "blocks_ok s bs live own" using ok by (auto simp: heap_ok_def)
  note all = descs_ok_used [OF o(1,2)]
  let ?b = "bs j ! i"
  define b' where "b' = ?b\<lparr>block := load64 (mem s) (block ?b), block_num := block_num ?b - 1\<rparr>"
  have bl: "bin_list s ?b = block ?b # bin_list s b'" using i(2) by (cases "block_num ?b") (auto simp: bin_list_def b'_def)
  then have cb: "class_block s i (block ?b)" using blocks_okD(3) [OF o(3) i(1), of j] by (auto simp: bin_ok_def)
  then have "block ?b \<noteq> 0" by (rule class_blockD(4) [OF all])
  then have "pop_block True (mem s, ?b) = Inr (block ?b, mem s, b')"
    using i(2) by (simp add: pop_block_def b'_def Let_def split: option.split)
  then show ?thesis using heap_okI [OF o(1,2) take_block [OF all o(3) i(1) bl refl i(3)]] cb by blast
qed

text \<open>The request is refused: nothing is left in the partial list of its class, and the kernel does not give
  pages.\<close>

definition class_refused :: "config \<Rightarrow> nat \<Rightarrow> 's malloc_state_scheme \<Rightarrow> thread \<Rightarrow> bool" where
  "class_refused cfg i s t \<longleftrightarrow> (\<exists>s1. malloc_from_partial (cfg_os cfg) i (s, bins t ! i, 0) = Some (Inr (s1, bins t ! i, 0)) \<and>
     kernel_refuses (cfg_os cfg) (cfg_hash cfg) (of_nat (sc_sb_size (sc_table s1 ! i))) s1)"

definition refused :: "config \<Rightarrow> usize \<Rightarrow> 's malloc_state_scheme \<Rightarrow> thread \<Rightarrow> bool" where
  "refused cfg sz s t \<longleftrightarrow>
     (if unat sz > MAX_SZ then kernel_refuses (cfg_os cfg) (cfg_hash cfg) (page_ceiling sz) s
      else class_refused cfg (get_size_class (sc_lookup s) (unat sz)) s t)"

lemma bins_upd: "(\<lambda>k. bins ((ts(j := t')) k)) = (\<lambda>k. bins (ts k))(j := bins t')"
  by (simp add: fun_eq_iff)

lemma allocate_to_cache_owned:
  fixes s :: "'s malloc_state_scheme"
  assumes env: "mmap_contract (cfg_os cfg)" and pl: "plain cfg s" and i: "class_ix i" "n \<le> sc_block_size (size_classes ! i)"
    and ok: "heap_ok (cfg_hash cfg) (cfg_target cfg) s (\<lambda>k. bins (ts k)) live"
  shows "(\<exists>p s' t'. allocate_to_cache cfg sz i (s, ts j) = Some (Inr (p, s', t')) \<and> plain cfg s' \<and>
      heap_ok (cfg_hash cfg) (cfg_target cfg) s' (\<lambda>k. bins ((ts(j := t')) k)) ((p, n) # live) \<and> data_kept s s' live \<and> class_block s' i p) \<or>
    (\<exists>e. allocate_to_cache cfg sz i (s, ts j) = Some (Inl e)) \<and> class_refused cfg i s (ts j)"
proof -
  let ?h = "cfg_hash cfg" and ?bs = "\<lambda>k. bins (ts k)"
  obtain P fs own where o: "base_ok ?h (cfg_target cfg) s" "descs_ok ?h s P fs" "blocks_ok s ?bs live own" using ok by (auto simp: heap_ok_def)
  have fits: "n \<le> class_size u i" if "base_ok ?h (cfg_target cfg) u" for u :: "'s malloc_state_scheme"
    using that i by (auto simp: base_ok_def tables_ok_def class_ix_def class_ok_def)
  have l: "i < length (bins (ts j))" using blocks_okD(2) [OF o(3), of j] i(1) by (simp add: class_ix_def)
  have fin: "\<exists>p s' t'. allocate_to_cache cfg sz i (s, ts j) = Some (Inr (p, s', t')) \<and> plain cfg s' \<and>
      heap_ok ?h (cfg_target cfg) s' (\<lambda>k. bins ((ts(j := t')) k)) ((p, n) # live) \<and> data_kept s s' live \<and> class_block s' i p"
    if f: "(if block_num (?bs j ! i) = 0 then fill_cache (cfg_os cfg) ?h True i (s, ?bs j ! i) else Some (Inr (s, ?bs j ! i))) = Some (Inr (s1, b1))"
      "0 < block_num b1" "heap_ok ?h (cfg_target cfg) s1 (?bs(j := (?bs j)[i := b1])) live" "alloc_state.more s1 = alloc_state.more s"
      "data_kept s s1 live" for s1 b1
  proof -
    have pl1: "plain cfg s1" by (rule plain_more [OF pl f(4)])
    have "base_ok ?h (cfg_target cfg) s1" using f(3) by (auto simp: heap_ok_def)
    then obtain p b' where p: "pop_block True (mem s1, b1) = Inr (p, mem s1, b')"
      "heap_ok ?h (cfg_target cfg) s1 (?bs(j := (?bs j)[i := b'])) ((p, n) # live)" "class_block s1 i p"
      using pop_owned [OF f(3) i(1), of j n] f(2) l fits [of s1] by auto
    then have "allocate_to_cache cfg sz i (s, ts j) = Some (Inr (p, s1, put_bin i b' (ts j)))"
      using f(1,2) pl pl1 l by (auto simp: allocate_to_cache_def get_bin_def plain_def get_bin_block_num_def tune_malloc_def split: if_splits)
    moreover have "(\<lambda>k. bins ((ts(j := put_bin i b' (ts j))) k)) = ?bs(j := (?bs j)[i := b'])"
      unfolding bins_upd by (simp add: put_bin_def)
    ultimately show ?thesis using p(2,3) pl1 f(5) by metis
  qed
  show ?thesis
  proof (cases "block_num (?bs j ! i) = 0")
    case False
    then show ?thesis using fin [of s "?bs j ! i"] ok by (auto simp: fun_upd_idem)
  next
    case True
    from fill_cache_owned [OF env ok i(1), of j] True
    consider s1 b1 where "fill_cache (cfg_os cfg) ?h True i (s, ?bs j ! i) = Some (Inr (s1, b1))" "0 < block_num b1"
        "heap_ok ?h (cfg_target cfg) s1 (?bs(j := (?bs j)[i := b1])) live" "alloc_state.more s1 = alloc_state.more s" "data_kept s s1 live"
      | e where "fill_cache (cfg_os cfg) ?h True i (s, ?bs j ! i) = Some (Inl e)" "class_refused cfg i s (ts j)"
      unfolding class_refused_def by blast
    then show ?thesis
    proof cases
      case 1
      then show ?thesis using fin [of s1 b1] True by auto
    next
      case 2
      have "allocate_to_cache cfg sz i (s, ts j) = Some (Inl e)"
        using 2(1) True pl l by (simp add: allocate_to_cache_def get_bin_def plain_def get_bin_block_num_def)
      then show ?thesis using 2(2) by auto
    qed
  qed
qed

lemma do_malloc_small_owned:
  fixes s :: "'s malloc_state_scheme"
  assumes env: "mmap_contract (cfg_os cfg)" and pl: "plain cfg s" and sz: "unat sz \<le> MAX_SZ"
    and ok: "heap_ok (cfg_hash cfg) (cfg_target cfg) s (\<lambda>k. bins (ts k)) live"
  shows "(\<exists>p s' t'. do_malloc cfg sz (s, ts j) = Some (Inr (p, s', t')) \<and> plain cfg s' \<and>
      heap_ok (cfg_hash cfg) (cfg_target cfg) s' (\<lambda>k. bins ((ts(j := t')) k)) ((p, unat sz) # live) \<and> data_kept s s' live) \<or>
    (\<exists>e. do_malloc cfg sz (s, ts j) = Some (Inl e)) \<and> refused cfg sz s (ts j)"
proof -
  let ?i = "get_size_class (sc_lookup s) (unat sz)"
  have "base_ok (cfg_hash cfg) (cfg_target cfg) s" using ok by (auto simp: heap_ok_def)
  then have "class_ix ?i" "unat sz \<le> sc_block_size (size_classes ! ?i)" using sz by (auto simp: base_ok_def tables_ok_def class_ix_def class_ok_def)
  moreover have "do_malloc cfg sz (s, ts j) = allocate_to_cache cfg sz ?i (s, ts j)"
    using pl sz by (simp add: do_malloc_def init_once_def plain_def)
  ultimately show ?thesis using allocate_to_cache_owned [OF env pl _ _ ok, of ?i "unat sz" sz j] sz by (auto simp: refused_def)
qed

section \<open>Large requests\<close>

definition large_state :: "usize \<Rightarrow> usize \<Rightarrow> usize \<Rightarrow> 's malloc_state_scheme \<Rightarrow> 's malloc_state_scheme" where
  "large_state pages d p s = s\<lparr>os_calls := Suc (os_calls s), mem := zero_span p pages (mem s), os_maps := (p, pages) # os_maps s,
     descs := (descs s)(d := (large_desc pages (descs s d))\<lparr>super_block := Some \<lparr>seg_ptr = p, seg_length = pages\<rparr>,
       d_anchor := set_state FULL anchor_default\<rparr>), page_map := (page_map s)(addr_to_key p := d)\<rparr>"

lemma do_malloc_large_result:
  fixes s :: "'s malloc_state_scheme"
  assumes "malloc_inited s" "pm_ready s" "mmap_contract (cfg_os cfg)" "pages_ok (cfg_hash cfg) s" "MAX_SZ < unat sz"
    and "desc_alloc (cfg_os cfg) (cfg_hash cfg) s = Inr (d, s1)"
    and "p = mmap (cfg_os cfg) False (os_calls s1) (os_maps s1) (page_ceiling sz)" "p \<noteq> MAP_FAILED"
  shows "do_malloc cfg sz (s, t) = Some (Inr (p, large_state (page_ceiling sz) d p s1, t))"
proof -
  let ?pg = "page_ceiling sz" and ?seg = "\<lparr>seg_ptr = p, seg_length = page_ceiling sz\<rparr>"
  note fr = desc_alloc_frame [OF assms(3,4,6)]
  have v: "valid_map (p, ?pg)" using mmap_contractD [OF assms(3)] assms(7,8) by auto
  have seg: "map_segment (cfg_os cfg) False ?pg u = (Inr ?seg, u\<lparr>os_calls := Suc (os_calls s1),
      mem := zero_span p ?pg (mem s1), os_maps := (p, ?pg) # os_maps s1\<rparr>)"
    if "os_calls u = os_calls s1" "os_maps u = os_maps s1" "mem u = mem s1" for u :: "'s malloc_state_scheme"
    using that assms(7,8) by (simp add: map_segment_def Let_def)
  define s4 where "s4 = s1\<lparr>os_calls := Suc (os_calls s1), mem := zero_span p ?pg (mem s1), os_maps := (p, ?pg) # os_maps s1,
    descs := (descs s1)(d := (large_desc ?pg (descs s1 d))\<lparr>super_block := Some ?seg, d_anchor := set_state FULL anchor_default\<rparr>)\<rparr>"
  have d: "info_set_ptr d 0 = d" using info_get_desc_set [of d] fr by (auto simp: info_get_desc_def split: if_splits)
  have "p \<noteq> 0" "pm_ready s4" using v assms(2) fr by (simp_all add: valid_map_def s4_def pm_ready_def)
  then have "register_desc d s4 = Inr (s4\<lparr>page_map := (page_map s4)(addr_to_key p := d)\<rparr>)"
    using d by (simp add: register_desc_def update_page_map_def set_page_info_ready s4_def large_desc_def)
  moreover have "s4\<lparr>page_map := (page_map s4)(addr_to_key p := d)\<rparr> = large_state ?pg d p s1" by (simp add: s4_def large_state_def)
  ultimately have reg: "register_desc d s4 = Inr (large_state ?pg d p s1)" by simp
  have "do_malloc cfg sz (s, t) = Some (rbind (register_desc d s4) (\<lambda>s5.
      rbind (unwrap (super_block (descs s5 d))) (\<lambda>seg. Inr (seg_ptr seg, s5, t))))"
    using assms(1,5,6) by (simp add: do_malloc_def init_once_def seg_allocate_def seg upd_desc_def s4_def Let_def)
  then show ?thesis by (simp add: reg) (simp add: large_state_def)
qed


lemma page_key_range:
  assumes "valid_map (p, len)" "unat a < 2 ^ 50" "addr_to_key a = addr_to_key p"
  shows "unat p \<le> unat a \<and> unat a < unat p + map_span len"
proof -
  have v: "PAGE dvd unat p" "unat p + map_span len \<le> 2 ^ 47" using assms(1) by (auto simp: valid_map_def)
  have "unat p < 2 ^ 50" using v(2) map_span_pos [OF assms(1)] power_strict_increasing [of 47 50 "2::nat"] by simp
  then have e: "unat a div PAGE = unat p div PAGE" using assms(2,3) by (simp add: addr_to_key_eq)
  have "PAGE dvd map_span len" by (simp add: map_span_def round_up_dvd)
  then have "PAGE \<le> map_span len" using map_span_pos [OF assms(1)] by (auto intro: dvd_imp_le)
  moreover have "unat p = PAGE * (unat a div PAGE)" using v(1) e by simp
  moreover have "PAGE * (unat a div PAGE) \<le> unat a" "unat a < PAGE * (unat a div PAGE) + PAGE"
    using div_mult_mod_eq [of "unat a" PAGE] mod_less_divisor [of PAGE "unat a"] by (simp_all add: PAGE_value)
  ultimately show ?thesis by linarith
qed

text \<open>A mapping that belongs to nobody yet, fresh from the kernel, and what it is used for.\<close>

definition mapped :: "usize \<Rightarrow> usize \<Rightarrow> 's malloc_state_scheme \<Rightarrow> 's malloc_state_scheme" where
  "mapped p len s = s\<lparr>os_calls := Suc (os_calls s), mem := zero_span p len (mem s), os_maps := (p, len) # os_maps s\<rparr>"

definition large_use :: "usize \<Rightarrow> usize \<Rightarrow> usize \<Rightarrow> 's malloc_state_scheme \<Rightarrow> 's malloc_state_scheme" where
  "large_use pages d p s = s\<lparr>descs := (descs s)(d := (large_desc pages (descs s d))\<lparr>super_block := Some \<lparr>seg_ptr = p, seg_length = pages\<rparr>,
     d_anchor := set_state FULL anchor_default\<rparr>), page_map := (page_map s)(addr_to_key p := d)\<rparr>"

lemma large_state_eq: "large_state pages d p s = large_use pages d p (mapped p pages s)"
  by (simp add: large_state_def large_use_def mapped_def)

definition unused_map :: "(usize \<Rightarrow> nat) \<Rightarrow> 's malloc_state_scheme \<Rightarrow> usize \<Rightarrow> usize \<Rightarrow> bool" where
  "unused_map h s p len \<longleftrightarrow> valid_map (p, len) \<and> (p, len) \<in> set (os_maps s) \<and> hm_lookup h (size_map_or_new s) p = None \<and>
     (\<forall>e sg. super_block (descs s e) = Some sg \<longrightarrow> maps_disjoint (p, len) (seg_ptr sg, seg_length sg))"

lemma kernel_call_ok:
  fixes s :: "'s malloc_state_scheme"
  assumes o: "base_ok h target s" "descs_ok h s P fs" "blocks_ok s bs live own"
    and s': "s' = s\<lparr>os_calls := n, mem := m, os_maps := ms\<rparr>" and m: "mem_kept s s'" "pages_ok h s'" "set (os_maps s) \<subseteq> set ms"
  shows "base_ok h target s'" "descs_ok h s' P fs" "blocks_ok s' bs live own" "data_kept s s' live"
proof -
  note all = descs_ok_used [OF o(1,2)]
  have sm: "size_map_or_new s' = size_map_or_new s" by (simp add: s' size_map_or_new_def)
  have k: "desc_kept h s' e = desc_kept h s e" for e by (simp add: desc_kept_def sm)
  have fr: "desc_frame h s s'" unfolding desc_frame_def using m by (simp add: k sm) (simp add: s')
  have fl: "free_list s' fs" using descs_okD(3) [OF o(2)] by (simp add: free_list_def s')
  have free: "desc_kept h s' e \<and> super_block (descs s' e) = None" if "e \<in> set fs" for e
    using descs_okD(4) [OF o(2) that] by (simp add: k) (simp add: s')
  note f = desc_frame_ok [OF o(1,2) fr fl free]
  then show "base_ok h target s'" "descs_ok h s' P fs" by blast+
  show "blocks_ok s' bs live own" using f by (intro desc_alloc_blocks [OF o fr]) blast+
  show "data_kept s s' live" by (rule mem_kept_data [OF all o(3) m(1)])
qed

lemma mapped_ok:
  fixes s :: "'s malloc_state_scheme"
  assumes o: "base_ok h target s" "descs_ok h s P fs" "blocks_ok s bs live own"
    and map: "valid_map (p, len)" "\<forall>r \<in> set (os_maps s). maps_disjoint (p, len) r"
  shows "base_ok h target (mapped p len s)" "descs_ok h (mapped p len s) P fs" "blocks_ok (mapped p len s) bs live own"
    "unused_map h (mapped p len s) p len" "data_kept s (mapped p len s) live"
proof -
  let ?s = "mapped p len s"
  have pg: "pages_ok h s" using o(1) by (simp add: base_ok_def)
  have sm: "size_map_or_new ?s = size_map_or_new s" by (simp add: mapped_def size_map_or_new_def)
  have mk: "mem_kept s ?s" by (rule mem_kept_zero_span [OF map]) (simp add: mapped_def)
  have pg': "pages_ok h ?s" unfolding pages_ok_def sm using pg map by (auto simp: pages_ok_def mapped_def)
  show "base_ok h target ?s" "descs_ok h ?s P fs" "blocks_ok ?s bs live own" "data_kept s ?s live"
    using kernel_call_ok [OF o mapped_def mk pg'] by auto
  show "unused_map h ?s p len" unfolding unused_map_def sm
    using map unmapped_unknown [OF pg map] used_range(1) [OF descs_ok_used [OF o(1,2)]] by (auto simp: mapped_def)
qed

lemma refused_call_ok:
  fixes s :: "'s malloc_state_scheme"
  assumes "heap_ok h target s bs live"
  shows "heap_ok h target (s\<lparr>os_calls := n\<rparr>) bs live" "data_kept s (s\<lparr>os_calls := n\<rparr>) live"
proof -
  obtain P fs own where o: "base_ok h target s" "descs_ok h s P fs" "blocks_ok s bs live own" using assms by (auto simp: heap_ok_def)
  have "s\<lparr>os_calls := n\<rparr> = s\<lparr>os_calls := n, mem := mem s, os_maps := os_maps s\<rparr>" by simp
  moreover have "mem_kept s (s\<lparr>os_calls := n\<rparr>)" "pages_ok h (s\<lparr>os_calls := n\<rparr>)"
    using o(1) by (simp_all add: mem_kept_def base_ok_def pages_ok_def size_map_or_new_def)
  ultimately show "heap_ok h target (s\<lparr>os_calls := n\<rparr>) bs live" "data_kept s (s\<lparr>os_calls := n\<rparr>) live"
    using kernel_call_ok [OF o] heap_okI by (metis subset_refl)+
qed

text \<open>Allocating a descriptor leaves it unused.\<close>

lemma unused_map_frame:
  assumes "unused_map h s p len" "desc_frame h s s'" "descs_ok h s' P fs"
    and sb: "\<forall>d i seg. small_sb s' d i seg \<longleftrightarrow> small_sb s d i seg" "\<forall>d seg. large_sb s' d seg \<longleftrightarrow> large_sb s d seg"
  shows "unused_map h s' p len"
proof -
  have u: "valid_map (p, len)" "(p, len) \<in> set (os_maps s)" "hm_lookup h (size_map_or_new s) p = None"
    "super_block (descs s e) = Some sg \<Longrightarrow> maps_disjoint (p, len) (seg_ptr sg, seg_length sg)" for e sg
    using assms(1) by (auto simp: unused_map_def)
  have "super_block (descs s e) = Some sg" if "super_block (descs s' e) = Some sg" for e sg
    using descs_okD(1) [OF assms(3) that] sb small_sb_block large_sb_block unfolding used_ok_def by metis
  then show ?thesis using u desc_frameD(7) [OF assms(2)] desc_frameD(15) [OF assms(2) u(2,3)] by (auto simp: unused_map_def)
qed

lemma unused_map_live:
  assumes "unused_map h s p len" "used_all_ok h target s" "live_ok s own r" shows "fst r \<noteq> p"
proof -
  obtain e sg where "super_block (descs s e) = Some sg" "unat (seg_ptr sg) \<le> unat (fst r)"
    "unat (fst r) + max 1 (snd r) \<le> unat (seg_ptr sg) + map_span (seg_length sg)"
    using live_used [OF assms(2,3)] by blast
  moreover have "0 < map_span len" using assms(1) map_span_pos [of "(p, len)"] by (auto simp: unused_map_def)
  ultimately show ?thesis using assms(1) by (fastforce simp: unused_map_def maps_disjoint_def)
qed

lemma large_use_descs:
  fixes s :: "'s malloc_state_scheme"
  assumes base: "base_ok h target s" and ok: "descs_ok h s P fs" and sz: "MAX_SZ < unat pages" "unat pages < 2 ^ 32"
    and map: "unused_map h s p pages"
    and d: "desc_kept h s d" "super_block (descs s d) = None" "d \<notin> set fs" "\<And>i. class_ix i \<Longrightarrow> d \<notin> set (P i)"
  shows "desc_change h d s (large_use pages d p s)" "base_ok h target (large_use pages d p s)"
    "descs_ok h (large_use pages d p s) P fs" "large_sb (large_use pages d p s) d \<lparr>seg_ptr = p, seg_length = pages\<rparr>"
    "block_size (descs (large_use pages d p s) d) = unat pages"
proof -
  let ?s = "large_use pages d p s" and ?seg = "\<lparr>seg_ptr = p, seg_length = pages\<rparr> :: segment"
  have u: "valid_map (p, pages)" "(p, pages) \<in> set (os_maps s)" "hm_lookup h (size_map_or_new s) p = None"
    "super_block (descs s e) = Some sg \<Longrightarrow> maps_disjoint (p, pages) (seg_ptr sg, seg_length sg)" for e sg
    using map by (auto simp: unused_map_def)
  have pr: "pm_ready ?s" using base by (simp add: base_ok_def large_use_def pm_ready_def)
  then have "get_page_info p ?s = Inr d" by (simp add: get_page_info_ready) (simp add: large_use_def)
  moreover have len: "unat (ucast pages :: u32) = unat pages" using sz(2) by (simp add: unat_ucast_mod)
  ultimately show large: "large_sb ?s d ?seg" using sz(1) by (simp add: large_sb_def) (simp add: large_use_def large_desc_def)
  show "block_size (descs ?s d) = unat pages" using len by (simp add: large_use_def large_desc_def)
  let ?r = "(large_desc pages (descs s d))\<lparr>super_block := Some ?seg, d_anchor := set_state FULL anchor_default\<rparr>"
  have eq: "?s = s\<lparr>os_calls := os_calls s, mem := mem s, os_maps := os_maps s, descs := (descs s)(d := ?r), page_map := (page_map s)(addr_to_key p := d)\<rparr>"
    by (simp add: large_use_def)
  have pm: "((page_map s)(addr_to_key p := d)) (addr_to_key a) = page_map s (addr_to_key a)" if "unat a < 2 ^ 50" "\<not> seg_range ?seg a" for a
    using that page_key_range [OF u(1) that(1)] by (auto simp: seg_range_def)
  have r: "super_block ?r = Some ?seg" "seg_ptr ?seg = p" "seg_length ?seg = pages" by simp_all
  have pg: "pages_ok h ?s" using base by (simp add: base_ok_def pages_ok_def large_use_def size_map_or_new_def)
  have no: "\<not> small_sb ?s d i ?seg" for i using large by (simp add: small_sb_def large_sb_def)
  have "desc_change h d s ?s \<and> base_ok h target ?s \<and> descs_ok h ?s P fs"
    using large no by (intro use_mapping_ok [OF base ok d eq pg subset_refl u(2,3,4) r pm]) simp_all
  then show "desc_change h d s ?s" "base_ok h target ?s" "descs_ok h ?s P fs" by blast+
qed

lemma large_use_blocks:
  fixes s :: "'s malloc_state_scheme"
  assumes all: "used_all_ok h target s" and ok: "blocks_ok s bs live own" and ch: "desc_change h d s s'" and m: "mem s' = mem s"
    and d: "super_block (descs s d) = None" "large_sb s' d seg" "seg_ptr seg = p" "n \<le> block_size (descs s' d)" "unused_map h s p len"
  shows "blocks_ok s' bs ((p, n) # live) own"
proof (rule blocks_ok_live [OF ok])
  note sb = desc_change_sb [OF all ch]
  have other: "e \<noteq> d" if "super_block (descs s e) = Some sg" for e sg using that d(1) by auto
  have "small_sb s' e i sg \<longleftrightarrow> small_sb s e i sg" for e i sg
    using sb(1) [of e] d(1,2) by (cases "e = d") (auto simp: small_sb_def large_sb_def)
  then show small: "small_sb s' = small_sb s" by (simp add: fun_eq_iff)
  show vw: "view (descs s' e) = view (descs s e)" if "small_sb s e i sg" for e i sg
    using desc_changeD(8) [OF ch other [OF small_sb_block [OF that]]] by simp
  show "same_cells s s' own" using m by (auto simp: same_cells_def)
  have "fst r \<noteq> p" if "r \<in> set live" for r by (rule unused_map_live [OF d(5) all blocks_okD(5) [OF ok that]])
  then show "distinct (map fst ((p, n) # live))" using blocks_okD(4) [OF ok] by auto
  have cb: "class_block s' i x" if "class_block s i x" for i x using class_block_frame [OF that, of s'] small vw by simp
  have large: "large_sb s' e sg \<and> block_size (descs s' e) = block_size (descs s e)" if "large_sb s e sg" for e sg
    using that sb(2) desc_changeD(8) [OF ch other [OF large_sb_block [OF that]]] other [OF large_sb_block [OF that]] by simp
  have "live_ok s' own r" if "r \<in> set live" for r
    using blocks_okD(5) [OF ok that] cb large desc_changeD(3) [OF ch] unfolding live_ok_def by metis
  then show "live_ok s' own r" if "r \<in> set ((p, n) # live)" for r
    using that d(2-4) by (cases "r = (p, n)") (auto simp: live_ok_def)
qed

lemma large_use_owned:
  fixes s :: "'s malloc_state_scheme"
  assumes o: "base_ok h target s" "descs_ok h s P fs" "blocks_ok s bs live own" and sz: "MAX_SZ < unat pages" "unat pages < 2 ^ 32" "n \<le> unat pages"
    and map: "unused_map h s p pages"
    and d: "desc_kept h s d" "super_block (descs s d) = None" "d \<notin> set fs" "\<And>i. class_ix i \<Longrightarrow> d \<notin> set (P i)"
  shows "heap_ok h target (large_use pages d p s) bs ((p, n) # live)"
proof -
  note ld = large_use_descs [OF o(1,2) sz(1,2) map d]
  have "mem (large_use pages d p s) = mem s" by (simp add: large_use_def)
  then have "blocks_ok (large_use pages d p s) bs ((p, n) # live) own"
    using sz(3) ld(5) by (intro large_use_blocks [OF descs_ok_used [OF o(1,2)] o(3) ld(1) _ d(2) ld(4) _ _ map]) simp_all
  then show ?thesis using heap_okI [OF ld(2,3)] by blast
qed

lemma do_malloc_large_owned:
  fixes s :: "'s malloc_state_scheme"
  assumes env: "mmap_contract (cfg_os cfg)" and pl: "plain cfg s" and sz: "MAX_SZ < unat sz" "unat sz \<le> 2 ^ 32 - PAGE"
    and ok: "heap_ok (cfg_hash cfg) (cfg_target cfg) s bs live"
  shows "(\<exists>p s'. do_malloc cfg sz (s, t) = Some (Inr (p, s', t)) \<and> plain cfg s' \<and>
      heap_ok (cfg_hash cfg) (cfg_target cfg) s' bs ((p, unat sz) # live) \<and> data_kept s s' live) \<or>
    (\<exists>e. do_malloc cfg sz (s, t) = Some (Inl e)) \<and> refused cfg sz s t"
proof (cases "kernel_refuses (cfg_os cfg) (cfg_hash cfg) (page_ceiling sz) s")
  case True
  have "\<exists>e. do_malloc cfg sz (s, t) = Some (Inl e)"
  proof (cases "desc_alloc (cfg_os cfg) (cfg_hash cfg) s")
    case (Inr r)
    then show ?thesis using True sz(1) pl by (cases r)
      (simp add: do_malloc_def init_once_def plain_def seg_allocate_def map_segment_def kernel_refuses_def register_desc_def Let_def)
  qed (use sz(1) pl in \<open>simp add: do_malloc_def init_once_def plain_def Let_def\<close>)
  then show ?thesis using True sz(1) by (simp add: refused_def)
next
  case False
  let ?h = "cfg_hash cfg" and ?pg = "page_ceiling sz"
  obtain d s1 where g: "desc_alloc (cfg_os cfg) ?h s = Inr (d, s1)" "mmap (cfg_os cfg) False (os_calls s1) (os_maps s1) ?pg \<noteq> MAP_FAILED"
    using False by (auto simp: kernel_refuses_def split: sum.splits)
  define p where "p = mmap (cfg_os cfg) False (os_calls s1) (os_maps s1) ?pg"
  obtain P fs own where o: "base_ok ?h (cfg_target cfg) s" "descs_ok ?h s P fs" "blocks_ok s bs live own" using ok by (auto simp: heap_ok_def)
  obtain fs1 where f: "desc_frame ?h s s1" "base_ok ?h (cfg_target cfg) s1" "descs_ok ?h s1 P fs1" "d \<notin> set fs1" "\<And>i. class_ix i \<Longrightarrow> d \<notin> set (P i)"
    "desc_kept ?h s1 d" "super_block (descs s1 d) = None"
    "\<forall>d i seg. small_sb s1 d i seg \<longleftrightarrow> small_sb s d i seg" "\<forall>d seg. large_sb s1 d seg \<longleftrightarrow> large_sb s d seg"
    using desc_alloc_ok [OF env o(1,2) g(1)] by blast
  have ok1: "blocks_ok s1 bs live own" by (rule desc_alloc_blocks [OF o f(1,8,9)])
  have pc: "unat sz \<le> unat ?pg" "MAX_SZ < unat ?pg" "unat ?pg < 2 ^ 32"
    using page_ceiling_large [OF sz(1)] sz by (auto simp: PAGE_value)
  have v: "valid_map (p, ?pg)" "\<forall>r \<in> set (os_maps s1). maps_disjoint (p, ?pg) r" using mmap_contractD [OF env] g(2) by (auto simp: p_def)
  note m = mapped_ok [OF f(2,3) ok1 v]
  have same: "desc_kept ?h (mapped p ?pg s1) d = desc_kept ?h s1 d" "descs (mapped p ?pg s1) = descs s1"
    by (simp_all add: mapped_def desc_kept_def size_map_or_new_def)
  have "heap_ok ?h (cfg_target cfg) (large_use ?pg d p (mapped p ?pg s1)) bs ((p, unat sz) # live)"
    using f(4-7) pc same by (intro large_use_owned [OF m(1-3) _ _ _ m(4)]) auto
  moreover have "do_malloc cfg sz (s, t) = Some (Inr (p, large_state ?pg d p s1, t))"
    using do_malloc_large_result [OF _ _ env _ sz(1) g(1) p_def] pl o(1) g(2) by (simp add: plain_def base_ok_def p_def)
  moreover have "data_kept s s1 live" by (rule mem_kept_data [OF descs_ok_used [OF o(1,2)] o(3) desc_frameD(8) [OF f(1)]])
  then have "data_kept s (mapped p ?pg s1) live" using m(5) by (rule data_kept_trans)
  then have "data_kept s (large_state ?pg d p s1) live" by (simp add: large_state_eq large_use_def data_kept_def)
  moreover have "plain cfg (large_state ?pg d p s1)"
    using desc_frameD(6) [OF f(1)] by (intro plain_more [OF pl]) (simp add: large_state_def)
  ultimately show ?thesis by (auto simp: large_state_eq)
qed

lemma do_malloc_owned:
  fixes s :: "'s malloc_state_scheme"
  assumes env: "mmap_contract (cfg_os cfg)" and pl: "plain cfg s" and sz: "unat sz \<le> 2 ^ 32 - PAGE"
    and ok: "heap_ok (cfg_hash cfg) (cfg_target cfg) s (\<lambda>k. bins (ts k)) live"
  shows "(\<exists>p s' t'. do_malloc cfg sz (s, ts j) = Some (Inr (p, s', t')) \<and> plain cfg s' \<and>
      heap_ok (cfg_hash cfg) (cfg_target cfg) s' (\<lambda>k. bins ((ts(j := t')) k)) ((p, unat sz) # live) \<and> data_kept s s' live) \<or>
    (\<exists>e. do_malloc cfg sz (s, ts j) = Some (Inl e)) \<and> refused cfg sz s (ts j)"
proof (cases "unat sz \<le> MAX_SZ")
  case False
  have "(\<lambda>k. bins ((ts(j := ts j)) k)) = (\<lambda>k. bins (ts k))" by simp
  then show ?thesis using do_malloc_large_owned [OF env pl _ sz ok, of "ts j"] False by (metis not_le)
qed (rule do_malloc_small_owned [OF env pl _ ok])

end
