(* ===== verification/Ownership_Free.thy ===== *)
theory Ownership_Free
  imports Ownership_Requests
begin

text \<open>
  Giving memory back keeps the ownership invariant. \<^verbatim>\<open>flush_cache\<close> returns a whole bin to the super blocks
  it came from, \<^verbatim>\<open>do_free\<close> puts a block in the bin of its class or unmaps a large allocation, and none
  of them panics on an allocation of the client.
\<close>

section \<open>Runs of a bin\<close>

lemma chain_append_split: "chain nx p (a + b) = chain nx p a @ chain nx ((nx ^^ a) p) b"
  by (induction a arbitrary: p) (simp_all add: funpow_swap1)

lemma chain_last: "last (chain nx p (Suc n)) = (nx ^^ n) p"
  by (induction n arbitrary: p) (simp_all add: funpow_swap1)

lemma chain_cong_last:
  "(\<And>q. q \<in> set (chain nx p n) \<Longrightarrow> nx' q = nx q) \<Longrightarrow> chain nx' p (Suc n) = chain nx p (Suc n)"
  by (induction n arbitrary: p) auto

lemma flush_run_prefix:
  assumes "flush_run m sb len (k + n) p k = (t, c)"
  shows "k \<le> c \<and> c \<le> k + n \<and> t = (load64 m ^^ (c - k)) p \<and>
    (\<forall>x \<in> set (chain (load64 m) (load64 m p) (c - k)). sb \<le> x \<and> x < sb + of_nat len)"
  using assms
proof (induction n arbitrary: p k)
  case 0
  then show ?case by (subst (asm) flush_run.simps) simp
next
  case (Suc n)
  show ?case
  proof (cases "load64 m p < sb \<or> sb + of_nat len \<le> load64 m p")
    case True
    then show ?thesis using Suc.prems by (subst (asm) flush_run.simps) (simp add: Let_def)
  next
    case False
    then have "flush_run m sb len (Suc k + n) (load64 m p) (Suc k) = (t, c)"
      using Suc.prems by (subst (asm) flush_run.simps) (simp add: Let_def)
    from Suc.IH [OF this] have c: "Suc k \<le> c" "c \<le> Suc k + n" "t = (load64 m ^^ (c - Suc k)) (load64 m p)"
      "\<forall>x \<in> set (chain (load64 m) (load64 m (load64 m p)) (c - Suc k)). sb \<le> x \<and> x < sb + of_nat len"
      by auto
    obtain j where j: "c = Suc (k + j)" using c(1) by (auto simp: le_iff_add)
    then show ?thesis using c False by (auto simp: funpow_swap1 not_less not_le)
  qed
qed

text \<open>The blocks of a run, on a bin whose list of blocks is known.\<close>

lemma flush_run_list:
  assumes "flush_run m sb len (length xs) p 1 = (t, c)" "chain (load64 m) p (length xs) = xs" "xs \<noteq> []" "sb \<le> p \<and> p < sb + of_nat len"
  shows "1 \<le> c" "c \<le> length xs" "t = last (take c xs)" "take c xs = chain (load64 m) p c"
    "drop c xs = chain (load64 m) (load64 m t) (length xs - c)" "\<And>x. x \<in> set (take c xs) \<Longrightarrow> sb \<le> x \<and> x < sb + of_nat len"
proof -
  obtain n where n: "length xs = 1 + n" using assms(3) by (cases xs) auto
  have r: "1 \<le> c \<and> c \<le> 1 + n \<and> t = (load64 m ^^ (c - 1)) p \<and>
      (\<forall>x \<in> set (chain (load64 m) (load64 m p) (c - 1)). sb \<le> x \<and> x < sb + of_nat len)"
    by (rule flush_run_prefix) (use assms(1) n in simp)
  then show c: "1 \<le> c" "c \<le> length xs" using n by auto
  obtain j where j: "c = Suc j" using c(1) by (cases c) auto
  have nx: "load64 m t = (load64 m ^^ c) p" using r j by simp
  have "xs = chain (load64 m) p c @ chain (load64 m) ((load64 m ^^ c) p) (length xs - c)"
    using chain_append_split [of "load64 m" p c "length xs - c"] c(2) assms(2) by simp
  then show tk: "take c xs = chain (load64 m) p c" and dr: "drop c xs = chain (load64 m) (load64 m t) (length xs - c)"
    unfolding nx by (metis append_eq_conv_conj length_chain)+
  have "t = (load64 m ^^ j) p" using r j by simp
  then show "t = last (take c xs)" unfolding tk unfolding j by (simp only: chain_last)
  show "sb \<le> x \<and> x < sb + of_nat len" if "x \<in> set (take c xs)" for x
    using that r assms(4) unfolding tk unfolding j by auto
qed


text \<open>The index of a block, as the flush computes it.\<close>

lemma block_compute_index:
  assumes all: "used_all_ok h target s" and d: "small_sb s d i seg" "x \<in> set (blocks s d seg)"
  shows "\<exists>k. compute_index (seg_ptr seg) x i = Inr k \<and> seg_ptr seg + of_nat (unat k * class_size s i) = x \<and> unat k < 2 ^ 30"
proof -
  note sd = small_sbD [OF all d(1)]
  let ?z = "class_size s i" and ?c = "sc_table s ! i"
  have base: "base_ok h target s" using all by (simp add: used_all_ok_def)
  note cls = class_facts [OF base sd(2)]
  obtain k where k: "k < sc_block_num ?c" "x = seg_ptr seg + of_nat (?z * k)"
    using d(2) by (auto simp: sd(9) sb_blocks_def sb_block_def)
  have "?z * k \<le> ?z * sc_block_num ?c" using k(1) by simp
  moreover have sz: "sc_sb_size ?c < 2 ^ 32" using cls(1) by (simp add: class_ok_def)
  ultimately have lt: "?z * k < 2 ^ 32" using sd(7) by linarith
  have tz: "?z = sc_block_size (size_classes ! i)"
    using base sd(2) by (auto simp: base_ok_def tables_ok_def class_ix_def class_ok_def)
  have "compute_index (seg_ptr seg) x i = Inr (of_nat (?z * k div sc_block_size (size_classes ! i)))"
    using sd(2) unfolding k(2) by (intro compute_index_div lt) (auto simp: class_ix_def)
  moreover have "?z * k div sc_block_size (size_classes ! i) = k" using cls(2) unfolding tz [symmetric] by simp
  moreover have "8 * k \<le> ?z * k" using cls(2) by simp
  then have "8 * k < 2 ^ 32" using lt by linarith
  then have k30: "k < 2 ^ 30" by simp
  moreover have "unat (of_nat k :: u32) = k" using k30 by (simp add: unat_of_nat)
  ultimately show ?thesis using k(2) by (intro exI [of _ "of_nat k"]) (simp add: mult.commute)
qed

text \<open>What a round of the flush finds: the run at the head of the bin, and that writing the link of its
  last block does not disturb the other blocks.\<close>

lemma flush_head:
  assumes all: "used_all_ok h target s" and ok: "blocks_ok s bs live own" and i: "class_ix i" "0 < block_num (bs j ! i)"
  shows "\<exists>d seg. small_sb s d i seg \<and> block (bs j ! i) \<in> set (blocks s d seg) \<and> get_page_info (block (bs j ! i)) s = Inr d \<and> d \<noteq> 0"
proof -
  have "block (bs j ! i) \<in> set (bin_list s (bs j ! i))" using i(2) by (cases "block_num (bs j ! i)") (auto simp: bin_list_def)
  then have "class_block s i (block (bs j ! i))" using blocks_okD(3) [OF ok i(1), of j] by (simp add: bin_ok_def)
  then obtain d seg where d: "small_sb s d i seg" "block (bs j ! i) \<in> set (blocks s d seg)" "get_page_info (block (bs j ! i)) s = Inr d"
    using class_blockD(5) [OF all] by blast
  have "desc_kept h s d" using small_sbD(1) [OF all d(1)] by (simp add: used_ok_def)
  then have "d \<noteq> 0" by (auto simp: desc_kept_def desc_addr_def)
  then show ?thesis using d by blast
qed

lemma in_block_words:
  assumes "unat sb + len \<le> 2 ^ 47" shows "sb \<le> x \<and> x < sb + of_nat len \<longleftrightarrow> in_block sb len x"
proof -
  have "unat (of_nat len :: usize) = len" using assms pow2_47_64 by (simp add: unat_of_nat)
  then have "unat (sb + of_nat len) = unat sb + len" using assms by (subst unat_add_no_overflow) simp_all
  then show ?thesis by (simp add: in_block_def word_le_nat_alt word_less_nat_alt)
qed

lemma flush_prefix:
  assumes all: "used_all_ok h target s" and ok: "blocks_ok s bs live own" and i: "class_ix i" "0 < block_num (bs j ! i)"
    and d: "small_sb s d i seg" "block (bs j ! i) \<in> set (blocks s d seg)"
    and run: "flush_run (mem s) (seg_ptr seg) (sc_sb_size (sc_table s ! i)) (block_num (bs j ! i)) (block (bs j ! i)) 1 = (t, n)"
  shows "\<exists>ys rest. bin_list s (bs j ! i) = ys @ rest \<and> set ys \<subseteq> set (blocks s d seg) \<and> length ys = n \<and> 0 < n \<and> t \<in> set ys \<and>
    n \<le> block_num (bs j ! i) \<and> (\<forall>m. (\<forall>k x. class_block s k x \<longrightarrow> x \<noteq> t \<longrightarrow> load64 m x = load64 (mem s) x) \<longrightarrow>
      chain (load64 m) (block (bs j ! i)) n = ys \<and> chain (load64 m) (load64 (mem s) t) (block_num (bs j ! i) - n) = rest)"
proof -
  let ?b = "bs j ! i" and ?sb = "seg_ptr seg" and ?len = "sc_sb_size (sc_table s ! i)"
  define xs where "xs = bin_list s ?b"
  note sd = small_sbD [OF all d(1)]
  have xs: "length xs = block_num ?b" "chain (load64 (mem s)) (block ?b) (length xs) = xs" "distinct xs"
    "\<And>x. x \<in> set xs \<Longrightarrow> class_block s i x"
    using blocks_okD(3) [OF ok i(1), of j] by (auto simp: xs_def bin_list_def bin_ok_def)
  have ne: "xs \<noteq> []" using i(2) xs(1) by auto
  have hd: "?sb \<le> block ?b \<and> block ?b < ?sb + of_nat ?len"
  proof -
    have "8 \<le> class_size s i" using all class_facts(2) [OF _ i(1), of h target s] by (simp add: used_all_ok_def)
    then have "in_block ?sb ?len (block ?b)" using block_inside [OF all d] by (simp add: in_block_def)
    then show ?thesis using in_block_words [OF sd(4)] by simp
  qed
  note r = flush_run_list [OF run [folded xs(1)] xs(2) ne hd]
  have ys: "set (take n xs) \<subseteq> set (blocks s d seg)"
  proof
    fix x assume x: "x \<in> set (take n xs)"
    then have "get_page_info x s = Inr d" using r(6) d(1) in_block_words [OF sd(4)] by (simp add: small_sb_def)
    moreover have "class_block s i x" using x xs(4) in_set_takeD by metis
    ultimately obtain sg where "small_sb s d i sg" "x \<in> set (blocks s d sg)" using class_blockD(5) [OF all] by fastforce
    then show "x \<in> set (blocks s d seg)" using d(1) by (auto simp: small_sb_def)
  qed
  obtain l where l: "n = Suc l" using r(1) by (cases n) auto
  have "chain (load64 m) (block ?b) n = take n xs \<and> chain (load64 m) (load64 (mem s) t) (block_num ?b - n) = drop n xs"
    if m: "\<And>k x. class_block s k x \<Longrightarrow> x \<noteq> t \<Longrightarrow> load64 m x = load64 (mem s) x" for m
  proof -
    have dist: "distinct (take n xs @ drop n xs)" using xs(3) by simp
    have tk: "take n xs = chain (load64 (mem s)) (block ?b) (l + 1)" using r(4) l by simp
    have "take n xs = chain (load64 (mem s)) (block ?b) l @ [t]"
    proof -
      have "take n xs = chain (load64 (mem s)) (block ?b) l @ [(load64 (mem s) ^^ l) (block ?b)]"
        unfolding tk by (subst chain_append_split) simp
      then show ?thesis using r(3) by simp
    qed
    then have "t \<notin> set (chain (load64 (mem s)) (block ?b) l)" "set (chain (load64 (mem s)) (block ?b) l) \<subseteq> set xs"
      using dist by (auto dest: in_set_takeD) (metis UnCI append_take_drop_id set_append)
    then have "chain (load64 m) (block ?b) (Suc l) = chain (load64 (mem s)) (block ?b) (Suc l)"
      using m xs(4) by (intro chain_cong_last) blast
    moreover have "t \<in> set (take n xs)" using r(3) l ne by (metis last_in_set take_eq_Nil nat.distinct(1))
    then have "t \<notin> set (drop n xs)" using dist unfolding distinct_append by blast
    then have "chain (load64 m) (load64 (mem s) t) (block_num ?b - n) = chain (load64 (mem s)) (load64 (mem s) t) (block_num ?b - n)"
      using m xs(4) r(5) xs(1) by (intro chain_cong [symmetric]) (metis in_set_dropD)
    ultimately show ?thesis using r(4,5) l xs(1) by simp
  qed
  moreover have "t \<in> set (take n xs)" using r(3) l ne by (metis last_in_set take_eq_Nil nat.distinct(1))
  ultimately show ?thesis using r(1,2) ys xs(1) xs_def by (intro exI [of _ "take n xs"] exI [of _ "drop n xs"]) auto
qed


section \<open>One round of the flush\<close>

definition flush_write :: "usize \<Rightarrow> anchor \<Rightarrow> usize \<Rightarrow> usize \<Rightarrow> 's alloc_state_scheme \<Rightarrow> 's alloc_state_scheme" where
  "flush_write d a t v s = upd_desc d (\<lambda>q. q\<lparr>d_anchor := a\<rparr>) (s\<lparr>mem := store64 (mem s) t v\<rparr>)"

lemma flush_step_form:
  fixes s :: "'s alloc_state_scheme"
  assumes "get_page_info (block b) s = Inr d" "d \<noteq> 0" "super_block (descs s d) = Some seg"
    and "flush_run (mem s) (seg_ptr seg) (sc_sb_size c) (block_num b) (block b) 1 = (t, n)" "n \<le> block_num b"
    and "compute_index (seg_ptr seg) (block b) i = Inr k"
  shows "\<exists>v. flush_step env i c (s, b) =
    (let old = d_anchor (descs s d); a = flush_anchor old (max_count (descs s d)) (unat k) n; s1 = flush_write d a t v s;
       b' = b\<lparr>block := load64 (mem s) t, block_num := block_num b - n\<rparr> in
     if a_state a = EMPTY then rbind (unregister_desc (Some i) seg s1) (\<lambda>s2.
       Inr (Some (snd (seg_deallocate env seg (upd_desc d (\<lambda>q. q\<lparr>super_block := None\<rparr>) s2)), b')))
     else if a_state old = FULL then rbind (heap_push_partial d s1) (\<lambda>s2. Inr (Some (s2, b')))
     else Inr (Some (s1, b')))"
  using assms
  by (intro exI [of _ "seg_ptr seg + of_nat (a_avail (d_anchor (descs s d)) * sc_block_size c)"])
    (simp add: flush_step_def peek_block_def get_page_info_for_ptr_def info_get_desc_def get_bin_block_num_def pop_list_def
      flush_write_def Let_def case_prod_unfold del: of_nat_mult cong: if_cong)

lemma flush_anchor_partial:
  assumes "a_count old + n \<noteq> mc" "a_state old = FULL \<or> a_state old = PARTIAL" "k < 2 ^ 30" "n < 2 ^ 32"
  shows "a_state (flush_anchor old mc k n) = PARTIAL" "a_count (flush_anchor old mc k n) = n" "a_avail (flush_anchor old mc k n) = k"
  using assms by (auto simp: flush_anchor_def set_avail_def set_state_def set_count_def Let_def)

text \<open>A run is no longer than its super block.\<close>

lemma run_bound:
  assumes "used_all_ok h target s" "small_sb s d i seg" "set ys \<subseteq> set (blocks s d seg)" "distinct ys"
  shows "length ys < 2 ^ 32"
proof -
  note sd = small_sbD [OF assms(1,2)]
  have base: "base_ok h target s" using assms(1) by (simp add: used_all_ok_def)
  note cls = class_facts [OF base sd(2)]
  have "length ys \<le> length (blocks s d seg)"
    using card_mono [OF _ assms(3)] distinct_card [OF assms(4)] card_length [of "blocks s d seg"] by simp
  also have "\<dots> = sc_block_num (sc_table s ! i)" by (simp add: sd(9) sb_blocks_def)
  also have "\<dots> \<le> class_size s i * sc_block_num (sc_table s ! i)" using cls(2) by simp
  also have "\<dots> \<le> sc_sb_size (sc_table s ! i)" by (rule sd(7))
  also have "\<dots> < 2 ^ 32" using cls(1) by (simp add: class_ok_def)
  finally show ?thesis .
qed

lemma write_frame:
  assumes "used_all_ok h target s" "class_block s i t" "class_block s k x" "x \<noteq> t"
  shows "load64 (store64 (mem s) t v) x = load64 (mem s) x"
  using class_block_cells [OF assms(1-3)] assms(4) by (intro bytes.load_apart) auto

text \<open>The super block stays: its descriptor goes on the partial list of its class if it was full.\<close>

lemma flush_descs:
  fixes s :: "'s alloc_state_scheme"
  assumes base: "base_ok h target s" and descs: "descs_ok h s P fs" and d: "small_sb s d i seg"
    and a: "a_state a = PARTIAL" "0 < a_count a" "a_avail a < 2 ^ 30"
  shows "\<exists>s' P'. (if a_state (d_anchor (descs s d)) = FULL then heap_push_partial d (flush_write d a t v s) = Inr s'
      else s' = flush_write d a t v s) \<and> base_ok h target s' \<and> descs_ok h s' P' fs \<and> small_sb s' = small_sb s \<and> large_sb s' = large_sb s \<and>
    mem s' = store64 (mem s) t v \<and> alloc_state.more s' = alloc_state.more s \<and> sc_table s' = sc_table s \<and> d_anchor (descs s' d) = a \<and>
    (\<forall>e. e \<noteq> d \<longrightarrow> descs s' e = descs s e)"
proof (cases "a_state (d_anchor (descs s d)) = FULL")
  case True
  let ?m = "store64 (mem s) t v" and ?w = "flush_write d a t v s"
  obtain s' where "heap_push_partial d ?w = Inr s'" "base_ok h target s'" "descs_ok h s' (P(i := d # P i)) fs" "small_sb s' = small_sb s"
    "large_sb s' = large_sb s" "mem s' = ?m" "sc_table s' = sc_table s" "alloc_state.more s' = alloc_state.more s"
    "d_anchor (descs s' d) = a" "\<forall>e. e \<noteq> d \<longrightarrow> descs s' e = descs s e"
    using push_full_ok [of h target "s\<lparr>mem := ?m\<rparr>" P fs d i seg a] base descs d True a by (auto simp: flush_write_def)
  then show ?thesis using True by auto
next
  case False
  let ?m = "store64 (mem s) t v" and ?w = "flush_write d a t v s"
  have "a_state (d_anchor (descs s d)) = PARTIAL" using False descs_okD(2) [OF descs d] by (auto simp: anchor_ok_def)
  then have "base_ok h target ?w \<and> descs_ok h ?w P fs \<and> small_sb ?w = small_sb s \<and> large_sb ?w = large_sb s"
    using anchor_change_ok [of h target "s\<lparr>mem := ?m\<rparr>" P fs d i seg a ?w] base descs d a by (simp add: flush_write_def)
  then show ?thesis using False by (intro exI [of _ ?w] exI [of _ P]) (simp add: flush_write_def)
qed

lemma flush_data_kept:
  assumes "used_all_ok h target s" "blocks_ok s bs live own" "small_sb s d i seg" "bin_list s (bs j ! i) = ys @ rest"
    "set ys \<subseteq> set (blocks s d seg)" "t \<in> set ys" "mem s' = store64 (mem s) t v"
  shows "data_kept s s' live"
proof (rule write_data_kept [OF assms(1) _ _ assms(7)])
  show t: "class_block s i t" using assms(3,5,6) by (auto simp: class_block_def)
  have "class_ix i" using assms(3) by (simp add: small_sb_def)
  then have "own t = Cached j" using blocks_okD(3) [OF assms(2), of i j] assms(4,6) by (auto simp: bin_ok_def)
  then show "live_ok s own r \<and> fst r \<noteq> t" if "r \<in> set live" for r
    using blocks_okD(5) [OF assms(2) that] live_small(1) [OF assms(1) blocks_okD(5) [OF assms(2) that]] t by auto
qed

lemma flush_keeps_sb:
  fixes s :: "'s alloc_state_scheme"
  assumes base: "base_ok h target s" and descs: "descs_ok h s P fs" and ok: "blocks_ok s bs live own" and d: "small_sb s d i seg"
    and bin: "bin_list s (bs j ! i) = ys @ rest" "set ys \<subseteq> set (blocks s d seg)" "t \<in> set ys"
      "chain (load64 (store64 (mem s) t v)) (block (bs j ! i)) (length ys) = ys" "bin_list (flush_write d a t v s) b' = rest"
    and a: "a_state a = PARTIAL" "a_count a = length ys" "a_avail a < 2 ^ 30"
      "seg_ptr seg + of_nat (a_avail a * class_size s i) = block (bs j ! i)"
  shows "\<exists>s'. (if a_state (d_anchor (descs s d)) = FULL then heap_push_partial d (flush_write d a t v s) = Inr s'
      else s' = flush_write d a t v s) \<and> heap_ok h target s' (bs(j := (bs j)[i := b'])) live \<and>
    alloc_state.more s' = alloc_state.more s \<and> sc_table s' = sc_table s \<and> client_kept s s' live"
proof -
  have all: "used_all_ok h target s" by (rule descs_ok_used [OF base descs])
  have pos: "0 < a_count a" using a(2) bin(3) by auto
  obtain s' P' where s': "if a_state (d_anchor (descs s d)) = FULL then heap_push_partial d (flush_write d a t v s) = Inr s'
      else s' = flush_write d a t v s"
    "base_ok h target s'" "descs_ok h s' P' fs" "small_sb s' = small_sb s" "large_sb s' = large_sb s" "mem s' = store64 (mem s) t v"
    "alloc_state.more s' = alloc_state.more s" "sc_table s' = sc_table s" "d_anchor (descs s' d) = a" "\<And>e. e \<noteq> d \<Longrightarrow> descs s' e = descs s e"
    using flush_descs [OF base descs d a(1) pos a(3), of t v] by blast
  have "small_sb s' d i seg" using d s'(4) by simp
  then have sz: "block_size (descs s' d) = class_size s i" "max_count (descs s' d) = max_count (descs s d)" "block_size (descs s d) = class_size s i"
    using d s'(8) by (simp_all add: small_sb_def)
  have ti: "class_block s i t" using d bin(2,3) by (auto simp: class_block_def)
  have 1: "bin_list s' b' = rest" using bin(5) by (simp add: bin_list_def s'(6) flush_write_def)
  have 2: "own_chain s' d seg = ys" using bin(4) a(2,4) by (simp add: own_chain_def s'(6,9) sz Let_def del: of_nat_mult)
  have 3: "blocks s' d seg = blocks s d seg" by (simp add: blocks_def sz)
  have 4: "load64 (mem s') x = load64 (mem s) x" if "class_block s k x" "x \<noteq> t" for k x
    unfolding s'(6) by (rule write_frame [OF all ti that])
  have 5: "view (descs s' e) = view (descs s e)" if "e \<noteq> d" for e using s'(10) [OF that] by simp
  note fb = flush_blocks [OF all ok d bin(1,2) 1 2 bin(3) s'(4,5) 5 s'(8) 4 3]
  have "heap_ok h target s' (bs(j := (bs j)[i := b'])) live" by (rule heap_okI [OF s'(2,3) fb(1)])
  moreover have "client_kept s s' live"
    using fb(2) flush_data_kept [OF all ok d bin(1-3) s'(6)] by (simp add: client_kept_def classes_kept_def)
  ultimately show ?thesis using s'(1,7,8) by blast
qed


text \<open>The super block goes.\<close>

definition release_state :: "usize \<Rightarrow> anchor \<Rightarrow> segment \<Rightarrow> memory \<Rightarrow> (u64 \<Rightarrow> page_info) \<Rightarrow> 's alloc_state_scheme \<Rightarrow> 's alloc_state_scheme" where
  "release_state d a seg m pm s = s\<lparr>os_calls := Suc (os_calls s), mem := m, os_maps := removeAll (seg_ptr seg, seg_length seg) (os_maps s),
     descs := (descs s)(d := (descs s d)\<lparr>d_anchor := a, super_block := None\<rparr>), page_map := pm\<rparr>"

lemma release_result:
  fixes s :: "'s alloc_state_scheme"
  assumes env: "munmap_contract env" and base: "base_ok h target s" and descs: "descs_ok h s P fs" and d: "small_sb s d i seg"
  shows "\<exists>s2 pm. unregister_desc (Some i) seg (flush_write d a t v s) = Inr s2 \<and>
    snd (seg_deallocate env seg (upd_desc d (\<lambda>q. q\<lparr>super_block := None\<rparr>) s2)) = release_state d a seg (store64 (mem s) t v) pm s \<and>
    (\<forall>x. unat x < 2 ^ 50 \<longrightarrow> \<not> seg_range seg x \<longrightarrow> pm (addr_to_key x) = page_map s (addr_to_key x))"
proof -
  let ?w = "flush_write d a t v s" and ?c = "sc_table s ! i"
  note sd = small_sbD [OF descs_ok_used [OF base descs] d]
  have w: "pm_ready ?w" "heap_class ?w i ?c"
    using base class_facts(6) [OF base sd(2)] by (simp_all add: base_ok_def pm_ready_def heap_class_def flush_write_def)
  obtain pm where pm: "update_page_map (Some i) (seg_ptr seg) None 0 ?w = Inr (?w\<lparr>page_map := pm\<rparr>)"
    "\<And>x. unat x < 2 ^ 50 \<Longrightarrow> \<not> in_block (seg_ptr seg) (sc_sb_size ?c) x \<Longrightarrow> pm (addr_to_key x) = page_map s (addr_to_key x)"
    using update_page_map_heap [OF w sd(10), of None] by (auto simp: flush_write_def)
  have "munmap env n (os_maps s) (seg_ptr seg) (seg_length seg) = 0" for n using env sd(11) by (simp add: munmap_contract_def)
  then have "snd (seg_deallocate env seg (upd_desc d (\<lambda>q. q\<lparr>super_block := None\<rparr>) (?w\<lparr>page_map := pm\<rparr>))) =
      release_state d a seg (store64 (mem s) t v) pm s"
    by (intro alloc_state.equality) (simp_all add: seg_deallocate_def flush_write_def release_state_def upd_desc_def Let_def)
  moreover have "unregister_desc (Some i) seg ?w = Inr (?w\<lparr>page_map := pm\<rparr>)" using pm(1) by (simp add: unregister_desc_def)
  moreover have "pm (addr_to_key x) = page_map s (addr_to_key x)" if "unat x < 2 ^ 50" "\<not> seg_range seg x" for x
    using pm(2) [OF that(1)] that(2) sd(3) by (auto simp: in_block_def seg_range_def)
  ultimately show ?thesis by blast
qed

lemma flush_releases_sb:
  fixes s :: "'s alloc_state_scheme"
  assumes base: "base_ok h target s" and descs: "descs_ok h s P fs" and ok: "blocks_ok s bs live own" and d: "small_sb s d i seg"
    and bin: "bin_list s (bs j ! i) = ys @ rest" "set ys \<subseteq> set (blocks s d seg)" "t \<in> set ys"
      "bin_list s' b' = rest" "a_count (d_anchor (descs s d)) + length ys = max_count (descs s d)"
    and a: "a_state a = EMPTY" and s': "s' = release_state d a seg (store64 (mem s) t v) pm s"
    and pm: "\<And>x. unat x < 2 ^ 50 \<Longrightarrow> \<not> seg_range seg x \<Longrightarrow> pm (addr_to_key x) = page_map s (addr_to_key x)"
  shows "heap_ok h target s' (bs(j := (bs j)[i := b'])) live" "client_kept s s' live"
proof -
  have all: "used_all_ok h target s" by (rule descs_ok_used [OF base descs])
  have sb: "super_block (descs s d) = Some seg" by (rule small_sb_block [OF d])
  have nf: "d \<notin> set fs" using descs_okD(4) [OF descs] sb by auto
  have s'2: "desc_change h d s s'" "base_ok h target s'" "descs_ok h s' P fs"
    using remove_used_ok [OF base descs sb nf s' [unfolded release_state_def] _ _ _ _ pm] a by auto
  note ds = desc_change_sb [OF all s'2(1)]
  have none: "super_block (descs s' d) = None" and m: "mem s' = store64 (mem s) t v" by (simp_all add: s' release_state_def)
  have vw: "view (descs s' e) = view (descs s e)" if "e \<noteq> d" for e using desc_changeD(8) [OF s'2(1) that] by simp
  have ti: "class_block s i t" using d bin(2,3) by (auto simp: class_block_def)
  have 1: "small_sb s' e k sg \<longleftrightarrow> e \<noteq> d \<and> small_sb s e k sg" for e k sg
    using ds(1) [of e] none small_sb_block [of s' d k sg] by (cases "e = d") auto
  have 2: "large_sb s' e sg" if "large_sb s e sg" for e sg
  proof -
    have "e \<noteq> d" using that d by (auto simp: large_sb_def small_sb_def)
    then show ?thesis using that ds(2) by simp
  qed
  have 3: "load64 (mem s') x = load64 (mem s) x" if "class_block s k x" "x \<noteq> t" for k x
    unfolding m by (rule write_frame [OF all ti that])
  note fr = flush_release [OF all ok d bin(1,2,4,3,5) 1 2 vw desc_changeD(3) [OF s'2(1)] 3]
  show "heap_ok h target s' (bs(j := (bs j)[i := b'])) live" by (rule heap_okI [OF s'2(2,3) fr(1)])
  have "classes_kept s s' live" using fr(2) live_small(1) [OF all blocks_okD(5) [OF ok]] by (auto simp: classes_kept_def)
  then show "client_kept s s' live" using flush_data_kept [OF all ok d bin(1-3) m] by (simp add: client_kept_def)
qed

lemma flush_step_owned:
  fixes s :: "'s alloc_state_scheme"
  assumes env: "munmap_contract env" and ok: "heap_ok h target s bs live" and i: "class_ix i" "0 < block_num (bs j ! i)"
  shows "\<exists>s' b'. flush_step env i (sc_table s ! i) (s, bs j ! i) = Inr (Some (s', b')) \<and> block_num b' < block_num (bs j ! i) \<and>
    heap_ok h target s' (bs(j := (bs j)[i := b'])) live \<and> alloc_state.more s' = alloc_state.more s \<and> sc_table s' = sc_table s \<and> client_kept s s' live"
proof -
  let ?b = "bs j ! i" and ?c = "sc_table s ! i"
  obtain P fs own where o: "base_ok h target s" "descs_ok h s P fs" "blocks_ok s bs live own" using ok by (auto simp: heap_ok_def)
  note all = descs_ok_used [OF o(1,2)]
  obtain d seg where d: "small_sb s d i seg" "block ?b \<in> set (blocks s d seg)" "get_page_info (block ?b) s = Inr d" "d \<noteq> 0"
    using flush_head [OF all o(3) i] by blast
  obtain t n where run: "flush_run (mem s) (seg_ptr seg) (sc_sb_size ?c) (block_num ?b) (block ?b) 1 = (t, n)" by fastforce
  obtain ys rest where ys: "bin_list s ?b = ys @ rest" "set ys \<subseteq> set (blocks s d seg)" "length ys = n" "0 < n" "t \<in> set ys" "n \<le> block_num ?b"
    "\<And>m. \<forall>k x. class_block s k x \<longrightarrow> x \<noteq> t \<longrightarrow> load64 m x = load64 (mem s) x \<Longrightarrow>
      chain (load64 m) (block ?b) n = ys \<and> chain (load64 m) (load64 (mem s) t) (block_num ?b - n) = rest"
    using flush_prefix [OF all o(3) i d(1,2) run] by metis
  obtain k where k: "compute_index (seg_ptr seg) (block ?b) i = Inr k" "seg_ptr seg + of_nat (unat k * class_size s i) = block ?b" "unat k < 2 ^ 30"
    using block_compute_index [OF all d(1,2)] by blast
  let ?old = "d_anchor (descs s d)"
  define a b' where "a = flush_anchor ?old (max_count (descs s d)) (unat k) n"
    and "b' = ?b\<lparr>block := load64 (mem s) t, block_num := block_num ?b - n\<rparr>"
  obtain v where form: "flush_step env i ?c (s, ?b) =
      (if a_state a = EMPTY then rbind (unregister_desc (Some i) seg (flush_write d a t v s)) (\<lambda>s2.
         Inr (Some (snd (seg_deallocate env seg (upd_desc d (\<lambda>q. q\<lparr>super_block := None\<rparr>) s2)), b')))
       else if a_state ?old = FULL then rbind (heap_push_partial d (flush_write d a t v s)) (\<lambda>s2. Inr (Some (s2, b')))
       else Inr (Some (flush_write d a t v s, b')))"
    using flush_step_form [OF d(3,4) small_sb_block [OF d(1)] run ys(6) k(1), of env]
    unfolding Let_def a_def [symmetric] b'_def [symmetric] by blast
  have ti: "class_block s i t" using d(1) ys(2,5) by (auto simp: class_block_def)
  have ch: "chain (load64 (store64 (mem s) t v)) (block ?b) n = ys" "chain (load64 (store64 (mem s) t v)) (block b') (block_num b') = rest"
    using ys(7) [of "store64 (mem s) t v"] write_frame [OF all ti] by (auto simp: b'_def)
  have lt: "block_num b' < block_num ?b" using ys(4) i(2) by (simp add: b'_def)
  have "distinct ys" using blocks_okD(3) [OF o(3) i(1), of j] ys(1) by (simp add: bin_ok_def)
  then have n32: "n < 2 ^ 32" using run_bound [OF all d(1) ys(2)] ys(3) by simp
  have st: "a_state ?old = FULL \<or> a_state ?old = PARTIAL" using descs_okD(2) [OF o(2) d(1)] by (auto simp: anchor_ok_def)
  show ?thesis
  proof (cases "a_count ?old + n = max_count (descs s d)")
    case True
    then have e: "a_state a = EMPTY" by (simp add: a_def flush_anchor_empty)
    obtain s2 pm where r: "unregister_desc (Some i) seg (flush_write d a t v s) = Inr s2"
      "snd (seg_deallocate env seg (upd_desc d (\<lambda>q. q\<lparr>super_block := None\<rparr>) s2)) = release_state d a seg (store64 (mem s) t v) pm s"
      "\<And>x. unat x < 2 ^ 50 \<Longrightarrow> \<not> seg_range seg x \<Longrightarrow> pm (addr_to_key x) = page_map s (addr_to_key x)"
      using release_result [OF env o(1,2) d(1), of a t v] by blast
    define s' where "s' = release_state d a seg (store64 (mem s) t v) pm s"
    have "bin_list s' b' = rest" using ch(2) by (simp add: bin_list_def s'_def release_state_def)
    then have "heap_ok h target s' (bs(j := (bs j)[i := b'])) live" "client_kept s s' live"
      using flush_releases_sb [OF o d(1) ys(1,2,5) _ _ e s'_def r(3)] True ys(3) by simp_all
    moreover have "alloc_state.more s' = alloc_state.more s" "sc_table s' = sc_table s" by (simp_all add: s'_def release_state_def)
    ultimately show ?thesis using form e r(1,2) lt s'_def by auto
  next
    case False
    note fa = flush_anchor_partial [OF False st k(3) n32, folded a_def]
    have "bin_list (flush_write d a t v s) b' = rest" using ch(2) by (simp add: bin_list_def flush_write_def)
    then obtain s' where s': "if a_state ?old = FULL then heap_push_partial d (flush_write d a t v s) = Inr s' else s' = flush_write d a t v s"
      "heap_ok h target s' (bs(j := (bs j)[i := b'])) live" "alloc_state.more s' = alloc_state.more s" "sc_table s' = sc_table s" "client_kept s s' live"
      using flush_keeps_sb [OF o d(1) ys(1,2,5), of v a b'] ch(1) fa k(2,3) ys(3) by auto
    then show ?thesis using form fa(1) lt by (cases "a_state ?old = FULL") auto
  qed
qed

section \<open>Flushing a bin\<close>

lemma heap_ok_bins: "heap_ok h target s bs live \<Longrightarrow> length (bs j) = MAX_SZ_IDX"
  unfolding heap_ok_def using blocks_okD(2) by blast

lemma flush_loop_owned:
  fixes s :: "'s alloc_state_scheme"
  assumes env: "munmap_contract env" and i: "class_ix i"
  shows "heap_ok h target s bs live \<Longrightarrow> \<exists>s' b'. flush_loop env i (sc_table s ! i) (s, bs j ! i) = Inr (s', b') \<and> block_num b' = 0 \<and>
    heap_ok h target s' (bs(j := (bs j)[i := b'])) live \<and> alloc_state.more s' = alloc_state.more s \<and> sc_table s' = sc_table s \<and> client_kept s s' live"
proof (induction "block_num (bs j ! i)" arbitrary: s bs rule: less_induct)
  case less
  have l: "i < length (bs j)" using heap_ok_bins [OF less.prems] i by (simp add: class_ix_def)
  show ?case
  proof (cases "block_num (bs j ! i) = 0")
    case True
    have "heap_ok h target s (bs(j := (bs j)[i := bs j ! i])) live" using less.prems by simp
    then have "heap_ok h target s (bs(j := (bs j)[i := (bs j ! i)\<lparr>bin_block_size := None\<rparr>])) live"
      by (rule heap_ok_bin [OF _ i]) simp
    then show ?thesis using True by (simp add: flush_loop.simps [of env i "sc_table s ! i" "(s, bs j ! i)"])
  next
    case False
    obtain s1 b1 where s1: "flush_step env i (sc_table s ! i) (s, bs j ! i) = Inr (Some (s1, b1))" "block_num b1 < block_num (bs j ! i)"
      "heap_ok h target s1 (bs(j := (bs j)[i := b1])) live" "alloc_state.more s1 = alloc_state.more s" "sc_table s1 = sc_table s" "client_kept s s1 live"
      using flush_step_owned [OF env less.prems i, of j] False by auto
    let ?bs = "bs(j := (bs j)[i := b1])"
    have e: "?bs j ! i = b1" "\<And>b. ?bs(j := (?bs j)[i := b]) = bs(j := (bs j)[i := b])" using l by simp_all
    have "flush_loop env i (sc_table s ! i) (s, bs j ! i) = flush_loop env i (sc_table s1 ! i) (s1, b1)"
      using s1(1,5) False by (simp add: flush_loop.simps [of env i "sc_table s ! i" "(s, bs j ! i)"])
    moreover obtain s' b' where "flush_loop env i (sc_table s1 ! i) (s1, b1) = Inr (s', b')" "block_num b' = 0"
      "heap_ok h target s' (bs(j := (bs j)[i := b'])) live" "alloc_state.more s' = alloc_state.more s1" "sc_table s' = sc_table s1" "client_kept s1 s' live"
      using less.hyps [of ?bs s1] s1(2,3) unfolding e by blast
    ultimately show ?thesis using s1(4,5) client_kept_trans [OF s1(6)] by simp
  qed
qed

lemma flush_cache_owned:
  fixes s :: "'s alloc_state_scheme"
  assumes env: "munmap_contract env" and i: "class_ix i" and ok: "heap_ok h target s bs live"
  shows "\<exists>s' b'. flush_cache env i (s, bs j ! i) = Inr (s', b') \<and> block_num b' = 0 \<and>
    heap_ok h target s' (bs(j := (bs j)[i := b'])) live \<and> alloc_state.more s' = alloc_state.more s \<and> client_kept s s' live"
proof -
  have "base_ok h target s" using ok by (auto simp: heap_ok_def)
  then have "flush_cache env i (s, bs j ! i) = flush_loop env i (sc_table s ! i) (s, bs j ! i)"
    using flush_cache_ready [OF class_facts(6,5) [OF _ i] refl] by blast
  then show ?thesis using flush_loop_owned [OF env i ok, of j] by auto
qed

end
