(* ===== verification/Ownership_Release.thy ===== *)
theory Ownership_Release
  imports Ownership_Free
begin

text \<open>
  \<^verbatim>\<open>do_free\<close> on an allocation of the client returns, and the ownership invariant holds afterwards without
  it.
\<close>

section \<open>Small allocations\<close>

text \<open>A block goes back to the bin of its class.\<close>

lemma push_owned:
  fixes s :: "'s malloc_state_scheme"
  assumes ok: "heap_ok h target s bs live" and p: "(p, n) \<in> set live" "class_block s i p"
  shows "\<exists>m b'. push_block True p (mem s, bs j ! i) = (m, b') \<and>
    heap_ok h target (s\<lparr>mem := m\<rparr>) (bs(j := (bs j)[i := b'])) (filter (\<lambda>r. fst r \<noteq> p) live) \<and>
    data_kept s (s\<lparr>mem := m\<rparr>) (filter (\<lambda>r. fst r \<noteq> p) live)"
proof -
  obtain P fs own where o: "base_ok h target s" "descs_ok h s P fs" "blocks_ok s bs live own" using ok by (auto simp: heap_ok_def)
  note all = descs_ok_used [OF o(1,2)]
  let ?b = "bs j ! i"
  define m b' s' where "m = store64 (mem s) p (block ?b)" and "b' = ?b\<lparr>block := p, block_num := Suc (block_num ?b)\<rparr>" and "s' = s\<lparr>mem := m\<rparr>"
  have push: "push_block True p (mem s, ?b) = (m, b')" by (simp add: push_block_def m_def b'_def split: option.split)
  have cl: "own p = Client" using live_small(1) [OF all blocks_okD(5) [OF o(3) p(1)]] p(2) by simp
  have ok': "blocks_ok s' bs live own"
  proof (rule blocks_ok_same [OF o(3)])
    have "load64 m x = load64 (mem s) x" if x: "class_block s k x" "own x \<noteq> Client" for k x
      unfolding m_def using x(2) cl by (intro write_frame [OF all p(2) x(1)]) auto
    then show "same_cells s s' own" by (simp add: same_cells_def s'_def)
  qed (simp_all add: s'_def)
  have i: "class_ix i" by (rule class_blockD(1) [OF all p(2)])
  have "load64 m p = block ?b" by (simp add: m_def bytes.load_same)
  then have bl: "bin_list s' b' = p # bin_list s' ?b" by (simp add: bin_list_def b'_def s'_def)
  have "used_all_ok h target s'" "class_block s' i p" using all p(2) by (simp_all add: s'_def)
  then have "blocks_ok s' (bs(j := (bs j)[i := b'])) (filter (\<lambda>r. fst r \<noteq> p) live) (own(p := Cached j))"
    using give_block [OF _ ok' _ cl bl] by blast
  then have "heap_ok h target s' (bs(j := (bs j)[i := b'])) (filter (\<lambda>r. fst r \<noteq> p) live)"
    using heap_okI [of h target s' P fs] o(1,2) by (simp add: s'_def)
  moreover have "data_kept s s' (filter (\<lambda>r. fst r \<noteq> p) live)"
    using blocks_okD(5) [OF o(3)] by (intro write_data_kept [OF all _ p(2)]) (auto simp: s'_def m_def)
  ultimately show ?thesis using push unfolding s'_def by blast
qed

text \<open>The flush that makes room in a full bin.\<close>

lemma free_flush_owned:
  fixes s :: "'s malloc_state_scheme"
  assumes env: "munmap_contract env" and ok: "heap_ok h target s bs live" and i: "class_ix i"
  shows "\<exists>s1 b1. rbind (index_list (sc_table s) i) (\<lambda>c. if get_bin_block_num (bs j ! i) \<ge> sc_cache_block_num c
      then flush_cache env i (s, bs j ! i) else Inr (s, bs j ! i)) = Inr (s1, b1) \<and>
    heap_ok h target s1 (bs(j := (bs j)[i := b1])) live \<and> alloc_state.more s1 = alloc_state.more s \<and> client_kept s s1 live"
proof -
  have "i < length (sc_table s)" using ok class_facts(5) [OF _ i] by (auto simp: heap_ok_def)
  then have c: "index_list (sc_table s) i = Inr (sc_table s ! i)" by simp
  show ?thesis
  proof (cases "get_bin_block_num (bs j ! i) \<ge> sc_cache_block_num (sc_table s ! i)")
    case True
    then show ?thesis using flush_cache_owned [OF env i ok, of j] c by auto
  next
    case False
    then show ?thesis using ok c by (intro exI [of _ s] exI [of _ "bs j ! i"]) simp
  qed
qed

lemma do_free_small_owned:
  fixes s :: "'s malloc_state_scheme"
  assumes env: "munmap_contract (cfg_os cfg)" and pl: "plain cfg s" and ok: "heap_ok (cfg_hash cfg) (cfg_target cfg) s (\<lambda>k. bins (ts k)) live"
    and p: "(p, n) \<in> set live" "class_block s i p"
  shows "\<exists>s' t'. do_free cfg p (s, ts j) = Some (Inr (s', t')) \<and> plain cfg s' \<and>
    heap_ok (cfg_hash cfg) (cfg_target cfg) s' (\<lambda>k. bins ((ts(j := t')) k)) (filter (\<lambda>r. fst r \<noteq> p) live) \<and>
    data_kept s s' (filter (\<lambda>r. fst r \<noteq> p) live)"
proof -
  let ?h = "cfg_hash cfg" and ?bs = "\<lambda>k. bins (ts k)"
  obtain P fs own where o: "base_ok ?h (cfg_target cfg) s" "descs_ok ?h s P fs" "blocks_ok s ?bs live own" using ok by (auto simp: heap_ok_def)
  note all = descs_ok_used [OF o(1,2)]
  note cb = class_blockD [OF all p(2)]
  obtain d seg where d: "small_sb s d i seg" "get_page_info p s = Inr d" using cb(5) by blast
  have "desc_kept ?h s d" using small_sbD(1) [OF all d(1)] by (simp add: used_ok_def)
  then have d0: "d \<noteq> 0" by (auto simp: desc_kept_def desc_addr_def)
  have bsz: "block_size (descs s d) = class_size s i" using d(1) by (simp add: small_sb_def)
  obtain i' where i': "i = Suc i'" using cb(1) by (cases i) (auto simp: class_ix_def)
  have "info_get_size_class_index s d = Some i"
    using d0 bsz class_facts(3,4) [OF o(1) cb(1)] by (simp add: info_get_size_class_index_def info_get_desc_def Let_def)
  then have free: "do_free cfg p (s, ts j) = free_small cfg p i (s, ts j)"
    using cb(4) d(2) d0 i' by (simp add: do_free_def get_page_info_for_ptr_def info_get_desc_def)
  obtain s1 b1 where s1: "rbind (index_list (sc_table s) i) (\<lambda>c. if get_bin_block_num (?bs j ! i) \<ge> sc_cache_block_num c
      then flush_cache (cfg_os cfg) i (s, ?bs j ! i) else Inr (s, ?bs j ! i)) = Inr (s1, b1)"
    "heap_ok ?h (cfg_target cfg) s1 (?bs(j := (?bs j)[i := b1])) live" "alloc_state.more s1 = alloc_state.more s" "client_kept s s1 live"
    using free_flush_owned [OF env ok cb(1), of j] by blast
  have l: "i < length (bins (ts j))" using blocks_okD(2) [OF o(3), of j] cb(1) by (simp add: class_ix_def)
  have "class_block s1 i p" using s1(4) p unfolding client_kept_def classes_kept_def by force
  then obtain m b' where m: "push_block True p (mem s1, b1) = (m, b')"
    "heap_ok ?h (cfg_target cfg) (s1\<lparr>mem := m\<rparr>) (?bs(j := (?bs j)[i := b'])) (filter (\<lambda>r. fst r \<noteq> p) live)"
    "data_kept s1 (s1\<lparr>mem := m\<rparr>) (filter (\<lambda>r. fst r \<noteq> p) live)"
    using push_owned [OF s1(2) p(1), of i j] l by auto
  have "data_kept s s1 (filter (\<lambda>r. fst r \<noteq> p) live)" using s1(4) by (auto simp: client_kept_def data_kept_def)
  then have dk: "data_kept s (s1\<lparr>mem := m\<rparr>) (filter (\<lambda>r. fst r \<noteq> p) live)" using m(3) by (rule data_kept_trans)
  have "free_small cfg p i (s, ts j) = Some (Inr (s1\<lparr>mem := m\<rparr>, put_bin i b' (ts j)))"
    using s1(1) m(1) l pl by (simp add: free_small_def tune_free_def plain_def get_bin_def)
  moreover have "(\<lambda>k. bins ((ts(j := put_bin i b' (ts j))) k)) = ?bs(j := (?bs j)[i := b'])"
    unfolding bins_upd by (simp add: put_bin_def)
  ultimately show ?thesis using free m(2) dk plain_more [OF pl s1(3)] by (intro exI [of _ "s1\<lparr>mem := m\<rparr>"] exI [of _ "put_bin i b' (ts j)"]) simp
qed


section \<open>Large allocations\<close>

lemma free_large_form:
  fixes s :: "'s malloc_state_scheme"
  assumes "munmap_contract (cfg_os cfg)" "used_all_ok (cfg_hash cfg) target s" "large_sb s d seg"
  shows "free_large cfg (seg_ptr seg) d s = Inr (retire d (release_state d (d_anchor (descs s d)) seg (mem s) ((page_map s)(addr_to_key (seg_ptr seg) := 0)) s))"
proof -
  let ?k = "addr_to_key (seg_ptr seg)"
  have sb: "super_block (descs s d) = Some seg" by (rule large_sb_block [OF assms(3)])
  note r = used_range [OF assms(2) sb]
  have "pm_ready s" "seg_ptr seg \<noteq> 0" using assms(2) r(2) by (simp_all add: used_all_ok_def base_ok_def valid_map_def)
  then have u: "unregister_desc None seg s = Inr (s\<lparr>page_map := (page_map s)(?k := 0)\<rparr>)"
    by (simp add: unregister_desc_def update_page_map_def set_page_info_ready info_set_ptr_def mem_info_defs)
  have "munmap (cfg_os cfg) n (os_maps s) (seg_ptr seg) (seg_length seg) = 0" for n using assms(1) r(1) by (simp add: munmap_contract_def)
  then have "snd (seg_deallocate (cfg_os cfg) seg (upd_desc d (\<lambda>q. q\<lparr>super_block := None\<rparr>) (s\<lparr>page_map := (page_map s)(?k := 0)\<rparr>))) =
      release_state d (d_anchor (descs s d)) seg (mem s) ((page_map s)(?k := 0)) s"
    by (intro alloc_state.equality) (simp_all add: seg_deallocate_def release_state_def upd_desc_def Let_def)
  then show ?thesis using sb u by (simp add: free_large_def Let_def case_prod_unfold)
qed

lemma free_large_owned:
  fixes s :: "'s malloc_state_scheme"
  assumes base: "base_ok h target s" and descs: "descs_ok h s P fs" and ok: "blocks_ok s bs live own" and d: "large_sb s d seg"
    and s': "s' = retire d (release_state d (d_anchor (descs s d)) seg (mem s) ((page_map s)(addr_to_key (seg_ptr seg) := 0)) s)"
  shows "heap_ok h target s' bs (filter (\<lambda>r. fst r \<noteq> seg_ptr seg) live)"
proof -
  note all = descs_ok_used [OF base descs]
  define u where "u = release_state d (d_anchor (descs s d)) seg (mem s) ((page_map s)(addr_to_key (seg_ptr seg) := 0)) s"
  have sb: "super_block (descs s d) = Some seg" and ph: "proc_heap (descs s d) = None" using d by (auto simp: large_sb_def)
  note r = used_range [OF all sb]
  have nf: "d \<notin> set fs" using descs_okD(4) [OF descs] sb by auto
  have nl: "d \<notin> set (P i)" if "class_ix i" for i using descs_okD(6) [OF descs that] ph by (auto simp: listed_ok_def)
  have "((page_map s)(addr_to_key (seg_ptr seg) := 0)) (addr_to_key a) = page_map s (addr_to_key a)" if "unat a < 2 ^ 50" "\<not> seg_range seg a" for a
    using page_key_range [OF r(2) that(1)] that(2) by (auto simp: seg_range_def)
  then have u: "desc_change h d s u" "base_ok h target u" "descs_ok h u P fs"
    using remove_used_ok [OF base descs sb nf u_def [unfolded release_state_def]] ph by auto
  have none: "super_block (descs u d) = None" by (simp add: u_def release_state_def)
  have "used_ok h s d seg" by (rule descs_okD(1) [OF descs sb])
  then have "desc_kept h u d" using desc_changeD(1) [OF u(1)] by (simp add: used_ok_def desc_kept_def)
  then have s2: "base_ok h target s'" "descs_ok h s' P (d # fs)" "small_sb s' = small_sb u" "large_sb s' = large_sb u"
    using retire_ok [OF u(2,3) _ none nf nl] unfolding s' u_def by auto
  note ds = desc_change_sb [OF all u(1)]
  have small: "small_sb s' = small_sb s"
    using ds(1) none sb ph by (auto simp: fun_eq_iff s2(3)) (metis option.distinct(1) small_sb_def)+
  have other: "descs s' e = descs s e" if "e \<noteq> d" for e
    using desc_changeD(8) [OF u(1) that] that unfolding s' u_def by simp
  have vw: "view (descs s' e) = view (descs s e)" if "small_sb s e i sg" for e i sg
  proof -
    have "e \<noteq> d" using that ph by (auto simp: small_sb_def)
    then show ?thesis using other by simp
  qed
  have "blocks_ok s' bs (filter (\<lambda>r. fst r \<noteq> seg_ptr seg) live) own"
  proof (rule blocks_ok_live [OF ok _ small vw])
    show "same_cells s s' own" by (simp add: same_cells_def s' release_state_def retire_def Let_def)
    show "distinct (map fst (filter (\<lambda>r. fst r \<noteq> seg_ptr seg) live))" using blocks_okD(4) [OF ok] by (simp add: distinct_map_filter)
    fix q assume q: "q \<in> set (filter (\<lambda>r. fst r \<noteq> seg_ptr seg) live)"
    have cb: "class_block s' i x" if "class_block s i x" for i x using class_block_frame [OF that, of s'] small vw by simp
    have "large_sb s' e sg \<and> block_size (descs s' e) = block_size (descs s e)" if "large_sb s e sg" "seg_ptr sg = fst q" for e sg
    proof -
      have "e \<noteq> d" using that q d by (auto simp: large_sb_def)
      then show ?thesis using that(1) ds(2) s2(4) other by simp
    qed
    moreover have "sc_table s' = sc_table s" by (simp add: s' release_state_def retire_def Let_def)
    moreover have "live_ok s own q" using q blocks_okD(5) [OF ok] by simp
    ultimately show "live_ok s' own q" using cb unfolding live_ok_def by metis
  qed
  then show ?thesis by (rule heap_okI [OF s2(1,2)])
qed

lemma do_free_owned:
  fixes s :: "'s malloc_state_scheme"
  assumes env: "munmap_contract (cfg_os cfg)" and pl: "plain cfg s" and ok: "heap_ok (cfg_hash cfg) (cfg_target cfg) s (\<lambda>k. bins (ts k)) live"
    and p: "p \<in> fst ` set live"
  shows "\<exists>s' t'. do_free cfg p (s, ts j) = Some (Inr (s', t')) \<and> plain cfg s' \<and>
    heap_ok (cfg_hash cfg) (cfg_target cfg) s' (\<lambda>k. bins ((ts(j := t')) k)) (filter (\<lambda>r. fst r \<noteq> p) live) \<and>
    data_kept s s' (filter (\<lambda>r. fst r \<noteq> p) live)"
proof -
  let ?h = "cfg_hash cfg" and ?bs = "\<lambda>k. bins (ts k)"
  obtain P fs own where o: "base_ok ?h (cfg_target cfg) s" "descs_ok ?h s P fs" "blocks_ok s ?bs live own" using ok by (auto simp: heap_ok_def)
  note all = descs_ok_used [OF o(1,2)]
  obtain n where n: "(p, n) \<in> set live" using p by auto
  from blocks_okD(5) [OF o(3) n] consider i where "class_block s i p" | d seg where "large_sb s d seg" "seg_ptr seg = p"
    by (auto simp: live_ok_def)
  then show ?thesis
  proof cases
    case 1
    then show ?thesis by (rule do_free_small_owned [OF env pl ok n])
  next
    case 2
    define s' where "s' = retire d (release_state d (d_anchor (descs s d)) seg (mem s) ((page_map s)(addr_to_key (seg_ptr seg) := 0)) s)"
    have big: "MAX_SZ < block_size (descs s d)" "get_page_info p s = Inr d" using 2 by (auto simp: large_sb_def)
    have sb: "super_block (descs s d) = Some seg" by (rule large_sb_block [OF 2(1)])
    have "desc_kept ?h s d" using descs_okD(1) [OF o(2) sb] by (simp add: used_ok_def)
    then have "d \<noteq> 0" by (auto simp: desc_kept_def desc_addr_def)
    moreover have "p \<noteq> 0" using used_range(2) [OF all sb] 2(2) by (auto simp: valid_map_def)
    moreover have "free_large cfg p d s = Inr s'" using free_large_form [OF env all 2(1)] 2(2) by (simp add: s'_def)
    ultimately have "do_free cfg p (s, ts j) = Some (Inr (s', ts j))"
      using big by (simp add: do_free_def get_page_info_for_ptr_def info_get_desc_def info_get_size_class_index_def Let_def)
    moreover have "alloc_state.more s' = alloc_state.more s" by (simp add: s'_def retire_def release_state_def Let_def)
    then have "plain cfg s'" by (rule plain_more [OF pl])
    moreover have "(\<lambda>k. bins ((ts(j := ts j)) k)) = ?bs" by simp
    moreover have "data_kept s s' (filter (\<lambda>r. fst r \<noteq> p) live)" by (simp add: s'_def retire_def release_state_def Let_def)
    ultimately show ?thesis using free_large_owned [OF o 2(1) s'_def] 2(2) by metis
  qed
qed

end
