(* ===== verification/Thread_Exit.thy ===== *)
theory Thread_Exit
  imports Ownership_Release
begin

text \<open>
  The block sizes that bins record, and \<^verbatim>\<open>Drop for ThreadCache\<close>, which flushes the bins that record one. The size that
  a bin records is the one of its class, so every bin would be flushed to the right heap. The drop is not run by the
  end of a thread: the thread cache is an array of bins and no \<^verbatim>\<open>ThreadCache\<close>, and the body of the drop of \<^verbatim>\<open>ThreadEmpty\<close>
  is commented out.
\<close>

section \<open>Recorded block sizes\<close>

definition bin_sized :: "nat \<Rightarrow> bin \<Rightarrow> bool" where
  "bin_sized i b \<longleftrightarrow> bin_block_size b = None \<or> class_ix i \<and> bin_block_size b = Some (sc_block_size (size_classes ! i))"

definition bins_sized :: "bin list \<Rightarrow> bool" where
  "bins_sized bs \<longleftrightarrow> (\<forall>i < length bs. bin_sized i (bs ! i))"

lemma bins_sized_upd: "bins_sized bs \<Longrightarrow> (i < length bs \<Longrightarrow> bin_sized i b) \<Longrightarrow> bins_sized (bs[i := b])"
  unfolding bins_sized_def by (metis length_list_update nth_list_update_eq nth_list_update_neq)

lemma bins_sized_new: "bins_sized (bins thread_new)"
  by (simp add: bins_sized_def bin_sized_def thread_new_def bin_new_def)

lemma bin_sized_same: "bin_sized i b \<Longrightarrow> bin_block_size b' = bin_block_size b \<Longrightarrow> bin_sized i b'"
  by (simp add: bin_sized_def)

lemma class_size_fixed: "base_ok h target s \<Longrightarrow> class_ix i \<Longrightarrow> class_size s i = sc_block_size (size_classes ! i)"
  by (auto simp: base_ok_def tables_ok_def class_ix_def class_ok_def)

lemma fill_cache_sized:
  assumes "fill_cache env h nm i (s, b) = Some (Inr (s', b'))" "class_ix i" "base_ok h' target s'"
  shows "bin_sized i b'"
proof -
  have "bin_block_size b' = Some (class_size s' i)"
    using assms(1) by (auto simp: fill_cache_def rbind_eq_Inr index_list_def split: option.splits if_splits)
  then show ?thesis using assms(2) class_size_fixed [OF assms(3,2)] by (simp add: bin_sized_def)
qed

lemma flush_step_size: "flush_step env i c (s, b) = Inr (Some (s', b')) \<Longrightarrow> bin_block_size b' = bin_block_size b"
  unfolding flush_step_def Let_def
  by (auto simp: rbind_eq_Inr pop_list_def case_prod_unfold split: option.splits if_splits)

lemma flush_loop_size:
  "flush_loop env i c (s, b) = Inr (s', b') \<Longrightarrow> bin_block_size b' = None \<or> bin_block_size b' = bin_block_size b"
proof (induction "block_num b" arbitrary: s b rule: less_induct)
  case less
  show ?case
  proof (cases "block_num b = 0")
    case True
    then show ?thesis using less.prems by (subst (asm) flush_loop.simps) auto
  next
    case False
    then consider "(s', b') = (s, b)" | s1 b1 where "flush_step env i c (s, b) = Inr (Some (s1, b1))" "flush_loop env i c (s1, b1) = Inr (s', b')"
      using less.prems by (subst (asm) flush_loop.simps) (auto split: sum.splits option.splits)
    then show ?thesis
    proof cases
      case 2
      have "block_num b1 < block_num b" using flush_step_decreases [OF 2(1)] False by simp
      then show ?thesis using less.hyps [OF _ 2(2)] flush_step_size [OF 2(1)] by auto
    qed simp
  qed
qed

lemma flush_cache_sized:
  "flush_cache env i (s, b) = Inr (s', b') \<Longrightarrow> bin_sized k b \<Longrightarrow> bin_sized k b'"
  by (auto simp: flush_cache_def rbind_eq_Inr bin_sized_def dest!: flush_loop_size)

text \<open>Calls of the interface keep the recorded sizes in order.\<close>

lemma allocate_to_cache_sized:
  fixes s :: "'s malloc_state_scheme"
  assumes env: "mmap_contract (cfg_os cfg)" and pl: "plain cfg s" and ok: "heap_ok (cfg_hash cfg) (cfg_target cfg) s (\<lambda>k. bins (ts k)) live"
    and sized: "bins_sized (bins (ts j))" and i: "class_ix i" and m: "allocate_to_cache cfg sz i (s, ts j) = Some (Inr (p, s', t'))"
  shows "bins_sized (bins t')"
proof -
  let ?t = "ts j"
  have l: "i < length (bins ?t)" using heap_ok_bins [OF ok, of j] i by (simp add: class_ix_def)
  then have old: "bin_sized i (bins ?t ! i)" using sized by (simp add: bins_sized_def)
  obtain s1 b1 b2 m1 where f: "(if block_num (bins ?t ! i) = 0 then fill_cache (cfg_os cfg) (cfg_hash cfg) True i (s, bins ?t ! i)
      else Some (Inr (s, bins ?t ! i))) = Some (Inr (s1, b1))" "pop_block True (mem s1, b1) = Inr (p, m1, b2)"
      "tune_malloc cfg i p (s1\<lparr>mem := m1\<rparr>, put_bin i b2 ?t) = Some (Inr (s', t'))"
    using m pl l by (auto simp: plain_def allocate_to_cache_def get_bin_def get_bin_block_num_def orbind_eq_Inr split: if_splits)
  have "bin_sized i b1 \<and> \<not> use_apf s1"
  proof (cases "block_num (bins ?t ! i) = 0")
    case True
    then have fc: "fill_cache (cfg_os cfg) (cfg_hash cfg) True i (s, bins ?t ! i) = Some (Inr (s1, b1))" using f(1) by simp
    then have "heap_ok (cfg_hash cfg) (cfg_target cfg) s1 ((\<lambda>k. bins (ts k))(j := (bins ?t)[i := b1])) live" "alloc_state.more s1 = alloc_state.more s"
      using fill_cache_owned [OF env ok i, of j] True by auto
    then show ?thesis
      using fill_cache_sized [OF fc i] plain_more [OF pl] by (auto simp: heap_ok_def plain_def)
  qed (use f(1) old pl in \<open>auto simp: plain_def\<close>)
  then have "t' = put_bin i b2 ?t" "bin_sized i b2"
    using f(3) pop_block_mem [OF f(2)] bin_sized_same by (auto simp: tune_malloc_def)
  then show ?thesis using bins_sized_upd [OF sized] by (simp add: put_bin_def)
qed

lemma do_malloc_sized:
  fixes s :: "'s malloc_state_scheme"
  assumes env: "mmap_contract (cfg_os cfg)" and pl: "plain cfg s" and ok: "heap_ok (cfg_hash cfg) (cfg_target cfg) s (\<lambda>k. bins (ts k)) live"
    and sized: "bins_sized (bins (ts j))" and m: "do_malloc cfg sz (s, ts j) = Some (Inr (p, s', t'))"
  shows "bins_sized (bins t')"
proof (cases "MAX_SZ < unat sz")
  case True
  then have "t' = ts j" using m pl by (auto simp: do_malloc_def init_once_def plain_def rbind_eq_Inr Let_def case_prod_unfold)
  then show ?thesis using sized by simp
next
  case False
  let ?i = "get_size_class (sc_lookup s) (unat sz)"
  have "base_ok (cfg_hash cfg) (cfg_target cfg) s" using ok by (auto simp: heap_ok_def)
  then have i: "class_ix ?i" using False by (auto simp: base_ok_def tables_ok_def class_ix_def)
  have "allocate_to_cache cfg sz ?i (s, ts j) = Some (Inr (p, s', t'))" using m False pl by (simp add: do_malloc_def init_once_def plain_def)
  then show ?thesis by (rule allocate_to_cache_sized [OF env pl ok sized i])
qed

lemma push_block_size: "push_block nm x (m, b) = (m', b') \<Longrightarrow> bin_block_size b' = bin_block_size b"
  by (auto simp: push_block_def Let_def split: option.splits if_splits)

lemma do_free_sized:
  fixes s :: "'s malloc_state_scheme"
  assumes "plain cfg s" "bins_sized (bins t)" "do_free cfg p (s, t) = Some (Inr (s', t'))"
  shows "bins_sized (bins t')"
proof (cases "t' = t")
  case False
  have off: "tune_free cfg i p (s, t) = Some (Inr (s, t))" "\<not> use_apf s" for i using assms(1) by (simp_all add: tune_free_def plain_def)
  have "p \<noteq> 0" using assms(3) False by (auto simp: do_free_def)
  then obtain info where v: "get_page_info_for_ptr p s = Inr info"
    using assms(3) by (cases "get_page_info_for_ptr p s") (simp_all add: do_free_def)
  obtain d where d: "info_get_desc info = Some d"
    using assms(3) False \<open>p \<noteq> 0\<close> v by (cases "info_get_desc info") (simp_all add: do_free_def)
  have "\<exists>i. free_small cfg p i (s, t) = Some (Inr (s', t'))"
  proof (cases "info_get_size_class_index s info")
    case None
    then show ?thesis using assms(3) False \<open>p \<noteq> 0\<close> v d by (cases "free_large cfg p d s") (simp_all add: do_free_def)
  next
    case (Some i)
    then show ?thesis using assms(3) False \<open>p \<noteq> 0\<close> v d by (cases i; cases "free_large cfg p d s") (auto simp: do_free_def)
  qed
  then obtain i where "free_small cfg p i (s, t) = Some (Inr (s', t'))" by blast
  then obtain c s1 b1 m b2 where b: "get_bin i t = Inr c" "(s1, b1) = (s, c) \<or> flush_cache (cfg_os cfg) i (s, c) = Inr (s1, b1)"
    "push_block (cfg_nm cfg) p (mem s1, b1) = (m, b2)" "t' = put_bin i b2 t"
    by (auto simp: free_small_def off orbind_eq_Inr rbind_eq_Inr Let_def split: if_splits prod.splits) metis+
  then have "i < length (bins t)" "bin_sized i c" using assms(2) by (auto simp: get_bin_def bins_sized_def split: if_splits)
  then have "bin_sized i b1" using b(2) flush_cache_sized [of "cfg_os cfg" i s c s1 b1 i] by auto
  then have "bin_sized i b2" by (rule bin_sized_same [OF _ push_block_size [OF b(3)]])
  then show ?thesis using b(4) bins_sized_upd [OF assms(2)] by (simp add: put_bin_def)
qed (use assms(2) in simp)

section \<open>The end of a thread\<close>

lemma heap_ok_clear:
  assumes "heap_ok h target s bs live" shows "heap_ok h target s (bs(j := bins thread_new)) live"
proof -
  obtain P fs own where o: "base_ok h target s" "descs_ok h s P fs" "blocks_ok s bs live own" using assms by (auto simp: heap_ok_def)
  note b = blocks_okD [OF o(3)]
  have "bin_ok s own l i ((bs(j := bins thread_new)) l ! i)" if "class_ix i" for l i
    using b(3) [OF that, of l] that by (auto simp: bin_ok_def bin_list_def thread_new_def bin_new_def class_ix_def)
  then have "blocks_ok s (bs(j := bins thread_new)) live own"
    using b(1,2,4,5) unfolding blocks_ok_def by (simp add: thread_new_def)
  then show ?thesis by (rule heap_okI [OF o(1,2)])
qed

text \<open>The bins from \<open>k\<close> on are flushed one after the other.\<close>

lemma thread_cache_drop_owned:
  fixes s :: "'s alloc_state_scheme"
  assumes env: "munmap_contract env"
  shows "heap_ok h target s bs live \<Longrightarrow> bins_sized (bs j) \<Longrightarrow> \<exists>s' xs bs'. thread_cache_drop env (s, drop k (bs j)) = Inr (s', xs) \<and>
    heap_ok h target s' bs' live \<and> (\<forall>l. l \<noteq> j \<longrightarrow> bs' l = bs l) \<and> alloc_state.more s' = alloc_state.more s \<and> data_kept s s' live"
proof (induction "length (bs j) - k" arbitrary: s bs k)
  case 0
  then show ?case by (intro exI [of _ s] exI [of _ "[]"] exI [of _ bs]) simp
next
  case (Suc n)
  let ?b = "bs j ! k"
  have k: "k < length (bs j)" "drop k (bs j) = ?b # drop (Suc k) (bs j)" using Suc.hyps(2) by (auto simp: Cons_nth_drop_Suc)
  have "\<exists>s1 b1. (case bin_block_size ?b of Some sz \<Rightarrow> flush_cache env (get_size_class (sc_lookup s) sz) (s, ?b) | None \<Rightarrow> Inr (s, ?b)) =
      Inr (s1, b1) \<and> heap_ok h target s1 (bs(j := (bs j)[k := b1])) live \<and> bin_sized k b1 \<and> alloc_state.more s1 = alloc_state.more s \<and> data_kept s s1 live"
  proof (cases "bin_block_size ?b")
    case None
    then show ?thesis using Suc.prems(1) by (intro exI [of _ s] exI [of _ ?b]) (simp add: bin_sized_def)
  next
    case (Some sz)
    have sz: "class_ix k" "sz = sc_block_size (size_classes ! k)" "bin_sized k ?b"
      using Suc.prems(2) k(1) Some by (auto simp: bins_sized_def bin_sized_def)
    have base: "base_ok h target s" using Suc.prems(1) by (auto simp: heap_ok_def)
    have "get_size_class (sc_lookup s) sz = k" using class_facts(4) [OF base sz(1)] class_size_fixed [OF base sz(1)] sz(2) by simp
    then show ?thesis using flush_cache_owned [OF env sz(1) Suc.prems(1), of j] flush_cache_sized [OF _ sz(3)] Some
      by (fastforce simp: client_kept_def)
  qed
  then obtain s1 b1 where s1: "(case bin_block_size ?b of Some sz \<Rightarrow> flush_cache env (get_size_class (sc_lookup s) sz) (s, ?b) | None \<Rightarrow> Inr (s, ?b)) =
      Inr (s1, b1)" "heap_ok h target s1 (bs(j := (bs j)[k := b1])) live" "bin_sized k b1" "alloc_state.more s1 = alloc_state.more s" "data_kept s s1 live"
    by blast
  let ?bs = "bs(j := (bs j)[k := b1])"
  have b: "?bs j = (bs j)[k := b1]" by simp
  obtain s' xs bs' where r: "thread_cache_drop env (s1, drop (Suc k) (?bs j)) = Inr (s', xs)" "heap_ok h target s' bs' live" "\<forall>l. l \<noteq> j \<longrightarrow> bs' l = ?bs l"
    "alloc_state.more s' = alloc_state.more s1" "data_kept s1 s' live"
  proof -
    have "n = length (?bs j) - Suc k" "bins_sized (?bs j)" using Suc.hyps(2) bins_sized_upd [OF Suc.prems(2) s1(3)] by auto
    then show ?thesis using Suc.hyps(1) [OF _ s1(2)] that by blast
  qed
  have "thread_cache_drop env (s, drop k (bs j)) = Inr (s', b1 # xs)" using r(1) s1(1) by (simp add: k(2) b)
  then show ?case using r s1(4) data_kept_trans [OF s1(5)] by auto
qed

text \<open>Dropping the whole cache of a thread.\<close>

lemma thread_exit_owned:
  fixes s :: "'s malloc_state_scheme"
  assumes env: "munmap_contract (cfg_os cfg)" and pl: "plain cfg s" and ok: "heap_ok h target s (\<lambda>k. bins (ts k)) live"
    and sized: "bins_sized (bins (ts j))"
  shows "\<exists>s' xs. thread_cache_drop (cfg_os cfg) (s, bins (ts j)) = Inr (s', xs) \<and> plain cfg s' \<and>
    heap_ok h target s' (\<lambda>k. bins ((ts(j := thread_new)) k)) live \<and> data_kept s s' live"
proof -
  obtain s' xs bs' where r: "thread_cache_drop (cfg_os cfg) (s, bins (ts j)) = Inr (s', xs)" "heap_ok h target s' bs' live"
    "\<And>l. l \<noteq> j \<Longrightarrow> bs' l = bins (ts l)" "alloc_state.more s' = alloc_state.more s" "data_kept s s' live"
    using thread_cache_drop_owned [OF env ok sized, of 0] by auto
  have "bs'(j := bins thread_new) = (\<lambda>k. bins ((ts(j := thread_new)) k))" using r(3) by (auto simp: fun_eq_iff)
  then have "heap_ok h target s' (\<lambda>k. bins ((ts(j := thread_new)) k)) live" using heap_ok_clear [OF r(2), of j] by simp
  then show ?thesis using r(1,5) plain_more [OF pl r(4)] by blast
qed

end
