(* ===== verification/Alignment.thy ===== *)
theory Alignment
  imports Malloc
begin

text \<open>
  The alignment of the blocks that \<^verbatim>\<open>do_aligned_alloc\<close> of \<^verbatim>\<open>src/lib.rs\<close> hands out for requests up to a page.
\<close>

section \<open>Alignment\<close>

text \<open>The check of \<^verbatim>\<open>do_aligned_alloc\<close> that the alignment is a power of two accepts every alignment
  that is not zero: it negates the masked value bit by bit.\<close>

lemma is_power_of_two_any: "is_power_of_two x \<longleftrightarrow> x \<noteq> 0"
proof -
  have "NOT (x AND (x - 1)) \<noteq> 0"
  proof
    assume "NOT (x AND (x - 1)) = 0"
    then have "x AND (x - 1) = - 1" by (metis bit.compl_zero bit.double_compl)
    then have "odd (x AND (x - 1))" by simp
    then have "odd x" "odd (x - 1)" by (auto simp only: even_and_iff)
    moreover have "odd ((x - 1) + 1)" using \<open>odd x\<close> by simp
    ultimately show False by simp
  qed
  then show ?thesis by (simp add: is_power_of_two_def)
qed

definition aligned_gap :: "nat \<Rightarrow> nat \<times> nat \<Rightarrow> bool" where
  "aligned_gap a p \<longleftrightarrow> a dvd snd p \<or> fst p div a = snd p div a"

lemma class_gaps:
  assumes "k \<le> 12" "j < length block_sizes"
  shows "aligned_gap (2 ^ k) ((0 # block_sizes) ! j, block_sizes ! j)"
proof -
  have "list_all (\<lambda>k. list_all (aligned_gap (2 ^ k)) (zip (0 # block_sizes) block_sizes)) [0..<13]"
    by (simp add: block_sizes_def size_classes_def sc_def size_class_bin_yes_def upt_rec aligned_gap_def)
  then have "\<forall>p \<in> set (zip (0 # block_sizes) block_sizes). aligned_gap (2 ^ k) p"
    using assms(1) by (simp add: list_all_iff)
  moreover have "((0 # block_sizes) ! j, block_sizes ! j) \<in> set (zip (0 # block_sizes) block_sizes)"
    using assms(2) by (auto simp: in_set_zip)
  ultimately show ?thesis by blast
qed

lemma class_of_size:
  assumes "target \<le> 250000" "init_size_class target size_classes (replicate (MAX_SZ + 1) 0) = Some (Inr (cs, lk))"
    and "s \<le> MAX_SZ" "j = length (takeWhile (\<lambda>b. b < s) block_sizes)"
  shows "j < length block_sizes" "sc_block_size (cs ! get_size_class lk s) = block_sizes ! j"
    "block_sizes ! j \<le> MAX_SZ"
proof -
  obtain f where f: "cs = hd size_classes # f" "list_all2 (class_ok target) block_sizes f"
    "get_size_class lk s = Suc j"
    using init_size_class_result [OF assms(1)] assms(2-4) by (auto simp: get_size_class_def)
  have b: "\<forall>b \<in> set block_sizes. b \<le> MAX_SZ" "MAX_SZ \<in> set block_sizes"
    by (simp_all add: block_sizes_def size_classes_def sc_def size_class_bin_yes_def mem_info_defs)
  then show j: "j < length block_sizes"
    using assms(3,4) by (auto intro: length_takeWhile_less [of MAX_SZ])
  then show "sc_block_size (cs ! get_size_class lk s) = block_sizes ! j"
    using f by (auto simp: list_all2_conv_all_nth class_ok_def)
  show "block_sizes ! j \<le> MAX_SZ" using b(1) j by simp
qed

lemma best_fit_aligned:
  assumes "k \<le> 12" "2 ^ k dvd s" "0 < s" "s \<le> MAX_SZ"
  shows "2 ^ k dvd block_sizes ! length (takeWhile (\<lambda>b. b < s) block_sizes)"
proof -
  let ?j = "length (takeWhile (\<lambda>b. b < s) block_sizes)"
  have "MAX_SZ \<in> set block_sizes"
    by (simp add: block_sizes_def size_classes_def sc_def size_class_bin_yes_def mem_info_defs)
  then have j: "?j < length block_sizes" using assms(4) by (intro length_takeWhile_less) auto
  have up: "s \<le> block_sizes ! ?j" using nth_length_takeWhile [OF j] by simp
  have low: "(0 # block_sizes) ! ?j < s"
  proof (cases "?j = 0")
    case False
    then have "takeWhile (\<lambda>b. b < s) block_sizes ! (?j - 1) \<in> set (takeWhile (\<lambda>b. b < s) block_sizes)" by (intro nth_mem) simp
    then show ?thesis using False by (auto simp: takeWhile_nth nth_Cons' dest: set_takeWhileD)
  qed (use assms(3) in simp)
  obtain q where q: "s = 2 ^ k * q" using assms(2) by auto
  have "\<not> (0 # block_sizes) ! ?j div 2 ^ k = block_sizes ! ?j div 2 ^ k"
  proof
    assume e: "(0 # block_sizes) ! ?j div 2 ^ k = block_sizes ! ?j div 2 ^ k"
    have "q \<le> block_sizes ! ?j div 2 ^ k" using up q by (simp add: less_eq_div_iff_mult_less_eq mult.commute)
    then have "q * 2 ^ k \<le> (0 # block_sizes) ! ?j"
      using e by (metis less_eq_div_iff_mult_less_eq zero_less_numeral zero_less_power)
    then show False using low q by (simp add: mult.commute)
  qed
  then show ?thesis using class_gaps [OF assms(1) j] by (simp add: aligned_gap_def)
qed

text \<open>Blocks that serve aligned requests up to a page are aligned: for every power of two up to a
  page, the class that \<^verbatim>\<open>do_aligned_alloc\<close> chooses holds the request, and every block of a page
  aligned super block of that class is a multiple of the alignment.\<close>

theorem aligned_blocks:
  assumes "target \<le> 250000" "init_size_class target size_classes (replicate (MAX_SZ + 1) 0) = Some (Inr (cs, lk))"
    and "k \<le> 12" "unat sz \<le> PAGE" "sci = get_size_class lk (unat (align_size sz (2 ^ k)))"
    and "PAGE dvd unat sb" "unat sb + sc_block_size (cs ! sci) * n \<le> 2 ^ 47" "i < n"
  shows "unat sz \<le> sc_block_size (cs ! sci) \<and> 2 ^ k dvd unat (sb_block sb (sc_block_size (cs ! sci)) i)"
proof -
  let ?s = "unat (align_size sz (2 ^ k))"
  have pow: "(2 :: nat) ^ k dvd PAGE" "(2 :: nat) ^ k \<le> PAGE"
    using assms(3) le_imp_power_dvd [of k 12 "2::nat"] power_increasing [of k 12 "2::nat"] by (simp_all add: PAGE_value)
  have fit: "k < 64" "unat sz + 2 ^ k \<le> 2 ^ 64"
    using assms(3,4) pow(2) by (simp_all add: PAGE_value)
  have "?s = round_up (max 1 (unat sz)) (2 ^ k)"
    using unat_align_size [OF fit] .
  moreover have "max 1 (unat sz) \<le> PAGE" using assms(4) by (simp add: PAGE_value)
  ultimately have s: "2 ^ k dvd ?s" "max 1 (unat sz) \<le> ?s" "?s \<le> PAGE"
    using round_up_ge [of "2 ^ k"] round_up_least [of "2 ^ k" PAGE] pow(1) by simp_all
  let ?j = "length (takeWhile (\<lambda>b. b < ?s) block_sizes)"
  have "?s \<le> MAX_SZ" using s(3) by (simp add: MAX_SZ_value PAGE_value)
  note c = class_of_size [OF assms(1,2) this refl]
  have j: "?j < length block_sizes" and bs: "sc_block_size (cs ! sci) = block_sizes ! ?j"
    using c assms(5) by simp_all
  have al: "2 ^ k dvd sc_block_size (cs ! sci)"
    unfolding bs using s assms(3) by (intro best_fit_aligned) (auto simp: MAX_SZ_value PAGE_value)
  have "?s \<le> sc_block_size (cs ! sci)" unfolding bs using nth_length_takeWhile [OF j] by simp
  moreover have "2 ^ k dvd unat sb" using pow(1) assms(6) by (rule dvd_trans)
  ultimately show ?thesis
    using s(2) al unat_sb_block [OF assms(7,8)] by simp
qed

theorem aligned_blocks_witness:
  "\<exists>cs lk. init_size_class 2500 size_classes (replicate (MAX_SZ + 1) 0) = Some (Inr (cs, lk)) \<and>
    2 ^ 6 dvd unat (sb_block 4096 (sc_block_size (cs ! get_size_class lk (unat (align_size 100 (2 ^ 6))))) 0)"
proof -
  obtain cs lk where i: "init_size_class 2500 size_classes (replicate (MAX_SZ + 1) 0) = Some (Inr (cs, lk))"
    using init_size_class_result [of 2500] by auto
  let ?s = "unat (align_size 100 (2 ^ 6))"
  have "?s \<le> MAX_SZ" by (simp add: align_size_def align_val_def MAX_SZ_value)
  from class_of_size [OF _ i this refl]
  have "unat (4096 :: usize) + sc_block_size (cs ! get_size_class lk ?s) * 1 \<le> 2 ^ 47"
    by (simp add: MAX_SZ_value)
  then show ?thesis
    using aligned_blocks [OF _ i, of 6 100 "get_size_class lk ?s" 4096 1 0] i by (auto simp: PAGE_value)
qed

end
