(* ===== verification/Ownership_Aligned.thy ===== *)
theory Ownership_Aligned
  imports Thread_Exit Alignment
begin

text \<open>
  \<^verbatim>\<open>do_aligned_alloc\<close> with an alignment up to a page keeps the ownership invariant as \<^verbatim>\<open>do_malloc\<close> does, and its
  result is aligned. Up to a page a request takes a block of a class whose blocks are aligned; a larger
  one is a mapping, which is taken before its descriptor. (With an alignment above a page the page map gets a
  second entry that \<^verbatim>\<open>do_free\<close> does not remove.)
\<close>

section \<open>Alignment of blocks\<close>

lemma takeWhile_length_eq:
  assumes "\<And>j. j < m \<Longrightarrow> P (xs ! j)" "m < length xs" "\<not> P (xs ! m)" shows "length (takeWhile P xs) = m"
proof -
  have "takeWhile P xs = take m xs" using assms by (intro takeWhile_eq_take_P_nth) auto
  then show ?thesis using assms(2) by simp
qed

lemma class_aligned:
  assumes "base_ok h target s" "k \<le> 12" "2 ^ k dvd n" "0 < n" "n \<le> MAX_SZ"
  shows "2 ^ k dvd class_size s (get_size_class (sc_lookup s) n)"
proof -
  let ?i = "get_size_class (sc_lookup s) n"
  have t: "class_ix ?i" "n \<le> class_size s ?i" "\<And>j. 1 \<le> j \<and> j < ?i \<Longrightarrow> class_size s j < n"
    using assms(1,5) by (auto simp: base_ok_def tables_ok_def class_ix_def)
  have b: "class_size s j = block_sizes ! (j - 1)" "j - 1 < length block_sizes" if "class_ix j" for j
    using that class_size_fixed [OF assms(1) that] length_block_sizes by (auto simp: class_ix_def block_sizes_def nth_tl)
  have "block_sizes ! j < n" if "j < ?i - 1" for j
    using t(3) [of "Suc j"] b(1) [of "Suc j"] that t(1) by (simp add: class_ix_def)
  then have "length (takeWhile (\<lambda>b. b < n) block_sizes) = ?i - 1"
    using t(2) b [OF t(1)] by (intro takeWhile_length_eq) auto
  then show ?thesis using best_fit_aligned [OF assms(2-5)] b(1) [OF t(1)] by simp
qed

lemma class_block_aligned:
  assumes all: "used_all_ok h target s" and x: "class_block s i x" and a: "a dvd class_size s i" "a dvd PAGE"
  shows "a dvd unat x"
proof -
  obtain d seg where d: "small_sb s d i seg" "x \<in> set (blocks s d seg)" using x by (auto simp: class_block_def)
  note sd = small_sbD [OF all d(1)]
  obtain j where j: "j < sc_block_num (sc_table s ! i)" "x = sb_block (seg_ptr seg) (class_size s i) j"
    using d(2) sd(9) by (auto simp: sb_blocks_def)
  then have "unat x = unat (seg_ptr seg) + class_size s i * j" using unat_sb_block [OF sd(6) j(1)] by simp
  moreover have "a dvd unat (seg_ptr seg)" using a(2) sd(10) by (auto simp: valid_map_def intro: dvd_trans)
  ultimately show ?thesis using a(1) by simp
qed

section \<open>Requests\<close>

text \<open>What an aligned request asks of the allocator: the rounded size, and for a mapping the number of bytes.\<close>

definition aligned_pages :: "usize \<Rightarrow> nat \<Rightarrow> usize" where
  "aligned_pages sz k = page_ceiling (max (align_size sz (2 ^ k)) (of_nat (MAX_SZ + 1)))"

lemma aligned_size:
  assumes "k \<le> 12" "unat sz \<le> 2 ^ 32 - 2 * PAGE"
  shows "2 ^ k dvd unat (align_size sz (2 ^ k))" "unat sz \<le> unat (align_size sz (2 ^ k))" "0 < unat (align_size sz (2 ^ k))"
    "unat (align_size sz (2 ^ k)) \<le> 2 ^ 32 - PAGE" "(2 :: nat) ^ k dvd PAGE" "unat (2 ^ k :: usize) \<le> PAGE" "(2 ^ k :: usize) \<noteq> 0"
proof -
  have pow: "(2 :: nat) ^ k \<le> PAGE" "k < 64" using assms(1) power_increasing [of k 12 "2::nat"] by (simp_all add: PAGE_value)
  have e: "unat (align_size sz (2 ^ k)) = round_up (max 1 (unat sz)) (2 ^ k)"
    using assms pow by (intro unat_align_size) (auto simp: PAGE_value)
  show "2 ^ k dvd unat (align_size sz (2 ^ k))" "unat sz \<le> unat (align_size sz (2 ^ k))" "0 < unat (align_size sz (2 ^ k))"
    unfolding e using round_up_ge [of "2 ^ k" "max 1 (unat sz)"] by (auto simp: round_up_dvd)
  have "round_up (max 1 (unat sz)) (2 ^ k) < max 1 (unat sz) + 2 ^ k" by (rule round_up_less) simp
  then show "unat (align_size sz (2 ^ k)) \<le> 2 ^ 32 - PAGE" unfolding e using assms(2) pow(1) by (simp add: PAGE_value)
  show "(2 :: nat) ^ k dvd PAGE" using assms(1) le_imp_power_dvd [of k 12 "2::nat"] by (simp add: PAGE_value)
  have "unat (2 ^ k :: usize) = 2 ^ k" using pow(2) by (intro unat_pow2) simp
  then show "unat (2 ^ k :: usize) \<le> PAGE" "(2 ^ k :: usize) \<noteq> 0" using pow(1) by (auto simp: unat_eq_zero [symmetric])
qed

lemma aligned_pages_bounds:
  assumes "k \<le> 12" "unat sz \<le> 2 ^ 32 - 2 * PAGE"
  shows "unat sz \<le> unat (aligned_pages sz k)" "MAX_SZ < unat (aligned_pages sz k)" "unat (aligned_pages sz k) < 2 ^ 32"
proof -
  let ?m = "max (align_size sz (2 ^ k)) (of_nat (MAX_SZ + 1))"
  have m: "unat ?m = max (unat (align_size sz (2 ^ k))) (MAX_SZ + 1)" by (simp add: max_def word_le_nat_alt MAX_SZ_value)
  note a = aligned_size [OF assms]
  have "MAX_SZ < unat ?m" "unat ?m + PAGE \<le> 2 ^ 64" using m a(4) by (simp_all add: MAX_SZ_value PAGE_value)
  note p = page_ceiling_large [OF this]
  show "unat sz \<le> unat (aligned_pages sz k)" "MAX_SZ < unat (aligned_pages sz k)" "unat (aligned_pages sz k) < 2 ^ 32"
    using p m a(2,4) by (auto simp: aligned_pages_def MAX_SZ_value PAGE_value)
qed

text \<open>The request runs out of memory: the partial list of the class is empty and the kernel refuses a super block,
  or there is a mapping and no memory for its descriptor. (A refused mapping is answered with a null pointer.)\<close>

definition aligned_refused :: "config \<Rightarrow> nat \<Rightarrow> usize \<Rightarrow> 's malloc_state_scheme \<Rightarrow> thread \<Rightarrow> bool" where
  "aligned_refused cfg k sz s t \<longleftrightarrow> (let n = unat (align_size sz (2 ^ k)) in
     if n > PAGE then \<exists>p e. p = mmap (cfg_os cfg) False (os_calls s) (os_maps s) (aligned_pages sz k) \<and> p \<noteq> MAP_FAILED \<and>
       desc_alloc (cfg_os cfg) (cfg_hash cfg) (mapped p (aligned_pages sz k) s) = Inl e
     else class_refused cfg (get_size_class (sc_lookup s) n) s t)"

definition mapping_refused :: "config \<Rightarrow> nat \<Rightarrow> usize \<Rightarrow> 's malloc_state_scheme \<Rightarrow> bool" where
  "mapping_refused cfg k sz s \<longleftrightarrow> PAGE < unat (align_size sz (2 ^ k)) \<and>
     mmap (cfg_os cfg) False (os_calls s) (os_maps s) (aligned_pages sz k) = MAP_FAILED"

lemma do_aligned_alloc_mapped:
  fixes s :: "'s malloc_state_scheme"
  assumes pl: "plain cfg s" and k: "k \<le> 12" "unat sz \<le> 2 ^ 32 - 2 * PAGE" "PAGE < unat (align_size sz (2 ^ k))"
    and p: "p = mmap (cfg_os cfg) False (os_calls s) (os_maps s) (aligned_pages sz k)" "p \<noteq> MAP_FAILED"
  shows "do_aligned_alloc cfg (2 ^ k) sz (s, t) = Some (rbind (desc_alloc (cfg_os cfg) (cfg_hash cfg) (mapped p (aligned_pages sz k) s)) (\<lambda>(d, s2).
      let s3 = upd_desc d (\<lambda>q. (large_desc (aligned_pages sz k) q)\<lparr>super_block := Some \<lparr>seg_ptr = p, seg_length = aligned_pages sz k\<rparr>,
        d_anchor := set_state FULL anchor_default\<rparr>) s2
      in rbind (register_desc d s3) (\<lambda>s4. Inr (p, s4, t))))"
proof -
  note a = aligned_size [OF k(1,2)]
  have nm: "(PAGE < unat (2 ^ k :: usize)) = False" using a(6) by simp
  have seg: "seg_allocate (cfg_os cfg) (aligned_pages sz k) s =
      (Inr \<lparr>seg_ptr = p, seg_length = aligned_pages sz k\<rparr>, mapped p (aligned_pages sz k) s)"
    using p by (simp add: seg_allocate_def map_segment_def mapped_def Let_def)
  have "do_aligned_alloc cfg (2 ^ k) sz (s, t) = Some (case seg_allocate (cfg_os cfg) (aligned_pages sz k) s of
      (Inl e, s1) \<Rightarrow> Inr (0, s1, t)
    | (Inr seg, s1) \<Rightarrow> rbind (desc_alloc (cfg_os cfg) (cfg_hash cfg) s1) (\<lambda>(d, s2).
        rbind (register_desc d (upd_desc d (\<lambda>q. (large_desc (aligned_pages sz k) q)\<lparr>super_block := Some seg,
          d_anchor := set_state FULL anchor_default\<rparr>) s2)) (\<lambda>s4. Inr (seg_ptr seg, s4, t))))"
    unfolding do_aligned_alloc_def Let_def aligned_pages_def nm if_False using pl a(7) k(3)
    by (simp add: is_power_of_two_any init_once_def plain_def)
  then show ?thesis by (simp add: seg Let_def)
qed

lemma register_large:
  fixes s :: "'s malloc_state_scheme"
  assumes "pm_ready s" "desc_addr d" "p \<noteq> 0"
  shows "register_desc d (upd_desc d (\<lambda>q. (large_desc pages q)\<lparr>super_block := Some \<lparr>seg_ptr = p, seg_length = pages\<rparr>,
      d_anchor := set_state FULL anchor_default\<rparr>) s) = Inr (large_use pages d p s)"
proof -
  have "info_set_ptr d 0 = d" using info_get_desc_set [OF assms(2)] by (auto simp: info_get_desc_def split: if_splits)
  then show ?thesis
    using assms by (simp add: register_desc_def update_page_map_def upd_desc_def large_desc_def set_page_info_ready pm_ready_def large_use_def)
qed

lemma do_aligned_alloc_large_owned:
  fixes s :: "'s malloc_state_scheme"
  assumes env: "mmap_contract (cfg_os cfg)" and pl: "plain cfg s" and k: "k \<le> 12" "unat sz \<le> 2 ^ 32 - 2 * PAGE" "PAGE < unat (align_size sz (2 ^ k))"
    and ok: "heap_ok (cfg_hash cfg) (cfg_target cfg) s bs live"
    and p: "p = mmap (cfg_os cfg) False (os_calls s) (os_maps s) (aligned_pages sz k)" "p \<noteq> MAP_FAILED"
    and g: "desc_alloc (cfg_os cfg) (cfg_hash cfg) (mapped p (aligned_pages sz k) s) = Inr (d, s2)"
  shows "\<exists>s'. do_aligned_alloc cfg (2 ^ k) sz (s, t) = Some (Inr (p, s', t)) \<and> plain cfg s' \<and> p \<noteq> 0 \<and> 2 ^ k dvd unat p \<and>
    heap_ok (cfg_hash cfg) (cfg_target cfg) s' bs ((p, unat sz) # live) \<and> data_kept s s' live"
proof -
  let ?h = "cfg_hash cfg" and ?pg = "aligned_pages sz k"
  obtain P fs own where o: "base_ok ?h (cfg_target cfg) s" "descs_ok ?h s P fs" "blocks_ok s bs live own" using ok by (auto simp: heap_ok_def)
  have v: "valid_map (p, ?pg)" "\<forall>r \<in> set (os_maps s). maps_disjoint (p, ?pg) r" using mmap_contractD [OF env] p by auto
  note m = mapped_ok [OF o v]
  obtain fs2 where f: "desc_frame ?h (mapped p ?pg s) s2" "base_ok ?h (cfg_target cfg) s2" "descs_ok ?h s2 P fs2" "d \<notin> set fs2"
    "\<And>i. class_ix i \<Longrightarrow> d \<notin> set (P i)" "desc_kept ?h s2 d" "super_block (descs s2 d) = None"
    "\<forall>d i seg. small_sb s2 d i seg \<longleftrightarrow> small_sb (mapped p ?pg s) d i seg" "\<forall>d seg. large_sb s2 d seg \<longleftrightarrow> large_sb (mapped p ?pg s) d seg"
    using desc_alloc_ok [OF env m(1,2) g] by blast
  have b2: "blocks_ok s2 bs live own" by (rule desc_alloc_blocks [OF m(1-3) f(1,8,9)])
  have "heap_ok ?h (cfg_target cfg) (large_use ?pg d p s2) bs ((p, unat sz) # live)"
    by (rule large_use_owned [OF f(2,3) b2 aligned_pages_bounds(2,3,1) [OF k(1,2)] unused_map_frame [OF m(4) f(1,3,8,9)] f(6,7,4,5)])
  moreover have "p \<noteq> 0" "PAGE dvd unat p" using v(1) by (simp_all add: valid_map_def)
  moreover have "pm_ready s2" "desc_addr d" using f(2,6) by (simp_all add: base_ok_def desc_kept_def)
  then have "do_aligned_alloc cfg (2 ^ k) sz (s, t) = Some (Inr (p, large_use ?pg d p s2, t))"
    using do_aligned_alloc_mapped [OF pl k p] g register_large [of s2 d p ?pg] \<open>p \<noteq> 0\<close> by (simp add: Let_def)
  moreover have "data_kept (mapped p ?pg s) s2 live" by (rule mem_kept_data [OF descs_ok_used [OF m(1,2)] m(3) desc_frameD(8) [OF f(1)]])
  then have "data_kept s s2 live" by (rule data_kept_trans [OF m(5)])
  then have "data_kept s (large_use ?pg d p s2) live" by (simp add: large_use_def data_kept_def)
  moreover have "plain cfg (large_use ?pg d p s2)"
    using desc_frameD(6) [OF f(1)] by (intro plain_more [OF pl]) (simp add: large_use_def mapped_def)
  ultimately show ?thesis using dvd_trans [OF aligned_size(5) [OF k(1,2)]] by blast
qed

text \<open>What a request that returns gives: an aligned block or mapping that nobody else has, or a null pointer,
  which means that the kernel refused the mapping.\<close>

definition aligned_result ::
  "config \<Rightarrow> nat \<Rightarrow> usize \<Rightarrow> 's malloc_state_scheme \<Rightarrow> (nat \<Rightarrow> thread) \<Rightarrow> nat \<Rightarrow> (usize \<times> nat) list \<Rightarrow> usize \<Rightarrow> 's malloc_state_scheme \<Rightarrow> thread \<Rightarrow> bool" where
  "aligned_result cfg k sz s ts j live p s' t' \<longleftrightarrow> plain cfg s' \<and> data_kept s s' live \<and> bins_sized (bins t') \<and> 2 ^ k dvd unat p \<and> (p = 0 \<longrightarrow> mapping_refused cfg k sz s) \<and>
     heap_ok (cfg_hash cfg) (cfg_target cfg) s' (\<lambda>k. bins ((ts(j := t')) k)) (if p = 0 then live else (p, unat sz) # live)"

lemma aligned_mapping:
  fixes s :: "'s malloc_state_scheme"
  assumes env: "mmap_contract (cfg_os cfg)" and pl: "plain cfg s" and k: "k \<le> 12" "unat sz \<le> 2 ^ 32 - 2 * PAGE" "PAGE < unat (align_size sz (2 ^ k))"
    and ok: "heap_ok (cfg_hash cfg) (cfg_target cfg) s (\<lambda>k. bins (ts k)) live" and sized: "bins_sized (bins (ts j))"
  shows "(\<exists>p s' t'. do_aligned_alloc cfg (2 ^ k) sz (s, ts j) = Some (Inr (p, s', t')) \<and> aligned_result cfg k sz s ts j live p s' t') \<or>
    (\<exists>e. do_aligned_alloc cfg (2 ^ k) sz (s, ts j) = Some (Inl e)) \<and> aligned_refused cfg k sz s (ts j)"
proof -
  define p where "p = mmap (cfg_os cfg) False (os_calls s) (os_maps s) (aligned_pages sz k)"
  have same: "(\<lambda>k. bins ((ts(j := ts j)) k)) = (\<lambda>k. bins (ts k))" by simp
  consider "p = MAP_FAILED" | e where "p \<noteq> MAP_FAILED" "desc_alloc (cfg_os cfg) (cfg_hash cfg) (mapped p (aligned_pages sz k) s) = Inl e"
    | d s2 where "p \<noteq> MAP_FAILED" "desc_alloc (cfg_os cfg) (cfg_hash cfg) (mapped p (aligned_pages sz k) s) = Inr (d, s2)"
    by (metis sum.exhaust surj_pair)
  then show ?thesis
  proof cases
    case 1
    let ?s = "s\<lparr>os_calls := Suc (os_calls s)\<rparr>"
    have "seg_allocate (cfg_os cfg) (aligned_pages sz k) s = (Inl (AllocationFailed (aligned_pages sz k)), ?s)"
      using 1 by (simp add: seg_allocate_def map_segment_def p_def Let_def)
    moreover have "(PAGE < unat (2 ^ k :: usize)) = False" using aligned_size(6) [OF k(1,2)] by simp
    ultimately have "do_aligned_alloc cfg (2 ^ k) sz (s, ts j) = Some (Inr (0, ?s, ts j))"
      using pl aligned_size(7) [OF k(1,2)] k(3)
      by (simp add: do_aligned_alloc_def Let_def is_power_of_two_any init_once_def plain_def aligned_pages_def)
    moreover have "plain cfg ?s" using pl by (simp add: plain_def)
    then have "aligned_result cfg k sz s ts j live 0 ?s (ts j)"
      using refused_call_ok [OF ok] sized same k(3) 1 by (simp add: aligned_result_def mapping_refused_def p_def)
    ultimately show ?thesis by blast
  next
    case 2
    then have "aligned_refused cfg k sz s (ts j)" using k(3) by (auto simp: aligned_refused_def p_def)
    then show ?thesis using 2 do_aligned_alloc_mapped [OF pl k p_def 2(1)] by simp
  next
    case 3
    obtain s' where s': "do_aligned_alloc cfg (2 ^ k) sz (s, ts j) = Some (Inr (p, s', ts j))" "plain cfg s'" "p \<noteq> 0" "2 ^ k dvd unat p"
      "heap_ok (cfg_hash cfg) (cfg_target cfg) s' (\<lambda>k. bins (ts k)) ((p, unat sz) # live)" "data_kept s s' live"
      using do_aligned_alloc_large_owned [OF env pl k ok p_def 3] by blast
    then have "aligned_result cfg k sz s ts j live p s' (ts j)" using sized same by (simp add: aligned_result_def)
    then show ?thesis using s'(1) by blast
  qed
qed

lemma aligned_block:
  fixes s :: "'s malloc_state_scheme"
  assumes env: "mmap_contract (cfg_os cfg)" and pl: "plain cfg s" and k: "k \<le> 12" "unat sz \<le> 2 ^ 32 - 2 * PAGE" "\<not> PAGE < unat (align_size sz (2 ^ k))"
    and ok: "heap_ok (cfg_hash cfg) (cfg_target cfg) s (\<lambda>k. bins (ts k)) live" and sized: "bins_sized (bins (ts j))"
  shows "(\<exists>p s' t'. do_aligned_alloc cfg (2 ^ k) sz (s, ts j) = Some (Inr (p, s', t')) \<and> aligned_result cfg k sz s ts j live p s' t') \<or>
    (\<exists>e. do_aligned_alloc cfg (2 ^ k) sz (s, ts j) = Some (Inl e)) \<and> aligned_refused cfg k sz s (ts j)"
proof -
  let ?z = "align_size sz (2 ^ k)" and ?h = "cfg_hash cfg"
  let ?i = "get_size_class (sc_lookup s) (unat ?z)"
  note a = aligned_size [OF k(1,2)]
  have base: "base_ok ?h (cfg_target cfg) s" using ok by (auto simp: heap_ok_def)
  have n: "unat ?z \<le> MAX_SZ" using k(3) by (simp add: MAX_SZ_value PAGE_value)
  then have i: "class_ix ?i" "unat ?z \<le> sc_block_size (size_classes ! ?i)" using base by (auto simp: base_ok_def tables_ok_def class_ix_def class_ok_def)
  have al: "2 ^ k dvd sc_block_size (size_classes ! ?i)" using class_aligned [OF base k(1) a(1,3) n] class_size_fixed [OF base i(1)] by simp
  have start: "do_aligned_alloc cfg (2 ^ k) sz (s, ts j) = allocate_to_cache cfg ?z ?i (s, ts j)"
    using pl k(3) a(7) by (simp add: do_aligned_alloc_def init_once_def plain_def is_power_of_two_any Let_def)
  have "unat sz \<le> sc_block_size (size_classes ! ?i)" using a(2) i(2) by simp
  from allocate_to_cache_owned [OF env pl i(1) this ok, of ?z j]
  consider p s' t' where "allocate_to_cache cfg ?z ?i (s, ts j) = Some (Inr (p, s', t'))" "plain cfg s'"
      "heap_ok ?h (cfg_target cfg) s' (\<lambda>k. bins ((ts(j := t')) k)) ((p, unat sz) # live)" "data_kept s s' live" "class_block s' ?i p"
    | e where "allocate_to_cache cfg ?z ?i (s, ts j) = Some (Inl e)" "class_refused cfg ?i s (ts j)" by blast
  then show ?thesis
  proof cases
    case r: 1
    obtain P fs where o: "base_ok ?h (cfg_target cfg) s'" "descs_ok ?h s' P fs" using r(3) by (auto simp: heap_ok_def)
    note all = descs_ok_used [OF o]
    have "2 ^ k dvd unat p" using class_block_aligned [OF all r(5)] al a(5) class_size_fixed [OF o(1) i(1)] by simp
    moreover have "p \<noteq> 0" by (rule class_blockD(4) [OF all r(5)])
    moreover have "bins_sized (bins t')" by (rule allocate_to_cache_sized [OF env pl ok sized i(1) r(1)])
    ultimately have "aligned_result cfg k sz s ts j live p s' t'" using r by (simp add: aligned_result_def)
    then show ?thesis using r(1) start by auto
  next
    case 2
    then show ?thesis using start k(3) by (simp add: aligned_refused_def Let_def)
  qed
qed

lemma do_aligned_alloc_owned:
  fixes s :: "'s malloc_state_scheme"
  assumes "mmap_contract (cfg_os cfg)" "plain cfg s" "k \<le> 12" "unat sz \<le> 2 ^ 32 - 2 * PAGE"
    and "heap_ok (cfg_hash cfg) (cfg_target cfg) s (\<lambda>k. bins (ts k)) live" "bins_sized (bins (ts j))"
  shows "(\<exists>p s' t'. do_aligned_alloc cfg (2 ^ k) sz (s, ts j) = Some (Inr (p, s', t')) \<and> aligned_result cfg k sz s ts j live p s' t') \<or>
    (\<exists>e. do_aligned_alloc cfg (2 ^ k) sz (s, ts j) = Some (Inl e)) \<and> aligned_refused cfg k sz s (ts j)"
  by (cases "PAGE < unat (align_size sz (2 ^ k))") (rule aligned_mapping [OF assms(1-4) _ assms(5,6)] aligned_block [OF assms(1-4) _ assms(5,6)]; assumption)+

end
