(* ===== verification/Realloc.thy ===== *)
theory Realloc
  imports Malloc_Facts
begin

text \<open>
  \<^verbatim>\<open>do_realloc\<close> of \<^verbatim>\<open>src/lib.rs\<close>: when the block stays where it is and when its contents move to a block of
  another class. The frame lemmas say which writes leave the free list of a bin alone.
\<close>

section \<open>Writes outside the cells of a bin\<close>

text \<open>The cell at \<open>y\<close> lies outside the \<open>n\<close> bytes from \<open>x\<close> on.\<close>

definition cell_clear :: "usize \<Rightarrow> nat \<Rightarrow> usize \<Rightarrow> bool" where
  "cell_clear x n y \<longleftrightarrow> (\<forall>i < 8. n \<le> unat (y + of_nat i - x))"

lemma bin_rep_frame:
  assumes "bin_rep nm (m, b) xs" "\<And>y i. y \<in> set xs \<Longrightarrow> i < 8 \<Longrightarrow> m' (y + of_nat i) = m (y + of_nat i)"
  shows "bin_rep nm (m', b) xs"
proof -
  have "load64 m' y = load64 m y" if "y \<in> set xs" for y
    unfolding load64_def using assms(2) [OF that] by (intro arg_cong [where f = word_of_bytes] map_cong) auto
  then have "chain (\<lambda>q. next_of nm (bin_block_size b) (load64 m q) q) (block b) (block_num b) =
      chain (\<lambda>q. next_of nm (bin_block_size b) (load64 m' q) q) (block b) (block_num b)"
    using assms(1) by (intro chain_cong) (simp add: bin_rep_def bin_blocks_def)
  then show ?thesis using assms(1) by (simp add: bin_rep_def bin_blocks_def)
qed

lemma memcpy_inside: "i < n \<Longrightarrow> n \<le> 2 ^ 64 \<Longrightarrow> memcpy x p n m (x + of_nat i) = m (p + of_nat i)"
  by (simp add: memcpy_def unat_of_nat)

lemma memcpy_outside: "n \<le> unat (a - x) \<Longrightarrow> memcpy x p n m a = m a"
  by (simp add: memcpy_def)

lemma bin_rep_memcpy:
  assumes "bin_rep nm (m, b) xs" "\<forall>y \<in> set xs. cell_clear x n y"
  shows "bin_rep nm (memcpy x p n m, b) xs"
  using assms by (intro bin_rep_frame [OF assms(1)]) (auto simp: cell_clear_def memcpy_outside)

lemma bin_rep_store:
  assumes "bin_rep nm (m, b) xs" "\<forall>y \<in> set xs. cells_apart x y"
  shows "bin_rep nm (store64 m x v, b) xs"
  using assms by (intro bin_rep_frame [OF assms(1)]) (auto simp: store64_apart_byte)

lemma store64_outside: "8 \<le> unat (a - x) \<Longrightarrow> store64 m x v a = m a"
  by (simp add: store64_def word_less_nat_alt not_less)

section \<open>Reallocation\<close>

lemma block_of_class_size: "block_of_class s p bs sci \<Longrightarrow> get_allocation_size p s = Inr (Some bs)"
  by (auto simp: block_of_class_def get_allocation_size_def get_page_info_for_ptr_def info_get_desc_def)

lemma realloc_in_place:
  assumes "block_of_class s p old sci" "p \<noteq> 0" "get_size_class (sc_lookup s) (unat sz) = sci"
  shows "do_realloc cfg p sz (s, t) = Some (Inr (p, s, t))"
  using assms block_of_class_size [OF assms(1)] by (simp add: do_realloc_def block_of_class_def Let_def)

text \<open>C17. With tuning off, \<^verbatim>\<open>do_realloc\<close> of a small block to another size class returns the top block of
  the bin of the new class, to which all bytes of the old block were copied, and puts the old block
  into the bin of its class. It copies as many bytes as the old block has, also when the new block is
  smaller; the bin of the new class keeps its other blocks if their links lie outside the copied bytes.\<close>

theorem realloc_moves:
  fixes s :: "'s malloc_state_scheme"
  assumes state: "quiet cfg s" "block_of_class s p old sci" "8 \<le> old"
    and new: "unat sz \<le> MAX_SZ" "get_size_class (sc_lookup s) (unat sz) = new" "new \<noteq> sci" "new < length (bins t)"
      "bin_rep (cfg_nm cfg) (mem s, bins t ! new) (x # xs)"
    and home: "sci < length (bins t)" "bin_rep (cfg_nm cfg) (mem s, bins t ! sci) ys" "bin_fits ys p"
      "length ys < sc_cache_block_num (sc_table s ! sci)"
    and apart: "\<forall>i < old. old \<le> unat (p + of_nat i - x)" "\<forall>y \<in> set ys. cell_clear x old y"
  shows "\<exists>s' t'. do_realloc cfg p sz (s, t) = Some (Inr (x, s', t')) \<and>
    (\<forall>i < old. mem s' (x + of_nat i) = mem s (p + of_nat i)) \<and>
    bin_rep (cfg_nm cfg) (mem s', bins t' ! sci) (p # ys) \<and>
    ((\<forall>y \<in> set xs. cell_clear x old y \<and> cells_apart p y) \<longrightarrow> bin_rep (cfg_nm cfg) (mem s', bins t' ! new) xs)"
proof -
  let ?nm = "cfg_nm cfg"
  have old: "old \<le> 2 ^ 64" "get_size_class (sc_lookup s) old = sci" "sci \<noteq> 0"
    using state(2) by (auto simp: block_of_class_def MAX_SZ_value)
  have "old \<le> unat (p - x)" using apart(1) state(3) by (auto dest: spec [of _ 0])
  then have ne: "p \<noteq> 0" "x \<noteq> 0" "x \<noteq> p" using home(3) new(5) state(3) by (auto simp: bin_fits_def bin_rep_def)
  obtain b1 where b1: "do_malloc cfg sz (s, t) = Some (Inr (x, s, put_bin new b1 t))" "bin_rep ?nm (mem s, b1) xs"
    using do_malloc_bin [OF state(1) new(1,2,4,5)] by blast
  define s1 where "s1 = s\<lparr>mem := memcpy x p old (mem s)\<rparr>"
  have s1: "quiet cfg s1" "block_of_class s1 p old sci" using state(1,2) by (simp_all add: s1_def)
  have "bin_rep ?nm (mem s1, bins (put_bin new b1 t) ! sci) ys"
    using bin_rep_memcpy [OF home(2) apart(2)] new(3) by (simp add: s1_def)
  then obtain v b2 where b2: "do_free cfg p (s1, put_bin new b1 t) =
      Some (Inr (s1\<lparr>mem := store64 (mem s1) p v\<rparr>, put_bin sci b2 (put_bin new b1 t)))"
    "bin_rep ?nm (store64 (mem s1) p v, b2) (p # ys)"
    using do_free_bin [OF s1, of "put_bin new b1 t" ys] home by (auto simp: s1_def)
  define s' t' where "s' = s1\<lparr>mem := store64 (mem s1) p v\<rparr>" and "t' = put_bin sci b2 (put_bin new b1 t)"
  have "do_realloc cfg p sz (s, t) = Some (Inr (x, s', t'))"
    using ne old(2,3) block_of_class_size [OF state(2)] b1(1) b2(1) new(2,3)
    by (simp add: do_realloc_def s1_def s'_def t'_def)
  moreover have "mem s' (x + of_nat i) = mem s (p + of_nat i)" if i: "i < old" for i
  proof -
    have "8 \<le> unat (x + of_nat i - p)"
    proof (rule ccontr)
      assume lt: "\<not> 8 \<le> unat (x + of_nat i - p)"
      define j where "j = unat (x + of_nat i - p)"
      have "p + of_nat j - x = of_nat i" by (simp add: j_def)
      moreover have "unat (of_nat i :: usize) = i" using i old(1) by (simp add: unat_of_nat)
      moreover have "j < old" using lt state(3) by (simp add: j_def)
      ultimately show False using apart(1) i by (auto dest: spec [of _ j])
    qed
    then show ?thesis using memcpy_inside [OF i old(1), of x p "mem s"] by (simp add: s'_def s1_def store64_outside)
  qed
  moreover have "bin_rep ?nm (mem s', bins t' ! sci) (p # ys)" using b2(2) home(1) by (simp add: s'_def t'_def)
  moreover have "bin_rep ?nm (mem s', bins t' ! new) xs" if clear: "\<forall>y \<in> set xs. cell_clear x old y \<and> cells_apart p y"
    using bin_rep_store [OF bin_rep_memcpy [OF b1(2)], of x old p p v] clear new(3,4) by (simp add: s'_def s1_def t'_def)
  ultimately show ?thesis by (intro exI [of _ s'] exI [of _ t']) blast
qed

text \<open>A block of 8 bytes grows to 16 bytes; the bin of class 2 holds one block.\<close>

definition grow_malloc :: malloc_state where
  "grow_malloc = small_malloc\<lparr>sc_lookup := map (\<lambda>n. if n \<le> 8 then 1 else 2) [0..<MAX_SZ + 1]\<rparr>"

definition grow_thread :: thread where
  "grow_thread = thread_new\<lparr>bins := (replicate MAX_SZ_IDX bin_new)[2 := \<lparr>block = 1114112, block_num = 1, bin_block_size = Some 16\<rparr>]\<rparr>"

theorem realloc_moves_witness:
  "\<exists>s' t'. do_realloc bump_cfg 2097152 16 (grow_malloc, grow_thread) = Some (Inr (1114112, s', t')) \<and>
    bin_rep False (mem s', bins t' ! 1) [2097152]"
proof -
  have q: "quiet bump_cfg grow_malloc" by (simp add: quiet_def grow_malloc_def small_malloc_def bump_cfg_def)
  have l: "get_size_class (sc_lookup grow_malloc) n = (if n \<le> 8 then 1 else 2)" if "n \<le> MAX_SZ" for n
    using that nth_map [of n "[0..<MAX_SZ + 1]" "\<lambda>n. if n \<le> 8 then 1 else 2 :: nat"]
    by (simp add: grow_malloc_def get_size_class_def del: upt_Suc)
  have "get_page_info 2097152 grow_malloc = Inr 1048576"
    using get_page_info_ready [of grow_malloc 2097152] by (simp add: pm_ready_def grow_malloc_def small_malloc_def)
  then have k: "block_of_class grow_malloc 2097152 8 1"
    using l [of 8] by (simp add: block_of_class_def MAX_SZ_value) (simp add: grow_malloc_def small_malloc_def size_classes_def)
  have b: "bins grow_thread ! 2 = \<lparr>block = 1114112, block_num = 1, bin_block_size = Some 16\<rparr>" "bins grow_thread ! 1 = bin_new"
    "length (bins grow_thread) = MAX_SZ_IDX"
    by (simp_all add: grow_thread_def MAX_SZ_IDX_def)
  have "bin_rep nm (m, bins grow_thread ! 2) [1114112]" "bin_rep nm (m, bins grow_thread ! 1) []" for nm m
    unfolding b by (simp_all add: bin_rep_def bin_blocks_def bin_new_def)
  moreover have "8 \<le> unat (2097152 + of_nat i - 1114112 :: usize)" if "i < 8" for i
  proof -
    have "2097152 + of_nat i - 1114112 = (of_nat (983040 + i) :: usize)" by simp
    moreover have "unat (of_nat (983040 + i) :: usize) = 983040 + i" using that by (simp only: unat_of_nat) simp
    ultimately show ?thesis by (simp only:)
  qed
  moreover have "sc_cache_block_num (sc_table grow_malloc ! 1) = 512"
    by (simp add: grow_malloc_def small_malloc_def size_classes_def class_8_def)
  ultimately show ?thesis
    using realloc_moves [OF q k, of 16 2 grow_thread 1114112 "[]" "[]"] l [of 16]
    by (auto simp: MAX_SZ_value b(3) MAX_SZ_IDX_def bin_fits_def bump_cfg_def)
qed

end
