(* ===== verification/Heap_Spec.thy ===== *)
theory Heap_Spec
  imports Memory
begin

text \<open>
  What an allocator promises the program that uses it, without a word about how: the program holds a
  list of allocations, each with the size it asked for, and the bytes it has stored in them; each call and
  each store is an action with one outcome. The steps of a detailed model are labelled with the actions
  they are to perform, and the contract between such a model and the specification is the locale
  \<open>simulation\<close>: every run performs its actions on the specification.
\<close>

section \<open>Allocations\<close>

text \<open>An allocation is its address and the requested size.\<close>

type_synonym allocation = "usize \<times> nat"

definition covers :: "allocation \<Rightarrow> usize \<Rightarrow> bool" where
  "covers r a \<longleftrightarrow> unat (fst r) \<le> unat a \<and> unat a < unat (fst r) + snd r"

definition covered :: "allocation list \<Rightarrow> usize \<Rightarrow> bool" where
  "covered live a \<longleftrightarrow> (\<exists>r \<in> set live. covers r a)"

definition apart :: "allocation \<Rightarrow> allocation \<Rightarrow> bool" where
  "apart r q \<longleftrightarrow> unat (fst r) + snd r \<le> unat (fst q) \<or> unat (fst q) + snd q \<le> unat (fst r)"

definition forget :: "usize \<Rightarrow> allocation list \<Rightarrow> allocation list" where
  "forget p live = filter (\<lambda>r. fst r \<noteq> p) live"

lemma apart_sym: "apart r q \<Longrightarrow> apart q r"
  by (auto simp: apart_def)

lemma covered_forget: "covered (forget p live) a \<Longrightarrow> covered live a"
  by (auto simp: covered_def forget_def)

lemma covered_Cons: "covered (r # live) a \<longleftrightarrow> covers r a \<or> covered live a"
  by (simp add: covered_def)

lemma outside_span:
  assumes "unat (q :: usize) + k \<le> 2 ^ 47" "unat a < unat q \<or> unat q + k \<le> unat a"
  shows "k \<le> unat (a - q)"
proof (cases "unat q \<le> unat a")
  case True
  then show ?thesis using assms unat_sub [of q a] by (simp add: word_le_nat_alt)
next
  case False
  then have "unat (a - q) = 2 ^ 64 + unat a - unat q" by (simp add: unat_sub_if' word_le_nat_alt)
  then show ?thesis using assms by simp
qed

section \<open>The specification\<close>

text \<open>What a call or an access of the program does to its allocations: it gets one, gives one back, has one moved
  to another address or size, or stores a byte.\<close>

datatype action = Got usize nat | Gone usize | Moved usize usize nat | Store usize u8

definition stores :: "usize \<Rightarrow> u8 list \<Rightarrow> action list" where
  "stores p vs = map (\<lambda>i. Store (p + of_nat i) (vs ! i)) [0..<length vs]"

text \<open>The live allocations, and the bytes that the program has stored in them; the other bytes of an
  allocation are unknown.\<close>

type_synonym spec_heap = "allocation list \<times> (usize \<rightharpoonup> u8)"

text \<open>The place for a new allocation: not null, in the user half of the address space, and apart from all that is live.\<close>

definition room :: "usize \<Rightarrow> nat \<Rightarrow> allocation list \<Rightarrow> bool" where
  "room p n live \<longleftrightarrow> p \<noteq> 0 \<and> p \<notin> fst ` set live \<and> (\<forall>r \<in> set live. apart (p, n) r) \<and> unat p + n \<le> 2 ^ 47"

text \<open>Each action has at most one outcome; an action that no heap may perform has none. A moved allocation keeps
  the bytes up to the smaller of its two sizes.\<close>

fun spec_do :: "action \<Rightarrow> spec_heap \<Rightarrow> spec_heap option" where
  "spec_do (Got p n) (live, c) = (if room p n live then Some ((p, n) # live, c) else None)"
| "spec_do (Gone p) (live, c) =
    (if p \<in> fst ` set live then Some (forget p live, c |` {a. covered (forget p live) a}) else None)"
| "spec_do (Moved p q n) (live, c) = (case map_of live p of None \<Rightarrow> None | Some n0 \<Rightarrow>
     if room q n (forget p live)
     then Some ((q, n) # forget p live,
       \<lambda>a. if covered (forget p live) a then c a else if unat (a - q) < min n0 n then c (p + (a - q)) else None)
     else None)"
| "spec_do (Store a v) (live, c) = (if covered live a then Some (live, c(a \<mapsto> v)) else None)"

fun run_all :: "('l \<Rightarrow> 'a \<Rightarrow> 'a option) \<Rightarrow> 'l list \<Rightarrow> 'a \<Rightarrow> 'a option" where
  "run_all f [] a = Some a"
| "run_all f (l # ls) a = (case f l a of None \<Rightarrow> None | Some b \<Rightarrow> run_all f ls b)"

lemma run_all_append: "run_all f (ls @ ls') a = (case run_all f ls a of None \<Rightarrow> None | Some b \<Rightarrow> run_all f ls' b)"
  by (induction ls arbitrary: a) (simp_all split: option.splits)

text \<open>What holds of every state of the specification.\<close>

definition spec_ok :: "spec_heap \<Rightarrow> bool" where
  "spec_ok h \<longleftrightarrow> distinct (map fst (fst h)) \<and> (\<forall>r \<in> set (fst h). \<forall>q \<in> set (fst h). r \<noteq> q \<longrightarrow> apart r q) \<and>
     (\<forall>r \<in> set (fst h). fst r \<noteq> 0 \<and> unat (fst r) + snd r \<le> 2 ^ 47) \<and> dom (snd h) \<subseteq> {a. covered (fst h) a}"

lemma spec_ok_empty: "spec_ok ([], Map.empty)"
  by (simp add: spec_ok_def)

lemma spec_ok_contents: "spec_ok (live, c) \<Longrightarrow> dom c' \<subseteq> {a. covered live a} \<Longrightarrow> spec_ok (live, c')"
  by (simp add: spec_ok_def)

lemma spec_ok_dom: "spec_ok (live, c) \<Longrightarrow> c a = Some v \<Longrightarrow> covered live a"
  by (auto simp: spec_ok_def)

lemma spec_ok_forget: "spec_ok (live, c) \<Longrightarrow> spec_ok (forget p live, c |` {a. covered (forget p live) a})"
  by (auto simp: spec_ok_def forget_def distinct_map_filter)

lemma spec_ok_Cons:
  assumes "spec_ok (live, c)" "room p n live" "dom c' \<subseteq> {a. covered ((p, n) # live) a}"
  shows "spec_ok ((p, n) # live, c')"
  using assms apart_sym by (fastforce simp: spec_ok_def room_def)

lemma in_room: "unat q + n \<le> 2 ^ 47 \<Longrightarrow> unat (a - q) < n \<Longrightarrow> covers (q, n) a"
  using outside_span [of q n a] by (force simp: covers_def)

lemma spec_do_ok:
  assumes "spec_do act h = Some h'" "spec_ok h" shows "spec_ok h'"
  using assms
proof (induction act h rule: spec_do.induct)
  case (1 p n live c)
  then show ?case by (auto split: if_splits intro!: spec_ok_Cons) (auto simp: spec_ok_def covered_Cons)
next
  case (2 p live c)
  then show ?case using spec_ok_forget by (auto split: if_splits)
next
  case (3 p q n live c)
  then obtain n0 where r: "room q n (forget p live)" and h': "h' = ((q, n) # forget p live,
      \<lambda>a. if covered (forget p live) a then c a else if unat (a - q) < min n0 n then c (p + (a - q)) else None)"
    by (auto split: option.splits if_splits)
  have "covers (q, n) a" if "unat (a - q) < n" for a using r that by (intro in_room) (simp_all add: room_def)
  then show ?case
    unfolding h' by (intro spec_ok_Cons [OF spec_ok_forget [OF 3(2)] r]) (auto simp: covered_Cons split: if_splits)
next
  case (4 a v live c)
  then show ?case using spec_ok_dom [OF 4(2)] by (auto split: if_splits intro!: spec_ok_contents [OF 4(2)])
qed

section \<open>The bytes in memory\<close>

definition in_memory :: "memory \<Rightarrow> (usize \<rightharpoonup> u8) \<Rightarrow> bool" where
  "in_memory m c \<longleftrightarrow> (\<forall>a v. c a = Some v \<longrightarrow> m a = v)"

text \<open>The actions lead from one list of allocations in memory to another: whatever was known before, the
  specification performs them, and what it knows afterwards is in memory.\<close>

definition effect :: "action list \<Rightarrow> allocation list \<Rightarrow> memory \<Rightarrow> allocation list \<Rightarrow> memory \<Rightarrow> bool" where
  "effect acts live m live' m' \<longleftrightarrow> (\<forall>c. spec_ok (live, c) \<longrightarrow> in_memory m c \<longrightarrow>
     (\<exists>c'. run_all spec_do acts (live, c) = Some (live', c') \<and> spec_ok (live', c') \<and> in_memory m' c'))"

lemma effect_append:
  assumes "effect acts live m live1 m1" "effect acts' live1 m1 live' m'" shows "effect (acts @ acts') live m live' m'"
  using assms unfolding effect_def run_all_append by fastforce

lemma effect_single:
  assumes "\<And>c. spec_ok (live, c) \<Longrightarrow> in_memory m c \<Longrightarrow> \<exists>c'. spec_do act (live, c) = Some (live', c') \<and> in_memory m' c'"
  shows "effect [act] live m live' m'"
  unfolding effect_def
proof (intro allI impI)
  fix c assume c: "spec_ok (live, c)" "in_memory m c"
  from assms [OF this] obtain c' where c': "spec_do act (live, c) = Some (live', c')" "in_memory m' c'" by blast
  then show "\<exists>c'. run_all spec_do [act] (live, c) = Some (live', c') \<and> spec_ok (live', c') \<and> in_memory m' c'"
    using spec_do_ok [OF c'(1) c(1)] by simp
qed

lemma in_memory_kept:
  assumes "in_memory m c" "spec_ok (live, c)" "\<And>a. covered live a \<Longrightarrow> m' a = m a" shows "in_memory m' c"
  using assms spec_ok_dom by (auto simp: in_memory_def)

lemma effect_none: "(\<And>a. covered live a \<Longrightarrow> m' a = m a) \<Longrightarrow> effect [] live m live m'"
  using in_memory_kept by (auto simp: effect_def)

lemma effect_got:
  assumes "room p n live" "\<And>a. covered live a \<Longrightarrow> m' a = m a" shows "effect [Got p n] live m ((p, n) # live) m'"
  using assms in_memory_kept by (intro effect_single) auto

lemma effect_gone:
  assumes "p \<in> fst ` set live" "\<And>a. covered (forget p live) a \<Longrightarrow> m' a = m a" shows "effect [Gone p] live m (forget p live) m'"
  using assms by (intro effect_single) (auto simp: in_memory_def restrict_map_def)

lemma effect_moved:
  assumes "(p, n0) \<in> set live" "room q n (forget p live)" "\<And>a. covered (forget p live) a \<Longrightarrow> m' a = m a"
    and "\<And>i. i < min n0 n \<Longrightarrow> m' (q + of_nat i) = m (p + of_nat i)"
  shows "effect [Moved p q n] live m ((q, n) # forget p live) m'"
proof (rule effect_single)
  fix c assume c: "spec_ok (live, c)" "in_memory m c"
  have "map_of live p = Some n0" using c(1) assms(1) by (simp add: spec_ok_def)
  moreover have "m' a = v" if "unat (a - q) < min n0 n" "c (p + (a - q)) = Some v" for a v
    using assms(4) [OF that(1)] that(2) c(2) by (simp add: in_memory_def)
  ultimately show "\<exists>c'. spec_do (Moved p q n) (live, c) = Some ((q, n) # forget p live, c') \<and> in_memory m' c'"
    using assms(2,3) c(2) by (auto simp: in_memory_def)
qed

lemma run_stores:
  assumes "\<And>i. i < length vs \<Longrightarrow> covered live (p + of_nat i)"
  shows "\<exists>c'. run_all spec_do (stores p vs) (live, c) = Some (live, c') \<and>
    (\<forall>a v. c' a = Some v \<longrightarrow> (\<exists>i < length vs. a = p + of_nat i \<and> v = vs ! i) \<or> c a = Some v \<and> (\<forall>i < length vs. a \<noteq> p + of_nat i))"
proof -
  have "k \<le> length vs \<Longrightarrow> \<exists>c'. run_all spec_do (map (\<lambda>i. Store (p + of_nat i) (vs ! i)) [0..<k]) (live, c) = Some (live, c') \<and>
    (\<forall>a v. c' a = Some v \<longrightarrow> (\<exists>i < k. a = p + of_nat i \<and> v = vs ! i) \<or> c a = Some v \<and> (\<forall>i < k. a \<noteq> p + of_nat i))" for k
  proof (induction k)
    case (Suc k)
    then obtain c' where c': "run_all spec_do (map (\<lambda>i. Store (p + of_nat i) (vs ! i)) [0..<k]) (live, c) = Some (live, c')"
      "\<forall>a v. c' a = Some v \<longrightarrow> (\<exists>i < k. a = p + of_nat i \<and> v = vs ! i) \<or> c a = Some v \<and> (\<forall>i < k. a \<noteq> p + of_nat i)" by auto
    have "run_all spec_do (map (\<lambda>i. Store (p + of_nat i) (vs ! i)) [0..<Suc k]) (live, c) = Some (live, c'(p + of_nat k \<mapsto> vs ! k))"
      using c'(1) assms Suc.prems by (simp add: run_all_append)
    then show ?case using c'(2) by (auto simp: less_Suc_eq split: if_splits)
  qed simp
  then show ?thesis by (simp add: stores_def)
qed

lemma effect_stores:
  assumes "\<And>i. i < length vs \<Longrightarrow> covered live (p + of_nat i)" "\<And>i. i < length vs \<Longrightarrow> m' (p + of_nat i) = vs ! i"
    and "\<And>a. covered live a \<Longrightarrow> (\<And>i. i < length vs \<Longrightarrow> a \<noteq> p + of_nat i) \<Longrightarrow> m' a = m a"
  shows "effect (stores p vs) live m live m'"
  unfolding effect_def
proof (intro allI impI)
  fix c assume c: "spec_ok (live, c)" "in_memory m c"
  obtain c' where r: "run_all spec_do (stores p vs) (live, c) = Some (live, c')"
    "\<And>a v. c' a = Some v \<Longrightarrow> (\<exists>i < length vs. a = p + of_nat i \<and> v = vs ! i) \<or> c a = Some v \<and> (\<forall>i < length vs. a \<noteq> p + of_nat i)"
    using run_stores [OF assms(1), where c = c] by blast
  have old: "covered live a" "m a = v" if "c a = Some v" for a v using that c spec_ok_dom by (auto simp: in_memory_def)
  have "in_memory m' c'" unfolding in_memory_def
  proof (intro allI impI)
    fix a v assume "c' a = Some v"
    from r(2) [OF this] show "m' a = v" using assms(2,3) old by auto
  qed
  moreover have "dom c' \<subseteq> {a. covered live a}" using r(2) assms(1) old(1) by blast
  ultimately show "\<exists>c'. run_all spec_do (stores p vs) (live, c) = Some (live, c') \<and> spec_ok (live, c') \<and> in_memory m' c'"
    using r(1) spec_ok_contents [OF c(1)] by blast
qed

section \<open>Refinement\<close>

text \<open>A run of labelled steps, with the actions of all its steps in order.\<close>

inductive traces :: "('l list \<Rightarrow> 'c \<Rightarrow> 'c \<Rightarrow> bool) \<Rightarrow> 'l list \<Rightarrow> 'c \<Rightarrow> 'c \<Rightarrow> bool" for step where
  trace_nil: "traces step [] c c"
| trace_step: "traces step ls c c' \<Longrightarrow> step ls' c' c'' \<Longrightarrow> traces step (ls @ ls') c c''"

lemma trace_one: "step ls c c' \<Longrightarrow> traces step ls c c'"
  using trace_step [OF trace_nil] by fastforce

locale simulation =
  fixes step :: "'l list \<Rightarrow> 'c \<Rightarrow> 'c \<Rightarrow> bool"
    and spec :: "'l \<Rightarrow> 'a \<Rightarrow> 'a option"
    and rel :: "'c \<Rightarrow> 'a \<Rightarrow> bool"
  assumes sim: "rel c a \<Longrightarrow> step ls c c' \<Longrightarrow> \<exists>a'. run_all spec ls a = Some a' \<and> rel c' a'"
begin

lemma run: "traces step ls c c' \<Longrightarrow> rel c a \<Longrightarrow> \<exists>a'. run_all spec ls a = Some a' \<and> rel c' a'"
proof (induction rule: traces.induct)
  case (trace_step ls c c' ls' c'')
  obtain b where b: "run_all spec ls a = Some b" "rel c' b" using trace_step by blast
  obtain b' where "run_all spec ls' b = Some b'" "rel c'' b'" using sim [OF b(2) trace_step.hyps(2)] by blast
  then show ?case using b(1) by (simp add: run_all_append)
qed simp

end

end
