(* ===== verification/Ownership_Realloc.thy ===== *)
theory Ownership_Realloc
  imports Ownership_Aligned Realloc Heap_Spec
begin

text \<open>
  \<^verbatim>\<open>do_realloc\<close> keeps the ownership invariant as long as it does not move an allocation to a smaller size
  class: it is then an allocation, a write inside that allocation and a free, or the block stays where it
  is. (A move to a smaller class writes past the end of the new block.)
\<close>

section \<open>What the invariant says of the allocations\<close>

lemma heap_ok_live:
  assumes "heap_ok h target s bs live"
  shows "distinct (map fst live)" "r \<in> set live \<Longrightarrow> q \<in> set live \<Longrightarrow> r \<noteq> q \<Longrightarrow> apart r q"
    "r \<in> set live \<Longrightarrow> \<exists>m \<in> set (os_maps s). unat (fst m) \<le> unat (fst r) \<and> unat (fst r) + max 1 (snd r) \<le> unat (fst m) + map_span (snd m)"
    "r \<in> set live \<Longrightarrow> fst r \<noteq> 0 \<and> unat (fst r) + snd r \<le> 2 ^ 47"
proof -
  obtain P fs own where o: "base_ok h target s" "descs_ok h s P fs" "blocks_ok s bs live own" using assms by (auto simp: heap_ok_def)
  note all = descs_ok_used [OF o(1,2)] and l = blocks_okD(5) [OF o(3)]
  show d: "distinct (map fst live)" by (rule blocks_okD(4) [OF o(3)])
  show "apart r q" if "r \<in> set live" "q \<in> set live" "r \<noteq> q"
  proof -
    have "fst r \<noteq> fst q" using d that by (auto simp: distinct_map inj_on_def)
    then show ?thesis using live_apart [OF all l [OF that(1)] l [OF that(2)]] by (simp add: apart_def)
  qed
  show m: "\<exists>m \<in> set (os_maps s). unat (fst m) \<le> unat (fst r) \<and> unat (fst r) + max 1 (snd r) \<le> unat (fst m) + map_span (snd m)"
    if "r \<in> set live" for r by (rule live_mapped [OF all l [OF that]])
  assume "r \<in> set live"
  then obtain m where m': "m \<in> set (os_maps s)" "unat (fst m) \<le> unat (fst r)" "unat (fst r) + max 1 (snd r) \<le> unat (fst m) + map_span (snd m)"
    using m by blast
  have "maps_ok (os_maps s)" using o(1) by (simp add: base_ok_def pages_ok_def)
  then have "valid_map m" using m'(1) by (rule maps_ok_valid)
  then have "fst m \<noteq> 0" "unat (fst m) + map_span (snd m) \<le> 2 ^ 47" by (auto simp: valid_map_def)
  moreover have "unat (fst m) \<noteq> 0" using calculation(1) by (simp add: unat_eq_zero)
  ultimately show "fst r \<noteq> 0 \<and> unat (fst r) + snd r \<le> 2 ^ 47" using m'(2,3) by auto
qed

section \<open>The size of a live allocation\<close>

lemma live_size:
  assumes o: "base_ok h target s" "descs_ok h s P fs" and r: "live_ok s own (p, n)"
  shows "\<exists>m. get_allocation_size p s = Inr (Some m) \<and> n \<le> m \<and> (\<forall>n' \<le> m. live_ok s own (p, n')) \<and>
    (\<forall>n'. get_size_class (sc_lookup s) m \<noteq> 0 \<longrightarrow> get_size_class (sc_lookup s) n' = get_size_class (sc_lookup s) m \<longrightarrow> n' \<le> m)"
proof -
  note all = descs_ok_used [OF o]
  have found: "get_allocation_size p s = Inr (Some (block_size (descs s d)))" if "get_page_info p s = Inr d" "super_block (descs s d) = Some seg" for d seg
  proof -
    have "d \<noteq> 0" using descs_okD(1) [OF o(2) that(2)] by (auto simp: used_ok_def desc_kept_def desc_addr_def)
    then show ?thesis using that(1) by (simp add: get_allocation_size_def get_page_info_for_ptr_def info_get_desc_def)
  qed
  consider i where "class_block s i p" "own p = Client" "n \<le> class_size s i"
    | d seg where "large_sb s d seg" "seg_ptr seg = p" "n \<le> block_size (descs s d)" using r by (auto simp: live_ok_def)
  then show ?thesis
  proof cases
    case 1
    obtain d seg where d: "small_sb s d i seg" "get_page_info p s = Inr d" using class_blockD(5) [OF all 1(1)] by blast
    have "n' \<le> class_size s i" if "get_size_class (sc_lookup s) n' = i" "i \<noteq> 0" for n'
    proof (cases "n' \<le> MAX_SZ")
      case True
      then show ?thesis using o(1) that by (auto simp: base_ok_def tables_ok_def)
    qed (use that in \<open>auto simp: get_size_class_def\<close>)
    then show ?thesis
      using found [OF d(2) small_sb_block [OF d(1)]] d(1) 1 class_facts(4) [OF o(1) class_blockD(1) [OF all 1(1)]]
      by (intro exI [of _ "class_size s i"]) (auto simp: small_sb_def live_ok_def)
  next
    case 2
    then have "get_allocation_size p s = Inr (Some (block_size (descs s d)))" "MAX_SZ < block_size (descs s d)"
      using found [OF _ large_sb_block [OF 2(1)]] by (auto simp: large_sb_def)
    then show ?thesis using 2 by (intro exI [of _ "block_size (descs s d)"]) (auto simp: live_ok_def get_size_class_def)
  qed
qed

lemma heap_ok_size:
  assumes "heap_ok h target s bs live" "r \<in> set live"
  shows "\<exists>k. get_allocation_size (fst r) s = Inr (Some k) \<and> snd r \<le> k"
proof -
  obtain P fs own where o: "base_ok h target s" "descs_ok h s P fs" "blocks_ok s bs live own" using assms(1) by (auto simp: heap_ok_def)
  show ?thesis using live_size [OF o(1,2), of own "fst r" "snd r"] blocks_okD(5) [OF o(3) assms(2)] by auto
qed

lemma heap_ok_resize:
  assumes ok: "heap_ok h target s bs live" and p: "(p, n) \<in> set live" "get_allocation_size p s = Inr (Some m)" "n' \<le> m"
  shows "heap_ok h target s bs ((p, n') # filter (\<lambda>r. fst r \<noteq> p) live)"
proof -
  obtain P fs own where o: "base_ok h target s" "descs_ok h s P fs" "blocks_ok s bs live own" using ok by (auto simp: heap_ok_def)
  have "live_ok s own (p, n')" using live_size [OF o(1,2) blocks_okD(5) [OF o(3) p(1)]] p(2,3) by auto
  then have "blocks_ok s bs ((p, n') # filter (\<lambda>r. fst r \<noteq> p) live) own"
    using o(3) by (auto simp: blocks_ok_def distinct_map_filter)
  then show ?thesis by (rule heap_okI [OF o(1,2)])
qed

lemma heap_ok_write:
  assumes ok: "heap_ok h target s bs live" and p: "(p, n) \<in> set live" "\<And>a. unat a < unat p \<or> unat p + n \<le> unat a \<Longrightarrow> m a = mem s a"
  shows "heap_ok h target (s\<lparr>mem := m\<rparr>) bs live"
proof -
  obtain P fs own where o: "base_ok h target s" "descs_ok h s P fs" "blocks_ok s bs live own" using ok by (auto simp: heap_ok_def)
  show ?thesis using client_write [OF descs_ok_used [OF o(1,2)] o(3) p(1), of m] p(2) o(1,2) heap_okI [of h target "s\<lparr>mem := m\<rparr>" P fs] by simp
qed

text \<open>Writes to memory that is not mapped by the allocator, and a thread that starts anew.\<close>

lemma heap_ok_elsewhere:
  assumes ok: "heap_ok h target s bs live" and m: "mem_kept s (s\<lparr>mem := m\<rparr>)"
  shows "heap_ok h target (s\<lparr>mem := m\<rparr>) bs live"
proof -
  obtain P fs own where o: "base_ok h target s" "descs_ok h s P fs" "blocks_ok s bs live own" using ok by (auto simp: heap_ok_def)
  have "same_cells s (s\<lparr>mem := m\<rparr>) own" using mem_kept_load [OF descs_ok_used [OF o(1,2)] m] by (simp add: same_cells_def)
  then have "blocks_ok (s\<lparr>mem := m\<rparr>) bs live own" by (intro blocks_ok_same [OF o(3)]) simp_all
  then show ?thesis using o(1,2) heap_okI [of h target "s\<lparr>mem := m\<rparr>" P fs] by simp
qed

lemma heap_ok_end:
  assumes "heap_ok h target s (\<lambda>k. bins (ts k)) live"
  shows "heap_ok h target s (\<lambda>k. bins ((ts(j := thread_new)) k)) live"
proof -
  obtain P fs own where o: "base_ok h target s" "descs_ok h s P fs" "blocks_ok s (\<lambda>k. bins (ts k)) live own" using assms by (auto simp: heap_ok_def)
  have "bin_ok s own j i (bins thread_new ! i)" if "class_ix i" for i
    using that by (simp add: bin_ok_def bin_list_def thread_new_def bin_new_def class_ix_def)
  then have "blocks_ok s (\<lambda>k. bins ((ts(j := thread_new)) k)) live own"
    using o(3) by (simp add: blocks_ok_def thread_new_def)
  then show ?thesis by (rule heap_okI [OF o(1,2)])
qed

section \<open>Reallocation\<close>

text \<open>An allocation with room for \<open>m\<close> bytes is not moved to a smaller class.\<close>

definition not_shrunk :: "nat \<Rightarrow> usize \<Rightarrow> 's map_state_scheme \<Rightarrow> bool" where
  "not_shrunk m sz s \<longleftrightarrow> m \<le> unat sz \<or> get_size_class (sc_lookup s) m = get_size_class (sc_lookup s) (unat sz)"

text \<open>The outcome of a granted call: the invariant with the new allocation in place of the old one, its bytes up to
  the smaller of the two sizes, and the bytes of all other allocations.\<close>

definition realloc_result ::
  "config \<Rightarrow> usize \<Rightarrow> nat \<Rightarrow> usize \<Rightarrow> 's malloc_state_scheme \<Rightarrow> (nat \<Rightarrow> thread) \<Rightarrow> nat \<Rightarrow> (usize \<times> nat) list \<Rightarrow> usize \<Rightarrow> 's malloc_state_scheme \<Rightarrow> thread \<Rightarrow> bool" where
  "realloc_result cfg p n sz s ts j live q s' t' \<longleftrightarrow> plain cfg s' \<and> bins_sized (bins t') \<and>
     heap_ok (cfg_hash cfg) (cfg_target cfg) s' (\<lambda>k. bins ((ts(j := t')) k)) ((q, unat sz) # forget p live) \<and>
     data_kept s s' (forget p live) \<and> (\<forall>i < min n (unat sz). mem s' (q + of_nat i) = mem s (p + of_nat i))"

lemma unat_plus_of_nat: "unat (x :: usize) + i \<le> 2 ^ 47 \<Longrightarrow> unat (x + of_nat i) = unat x + i"
  by (subst unat_add_no_overflow) (simp_all add: unat_of_nat)

lemma memcpy_covers:
  assumes "unat q + k \<le> 2 ^ 47" "m \<le> k" "unat a < unat q \<or> unat q + k \<le> unat a"
  shows "memcpy q p m f a = f a"
  using outside_span [OF assms(1,3)] assms(2) by (intro memcpy_outside) simp

text \<open>The second half of a move: the bytes are copied and the old allocation is freed.\<close>

lemma copy_and_free:
  fixes s :: "'s malloc_state_scheme"
  assumes env: "munmap_contract (cfg_os cfg)" and pl: "plain cfg s1" and sized: "bins_sized (bins t1)"
    and ok: "heap_ok (cfg_hash cfg) (cfg_target cfg) s1 (\<lambda>k. bins ((ts(j := t1)) k)) ((q, unat sz) # live)" and kept: "data_kept s s1 live"
    and p: "(p, n) \<in> set live" "n \<le> m" "m \<le> unat sz"
  shows "\<exists>s' t'. do_free cfg p (s1\<lparr>mem := memcpy q p m (mem s1)\<rparr>, t1) = Some (Inr (s', t')) \<and> q \<noteq> 0 \<and> q \<noteq> p \<and>
    realloc_result cfg p n sz s ts j live q s' t'"
proof -
  define s2 where "s2 = s1\<lparr>mem := memcpy q p m (mem s1)\<rparr>"
  have q: "q \<noteq> 0" "unat q + unat sz \<le> 2 ^ 47" "q \<noteq> p" "unat p + n \<le> 2 ^ 47"
    using heap_ok_live(4) [OF ok, of "(q, unat sz)"] heap_ok_live(4) [OF ok, of "(p, n)"] heap_ok_live(1) [OF ok] p(1) by force+
  have ok2: "heap_ok (cfg_hash cfg) (cfg_target cfg) s2 (\<lambda>k. bins ((ts(j := t1)) k)) ((q, unat sz) # live)" "plain cfg s2"
    using heap_ok_write [OF ok, of q "unat sz" "memcpy q p m (mem s1)"] memcpy_covers [OF q(2) p(3)] pl by (simp_all add: s2_def plain_def)
  have f: "filter (\<lambda>r. fst r \<noteq> p) ((q, unat sz) # live) = (q, unat sz) # forget p live" using q(3) by (simp add: forget_def)
  have "p \<in> fst ` set ((q, unat sz) # live)" using p(1) by force
  then obtain s' t' where free: "do_free cfg p (s2, t1) = Some (Inr (s', t'))" "plain cfg s'"
    "heap_ok (cfg_hash cfg) (cfg_target cfg) s' (\<lambda>k. bins ((ts(j := t')) k)) ((q, unat sz) # forget p live)"
    "data_kept s2 s' ((q, unat sz) # forget p live)"
    using do_free_owned [OF env ok2(2,1), of p j] unfolding f fun_upd_same fun_upd_upd by blast
  have in_q: "unat (q + of_nat i) = unat q + i" if "i < unat sz" for i
    using that q(2) by (intro unat_plus_of_nat) simp
  have "mem s' (q + of_nat i) = mem s (p + of_nat i)" if i: "i < n" "i < unat sz" for i
  proof -
    have "mem s' (q + of_nat i) = mem s2 (q + of_nat i)" using free(4) in_q [OF i(2)] i(2) by (simp add: data_kept_def)
    also have "\<dots> = mem s1 (p + of_nat i)" using i p(2,3) q(2) memcpy_inside [of i m q p "mem s1"] by (simp add: s2_def)
    also have "\<dots> = mem s (p + of_nat i)"
      using kept p(1) i(1) q(4) unat_plus_of_nat [of p i] by (fastforce simp: data_kept_def)
    finally show ?thesis .
  qed
  moreover have "data_kept s s' (forget p live)"
  proof -
    have "mem s2 a = mem s1 a" if "r \<in> set live" "unat (fst r) \<le> unat a" "unat a < unat (fst r) + snd r" for r a
    proof -
      have "(q, unat sz) \<noteq> r" using heap_ok_live(1) [OF ok] that(1) by force
      then have "apart (q, unat sz) r" using that(1) by (intro heap_ok_live(2) [OF ok]) auto
      then show ?thesis using that(2,3) memcpy_covers [OF q(2) p(3), of a] by (auto simp: apart_def s2_def)
    qed
    then show ?thesis using free(4) kept by (auto simp: data_kept_def forget_def)
  qed
  ultimately show ?thesis
    using free q(1,3) do_free_sized [OF ok2(2) sized free(1)] by (auto simp: realloc_result_def s2_def)
qed

lemma do_realloc_eq:
  assumes "p \<noteq> 0" "get_allocation_size p s = Inr (Some m)"
  shows "do_realloc cfg p sz (s, t) =
    (if get_size_class (sc_lookup s) m \<noteq> 0 \<and> get_size_class (sc_lookup s) m = get_size_class (sc_lookup s) (unat sz) \<or>
        get_size_class (sc_lookup s) m = 0 \<and> get_size_class (sc_lookup s) (unat sz) = 0 \<and> unat sz < m
     then Some (Inr (p, s, t)) else orbind (do_malloc cfg sz (s, t)) (\<lambda>(q, s, t).
        let s1 = (if q \<noteq> 0 \<and> q \<noteq> p then s\<lparr>mem := memcpy q p m (mem s)\<rparr> else s) in orbind (do_free cfg p (s1, t)) (\<lambda>y. Some (Inr (q, y)))))"
  unfolding do_realloc_def fst_conv assms(2) using assms(1) by (simp only: if_False orbind_simps option.case Let_def)

lemma do_realloc_owned:
  fixes s :: "'s malloc_state_scheme"
  assumes env: "mmap_contract (cfg_os cfg)" "munmap_contract (cfg_os cfg)" and pl: "plain cfg s" and sz: "unat sz \<le> 2 ^ 32 - PAGE"
    and ok: "heap_ok (cfg_hash cfg) (cfg_target cfg) s (\<lambda>k. bins (ts k)) live" and sized: "bins_sized (bins (ts j))"
    and p: "(p, n) \<in> set live" "get_allocation_size p s = Inr (Some m)" "not_shrunk m sz s"
  shows "(\<exists>q s' t'. do_realloc cfg p sz (s, ts j) = Some (Inr (q, s', t')) \<and> realloc_result cfg p n sz s ts j live q s' t') \<or>
    (\<exists>e. do_realloc cfg p sz (s, ts j) = Some (Inl e)) \<and> refused cfg sz s (ts j)"
proof -
  let ?c = "get_size_class (sc_lookup s)"
  obtain P fs own where o: "base_ok (cfg_hash cfg) (cfg_target cfg) s" "descs_ok (cfg_hash cfg) s P fs" "blocks_ok s (\<lambda>k. bins (ts k)) live own"
    using ok by (auto simp: heap_ok_def)
  have m: "n \<le> m" "?c m \<noteq> 0 \<Longrightarrow> ?c n' = ?c m \<Longrightarrow> n' \<le> m" for n'
    using live_size [OF o(1,2) blocks_okD(5) [OF o(3) p(1)]] unfolding p(2) sum.inject option.inject by blast+
  have "p \<noteq> 0" using heap_ok_live(4) [OF ok p(1)] by simp
  note r = do_realloc_eq [OF this p(2), of cfg sz "ts j"]
  show ?thesis
  proof (cases "?c m \<noteq> 0 \<and> ?c m = ?c (unat sz) \<or> ?c m = 0 \<and> ?c (unat sz) = 0 \<and> unat sz < m")
    case True
    then have "unat sz \<le> m" using m(2) [of "unat sz"] by linarith
    then have "realloc_result cfg p n sz s ts j live p s (ts j)"
      using heap_ok_resize [OF ok p(1,2)] pl sized by (simp add: realloc_result_def forget_def)
    moreover have "do_realloc cfg p sz (s, ts j) = Some (Inr (p, s, ts j))" unfolding r by (rule if_P [OF True])
    ultimately show ?thesis by blast
  next
    case False
    then have le: "m \<le> unat sz" using p(3) by (auto simp: not_shrunk_def)
    have moves: "do_realloc cfg p sz (s, ts j) = orbind (do_malloc cfg sz (s, ts j)) (\<lambda>(q, s, t).
        let s1 = (if q \<noteq> 0 \<and> q \<noteq> p then s\<lparr>mem := memcpy q p m (mem s)\<rparr> else s) in orbind (do_free cfg p (s1, t)) (\<lambda>y. Some (Inr (q, y))))"
      unfolding r by (rule if_not_P [OF False])
    from do_malloc_owned [OF env(1) pl sz ok, of j] show ?thesis
    proof (elim disjE exE conjE)
      fix q s1 t1 assume d: "do_malloc cfg sz (s, ts j) = Some (Inr (q, s1, t1))" "plain cfg s1"
        "heap_ok (cfg_hash cfg) (cfg_target cfg) s1 (\<lambda>k. bins ((ts(j := t1)) k)) ((q, unat sz) # live)" "data_kept s s1 live"
      obtain s' t' where f: "do_free cfg p (s1\<lparr>mem := memcpy q p m (mem s1)\<rparr>, t1) = Some (Inr (s', t'))" "q \<noteq> 0" "q \<noteq> p"
        "realloc_result cfg p n sz s ts j live q s' t'"
        using copy_and_free [OF env(2) d(2) do_malloc_sized [OF env(1) pl ok sized d(1)] d(3,4) p(1) m(1) le] by blast
      then have "do_realloc cfg p sz (s, ts j) = Some (Inr (q, s', t'))" by (simp add: moves d(1))
      then show ?thesis using f(4) by blast
    next
      fix e assume e: "do_malloc cfg sz (s, ts j) = Some (Inl e)" "refused cfg sz s (ts j)"
      then have "do_realloc cfg p sz (s, ts j) = Some (Inl e)" by (simp add: moves)
      then show ?thesis using e(2) by blast
    qed
  qed
qed

end
