(* ===== verification/Heap_Safety.thy ===== *)
theory Heap_Safety
  imports Ownership_Realloc
begin

text \<open>
  The whole allocator refines the specification of \<open>Heap_Spec\<close>. Any number of threads call \<^verbatim>\<open>do_malloc\<close>,
  \<^verbatim>\<open>do_aligned_alloc\<close> (with an alignment up to a page), \<^verbatim>\<open>do_realloc\<close> (not to a smaller class) and \<^verbatim>\<open>do_free\<close> (of any live
  allocation, also one of another thread), store bytes in their allocations and in memory that is none of the
  allocator's, and end; calls happen one after the other, and a call that panics ends the run. A step is labelled with the actions of
  the specification that it is to perform. The setting is that of \<open>plain\<close>: the feature \<^verbatim>\<open>no_met_stack\<close>, tuning
  off. The program frees only what is allocated and requests at most 4 GiB minus a page. The end of a thread runs
  nothing: its bins, an array of \<^verbatim>\<open>Copy\<close> values, go with it, and the blocks in them are in no bin from then on.
\<close>

section \<open>Runs of a program\<close>

type_synonym 's world = "'s malloc_state_scheme \<times> (nat \<Rightarrow> thread) \<times> allocation list"

text \<open>The null pointer is no allocation.\<close>

definition with_new :: "usize \<Rightarrow> nat \<Rightarrow> allocation list \<Rightarrow> allocation list" where
  "with_new p n live = (if p = 0 then live else (p, n) # live)"

definition got_new :: "usize \<Rightarrow> nat \<Rightarrow> action list" where
  "got_new p n = (if p = 0 then [] else [Got p n])"

text \<open>Memory that the allocator has not mapped: the stacks and the static data of the program.\<close>

definition unmapped :: "'s os_state_scheme \<Rightarrow> usize \<Rightarrow> bool" where
  "unmapped s a \<longleftrightarrow> (\<forall>r \<in> set (os_maps s). unat a < unat (fst r) \<or> unat (fst r) + map_span (snd r) \<le> unat a)"

inductive heap_step :: "config \<Rightarrow> action list \<Rightarrow> 's world \<Rightarrow> 's world \<Rightarrow> bool" for cfg where
  heap_malloc: "unat sz \<le> 2 ^ 32 - PAGE \<Longrightarrow> do_malloc cfg sz (s, ts j) = Some (Inr (p, s', t')) \<Longrightarrow>
    heap_step cfg [Got p (unat sz)] (s, ts, live) (s', ts(j := t'), (p, unat sz) # live)"
| heap_aligned: "k \<le> 12 \<Longrightarrow> unat sz \<le> 2 ^ 32 - 2 * PAGE \<Longrightarrow> do_aligned_alloc cfg (2 ^ k) sz (s, ts j) = Some (Inr (p, s', t')) \<Longrightarrow>
    heap_step cfg (got_new p (unat sz)) (s, ts, live) (s', ts(j := t'), with_new p (unat sz) live)"
| heap_free: "p \<in> fst ` set live \<Longrightarrow> do_free cfg p (s, ts j) = Some (Inr (s', t')) \<Longrightarrow>
    heap_step cfg [Gone p] (s, ts, live) (s', ts(j := t'), forget p live)"
| heap_realloc: "(p, n) \<in> set live \<Longrightarrow> unat sz \<le> 2 ^ 32 - PAGE \<Longrightarrow> get_allocation_size p s = Inr (Some m) \<Longrightarrow> not_shrunk m sz s \<Longrightarrow>
    do_realloc cfg p sz (s, ts j) = Some (Inr (q, s', t')) \<Longrightarrow>
    heap_step cfg [Moved p q (unat sz)] (s, ts, live) (s', ts(j := t'), (q, unat sz) # forget p live)"
| heap_write: "covered live a \<Longrightarrow> heap_step cfg [Store a v] (s, ts, live) (s\<lparr>mem := (mem s)(a := v)\<rparr>, ts, live)"
| heap_elsewhere: "unmapped s a \<Longrightarrow> heap_step cfg [] (s, ts, live) (s\<lparr>mem := (mem s)(a := v)\<rparr>, ts, live)"
| heap_end: "heap_step cfg [] (s, ts, live) (s, ts(j := thread_new), live)"

inductive_cases heap_stepE: "heap_step cfg acts (s, ts, live) w'"

definition world_ok :: "config \<Rightarrow> 's world \<Rightarrow> bool" where
  "world_ok cfg w = (case w of (s, ts, live) \<Rightarrow> plain cfg s \<and> heap_ok (cfg_hash cfg) (cfg_target cfg) s (\<lambda>k. bins (ts k)) live \<and>
     (\<forall>j. bins_sized (bins (ts j))))"

definition kernel_ok :: "config \<Rightarrow> bool" where
  "kernel_ok cfg \<longleftrightarrow> mmap_contract (cfg_os cfg) \<and> munmap_contract (cfg_os cfg)"

lemma data_kept_covered: "data_kept s s' live \<Longrightarrow> covered live a \<Longrightarrow> mem s' a = mem s a"
  by (auto simp: data_kept_def covered_def covers_def)

section \<open>Refinement\<close>

text \<open>The states of the program are in order before and after, and the actions lead from one to the other.\<close>

definition performs :: "config \<Rightarrow> action list \<Rightarrow> 's world \<Rightarrow> 's world \<Rightarrow> bool" where
  "performs cfg acts w w' \<longleftrightarrow> world_ok cfg w' \<and> effect acts (snd (snd w)) (mem (fst w)) (snd (snd w')) (mem (fst w'))"

definition heap_rel :: "config \<Rightarrow> 's world \<Rightarrow> spec_heap \<Rightarrow> bool" where
  "heap_rel cfg w h \<longleftrightarrow> kernel_ok cfg \<and> world_ok cfg w \<and> fst h = snd (snd w) \<and> spec_ok h \<and> in_memory (mem (fst w)) (snd h)"

lemma performs_rel:
  assumes "performs cfg acts w w'" "heap_rel cfg w h" shows "\<exists>h'. run_all spec_do acts h = Some h' \<and> heap_rel cfg w' h'"
proof -
  obtain live c where h: "h = (live, c)" by (cases h)
  then obtain c' where "run_all spec_do acts h = Some (snd (snd w'), c')" "spec_ok (snd (snd w'), c')" "in_memory (mem (fst w')) c'"
    using assms unfolding performs_def heap_rel_def effect_def by auto
  then show ?thesis using assms by (auto simp: performs_def heap_rel_def)
qed

lemma performs_append: "performs cfg acts w w1 \<Longrightarrow> performs cfg acts' w1 w' \<Longrightarrow> performs cfg (acts @ acts') w w'"
  using effect_append by (auto simp: performs_def)

lemma performs_none: "world_ok cfg (s', ts', live) \<Longrightarrow> mem s' = mem s \<Longrightarrow> performs cfg [] (s, ts, live) (s', ts', live)"
  using effect_none by (auto simp: performs_def)

lemma world_okD:
  assumes "world_ok cfg (s, ts, live)"
  shows "plain cfg s" "heap_ok (cfg_hash cfg) (cfg_target cfg) s (\<lambda>k. bins (ts k)) live" "bins_sized (bins (ts j))"
  using assms by (simp_all add: world_ok_def)

lemma world_okI:
  assumes "plain cfg s'" "heap_ok (cfg_hash cfg) (cfg_target cfg) s' (\<lambda>k. bins ((ts(j := t')) k)) live'" "bins_sized (bins t')" "world_ok cfg (s, ts, live)"
  shows "world_ok cfg (s', ts(j := t'), live')"
  using assms by (auto simp: world_ok_def)

lemma new_live:
  assumes "heap_ok h target s bs ((p, n) # live)"
  shows "p \<noteq> 0" "p \<notin> fst ` set live" "r \<in> set live \<Longrightarrow> apart (p, n) r" "unat p + n \<le> 2 ^ 47" "room p n live"
proof -
  note l = heap_ok_live [OF assms]
  show "p \<noteq> 0" "unat p + n \<le> 2 ^ 47" using l(4) [of "(p, n)"] by auto
  show "p \<notin> fst ` set live" using l(1) by auto
  then show a: "apart (p, n) r" if "r \<in> set live" for r using that l(2) [of "(p, n)" r] by force
  then show "room p n live" using \<open>p \<noteq> 0\<close> \<open>unat p + n \<le> 2 ^ 47\<close> \<open>p \<notin> fst ` set live\<close> by (simp add: room_def)
qed

lemma grant_sim:
  assumes w: "world_ok cfg (s, ts, live)" and ok: "plain cfg s'" "heap_ok (cfg_hash cfg) (cfg_target cfg) s' (\<lambda>k. bins ((ts(j := t')) k)) ((p, n) # live)"
    "data_kept s s' live" "bins_sized (bins t')"
  shows "performs cfg [Got p n] (s, ts, live) (s', ts(j := t'), (p, n) # live)"
  using world_okI [OF ok(1,2,4) w] effect_got [OF new_live(5) [OF ok(2)] data_kept_covered [OF ok(3)]] by (simp add: performs_def)

lemma malloc_sim:
  assumes env: "mmap_contract (cfg_os cfg)" and w: "world_ok cfg (s, ts, live)" and sz: "unat sz \<le> 2 ^ 32 - PAGE"
    and m: "do_malloc cfg sz (s, ts j) = Some (Inr (p, s', t'))"
  shows "performs cfg [Got p (unat sz)] (s, ts, live) (s', ts(j := t'), (p, unat sz) # live)"
proof -
  note ok = world_okD [OF w]
  have "plain cfg s'" "heap_ok (cfg_hash cfg) (cfg_target cfg) s' (\<lambda>k. bins ((ts(j := t')) k)) ((p, unat sz) # live)" "data_kept s s' live"
    using do_malloc_owned [OF env ok(1) sz ok(2), of j] m by auto
  then show ?thesis by (rule grant_sim [OF w _ _ _ do_malloc_sized [OF env ok(1,2,3) m]])
qed

lemma aligned_sim:
  assumes env: "mmap_contract (cfg_os cfg)" and w: "world_ok cfg (s, ts, live)" and k: "k \<le> 12" "unat sz \<le> 2 ^ 32 - 2 * PAGE"
    and m: "do_aligned_alloc cfg (2 ^ k) sz (s, ts j) = Some (Inr (p, s', t'))"
  shows "performs cfg (got_new p (unat sz)) (s, ts, live) (s', ts(j := t'), with_new p (unat sz) live)"
proof -
  note ok = world_okD [OF w]
  have "aligned_result cfg k sz s ts j live p s' t'" using do_aligned_alloc_owned [OF env ok(1) k ok(2,3), of j] m by auto
  then have r: "plain cfg s'" "data_kept s s' live" "bins_sized (bins t')"
    "heap_ok (cfg_hash cfg) (cfg_target cfg) s' (\<lambda>k. bins ((ts(j := t')) k)) (if p = 0 then live else (p, unat sz) # live)"
    by (simp_all add: aligned_result_def)
  show ?thesis
  proof (cases "p = 0")
    case True
    then show ?thesis
      using r world_okI [OF r(1) _ r(3) w] effect_none [OF data_kept_covered [OF r(2)]] by (simp add: performs_def got_new_def with_new_def)
  next
    case False
    then show ?thesis using grant_sim [OF w r(1) _ r(2,3), of j p "unat sz"] r(4) by (simp add: got_new_def with_new_def)
  qed
qed

lemma free_sim:
  assumes env: "munmap_contract (cfg_os cfg)" and w: "world_ok cfg (s, ts, live)" and p: "p \<in> fst ` set live"
    and f: "do_free cfg p (s, ts j) = Some (Inr (s', t'))"
  shows "performs cfg [Gone p] (s, ts, live) (s', ts(j := t'), forget p live)"
proof -
  note ok = world_okD [OF w]
  have ok': "plain cfg s'" "heap_ok (cfg_hash cfg) (cfg_target cfg) s' (\<lambda>k. bins ((ts(j := t')) k)) (forget p live)" "data_kept s s' (forget p live)"
    using do_free_owned [OF env ok(1,2) p, of j] f by (auto simp: forget_def)
  then show ?thesis
    using world_okI [OF ok'(1,2) do_free_sized [OF ok(1,3) f] w] effect_gone [OF p data_kept_covered [OF ok'(3)]] by (simp add: performs_def)
qed

lemma realloc_sim:
  assumes env: "mmap_contract (cfg_os cfg)" "munmap_contract (cfg_os cfg)" and w: "world_ok cfg (s, ts, live)"
    and p: "(p, n) \<in> set live" "unat sz \<le> 2 ^ 32 - PAGE" "get_allocation_size p s = Inr (Some m)" "not_shrunk m sz s"
    and d: "do_realloc cfg p sz (s, ts j) = Some (Inr (q, s', t'))"
  shows "performs cfg [Moved p q (unat sz)] (s, ts, live) (s', ts(j := t'), (q, unat sz) # forget p live)"
proof -
  note ok = world_okD [OF w]
  have "realloc_result cfg p n sz s ts j live q s' t'" using do_realloc_owned [OF env ok(1) p(2) ok(2,3) p(1,3,4), of j] d by auto
  then have r: "plain cfg s'" "bins_sized (bins t')" "data_kept s s' (forget p live)"
    "heap_ok (cfg_hash cfg) (cfg_target cfg) s' (\<lambda>k. bins ((ts(j := t')) k)) ((q, unat sz) # forget p live)"
    and bytes: "\<And>i. i < min n (unat sz) \<Longrightarrow> mem s' (q + of_nat i) = mem s (p + of_nat i)"
    by (simp_all add: realloc_result_def)
  then show ?thesis
    using world_okI [OF r(1,4,2) w] effect_moved [OF p(1) new_live(5) [OF r(4)] data_kept_covered [OF r(3)] bytes] by (simp add: performs_def)
qed

lemma covered_span:
  assumes "heap_ok h target s bs live" "covered live a"
  obtains p n where "(p, n) \<in> set live" "covers (p, n) a" "unat p + n \<le> 2 ^ 47"
  using assms heap_ok_live(4) [OF assms(1)] by (force simp: covered_def)

lemma world_ok_write:
  assumes w: "world_ok cfg (s, ts, live)" and r: "r \<in> set live" "\<And>a. \<not> covers r a \<Longrightarrow> m a = mem s a"
  shows "world_ok cfg (s\<lparr>mem := m\<rparr>, ts, live)"
proof -
  obtain p n where pn: "r = (p, n)" by (cases r)
  have "heap_ok (cfg_hash cfg) (cfg_target cfg) (s\<lparr>mem := m\<rparr>) (\<lambda>k. bins (ts k)) live"
    using r pn by (intro heap_ok_write [OF world_okD(2) [OF w], of p n]) (auto simp: covers_def)
  then show ?thesis using w by (simp add: world_ok_def plain_def)
qed

text \<open>Stores of consecutive bytes, all in one live allocation or none in the allocator's memory.\<close>

definition put_bytes :: "usize \<Rightarrow> u8 list \<Rightarrow> memory \<Rightarrow> memory" where
  "put_bytes p vs m = (\<lambda>a. if unat (a - p) < length vs then vs ! unat (a - p) else m a)"

lemma put_bytes_at: "i < length vs \<Longrightarrow> length vs \<le> 2 ^ 47 \<Longrightarrow> put_bytes p vs m (p + of_nat i) = vs ! i"
  by (simp add: put_bytes_def unat_of_nat)

lemma put_bytes_apart: "(\<And>i. i < length vs \<Longrightarrow> a \<noteq> p + of_nat i) \<Longrightarrow> put_bytes p vs m a = m a"
  by (auto simp: put_bytes_def dest!: meta_spec [of _ "unat (a - p)"])

lemma stores_sim:
  assumes w: "world_ok cfg (s, ts, live)" and r: "r \<in> set live" "unat (fst r) \<le> unat a" "unat a + length vs \<le> unat (fst r) + snd r"
  shows "performs cfg (stores a vs) (s, ts, live) (s\<lparr>mem := put_bytes a vs (mem s)\<rparr>, ts, live)"
proof -
  have b: "unat a + length vs \<le> 2 ^ 47" using heap_ok_live(4) [OF world_okD(2) [OF w] r(1)] r(3) by simp
  have inside: "covered live (a + of_nat i)" if "i < length vs" for i
    using that r b unat_plus_of_nat [of a i] by (auto simp: covered_def covers_def intro!: bexI [OF _ r(1)])
  have "world_ok cfg (s\<lparr>mem := put_bytes a vs (mem s)\<rparr>, ts, live)"
  proof (rule world_ok_write [OF w r(1)])
    fix x assume "\<not> covers r x"
    then have "length vs \<le> unat (x - a)" using r by (intro outside_span [OF b]) (auto simp: covers_def)
    then show "put_bytes a vs (mem s) x = mem s x" by (simp add: put_bytes_def)
  qed
  then show ?thesis
    using effect_stores [OF inside, of vs "put_bytes a vs (mem s)" "mem s"] put_bytes_at put_bytes_apart b by (simp add: performs_def)
qed

lemma write_sim:
  assumes w: "world_ok cfg (s, ts, live)" and a: "covered live a"
  shows "performs cfg [Store a v] (s, ts, live) (s\<lparr>mem := (mem s)(a := v)\<rparr>, ts, live)"
proof -
  obtain r where r: "r \<in> set live" "covers r a" using a by (auto simp: covered_def)
  have "put_bytes a [v] (mem s) = (mem s)(a := v)" by (auto simp: put_bytes_def fun_eq_iff unat_eq_zero)
  then show ?thesis using stores_sim [OF w r(1), of a "[v]"] r(2) by (simp add: stores_def covers_def)
qed

lemma elsewhere_sim:
  assumes w: "world_ok cfg (s, ts, live)" and m: "\<And>a. \<not> unmapped s a \<Longrightarrow> m a = mem s a"
  shows "performs cfg [] (s, ts, live) (s\<lparr>mem := m\<rparr>, ts, live)"
proof -
  note ok = world_okD [OF w]
  have "\<not> unmapped s a" if "r \<in> set (os_maps s)" "unat (fst r) \<le> unat a" "unat a < unat (fst r) + map_span (snd r)" for r a
    using that by (auto simp: unmapped_def intro!: bexI [OF _ that(1)])
  then have "mem_kept s (s\<lparr>mem := m\<rparr>)" unfolding mem_kept_def using m by simp
  then have "heap_ok (cfg_hash cfg) (cfg_target cfg) (s\<lparr>mem := m\<rparr>) (\<lambda>k. bins (ts k)) live" by (rule heap_ok_elsewhere [OF ok(2)])
  moreover have "m a = mem s a" if "covered live a" for a
  proof -
    obtain r where r: "r \<in> set live" "covers r a" using \<open>covered live a\<close> by (auto simp: covered_def)
    then show ?thesis using heap_ok_live(3) [OF ok(2) r(1)] by (intro m) (force simp: unmapped_def covers_def)
  qed
  ultimately show ?thesis using w effect_none [of live m "mem s"] by (simp add: performs_def world_ok_def plain_def)
qed

lemma end_sim:
  assumes w: "world_ok cfg (s, ts, live)" shows "performs cfg [] (s, ts, live) (s, ts(j := thread_new), live)"
proof -
  note ok = world_okD [OF w]
  have "heap_ok (cfg_hash cfg) (cfg_target cfg) s (\<lambda>k. bins ((ts(j := thread_new)) k)) live"
    using heap_ok_end [OF ok(2)] by simp
  then show ?thesis using world_okI [OF ok(1) _ bins_sized_new w] by (intro performs_none) simp_all
qed

lemma heap_step_ok:
  assumes k: "kernel_ok cfg" and w: "world_ok cfg w" and st: "heap_step cfg acts w w'"
  shows "performs cfg acts w w'"
proof -
  have env: "mmap_contract (cfg_os cfg)" "munmap_contract (cfg_os cfg)" using k by (simp_all add: kernel_ok_def)
  from st w show ?thesis
  proof (induction rule: heap_step.induct)
    case (heap_malloc sz s ts j p s' t' live)
    then show ?case by (intro malloc_sim [OF env(1)])
  next
    case (heap_aligned k sz s ts j p s' t' live)
    then show ?case by (intro aligned_sim [OF env(1)])
  next
    case (heap_free p live s ts j s' t')
    then show ?case by (intro free_sim [OF env(2)])
  next
    case (heap_realloc p n live sz s m ts j q s' t')
    then show ?case by (intro realloc_sim [OF env])
  next
    case (heap_write live a v s ts)
    then show ?case by (intro write_sim)
  next
    case (heap_elsewhere s a ts live v)
    then show ?case by (intro elsewhere_sim) auto
  next
    case (heap_end s ts live j)
    then show ?case by (rule end_sim)
  qed
qed

lemma heap_step_sim:
  assumes "heap_rel cfg w h" "heap_step cfg acts w w'" shows "\<exists>h'. run_all spec_do acts h = Some h' \<and> heap_rel cfg w' h'"
  using performs_rel [OF heap_step_ok [OF _ _ assms(2)] assms(1)] assms(1) by (simp add: heap_rel_def)

interpretation heap: simulation "heap_step cfg" spec_do "heap_rel cfg" for cfg
  by unfold_locales (rule heap_step_sim)

section \<open>Programs from their start\<close>

text \<open>The static data of the crate before its first use, with the kernel granting the initialisation.\<close>

definition starts :: "config \<Rightarrow> 's malloc_state_scheme \<Rightarrow> bool" where
  "starts cfg s \<longleftrightarrow> kernel_ok cfg \<and> fresh_malloc cfg s \<and> (\<forall>d. super_block (descs s d) = None) \<and> cfg_target cfg \<le> 250000 \<and>
     init_granted cfg s \<and> cfg_nm cfg \<and> \<not> cfg_panicking cfg \<and> \<not> (cfg_use_apf cfg \<and> use_apf s) \<and> \<not> use_boot s"

lemma start_ok:
  fixes s :: "'s malloc_state_scheme"
  assumes "starts cfg s" "init_once cfg s = Some (Inr s1)"
  shows "kernel_ok cfg" "world_ok cfg (s1, \<lambda>_. thread_new, [])"
proof -
  have st: "kernel_ok cfg" "fresh_malloc cfg s" "\<And>d. super_block (descs s d) = None" "cfg_target cfg \<le> 250000" "init_granted cfg s"
    "cfg_nm cfg" "\<not> cfg_panicking cfg" "\<not> (cfg_use_apf cfg \<and> use_apf s)" "\<not> use_boot s"
    using assms(1) by (auto simp: starts_def)
  show "kernel_ok cfg" by (rule st(1))
  have "mmap_contract (cfg_os cfg)" using st(1) by (simp add: kernel_ok_def)
  then have r: "malloc_ready cfg s1" "\<forall>i. 1 \<le> i \<and> i < MAX_SZ_IDX \<longrightarrow> partial_rep i s1 []" "free_list s1 []" "use_apf s1 = (cfg_use_apf cfg \<and> use_apf s)"
    "use_boot s1 = use_boot s" "descs s1 = descs s"
    using init_once_fresh [OF _ st(2,4,5)] assms(2) by auto
  have none: "super_block (descs s1 d) = None" for d using st(3) r(6) by simp
  then have no: "\<not> small_sb s1 d i seg" for d i seg by (simp add: small_sb_def)
  have "base_ok (cfg_hash cfg) (cfg_target cfg) s1" using r(1) by (simp add: base_ok_def malloc_ready_def alloc_ok_def class_ix_def)
  moreover have "descs_ok (cfg_hash cfg) s1 (\<lambda>_. []) []" using none no r(2,3) by (simp add: descs_ok_def class_ix_def)
  moreover have "blocks_ok s1 (\<lambda>k. bins thread_new) [] (\<lambda>_. Central)"
    using no by (simp add: blocks_ok_def bin_ok_def bin_list_def thread_new_def bin_new_def class_ix_def)
  ultimately have "heap_ok (cfg_hash cfg) (cfg_target cfg) s1 (\<lambda>k. bins thread_new) []" by (rule heap_okI)
  moreover have "plain cfg s1" using st(6-9) r(1,4,5) by (auto simp: plain_def malloc_ready_def)
  ultimately show "world_ok cfg (s1, \<lambda>_. thread_new, [])" using bins_sized_new by (simp add: world_ok_def)
qed

lemma run_ok:
  fixes s :: "'s malloc_state_scheme"
  assumes "starts cfg s" "init_once cfg s = Some (Inr s1)" "traces (heap_step cfg) acts (s1, \<lambda>_. thread_new, []) w"
  shows "kernel_ok cfg" "world_ok cfg w" "\<exists>h. run_all spec_do acts ([], Map.empty) = Some h \<and> heap_rel cfg w h"
proof -
  have "heap_rel cfg (s1, \<lambda>_. thread_new, []) ([], Map.empty)"
    using start_ok [OF assms(1,2)] spec_ok_empty by (simp add: heap_rel_def in_memory_def)
  from heap.run [OF assms(3) this]
  show "\<exists>h. run_all spec_do acts ([], Map.empty) = Some h \<and> heap_rel cfg w h" .
  then show "kernel_ok cfg" "world_ok cfg w" by (auto simp: heap_rel_def)
qed

text \<open>C1. The allocator refines the specification of a heap. Whatever any number of threads do (allocate, also
  aligned, reallocate, free each other's allocations, store bytes, end), in whatever order: the specification performs the
  actions of the calls and of the stores, one after the other, with the addresses that the calls returned, and ends with the live allocations of the
  program. So every new allocation was apart from all that were live at that time, a free removed just the allocation it was called with, and
  the allocations are pairwise apart and not null. And every byte that the specification knows is in memory: what the program stored in a live
  allocation, and has not overwritten since, is still there, also after the allocation was moved by a reallocation.\<close>

theorem heap_refines_spec:
  fixes s :: "'s malloc_state_scheme"
  assumes "starts cfg s" "init_once cfg s = Some (Inr s1)" "traces (heap_step cfg) acts (s1, \<lambda>_. thread_new, []) (s', ts, live)"
  shows "\<exists>c. run_all spec_do acts ([], Map.empty) = Some (live, c) \<and> spec_ok (live, c) \<and> (\<forall>a v. c a = Some v \<longrightarrow> mem s' a = v)"
  using run_ok(3) [OF assms] by (auto simp: heap_rel_def in_memory_def)

text \<open>C2. In every state that a program reaches, each live allocation lies inside one live mapping and is at
  least as large as requested, as \<^verbatim>\<open>get_allocation_size\<close> reports it; the mappings are valid and pairwise
  disjoint.\<close>

theorem live_allocations_mapped:
  fixes s :: "'s malloc_state_scheme"
  assumes "starts cfg s" "init_once cfg s = Some (Inr s1)" "traces (heap_step cfg) acts (s1, \<lambda>_. thread_new, []) (s', ts, live)" "r \<in> set live"
  shows "maps_ok (os_maps s') \<and>
    (\<exists>m \<in> set (os_maps s'). unat (fst m) \<le> unat (fst r) \<and> unat (fst r) + snd r \<le> unat (fst m) + map_span (snd m)) \<and>
    (\<exists>k. get_allocation_size (fst r) s' = Inr (Some k) \<and> snd r \<le> k)"
proof -
  have ok: "heap_ok (cfg_hash cfg) (cfg_target cfg) s' (\<lambda>k. bins (ts k)) live" by (rule world_okD(2) [OF run_ok(2) [OF assms(1-3)]])
  have "maps_ok (os_maps s')" using ok by (auto simp: heap_ok_def base_ok_def pages_ok_def)
  then show ?thesis using heap_ok_live(3) [OF ok assms(4)] heap_ok_size [OF ok assms(4)] by fastforce
qed

text \<open>C3. In every state that a program reaches, freeing a live allocation returns, in any thread and whether or
  not its bin has to be flushed. An allocation returns, or it panics; it panics only when the kernel
  refused pages after the partial list of the class was empty.\<close>

theorem calls_return:
  fixes s :: "'s malloc_state_scheme"
  assumes "starts cfg s" "init_once cfg s = Some (Inr s1)" "traces (heap_step cfg) acts (s1, \<lambda>_. thread_new, []) (s', ts, live)"
  shows "(p \<in> fst ` set live \<longrightarrow> (\<exists>y. do_free cfg p (s', ts j) = Some (Inr y))) \<and>
    (unat sz \<le> 2 ^ 32 - PAGE \<longrightarrow> (\<exists>y. do_malloc cfg sz (s', ts j) = Some (Inr y)) \<or>
       (\<exists>e. do_malloc cfg sz (s', ts j) = Some (Inl e)) \<and> refused cfg sz s' (ts j))"
proof (intro conjI impI)
  note k = run_ok(1) [OF assms] and ok = world_okD [OF run_ok(2) [OF assms]]
  have env: "mmap_contract (cfg_os cfg)" "munmap_contract (cfg_os cfg)" using k by (simp_all add: kernel_ok_def)
  show "\<exists>y. do_free cfg p (s', ts j) = Some (Inr y)" if "p \<in> fst ` set live" using do_free_owned [OF env(2) ok(1,2) that, of j] by blast
  show "(\<exists>y. do_malloc cfg sz (s', ts j) = Some (Inr y)) \<or> (\<exists>e. do_malloc cfg sz (s', ts j) = Some (Inl e)) \<and> refused cfg sz s' (ts j)"
    if "unat sz \<le> 2 ^ 32 - PAGE" using do_malloc_owned [OF env(1) ok(1) that ok(2), of j] by blast
qed


text \<open>C6. In every state that a program reaches, a reallocation that does not move to a smaller size class returns
  an allocation with room for the new size that is apart from all other live ones and holds the bytes of
  the old one up to the smaller of the two sizes; no byte of another live allocation changes. Otherwise it
  does not return because there is no memory for the new allocation.\<close>

theorem reallocs_keep_contents:
  fixes s :: "'s malloc_state_scheme"
  assumes "starts cfg s" "init_once cfg s = Some (Inr s1)" "traces (heap_step cfg) acts (s1, \<lambda>_. thread_new, []) (s', ts, live)"
    and "(p, n) \<in> set live" "unat sz \<le> 2 ^ 32 - PAGE" "get_allocation_size p s' = Inr (Some m)" "not_shrunk m sz s'"
  shows "(\<exists>q s'' t'. do_realloc cfg p sz (s', ts j) = Some (Inr (q, s'', t')) \<and> (\<exists>k. get_allocation_size q s'' = Inr (Some k) \<and> unat sz \<le> k) \<and>
      (\<forall>i < min n (unat sz). mem s'' (q + of_nat i) = mem s' (p + of_nat i)) \<and>
      (\<forall>r \<in> set (forget p live). apart (q, unat sz) r \<and> (\<forall>a. covers r a \<longrightarrow> mem s'' a = mem s' a))) \<or>
    (\<exists>e. do_realloc cfg p sz (s', ts j) = Some (Inl e)) \<and> refused cfg sz s' (ts j)"
proof -
  note kern = run_ok(1) [OF assms(1-3)] and ok = world_okD [OF run_ok(2) [OF assms(1-3)]]
  have env: "mmap_contract (cfg_os cfg)" "munmap_contract (cfg_os cfg)" using kern by (simp_all add: kernel_ok_def)
  from do_realloc_owned [OF env ok(1) assms(5) ok(2,3) assms(4,6,7), of j] show ?thesis
  proof (elim disjE exE conjE)
    fix q s'' t' assume d: "do_realloc cfg p sz (s', ts j) = Some (Inr (q, s'', t'))" "realloc_result cfg p n sz s' ts j live q s'' t'"
    then have r: "heap_ok (cfg_hash cfg) (cfg_target cfg) s'' (\<lambda>k. bins ((ts(j := t')) k)) ((q, unat sz) # forget p live)"
      "data_kept s' s'' (forget p live)" "\<forall>i < min n (unat sz). mem s'' (q + of_nat i) = mem s' (p + of_nat i)"
      by (simp_all add: realloc_result_def)
    have "\<forall>r \<in> set (forget p live). apart (q, unat sz) r \<and> (\<forall>a. covers r a \<longrightarrow> mem s'' a = mem s' a)"
      using new_live(3) [OF r(1)] data_kept_covered [OF r(2)] by (auto simp: covered_def)
    then show ?thesis using d(1) r(3) heap_ok_size [OF r(1), of "(q, unat sz)"] by auto
  qed blast
qed

text \<open>A block that the client does not own is no part of its allocations.\<close>

lemma block_not_live:
  assumes all: "used_all_ok h target s" and x: "class_block s i x" "own x \<noteq> Client" and r: "live_ok s own r"
  shows "\<not> (unat (fst r) \<le> unat x \<and> unat x < unat (fst r) + snd r)"
proof -
  have "(\<exists>k. class_block s k (fst r) \<and> own (fst r) = Client \<and> snd r \<le> class_size s k) \<or>
      (\<exists>d seg. large_sb s d seg \<and> seg_ptr seg = fst r \<and> snd r \<le> block_size (descs s d))"
    using r by (simp add: live_ok_def)
  moreover have "8 \<le> class_size s i" by (rule class_blockD(2) [OF all x(1)])
  ultimately show ?thesis
  proof (elim disjE exE conjE)
    fix k assume k: "class_block s k (fst r)" "own (fst r) = Client" "snd r \<le> class_size s k" "8 \<le> class_size s i"
    then have "x \<noteq> fst r" using x(2) by auto
    then show ?thesis using class_block_apart [OF all x(1) k(1)] k(3,4) by auto
  next
    fix d seg assume "large_sb s d seg" "seg_ptr seg = fst r" "snd r \<le> block_size (descs s d)" "8 \<le> class_size s i"
    then show ?thesis using class_block_large [OF all x(1), of d seg] by auto
  qed
qed

text \<open>C4. Every bin of every thread is well formed in every state that a program reaches: the block size it
  records, if any, is that of its class, and the list of its blocks has no repetition; each of them is
  a block of a super block of the class, which \<^verbatim>\<open>do_free\<close> recognises as such, is in no other bin and is
  no part of a live allocation.\<close>

theorem bins_well_formed:
  fixes s :: "'s malloc_state_scheme"
  assumes "starts cfg s" "init_once cfg s = Some (Inr s1)" "traces (heap_step cfg) acts (s1, \<lambda>_. thread_new, []) (s', ts, live)" "class_ix i"
  shows "bin_sized i (bins (ts j) ! i) \<and> distinct (bin_list s' (bins (ts j) ! i)) \<and>
    (\<forall>x \<in> set (bin_list s' (bins (ts j) ! i)). block_of_class s' x (class_size s' i) i \<and> \<not> covered live x \<and>
       (\<forall>l k. class_ix k \<longrightarrow> (l, k) \<noteq> (j, i) \<longrightarrow> x \<notin> set (bin_list s' (bins (ts l) ! k))))"
proof (intro conjI ballI)
  let ?bs = "\<lambda>k. bins (ts k)"
  note ok = world_okD [OF run_ok(2) [OF assms(1-3)]]
  obtain P fs own where o: "base_ok (cfg_hash cfg) (cfg_target cfg) s'" "descs_ok (cfg_hash cfg) s' P fs" "blocks_ok s' ?bs live own"
    using ok(2) by (auto simp: heap_ok_def)
  note all = descs_ok_used [OF o(1,2)] and bin = blocks_okD(3) [OF o(3)]
  have "i < length (bins (ts j))" using blocks_okD(2) [OF o(3), of j] assms(4) by (simp add: class_ix_def)
  then show "bin_sized i (bins (ts j) ! i)" using ok(3) [of j] by (simp add: bins_sized_def)
  show "distinct (bin_list s' (bins (ts j) ! i))" using bin [OF assms(4), of j] by (simp add: bin_ok_def)
  fix x assume "x \<in> set (bin_list s' (bins (ts j) ! i))"
  then have x: "class_block s' i x" "own x = Cached j" using bin [OF assms(4), of j] by (auto simp: bin_ok_def)
  obtain d seg where d: "small_sb s' d i seg" "get_page_info x s' = Inr d" using class_blockD(5) [OF all x(1)] by blast
  have "d \<noteq> 0" using descs_okD(1) [OF o(2) small_sb_block [OF d(1)]] by (auto simp: used_ok_def desc_kept_def desc_addr_def)
  moreover have "x \<noteq> 0" "0 < i" using class_blockD(1,4) [OF all x(1)] by (auto simp: class_ix_def)
  ultimately show "block_of_class s' x (class_size s' i) i"
    using d class_facts(3-5) [OF o(1) assms(4)] by (auto simp: block_of_class_def small_sb_def)
  show "\<not> covered live x"
    using block_not_live [OF all x(1) _ blocks_okD(5) [OF o(3)]] x(2) by (auto simp: covered_def covers_def)
  show "\<forall>l k. class_ix k \<longrightarrow> (l, k) \<noteq> (j, i) \<longrightarrow> x \<notin> set (bin_list s' (bins (ts l) ! k))"
  proof (intro allI impI notI)
    fix l k assume "class_ix k" "(l, k) \<noteq> (j, i)" "x \<in> set (bin_list s' (bins (ts l) ! k))"
    then show False using bin [of k l] x(2) class_block_unique [OF all x(1), of k] by (auto simp: bin_ok_def)
  qed
qed

section \<open>A program on the concrete kernel\<close>

definition nm_cfg :: config where
  "nm_cfg = bump_cfg\<lparr>cfg_nm := True\<rparr>"

lemma nm_cfg_simps [simp]:
  "cfg_os nm_cfg = bump_env" "cfg_hash nm_cfg = unat" "cfg_target nm_cfg = 2500" "\<not> cfg_panicking nm_cfg" "\<not> cfg_use_apf nm_cfg" "cfg_nm nm_cfg"
  by (simp_all add: nm_cfg_def)

lemma nm_cfg_same:
  "init_once nm_cfg s = init_once bump_cfg s" "malloc_ready nm_cfg s = malloc_ready bump_cfg s" "quiet nm_cfg s = quiet bump_cfg s"
  "fresh_malloc nm_cfg s = fresh_malloc bump_cfg s" "init_granted nm_cfg s = init_granted bump_cfg s"
  by (simp_all add: init_once_def init_malloc_def malloc_ready_def quiet_def fresh_malloc_def init_granted_def pm_addr_def boot_addr_def)

lemma nm_startsI:
  assumes "fresh_malloc bump_cfg s0" "os_maps s0 = []" "os_calls s0 = 0" "\<not> use_boot s0" "\<And>d. super_block (descs s0 d) = None"
  shows "starts nm_cfg s0"
  using assms first_init(1) [OF assms(1-4)] bump_env_contract bump_env_munmap by (simp add: starts_def nm_cfg_same kernel_ok_def)

lemma new_malloc_unused: "super_block (descs new_malloc d) = None"
  by (simp add: new_malloc_def alloc_state.defs map_state.defs empty_map_state_def desc_state.defs empty_desc_state_def
      pages_state.defs empty_pages_state_def descriptor_default_def)

lemma nm_starts: "starts nm_cfg new_malloc"
  by (rule nm_startsI [OF new_malloc_fresh]) (simp_all add: new_malloc_unused)

lemma nm_run:
  "\<exists>s p s' t'. init_once nm_cfg new_malloc = Some (Inr s) \<and> do_malloc nm_cfg 100 (s, thread_new) = Some (Inr (p, s', t')) \<and>
    heap_step nm_cfg [Got p 100] (s, \<lambda>_. thread_new, []) (s', (\<lambda>_. thread_new)(3 := t'), [(p, 100)]) \<and> (\<exists>bs sci. block_of_class s' p bs sci)"
proof -
  obtain s sci c d s1 where s: "init_once bump_cfg new_malloc = Some (Inr s)" and r: "malloc_ready bump_cfg s" "quiet bump_cfg s"
    "unat (100 :: usize) \<le> MAX_SZ" "get_size_class (sc_lookup s) (unat (100 :: usize)) = sci" "sc_table s ! sci = c"
    and e: "sci < length (bins thread_new)" "block_num (bins thread_new ! sci) = 0" "partial_rep sci s []"
      "desc_alloc (cfg_os bump_cfg) (cfg_hash bump_cfg) s = Inr (d, s1)"
    and g: "mmap (cfg_os bump_cfg) False (os_calls s1) (os_maps s1) (of_nat (sc_sb_size c)) \<noteq> MAP_FAILED"
    using new_malloc_start by blast
  have n: "mmap_contract (cfg_os nm_cfg)" "malloc_ready nm_cfg s" "quiet nm_cfg s" "desc_alloc (cfg_os nm_cfg) (cfg_hash nm_cfg) s = Inr (d, s1)"
    "mmap (cfg_os nm_cfg) False (os_calls s1) (os_maps s1) (of_nat (sc_sb_size c)) \<noteq> MAP_FAILED"
    using r(1,2) e(4) g bump_env_contract by (simp_all add: nm_cfg_same)
  have c: "0 < sc_block_num c" using ready_class(3) [OF n(2) r(3-5) refl] by (auto simp: class_ok_def)
  obtain p s' t' where m: "do_malloc nm_cfg 100 (s, thread_new) = Some (Inr (p, s', t'))"
    and "\<forall>x \<in> set (sb_blocks p (sc_block_size c) (sc_block_num c)). block_of_class s' x (sc_block_size c) sci"
    using do_malloc_first [OF n(1-3) r(3-5) refl e(1-3) n(4) refl n(5)] by blast
  moreover have "p \<in> set (sb_blocks p (sc_block_size c) (sc_block_num c))" using c by (force simp: sb_blocks_def sb_block_def)
  ultimately have b: "block_of_class s' p (sc_block_size c) sci" by blast
  have "unat (100 :: usize) \<le> 2 ^ 32 - PAGE" by (simp add: PAGE_value)
  from heap_malloc [where ts = "\<lambda>_ :: nat. thread_new" and j = 3 and live = "[]", OF this m]
  have "heap_step nm_cfg [Got p 100] (s, \<lambda>_. thread_new, []) (s', (\<lambda>_. thread_new)(3 := t'), [(p, 100)])" by simp
  then show ?thesis using s m b by (simp only: nm_cfg_same) blast
qed

text \<open>Thread 3 allocates 100 bytes and stores 7 in the first of them.\<close>

theorem heap_refines_spec_witness:
  "\<exists>s s' ts p c. init_once nm_cfg new_malloc = Some (Inr s) \<and>
    traces (heap_step nm_cfg) [Got p 100, Store p 7] (s, \<lambda>_. thread_new, []) (s', ts, [(p, 100)]) \<and>
    run_all spec_do [Got p 100, Store p 7] ([], Map.empty) = Some ([(p, 100)], c) \<and> c p = Some 7 \<and> mem s' p = 7"
proof -
  obtain s p s' t' where r: "init_once nm_cfg new_malloc = Some (Inr s)"
    "heap_step nm_cfg [Got p 100] (s, \<lambda>_. thread_new, []) (s', (\<lambda>_. thread_new)(3 := t'), [(p, 100)])"
    using nm_run by blast
  let ?s = "s'\<lparr>mem := (mem s')(p := 7)\<rparr>"
  have "covered [(p, 100)] p" by (simp add: covered_def covers_def)
  from trace_step [OF trace_one [where step = "heap_step nm_cfg", OF r(2)] heap_write [OF this, of nm_cfg 7 s']]
  have star: "traces (heap_step nm_cfg) [Got p 100, Store p 7] (s, \<lambda>_. thread_new, []) (?s, (\<lambda>_. thread_new)(3 := t'), [(p, 100)])" by simp
  from heap_refines_spec [OF nm_starts r(1) this]
  obtain c where c: "run_all spec_do [Got p 100, Store p 7] ([], Map.empty) = Some ([(p, 100)], c)" "\<forall>a v. c a = Some v \<longrightarrow> mem ?s a = v" by blast
  then have "c p = Some 7" by (auto split: if_splits)
  then show ?thesis using r(1) star c by blast
qed

text \<open>One allocation of 100 bytes.\<close>

theorem live_allocations_mapped_witness:
  "\<exists>s s' ts p k. init_once nm_cfg new_malloc = Some (Inr s) \<and> traces (heap_step nm_cfg) [Got p 100] (s, \<lambda>_. thread_new, []) (s', ts, [(p, 100)]) \<and>
    get_allocation_size p s' = Inr (Some k) \<and> 100 \<le> k"
proof -
  obtain s p s' t' where r: "init_once nm_cfg new_malloc = Some (Inr s)"
    "heap_step nm_cfg [Got p 100] (s, \<lambda>_. thread_new, []) (s', (\<lambda>_. thread_new)(3 := t'), [(p, 100)])"
    using nm_run by blast
  have star: "traces (heap_step nm_cfg) [Got p 100] (s, \<lambda>_. thread_new, []) (s', (\<lambda>_. thread_new)(3 := t'), [(p, 100)])" using r(2) by (rule trace_one)
  then show ?thesis using live_allocations_mapped [OF nm_starts r(1) star, of "(p, 100)"] r(1) by auto
qed

text \<open>Thread 5 frees what thread 3 allocated.\<close>

theorem calls_return_witness:
  "\<exists>s s' ts p y. init_once nm_cfg new_malloc = Some (Inr s) \<and> traces (heap_step nm_cfg) [Got p 100] (s, \<lambda>_. thread_new, []) (s', ts, [(p, 100)]) \<and>
    do_free nm_cfg p (s', ts 5) = Some (Inr y)"
proof -
  obtain s p s' t' where r: "init_once nm_cfg new_malloc = Some (Inr s)"
    "heap_step nm_cfg [Got p 100] (s, \<lambda>_. thread_new, []) (s', (\<lambda>_. thread_new)(3 := t'), [(p, 100)])"
    using nm_run by blast
  have star: "traces (heap_step nm_cfg) [Got p 100] (s, \<lambda>_. thread_new, []) (s', (\<lambda>_. thread_new)(3 := t'), [(p, 100)])" using r(2) by (rule trace_one)
  have "p \<in> fst ` set [(p, 100 :: nat)]" by simp
  then obtain y where "do_free nm_cfg p (s', ((\<lambda>_ :: nat. thread_new)(3 := t')) 5) = Some (Inr y)"
    using calls_return [OF nm_starts r(1) star, of p 5 0] by blast
  then show ?thesis using r(1) star by blast
qed



text \<open>The block of 100 bytes grows to the size of its class.\<close>

theorem reallocs_keep_contents_witness:
  "\<exists>s s' ts p m q y. init_once nm_cfg new_malloc = Some (Inr s) \<and> traces (heap_step nm_cfg) [Got p 100] (s, \<lambda>_. thread_new, []) (s', ts, [(p, 100)]) \<and>
    100 \<le> unat m \<and> do_realloc nm_cfg p m (s', ts 3) = Some (Inr (q, y)) \<and> mem (fst y) (q + 99) = mem s' (p + 99)"
proof -
  obtain s p s' t' bs sci where r: "init_once nm_cfg new_malloc = Some (Inr s)"
    "heap_step nm_cfg [Got p 100] (s, \<lambda>_. thread_new, []) (s', (\<lambda>_. thread_new)(3 := t'), [(p, 100)])" and b: "block_of_class s' p bs sci"
    using nm_run by blast
  let ?ts = "(\<lambda>_ :: nat. thread_new)(3 := t')"
  have star: "traces (heap_step nm_cfg) [Got p 100] (s, \<lambda>_. thread_new, []) (s', ?ts, [(p, 100)])" using r(2) by (rule trace_one)
  note ok = world_okD(2) [OF run_ok(2) [OF nm_starts r(1) star]]
  have l: "(p, 100) \<in> set [(p, 100 :: nat)]" by simp
  have bs: "get_allocation_size p s' = Inr (Some bs)" "bs \<le> MAX_SZ" "unat (of_nat bs :: usize) = bs" "100 \<le> bs"
    using b heap_ok_size [OF ok l] by (auto simp: block_of_class_size block_of_class_def MAX_SZ_value unat_of_nat)
  have "unat (of_nat bs :: usize) \<le> 2 ^ 32 - PAGE" "not_shrunk bs (of_nat bs) s'"
    using bs by (simp_all add: not_shrunk_def PAGE_value MAX_SZ_value)
  from reallocs_keep_contents [OF nm_starts r(1) star l this(1) bs(1) this(2), of 3]
  obtain q s'' t'' where d: "do_realloc nm_cfg p (of_nat bs) (s', ?ts 3) = Some (Inr (q, s'', t''))"
    "\<forall>i < min 100 (unat (of_nat bs :: usize)). mem s'' (q + of_nat i) = mem s' (p + of_nat i)"
    using realloc_in_place [of s' p bs sci "of_nat bs" nm_cfg t'] new_live(1) [OF ok] b bs(3) by (auto simp: block_of_class_def)
  then have "mem s'' (q + of_nat 99) = mem s' (p + of_nat 99)" using bs(3,4) spec [OF d(2), of 99] by (simp del: of_nat_numeral)
  then have "mem s'' (q + 99) = mem s' (p + 99)" by simp
  moreover have "100 \<le> unat (of_nat bs :: usize)" using bs(3,4) by simp
  ultimately have "\<exists>m q y. 100 \<le> unat m \<and> do_realloc nm_cfg p m (s', ?ts 3) = Some (Inr (q, y)) \<and> mem (fst y) (q + 99) = mem s' (p + 99)"
    using d(1) by (metis fst_conv)
  then show ?thesis using r(1) star by blast
qed

theorem bins_well_formed_witness:
  "\<exists>s s' ts p. init_once nm_cfg new_malloc = Some (Inr s) \<and> traces (heap_step nm_cfg) [Got p 100] (s, \<lambda>_. thread_new, []) (s', ts, [(p, 100)]) \<and>
    bin_sized 12 (bins (ts 3) ! 12) \<and> distinct (bin_list s' (bins (ts 3) ! 12))"
proof -
  obtain s p s' t' where r: "init_once nm_cfg new_malloc = Some (Inr s)"
    "heap_step nm_cfg [Got p 100] (s, \<lambda>_. thread_new, []) (s', (\<lambda>_. thread_new)(3 := t'), [(p, 100)])"
    using nm_run by blast
  have star: "traces (heap_step nm_cfg) [Got p 100] (s, \<lambda>_. thread_new, []) (s', (\<lambda>_. thread_new)(3 := t'), [(p, 100)])" using r(2) by (rule trace_one)
  have "class_ix 12" by (simp add: class_ix_def mem_info_defs)
  from bins_well_formed [OF nm_starts r(1) star this, of 3]
  have "bin_sized 12 (bins (((\<lambda>_ :: nat. thread_new)(3 := t')) 3) ! 12)" "distinct (bin_list s' (bins (((\<lambda>_ :: nat. thread_new)(3 := t')) 3) ! 12))"
    by blast+
  then show ?thesis using r(1) star by blast
qed

end
