(* ===== verification/C_Api.thy ===== *)
theory C_Api
  imports Realloc
begin

text \<open>
  The C interface of \<^verbatim>\<open>apfmalloc/src/lib.rs\<close> over the allocator: \<^verbatim>\<open>malloc\<close>, \<^verbatim>\<open>calloc\<close>, \<^verbatim>\<open>realloc\<close>, \<^verbatim>\<open>free\<close>,
  \<^verbatim>\<open>aligned_alloc\<close>, \<^verbatim>\<open>posix_memalign\<close>, \<^verbatim>\<open>check_override\<close>, the Rust allocator and the symbols of the feature
  \<^verbatim>\<open>no-rust\<close>. The flags \<^verbatim>\<open>OVERRIDE_*\<close> extend the state. A write through the null pointer is the panic
  \<open>undefined_access\<close>; the remainder by zero is a panic of the source language. Whether the target is
  macOS is a parameter of \<^verbatim>\<open>posix_memalign\<close>.
\<close>

section \<open>State\<close>

record api_state = malloc_state +
  override_malloc :: bool
  override_calloc :: bool
  override_realloc :: bool
  override_free :: bool
  override_aligned_alloc :: bool

type_synonym 's api = "'s api_state_scheme \<times> thread"

definition with_state :: "('s api_state_scheme \<Rightarrow> 's api_state_scheme) \<Rightarrow> 's api \<Rightarrow> 's api" where
  "with_state f x = (f (fst x), snd x)"

definition EINVAL :: int where "EINVAL = 22"
definition ENOMEM :: int where "ENOMEM = 12"

section \<open>The C functions\<close>

definition c_malloc :: "config \<Rightarrow> usize \<Rightarrow> 's api \<Rightarrow> (usize \<times> 's api) res option" where
  "c_malloc cfg sz x = do_malloc cfg sz (with_state (\<lambda>s. s\<lparr>override_malloc := True\<rparr>) x)"

text \<open>The loop that clears the bytes of an allocation.\<close>

definition clear_byte :: "usize \<Rightarrow> nat \<Rightarrow> memory \<Rightarrow> memory res" where
  "clear_byte p i m = (if p = 0 then Inl undefined_access else Inr (m(p + of_nat i := 0)))"

definition clear_bytes :: "usize \<Rightarrow> nat \<Rightarrow> 's api \<Rightarrow> 's api res" where
  "clear_bytes p n x =
     rbind (for_each (clear_byte p) [0..<n] (mem (fst x))) (\<lambda>m. Inr (with_state (\<lambda>s. s\<lparr>mem := m\<rparr>) x))"

definition c_calloc :: "config \<Rightarrow> usize \<Rightarrow> usize \<Rightarrow> 's api \<Rightarrow> (usize \<times> 's api) res option" where
  "c_calloc cfg num sz x =
     (let x1 = with_state (\<lambda>s. s\<lparr>override_calloc := True\<rparr>) x in
      if unat num * unat sz \<ge> 2 ^ 64 then Some (Inr (0, x1))
      else orbind (c_malloc cfg (num * sz) x1) (\<lambda>(p, x2).
        orbind (Some (clear_bytes p (unat (num * sz)) x2)) (\<lambda>x3. Some (Inr (p, x3)))))"

definition c_realloc :: "config \<Rightarrow> usize \<Rightarrow> usize \<Rightarrow> 's api \<Rightarrow> (usize \<times> 's api) res option" where
  "c_realloc cfg p new_size x = do_realloc cfg p new_size (with_state (\<lambda>s. s\<lparr>override_realloc := True\<rparr>) x)"

definition c_free :: "config \<Rightarrow> usize \<Rightarrow> 's api \<Rightarrow> 's api res option" where
  "c_free cfg p x = do_free cfg p (with_state (\<lambda>s. s\<lparr>override_free := True\<rparr>) x)"

definition aligned_alloc :: "config \<Rightarrow> usize \<Rightarrow> usize \<Rightarrow> 's api \<Rightarrow> (usize \<times> 's api) res option" where
  "aligned_alloc cfg alignment sz x =
     (let x1 = with_state (\<lambda>s. s\<lparr>override_aligned_alloc := True\<rparr>) x in
      if alignment = 0 then Some (Inl (Panic ''attempt to calculate the remainder with a divisor of zero''))
      else if sz mod alignment \<noteq> 0 then Some (Inr (0, x1))
      else do_aligned_alloc cfg alignment sz x1)"

definition posix_memalign ::
  "config \<Rightarrow> bool \<Rightarrow> usize \<Rightarrow> usize \<Rightarrow> usize \<Rightarrow> 's api \<Rightarrow> (int \<times> 's api) res option" where
  "posix_memalign cfg macos ptr alignment sz x =
     (let x1 = with_state (\<lambda>s. s\<lparr>override_aligned_alloc := True\<rparr>) x in
      if alignment mod 8 \<noteq> 0 then Some (Inr (EINVAL, x1))
      else orbind (if macos then aligned_alloc cfg (max alignment 16) sz x1 else aligned_alloc cfg alignment sz x1)
        (\<lambda>(out_ptr, x2).
        if ptr = 0 then Some (Inr (ENOMEM, x2))
        else Some (Inr (0, with_state (\<lambda>s. s\<lparr>mem := store64 (mem s) ptr out_ptr\<rparr>) x2))))"

definition check_override :: "config \<Rightarrow> 's api \<Rightarrow> (nat \<times> 's api) res option" where
  "check_override cfg x =
     orbind (c_malloc cfg 8 x) (\<lambda>(ptr, x1).
     if \<not> override_malloc (fst x1) then Some (Inr (0, x1))
     else orbind (c_realloc cfg ptr 64 x1) (\<lambda>(new_ptr, x2).
     if new_ptr = ptr then Some (Inl AssertFailed)
     else if \<not> override_realloc (fst x2) then Some (Inr (0, x2))
     else orbind (c_calloc cfg 8 8 x2) (\<lambda>(calloced, x3).
     if new_ptr = calloced then Some (Inl AssertFailed)
     else if \<not> override_calloc (fst x3) then Some (Inr (0, x3))
     else orbind (c_free cfg new_ptr x3) (\<lambda>x4.
       orbind (c_free cfg calloced x4) (\<lambda>x5.
       if \<not> override_free (fst x5) then Some (Inr (0, x5)) else Some (Inr (1, x5)))))))"

section \<open>The Rust allocator\<close>

definition rust_alloc :: "config \<Rightarrow> usize \<Rightarrow> usize \<Rightarrow> 's api \<Rightarrow> (usize \<times> 's api) res option" where
  "rust_alloc cfg sz align x = do_aligned_alloc cfg align sz (with_state (\<lambda>s. s\<lparr>override_aligned_alloc := True\<rparr>) x)"

definition rust_dealloc :: "config \<Rightarrow> usize \<Rightarrow> 's api \<Rightarrow> 's api res option" where
  "rust_dealloc cfg p x = do_free cfg p (with_state (\<lambda>s. s\<lparr>override_free := True\<rparr>) x)"

definition rust_alloc_zeroed :: "config \<Rightarrow> usize \<Rightarrow> usize \<Rightarrow> 's api \<Rightarrow> (usize \<times> 's api) res option" where
  "rust_alloc_zeroed cfg sz align x = c_calloc cfg 1 (align_val sz align) x"

definition rust_realloc :: "config \<Rightarrow> usize \<Rightarrow> usize \<Rightarrow> usize \<Rightarrow> 's api \<Rightarrow> (usize \<times> 's api) res option" where
  "rust_realloc cfg p align new_size x =
     do_realloc cfg p (align_val new_size align) (with_state (\<lambda>s. s\<lparr>override_realloc := True\<rparr>) x)"

text \<open>The symbols of the feature \<^verbatim>\<open>no-rust\<close>.\<close>

definition sym_rust_alloc :: "config \<Rightarrow> usize \<Rightarrow> usize \<Rightarrow> 's api \<Rightarrow> (usize \<times> 's api) res option" where
  "sym_rust_alloc cfg sz align x = aligned_alloc cfg align sz x"

definition sym_rust_alloc_zeroed :: "config \<Rightarrow> usize \<Rightarrow> usize \<Rightarrow> 's api \<Rightarrow> (usize \<times> 's api) res option" where
  "sym_rust_alloc_zeroed cfg sz align x =
     orbind (aligned_alloc cfg align sz (with_state (\<lambda>s. s\<lparr>override_calloc := True\<rparr>) x)) (\<lambda>(p, x1).
     orbind (Some (clear_bytes p (unat sz) x1)) (\<lambda>x2. Some (Inr (p, x2))))"

definition sym_rust_dealloc :: "config \<Rightarrow> usize \<Rightarrow> 's api \<Rightarrow> 's api res option" where
  "sym_rust_dealloc = c_free"

definition sym_rust_realloc :: "config \<Rightarrow> usize \<Rightarrow> usize \<Rightarrow> 's api \<Rightarrow> (usize \<times> 's api) res option" where
  "sym_rust_realloc = c_realloc"

section \<open>Zeroed memory\<close>

lemma with_state_simps [simp]: "fst (with_state f x) = f (fst x)" "snd (with_state f x) = snd x"
  by (simp_all add: with_state_def)

lemma clear_loop:
  assumes "p \<noteq> 0" "n \<le> 2 ^ 64"
  shows "for_each (clear_byte p) [0..<n] m = Inr (\<lambda>a. if unat (a - p) < n then 0 else m a)"
  using assms(2)
proof (induction n)
  case (Suc n)
  have u: "unat (of_nat n :: usize) = n" using Suc.prems by (simp add: unat_of_nat)
  have "a = p + of_nat n \<longleftrightarrow> unat (a - p) = n" for a
  proof
    assume "unat (a - p) = n"
    then have "a - p = of_nat n" by (simp add: word_unat_eq_iff u)
    then show "a = p + of_nat n" by (simp add: algebra_simps)
  qed (simp add: u)
  then show ?case using Suc assms(1) by (auto simp: for_each_append clear_byte_def less_Suc_eq)
qed simp

lemma clear_bytes_result:
  "p \<noteq> 0 \<Longrightarrow> n \<le> 2 ^ 64 \<Longrightarrow>
    clear_bytes p n x = Inr (with_state (\<lambda>s. s\<lparr>mem := (\<lambda>a. if unat (a - p) < n then 0 else mem s a)\<rparr>) x)"
  using clear_loop [of p n "mem (fst x)"] by (simp add: clear_bytes_def with_state_def)

lemma quiet_flags [simp]:
  "quiet cfg (s\<lparr>override_malloc := b\<rparr>) = quiet cfg s" "quiet cfg (s\<lparr>override_calloc := b\<rparr>) = quiet cfg s"
  by (simp_all add: quiet_def)

text \<open>\<^verbatim>\<open>calloc\<close> of a size that a size class serves, with tuning off: it returns the top block of the bin,
  whose requested bytes are all zero; no other byte of memory changes, and the bin keeps its other
  blocks if their links lie outside the cleared bytes. When the product of the arguments overflows,
  it returns the null pointer and changes nothing but its flag.\<close>

theorem calloc_zeroes:
  fixes s :: "'s api_state_scheme"
  assumes "quiet cfg s" "unat num * unat sz = n" "n \<le> MAX_SZ" "get_size_class (sc_lookup s) n = sci" "sci < length (bins t)"
    and "bin_rep (cfg_nm cfg) (mem s, bins t ! sci) (x # xs)" "2 ^ 64 \<le> unat num' * unat sz'"
  shows "(\<exists>s' t'. c_calloc cfg num sz (s, t) = Some (Inr (x, s', t')) \<and>
      (\<forall>i < n. mem s' (x + of_nat i) = 0) \<and> (\<forall>a. n \<le> unat (a - x) \<longrightarrow> mem s' a = mem s a) \<and>
      ((\<forall>y \<in> set xs. cell_clear x n y) \<longrightarrow> bin_rep (cfg_nm cfg) (mem s', bins t' ! sci) xs)) \<and>
    c_calloc cfg num' sz' (s, t) = Some (Inr (0, s\<lparr>override_calloc := True\<rparr>, t))"
proof -
  let ?s1 = "s\<lparr>override_calloc := True, override_malloc := True\<rparr>"
  have n: "n < 2 ^ 64" "unat (num * sz) = n" using assms(2,3) by (auto simp: MAX_SZ_value unat_word_ariths)
  obtain b' where b': "do_malloc cfg (num * sz) (?s1, t) = Some (Inr (x, ?s1, put_bin sci b' t))" "bin_rep (cfg_nm cfg) (mem s, b') xs"
    using do_malloc_bin [of cfg ?s1 "num * sz" sci t x xs] assms(1,3-6) n(2) by auto
  have "x \<noteq> 0" using assms(6) by (auto simp: bin_rep_def)
  define m where "m = (\<lambda>a. if unat (a - x) < n then 0 else mem s a)"
  have "c_calloc cfg num sz (s, t) = Some (Inr (x, ?s1\<lparr>mem := m\<rparr>, put_bin sci b' t))"
    using n b'(1) clear_bytes_result [OF \<open>x \<noteq> 0\<close>, of n "(?s1, put_bin sci b' t)"] assms(2)
    by (simp add: c_calloc_def c_malloc_def with_state_def m_def cong: if_cong)
  moreover have "m (x + of_nat i) = 0" if "i < n" for i using that n(1) by (simp add: m_def unat_of_nat)
  moreover have "bin_rep (cfg_nm cfg) (m, b') xs" if "\<forall>y \<in> set xs. cell_clear x n y"
    by (rule bin_rep_frame [OF b'(2)]) (use that in \<open>fastforce simp: cell_clear_def m_def not_less\<close>)
  moreover have "c_calloc cfg num' sz' (s, t) = Some (Inr (0, s\<lparr>override_calloc := True\<rparr>, t))"
    using assms(7) by (simp add: c_calloc_def with_state_def)
  ultimately show ?thesis
    using assms(5) by (intro conjI exI [of _ "?s1\<lparr>mem := m\<rparr>"] exI [of _ "put_bin sci b' t"]) (auto simp: m_def)
qed

text \<open>C15. \<^verbatim>\<open>posix_memalign\<close> does not report that memory ran out: when the kernel refuses the pages of a
  request, it stores the null pointer and answers 0 instead of \<^verbatim>\<open>ENOMEM\<close>, because the pointer it
  compares with null is the place for the result. The same happens for a size that is no multiple of
  the alignment, which \<^verbatim>\<open>aligned_alloc\<close> refuses.\<close>

theorem posix_memalign_hides_failure:
  fixes s :: "'s api_state_scheme"
  assumes "ptr \<noteq> 0" "alignment \<noteq> 0" "alignment mod 8 = 0" "malloc_inited s" "is_power_of_two alignment"
    and "unat alignment \<le> PAGE" "PAGE < unat (align_size sz alignment)"
    and "mmap (cfg_os cfg) False (os_calls s) (os_maps s) (page_ceiling (max (align_size sz alignment) (of_nat (MAX_SZ + 1)))) = MAP_FAILED"
  shows "\<exists>s'. posix_memalign cfg False ptr alignment sz (s, t) = Some (Inr (0, s', t)) \<and> load64 (mem s') ptr = 0 \<and> os_maps s' = os_maps s"
proof (cases "sz mod alignment = 0")
  case True
  then show ?thesis
    using assms by (simp add: posix_memalign_def aligned_alloc_def do_aligned_alloc_def init_once_def seg_allocate_def
        map_segment_def with_state_def Let_def load64_store64_same)
next
  case False
  then show ?thesis
    using assms by (simp add: aligned_alloc_def posix_memalign_def with_state_def load64_store64_same)
qed

definition small_api :: api_state where
  "small_api = malloc_state.extend small_malloc
     \<lparr>override_malloc = False, override_calloc = False, override_realloc = False, override_free = False,
      override_aligned_alloc = False\<rparr>"

lemma small_api_simps:
  "malloc_inited small_api" "quiet bump_cfg small_api" "mem small_api = mem small_malloc" "sc_lookup small_api = sc_lookup small_malloc"
  "os_maps small_api = []"
  by (simp_all add: small_api_def quiet_def bump_cfg_def malloc_state.defs small_malloc_def)

theorem posix_memalign_hides_failure_witness:
  "\<exists>s'. posix_memalign bump_cfg False 2097152 16 (2 ^ 47) (small_api, thread_new) = Some (Inr (0, s', thread_new)) \<and>
    load64 (mem s') 2097152 = 0"
proof -
  have a: "align_size (2 ^ 47) 16 = 2 ^ 47" "is_power_of_two 16"
    by (simp_all add: align_size_def align_val_def is_power_of_two_def)
  have "mmap bump_env False n [] (page_ceiling (max (2 ^ 47) (of_nat (MAX_SZ + 1)))) = MAP_FAILED" for n
    by (simp add: bump_env_def bump_mmap_def page_ceiling_def mem_info_defs map_span_def round_up_def Let_def)
  then show ?thesis
    using posix_memalign_hides_failure [of 2097152 16 small_api "2 ^ 47" bump_cfg thread_new] a
    by (auto simp: small_api_simps PAGE_value bump_cfg_def)
qed

theorem calloc_zeroes_witness:
  "\<exists>s' t'. c_calloc bump_cfg 2 3 (small_api, small_thread) = Some (Inr (1114112, s', t')) \<and> mem s' 1114112 = 0"
proof -
  have "get_size_class (sc_lookup small_api) 6 = 1" using small_class [of 6] by (simp add: small_api_simps MAX_SZ_value)
  moreover have "bin_rep (cfg_nm bump_cfg) (mem small_api, bins small_thread ! 1) [1114112, 1114120]"
    unfolding small_api_simps(3) by (rule small_bin)
  moreover have "1 < length (bins small_thread)" by (simp add: small_lengths MAX_SZ_IDX_def)
  ultimately show ?thesis
    using calloc_zeroes [OF small_api_simps(2), of 2 3 6 1 small_thread 1114112 "[1114120]" "- 1" "- 1"]
    by (auto simp: MAX_SZ_value unsigned_minus_1_eq_mask mask_eq_exp_minus_1 dest: spec [of _ 0])
qed

end
