(* ===== verification/C_Programs.thy ===== *)
theory C_Programs
  imports Heap_Safety C_Api
begin

text \<open>
  Programs that use the allocator through the C functions of \<^verbatim>\<open>apfmalloc\<close>, through the Rust allocator and through the symbols of the feature
  \<^verbatim>\<open>no-rust\<close>. A call sets the flag of its function and is otherwise one of the calls of \<open>Heap_Safety\<close>, with stores for
  \<^verbatim>\<open>calloc\<close> and \<^verbatim>\<open>posix_memalign\<close>, so that such a program also refines the specification of a heap.
\<close>

section \<open>The flags\<close>

lemma flag_frames [simp]:
  "world_ok cfg (s\<lparr>override_malloc := b\<rparr>, ts, live) = world_ok cfg (s, ts, live)"
  "world_ok cfg (s\<lparr>override_calloc := b\<rparr>, ts, live) = world_ok cfg (s, ts, live)"
  "world_ok cfg (s\<lparr>override_realloc := b\<rparr>, ts, live) = world_ok cfg (s, ts, live)"
  "world_ok cfg (s\<lparr>override_free := b\<rparr>, ts, live) = world_ok cfg (s, ts, live)"
  "world_ok cfg (s\<lparr>override_aligned_alloc := b\<rparr>, ts, live) = world_ok cfg (s, ts, live)"
  by (simp_all add: world_ok_def plain_def heap_ok_def base_ok_def descs_ok_def used_ok_def listed_ok_def pm_ready_def tables_ok_def heap_class_def
      partial_rep_def free_list_def pages_ok_def size_map_or_new_def small_sb_def large_sb_def blocks_def class_block_def get_page_info_def desc_kept_def
      blocks_ok_def sb_ok_def own_chain_def bin_ok_def bin_list_def live_ok_def Let_def)

lemma flag_performs [simp]:
  "performs cfg acts (s\<lparr>override_malloc := b\<rparr>, ts, live) w = performs cfg acts (s, ts, live) w"
  "performs cfg acts (s\<lparr>override_calloc := b\<rparr>, ts, live) w = performs cfg acts (s, ts, live) w"
  "performs cfg acts (s\<lparr>override_realloc := b\<rparr>, ts, live) w = performs cfg acts (s, ts, live) w"
  "performs cfg acts (s\<lparr>override_free := b\<rparr>, ts, live) w = performs cfg acts (s, ts, live) w"
  "performs cfg acts (s\<lparr>override_aligned_alloc := b\<rparr>, ts, live) w = performs cfg acts (s, ts, live) w"
  by (simp_all add: performs_def)

lemma flag_sizes [simp]:
  "get_allocation_size p (s\<lparr>override_realloc := b\<rparr>) = get_allocation_size p s"
  "not_shrunk m sz (s\<lparr>override_realloc := b\<rparr>) = not_shrunk m sz s"
  by (simp_all add: get_allocation_size_def get_page_info_for_ptr_def get_page_info_def not_shrunk_def Let_def split: option.splits)

section \<open>Runs of a C program\<close>

text \<open>The calls of the program meet the conditions of \<open>Heap_Safety\<close>: it frees and reallocates live allocations (or
  null), does not shrink to a smaller class, and aligns up to a page. The place for the result of \<^verbatim>\<open>posix_memalign\<close> is a cell of a
  live allocation, or memory that is none of the allocator's, such as a variable on the stack.\<close>

definition cell_of :: "allocation \<Rightarrow> usize \<Rightarrow> bool" where
  "cell_of r a \<longleftrightarrow> unat (fst r) \<le> unat a \<and> unat a + 8 \<le> unat (fst r) + snd r"

definition got_zeroed :: "usize \<Rightarrow> nat \<Rightarrow> action list" where
  "got_zeroed p n = (if p = 0 then [] else Got p n # stores p (replicate n 0))"

definition gone_if :: "usize \<Rightarrow> action list" where
  "gone_if p = (if p = 0 then [] else [Gone p])"

type_synonym 's c_world = "'s api_state_scheme \<times> (nat \<Rightarrow> thread) \<times> allocation list"

inductive api_step :: "config \<Rightarrow> action list \<Rightarrow> 's c_world \<Rightarrow> 's c_world \<Rightarrow> bool" for cfg where
  api_malloc: "unat sz \<le> 2 ^ 32 - PAGE \<Longrightarrow> c_malloc cfg sz (s, ts j) = Some (Inr (p, s', t')) \<Longrightarrow>
    api_step cfg [Got p (unat sz)] (s, ts, live) (s', ts(j := t'), (p, unat sz) # live)"
| api_calloc: "unat num * unat sz \<le> 2 ^ 32 - PAGE \<or> 2 ^ 64 \<le> unat num * unat sz \<Longrightarrow> c_calloc cfg num sz (s, ts j) = Some (Inr (p, s', t')) \<Longrightarrow>
    api_step cfg (got_zeroed p (unat num * unat sz)) (s, ts, live) (s', ts(j := t'), with_new p (unat num * unat sz) live)"
| api_realloc: "(p, n) \<in> set live \<Longrightarrow> unat sz \<le> 2 ^ 32 - PAGE \<Longrightarrow> get_allocation_size p s = Inr (Some m) \<Longrightarrow> not_shrunk m sz s \<Longrightarrow>
    c_realloc cfg p sz (s, ts j) = Some (Inr (q, s', t')) \<Longrightarrow>
    api_step cfg [Moved p q (unat sz)] (s, ts, live) (s', ts(j := t'), (q, unat sz) # forget p live)"
| api_realloc_null: "unat sz \<le> 2 ^ 32 - PAGE \<Longrightarrow> c_realloc cfg 0 sz (s, ts j) = Some (Inr (p, s', t')) \<Longrightarrow>
    api_step cfg [Got p (unat sz)] (s, ts, live) (s', ts(j := t'), (p, unat sz) # live)"
| api_free: "p = 0 \<or> p \<in> fst ` set live \<Longrightarrow> c_free cfg p (s, ts j) = Some (Inr (s', t')) \<Longrightarrow>
    api_step cfg (gone_if p) (s, ts, live) (s', ts(j := t'), forget p live)"
| api_aligned: "k \<le> 12 \<Longrightarrow> unat sz \<le> 2 ^ 32 - 2 * PAGE \<Longrightarrow> aligned_alloc cfg (2 ^ k) sz (s, ts j) = Some (Inr (p, s', t')) \<Longrightarrow>
    api_step cfg (got_new p (unat sz)) (s, ts, live) (s', ts(j := t'), with_new p (unat sz) live)"
| api_memalign_refused: "posix_memalign cfg macos a (2 ^ k) sz (s, ts j) = Some (Inr (code, s', t')) \<Longrightarrow> (2 ^ k :: usize) mod 8 \<noteq> 0 \<Longrightarrow>
    api_step cfg [] (s, ts, live) (s', ts(j := t'), live)"
| api_memalign: "k \<le> 12 \<Longrightarrow> (2 ^ k :: usize) mod 8 = 0 \<Longrightarrow> unat sz \<le> 2 ^ 32 - 2 * PAGE \<Longrightarrow> r \<in> set live \<Longrightarrow> cell_of r a \<Longrightarrow>
    posix_memalign cfg macos a (2 ^ k) sz (s, ts j) = Some (Inr (code, s', t')) \<Longrightarrow> p = load64 (mem s') a \<Longrightarrow>
    api_step cfg (got_new p (unat sz) @ stores a (bytes_of 8 p)) (s, ts, live) (s', ts(j := t'), with_new p (unat sz) live)"
| api_memalign_elsewhere: "k \<le> 12 \<Longrightarrow> (2 ^ k :: usize) mod 8 = 0 \<Longrightarrow> unat sz \<le> 2 ^ 32 - 2 * PAGE \<Longrightarrow> a \<noteq> 0 \<Longrightarrow>
    (\<And>i. i < 8 \<Longrightarrow> unmapped s' (a + of_nat i)) \<Longrightarrow>
    posix_memalign cfg macos a (2 ^ k) sz (s, ts j) = Some (Inr (code, s', t')) \<Longrightarrow> p = load64 (mem s') a \<Longrightarrow>
    api_step cfg (got_new p (unat sz)) (s, ts, live) (s', ts(j := t'), with_new p (unat sz) live)"
| api_rust_alloc: "k \<le> 12 \<Longrightarrow> unat sz \<le> 2 ^ 32 - 2 * PAGE \<Longrightarrow> rust_alloc cfg sz (2 ^ k) (s, ts j) = Some (Inr (p, s', t')) \<Longrightarrow>
    api_step cfg (got_new p (unat sz)) (s, ts, live) (s', ts(j := t'), with_new p (unat sz) live)"
| api_rust_dealloc: "p \<in> fst ` set live \<Longrightarrow> rust_dealloc cfg p (s, ts j) = Some (Inr (s', t')) \<Longrightarrow>
    api_step cfg [Gone p] (s, ts, live) (s', ts(j := t'), forget p live)"
| api_rust_zeroed: "n = unat (align_val sz align) \<Longrightarrow> n \<le> 2 ^ 32 - PAGE \<Longrightarrow> rust_alloc_zeroed cfg sz align (s, ts j) = Some (Inr (p, s', t')) \<Longrightarrow>
    api_step cfg (got_zeroed p n) (s, ts, live) (s', ts(j := t'), with_new p n live)"
| api_rust_realloc: "(p, n) \<in> set live \<Longrightarrow> z = align_val sz align \<Longrightarrow> unat z \<le> 2 ^ 32 - PAGE \<Longrightarrow> get_allocation_size p s = Inr (Some m) \<Longrightarrow>
    not_shrunk m z s \<Longrightarrow> rust_realloc cfg p align sz (s, ts j) = Some (Inr (q, s', t')) \<Longrightarrow>
    api_step cfg [Moved p q (unat z)] (s, ts, live) (s', ts(j := t'), (q, unat z) # forget p live)"
| api_sym_zeroed: "k \<le> 12 \<Longrightarrow> unat sz \<le> 2 ^ 32 - 2 * PAGE \<Longrightarrow> sym_rust_alloc_zeroed cfg sz (2 ^ k) (s, ts j) = Some (Inr (p, s', t')) \<Longrightarrow>
    api_step cfg (got_zeroed p (unat sz)) (s, ts, live) (s', ts(j := t'), with_new p (unat sz) live)"
| api_write: "covered live a \<Longrightarrow> api_step cfg [Store a v] (s, ts, live) (s\<lparr>mem := (mem s)(a := v)\<rparr>, ts, live)"
| api_elsewhere: "unmapped s a \<Longrightarrow> api_step cfg [] (s, ts, live) (s\<lparr>mem := (mem s)(a := v)\<rparr>, ts, live)"
| api_end: "api_step cfg [] (s, ts, live) (s, ts(j := thread_new), live)"

inductive_cases api_stepE: "api_step cfg acts (s, ts, live) w'"

section \<open>Each call refines the specification\<close>

lemma c_malloc_sim:
  assumes "mmap_contract (cfg_os cfg)" "world_ok cfg (s, ts, live)" "unat sz \<le> 2 ^ 32 - PAGE"
    and "c_malloc cfg sz (s, ts j) = Some (Inr (p, s', t'))"
  shows "performs cfg [Got p (unat sz)] (s, ts, live) (s', ts(j := t'), (p, unat sz) # live)"
  using malloc_sim [OF assms(1) _ assms(3), of "s\<lparr>override_malloc := True\<rparr>" ts live j p s' t'] assms(2,4)
  by (simp add: c_malloc_def with_state_def)

lemma c_realloc_null_sim:
  assumes "mmap_contract (cfg_os cfg)" "world_ok cfg (s, ts, live)" "unat sz \<le> 2 ^ 32 - PAGE"
    and "c_realloc cfg 0 sz (s, ts j) = Some (Inr (p, s', t'))"
  shows "performs cfg [Got p (unat sz)] (s, ts, live) (s', ts(j := t'), (p, unat sz) # live)"
  using malloc_sim [OF assms(1) _ assms(3), of "s\<lparr>override_realloc := True\<rparr>" ts live j p s' t'] assms(2,4)
  by (simp add: c_realloc_def do_realloc_def with_state_def)

lemma c_realloc_sim:
  assumes "mmap_contract (cfg_os cfg)" "munmap_contract (cfg_os cfg)" "world_ok cfg (s, ts, live)"
    and "(p, n) \<in> set live" "unat sz \<le> 2 ^ 32 - PAGE" "get_allocation_size p s = Inr (Some m)" "not_shrunk m sz s"
    and "c_realloc cfg p sz (s, ts j) = Some (Inr (q, s', t'))"
  shows "performs cfg [Moved p q (unat sz)] (s, ts, live) (s', ts(j := t'), (q, unat sz) # forget p live)"
  using realloc_sim [OF assms(1,2) _ assms(4,5), of "s\<lparr>override_realloc := True\<rparr>" ts m j q s' t'] assms(3,6-8)
  by (simp add: c_realloc_def with_state_def)

lemma c_free_sim:
  assumes "munmap_contract (cfg_os cfg)" "world_ok cfg (s, ts, live)" "p \<in> fst ` set live"
    and "c_free cfg p (s, ts j) = Some (Inr (s', t'))"
  shows "performs cfg [Gone p] (s, ts, live) (s', ts(j := t'), forget p live)"
  using free_sim [OF assms(1) _ assms(3), of "s\<lparr>override_free := True\<rparr>" ts j s' t'] assms(2,4)
  by (simp add: c_free_def with_state_def)

lemma c_free_null_sim:
  assumes w: "world_ok cfg (s, ts, live)" and f: "c_free cfg 0 (s, ts j) = Some (Inr (s', t'))"
  shows "performs cfg [] (s, ts, live) (s', ts(j := t'), forget 0 live)"
proof -
  have "forget 0 live = live" using heap_ok_live(4) [OF world_okD(2) [OF w]] by (auto simp: forget_def filter_id_conv)
  moreover have "s' = s\<lparr>override_free := True\<rparr>" "t' = ts j" using f by (auto simp: c_free_def with_state_def do_free_def)
  ultimately show ?thesis using w performs_none [of cfg s' ts live s ts] by simp
qed

lemma rust_alloc_sim:
  assumes "mmap_contract (cfg_os cfg)" "world_ok cfg (s, ts, live)" "k \<le> 12" "unat sz \<le> 2 ^ 32 - 2 * PAGE"
    and "rust_alloc cfg sz (2 ^ k) (s, ts j) = Some (Inr (p, s', t'))"
  shows "performs cfg (got_new p (unat sz)) (s, ts, live) (s', ts(j := t'), with_new p (unat sz) live)"
  using aligned_sim [OF assms(1) _ assms(3,4), of "s\<lparr>override_aligned_alloc := True\<rparr>" ts live j p s' t'] assms(2,5)
  by (simp add: rust_alloc_def with_state_def)

lemma aligned_alloc_sim:
  assumes "mmap_contract (cfg_os cfg)" "world_ok cfg (s, ts, live)" "k \<le> 12" "unat sz \<le> 2 ^ 32 - 2 * PAGE"
    and "aligned_alloc cfg (2 ^ k) sz (s, ts j) = Some (Inr (p, s', t'))"
  shows "performs cfg (got_new p (unat sz)) (s, ts, live) (s', ts(j := t'), with_new p (unat sz) live)"
proof (cases "sz mod 2 ^ k = 0")
  case True
  then show ?thesis using rust_alloc_sim [OF assms(1-4), of j p s' t'] assms(5)
    by (simp add: aligned_alloc_def rust_alloc_def Let_def split: if_splits)
next
  case False
  then have "p = 0" "s' = s\<lparr>override_aligned_alloc := True\<rparr>" "t' = ts j"
    using assms(5) by (auto simp: aligned_alloc_def Let_def with_state_def split: if_splits)
  then show ?thesis using assms(2) performs_none [of cfg s' ts live s ts] by (simp add: with_new_def got_new_def)
qed

text \<open>The loop of \<^verbatim>\<open>calloc\<close> stores zeros in the new allocation.\<close>

lemma cleared:
  assumes "p \<noteq> 0" "n \<le> 2 ^ 47"
  shows "clear_bytes p n (s, t) = Inr (s\<lparr>mem := put_bytes p (replicate n 0) (mem s)\<rparr>, t)"
  using clear_bytes_result [OF assms(1), of n "(s, t)"] assms(2)
  by (simp add: with_state_def put_bytes_def fun_eq_iff cong: if_cong)

lemma zeroed_sim:
  assumes a: "performs cfg [Got p n] w (s1, ts, (p, n) # live)" and c: "clear_bytes p n (s1, t) = Inr (s', t')"
  shows "performs cfg (got_zeroed p n) w (s', ts, (p, n) # live)" "t' = t" "p \<noteq> 0" "i < n \<Longrightarrow> mem s' (p + of_nat i) = 0"
proof -
  have ok: "world_ok cfg (s1, ts, (p, n) # live)" using a by (simp add: performs_def)
  note new = new_live [OF world_okD(2) [OF ok]]
  show "p \<noteq> 0" by (rule new(1))
  have s': "s' = s1\<lparr>mem := put_bytes p (replicate n 0) (mem s1)\<rparr>" and "t' = t" using cleared [OF new(1), of n s1 t] new(4) c by auto
  show "t' = t" by fact
  have "performs cfg (stores p (replicate n 0)) (s1, ts, (p, n) # live) (s', ts, (p, n) # live)"
    unfolding s' by (rule stores_sim [OF ok, of "(p, n)"]) simp_all
  from performs_append [OF a this] show "performs cfg (got_zeroed p n) w (s', ts, (p, n) # live)" using new(1) by (simp add: got_zeroed_def)
  show "mem s' (p + of_nat i) = 0" if "i < n" using that new(4) put_bytes_at [of i "replicate n 0"] by (simp add: s')
qed

lemma c_calloc_sim:
  assumes env: "mmap_contract (cfg_os cfg)" and w: "world_ok cfg (s, ts, live)" and n: "unat num * unat sz \<le> 2 ^ 32 - PAGE"
    and c: "c_calloc cfg num sz (s, ts j) = Some (Inr (p, s', t'))"
  shows "performs cfg (got_zeroed p (unat num * unat sz)) (s, ts, live) (s', ts(j := t'), with_new p (unat num * unat sz) live)"
proof -
  let ?n = "unat num * unat sz"
  have u: "unat (num * sz) = ?n" "\<not> 2 ^ 64 \<le> ?n" using n unat_mult_lem [of num sz] by (simp_all add: PAGE_value)
  obtain s1 t1 where m: "c_malloc cfg (num * sz) (s\<lparr>override_calloc := True\<rparr>, ts j) = Some (Inr (p, s1, t1))"
    and cl: "clear_bytes p ?n (s1, t1) = Inr (s', t')"
    using c u by (auto simp: c_calloc_def Let_def with_state_def orbind_eq_Inr)
  have "performs cfg [Got p ?n] (s, ts, live) (s1, ts(j := t1), (p, ?n) # live)"
    using c_malloc_sim [where ts = ts and j = j, OF env _ _ m, of live] w n u(1) by simp
  from zeroed_sim [OF this cl] show ?thesis by (simp add: with_new_def)
qed

lemma c_calloc_overflow: "2 ^ 64 \<le> unat num * unat sz \<Longrightarrow> c_calloc cfg num sz (s, t) = Some (Inr (0, s\<lparr>override_calloc := True\<rparr>, t))"
  by (simp add: c_calloc_def with_state_def)

lemma sym_zeroed_sim:
  assumes env: "mmap_contract (cfg_os cfg)" and w: "world_ok cfg (s, ts, live)" and k: "k \<le> 12" "unat sz \<le> 2 ^ 32 - 2 * PAGE"
    and c: "sym_rust_alloc_zeroed cfg sz (2 ^ k) (s, ts j) = Some (Inr (p, s', t'))"
  shows "performs cfg (got_zeroed p (unat sz)) (s, ts, live) (s', ts(j := t'), with_new p (unat sz) live)"
proof -
  obtain s1 t1 where m: "aligned_alloc cfg (2 ^ k) sz (s\<lparr>override_calloc := True\<rparr>, ts j) = Some (Inr (p, s1, t1))"
    and cl: "clear_bytes p (unat sz) (s1, t1) = Inr (s', t')"
    using c by (auto simp: sym_rust_alloc_zeroed_def with_state_def orbind_eq_Inr)
  have a: "performs cfg (got_new p (unat sz)) (s, ts, live) (s1, ts(j := t1), with_new p (unat sz) live)"
    using aligned_alloc_sim [where ts = ts and j = j, OF env _ k m, of live] w by simp
  show ?thesis
  proof (cases "p = 0")
    case True
    have "unat sz = 0"
    proof (rule ccontr)
      assume "unat sz \<noteq> 0"
      then have "[0..<unat sz] = 0 # [1..<unat sz]" by (simp add: upt_conv_Cons)
      then show False using cl True by (simp add: clear_bytes_def clear_byte_def)
    qed
    then have "s' = s1" "t' = t1" using cl by (auto simp: clear_bytes_def with_state_def)
    then show ?thesis using a True by (simp add: got_zeroed_def got_new_def)
  next
    case False
    then show ?thesis using zeroed_sim [OF _ cl] a by (simp add: with_new_def got_new_def)
  qed
qed

text \<open>\<^verbatim>\<open>posix_memalign\<close> is \<^verbatim>\<open>aligned_alloc\<close>, with an alignment of at least 16 on macOS, and a write of the result.\<close>

lemma store64_put: "store64 m a v = put_bytes a (bytes_of 8 v) m"
  by (auto simp: store64_def put_bytes_def fun_eq_iff word_less_nat_alt)

lemma max_power: "k \<le> 12 \<Longrightarrow> max (2 ^ k) (16 :: usize) = 2 ^ max k 4"
proof -
  assume k: "k \<le> 12"
  have u: "unat (2 ^ i :: usize) = 2 ^ i" if "i \<le> 12" for i using that by (intro unat_pow2) simp
  have "(2 ^ k \<le> (2 ^ 4 :: usize)) = (k \<le> 4)" using u [OF k] power_increasing_iff [of "2 :: nat" k 4] by (simp add: word_le_nat_alt)
  then show ?thesis by (auto simp: max_def)
qed

lemma posix_memalign_split:
  assumes env: "mmap_contract (cfg_os cfg)" and w: "world_ok cfg (s, ts, live)"
    and k: "k \<le> 12" "unat sz \<le> 2 ^ 32 - 2 * PAGE" "(2 ^ k :: usize) mod 8 = 0" and a: "a \<noteq> 0"
    and c: "posix_memalign cfg macos a (2 ^ k) sz (s, ts j) = Some (Inr (code, s', t'))"
  obtains s1 p where "s' = s1\<lparr>mem := put_bytes a (bytes_of 8 p) (mem s1)\<rparr>" "load64 (mem s') a = p"
    "performs cfg (got_new p (unat sz)) (s, ts, live) (s1, ts(j := t'), with_new p (unat sz) live)"
proof -
  define l where "l = (if macos then max k 4 else k)"
  have l: "l \<le> 12" "(if macos then max (2 ^ k) 16 else 2 ^ k) = (2 ^ l :: usize)" using k(1) max_power by (auto simp: l_def)
  obtain p s1 where m: "aligned_alloc cfg (2 ^ l) sz (s\<lparr>override_aligned_alloc := True\<rparr>, ts j) = Some (Inr (p, s1, t'))"
    and s': "s' = s1\<lparr>mem := store64 (mem s1) a p\<rparr>"
    using c k(3) a l(2) [symmetric] by (auto simp: posix_memalign_def Let_def with_state_def orbind_eq_Inr split: if_splits)
  have "performs cfg (got_new p (unat sz)) (s, ts, live) (s1, ts(j := t'), with_new p (unat sz) live)"
    using aligned_alloc_sim [where ts = ts and j = j, OF env _ l(1) k(2) m, of live] w by simp
  then show ?thesis using that [of p s1] s' by (simp add: store64_put [symmetric] load64_store64_same)
qed

lemma posix_memalign_sim:
  assumes env: "mmap_contract (cfg_os cfg)" and w: "world_ok cfg (s, ts, live)"
    and k: "k \<le> 12" "unat sz \<le> 2 ^ 32 - 2 * PAGE" "(2 ^ k :: usize) mod 8 = 0" and r: "r \<in> set live" "cell_of r a"
    and c: "posix_memalign cfg macos a (2 ^ k) sz (s, ts j) = Some (Inr (code, s', t'))" and p: "p = load64 (mem s') a"
  shows "performs cfg (got_new p (unat sz) @ stores a (bytes_of 8 p)) (s, ts, live) (s', ts(j := t'), with_new p (unat sz) live)"
proof -
  have "a \<noteq> 0" using heap_ok_live(4) [OF world_okD(2) [OF w] r(1)] r(2) by (auto simp: cell_of_def unat_eq_zero)
  from posix_memalign_split [OF env w k this c]
  obtain s1 where s': "s' = s1\<lparr>mem := put_bytes a (bytes_of 8 p) (mem s1)\<rparr>"
    and a: "performs cfg (got_new p (unat sz)) (s, ts, live) (s1, ts(j := t'), with_new p (unat sz) live)" using p by metis
  then have ok: "world_ok cfg (s1, ts(j := t'), with_new p (unat sz) live)" by (simp add: performs_def)
  have "r \<in> set (with_new p (unat sz) live)" using r(1) by (simp add: with_new_def)
  from stores_sim [OF ok this, of a "bytes_of 8 p"] r(2)
  have "performs cfg (stores a (bytes_of 8 p)) (s1, ts(j := t'), with_new p (unat sz) live) (s', ts(j := t'), with_new p (unat sz) live)"
    by (simp add: cell_of_def s')
  then show ?thesis by (rule performs_append [OF a])
qed

lemma posix_memalign_elsewhere_sim:
  assumes env: "mmap_contract (cfg_os cfg)" and w: "world_ok cfg (s, ts, live)"
    and k: "k \<le> 12" "unat sz \<le> 2 ^ 32 - 2 * PAGE" "(2 ^ k :: usize) mod 8 = 0" and a: "a \<noteq> 0" "\<And>i. i < 8 \<Longrightarrow> unmapped s' (a + of_nat i)"
    and c: "posix_memalign cfg macos a (2 ^ k) sz (s, ts j) = Some (Inr (code, s', t'))" and p: "p = load64 (mem s') a"
  shows "performs cfg (got_new p (unat sz)) (s, ts, live) (s', ts(j := t'), with_new p (unat sz) live)"
proof -
  from posix_memalign_split [OF env w k a(1) c]
  obtain s1 where s': "s' = s1\<lparr>mem := put_bytes a (bytes_of 8 p) (mem s1)\<rparr>"
    and g: "performs cfg (got_new p (unat sz)) (s, ts, live) (s1, ts(j := t'), with_new p (unat sz) live)" using p by metis
  then have ok: "world_ok cfg (s1, ts(j := t'), with_new p (unat sz) live)" by (simp add: performs_def)
  have "put_bytes a (bytes_of 8 p) (mem s1) x = mem s1 x" if "\<not> unmapped s1 x" for x
  proof (rule put_bytes_apart)
    fix i assume "i < length (bytes_of 8 p)"
    then show "x \<noteq> a + of_nat i" using a(2) [of i] that by (auto simp: s' unmapped_def)
  qed
  from elsewhere_sim [OF ok this]
  have "performs cfg [] (s1, ts(j := t'), with_new p (unat sz) live) (s', ts(j := t'), with_new p (unat sz) live)" by (simp add: s')
  from performs_append [OF g this] show ?thesis by simp
qed

lemma api_step_ok:
  assumes k: "kernel_ok cfg" and w: "world_ok cfg w" and st: "api_step cfg acts w w'"
  shows "performs cfg acts w w'"
proof -
  have env: "mmap_contract (cfg_os cfg)" "munmap_contract (cfg_os cfg)" using k by (simp_all add: kernel_ok_def)
  from st w show ?thesis
  proof (induction rule: api_step.induct)
    case (api_malloc sz s ts j p s' t' live)
    then show ?case by (intro c_malloc_sim [OF env(1)])
  next
    case (api_calloc num sz s ts j p s' t' live)
    show ?case
    proof (cases "2 ^ 64 \<le> unat num * unat sz")
      case True
      then show ?thesis using api_calloc(2,3) c_calloc_overflow [OF True, of cfg s "ts j"] performs_none [of cfg s' ts live s ts]
        by (auto simp: with_new_def got_zeroed_def)
    next
      case False
      then have "unat num * unat sz \<le> 2 ^ 32 - PAGE" using api_calloc(1) by blast
      from c_calloc_sim [OF env(1) api_calloc(3) this api_calloc(2)] show ?thesis .
    qed
  next
    case (api_realloc p n live sz s m ts j q s' t')
    then show ?case by (intro c_realloc_sim [OF env])
  next
    case (api_realloc_null sz s ts j p s' t' live)
    then show ?case by (intro c_realloc_null_sim [OF env(1)])
  next
    case (api_free p live s ts j s' t')
    then show ?case using heap_ok_live(4) [OF world_okD(2) [OF api_free(3)]]
      by (cases "p = 0") (auto simp: gone_if_def intro: c_free_sim [OF env(2)] c_free_null_sim)
  next
    case (api_aligned k sz s ts j p s' t' live)
    then show ?case by (intro aligned_alloc_sim [OF env(1)])
  next
    case (api_memalign_refused macos a k sz s ts j code s' t' live)
    then have "s' = s\<lparr>override_aligned_alloc := True\<rparr>" "t' = ts j" by (auto simp: posix_memalign_def Let_def with_state_def)
    then show ?case using api_memalign_refused(3) by (intro performs_none) simp_all
  next
    case (api_memalign k sz r live a macos s ts j code s' t' p)
    then show ?case by (intro posix_memalign_sim [OF env(1)])
  next
    case (api_memalign_elsewhere k sz a s' macos s ts j code t' p live)
    then show ?case by (intro posix_memalign_elsewhere_sim [OF env(1)])
  next
    case (api_rust_alloc k sz s ts j p s' t' live)
    then show ?case by (intro rust_alloc_sim [OF env(1)])
  next
    case (api_rust_dealloc p live s ts j s' t')
    then show ?case by (intro c_free_sim [OF env(2)]) (simp_all add: rust_dealloc_def c_free_def)
  next
    case (api_rust_zeroed n sz align s ts j p s' t' live)
    then show ?case using c_calloc_sim [OF env(1) api_rust_zeroed(4), of 1 "align_val sz align" j p s' t'] by (simp add: rust_alloc_zeroed_def)
  next
    case (api_rust_realloc p n live z sz align s m ts j q s' t')
    then show ?case by (intro c_realloc_sim [OF env]) (simp_all add: rust_realloc_def c_realloc_def)
  next
    case (api_sym_zeroed k sz s ts j p s' t' live)
    then show ?case by (intro sym_zeroed_sim [OF env(1)])
  next
    case (api_write live a v s ts)
    then show ?case by (intro write_sim)
  next
    case (api_elsewhere s a ts live v)
    then show ?case by (intro elsewhere_sim) auto
  next
    case (api_end s ts live j)
    then show ?case by (rule end_sim)
  qed
qed

lemma api_step_sim:
  assumes "heap_rel cfg w h" "api_step cfg acts w w'" shows "\<exists>h'. run_all spec_do acts h = Some h' \<and> heap_rel cfg w' h'"
  using performs_rel [OF api_step_ok [OF _ _ assms(2)] assms(1)] assms(1) by (simp add: heap_rel_def)

interpretation c_heap: simulation "api_step cfg" spec_do "heap_rel cfg" for cfg
  by unfold_locales (rule api_step_sim)

section \<open>C programs from their start\<close>

lemma c_run_ok:
  fixes s :: "'s api_state_scheme"
  assumes "starts cfg s" "init_once cfg s = Some (Inr s1)" "traces (api_step cfg) acts (s1, \<lambda>_. thread_new, []) w"
  shows "kernel_ok cfg" "world_ok cfg w" "\<exists>h. run_all spec_do acts ([], Map.empty) = Some h \<and> heap_rel cfg w h"
proof -
  have "heap_rel cfg (s1, \<lambda>_. thread_new, []) ([], Map.empty)"
    using start_ok [OF assms(1,2)] spec_ok_empty by (simp add: heap_rel_def in_memory_def)
  from c_heap.run [OF assms(3) this]
  show "\<exists>h. run_all spec_do acts ([], Map.empty) = Some h \<and> heap_rel cfg w h" .
  then show "kernel_ok cfg" "world_ok cfg w" by (auto simp: heap_rel_def)
qed

text \<open>C5. A program that uses the C functions and the Rust allocator refines the specification of a heap. Whatever its threads call
  (\<^verbatim>\<open>malloc\<close>, \<^verbatim>\<open>calloc\<close>, \<^verbatim>\<open>realloc\<close> and \<^verbatim>\<open>free\<close>, also of null, \<^verbatim>\<open>aligned_alloc\<close>, \<^verbatim>\<open>posix_memalign\<close>, the Rust functions
  \<^verbatim>\<open>alloc\<close>, \<^verbatim>\<open>dealloc\<close>, \<^verbatim>\<open>alloc_zeroed\<close> and \<^verbatim>\<open>realloc\<close>), within the conditions of \<open>api_step\<close>, the specification performs the actions of the calls and
  of the stores in order and ends with the live allocations of the program, pairwise apart and not null. Every byte that
  the specification knows is in memory: what the program stored, the zeros of \<^verbatim>\<open>calloc\<close> and \<^verbatim>\<open>alloc_zeroed\<close> and the pointers of
  \<^verbatim>\<open>posix_memalign\<close>, for as long as their allocation is live and they are not overwritten, also after a reallocation.\<close>

theorem c_program_refines_spec:
  fixes s :: "'s api_state_scheme"
  assumes "starts cfg s" "init_once cfg s = Some (Inr s1)" "traces (api_step cfg) acts (s1, \<lambda>_. thread_new, []) (s', ts, live)"
  shows "\<exists>c. run_all spec_do acts ([], Map.empty) = Some (live, c) \<and> spec_ok (live, c) \<and> (\<forall>a v. c a = Some v \<longrightarrow> mem s' a = v)"
  using c_run_ok(3) [OF assms] by (auto simp: heap_rel_def in_memory_def)

text \<open>C8. In every state that a C program reaches, \<^verbatim>\<open>calloc\<close> of a product that overflows returns null and leaves every
  allocation alone; otherwise it returns an allocation apart from the live ones whose requested bytes are
  all zero, keeping the bytes of the live ones, or there is no memory for it.\<close>

theorem callocs_zero:
  fixes s :: "'s api_state_scheme"
  assumes "starts cfg s" "init_once cfg s = Some (Inr s1)" "traces (api_step cfg) acts (s1, \<lambda>_. thread_new, []) (s', ts, live)"
    and "n = unat num * unat sz" "n \<le> 2 ^ 32 - PAGE \<or> 2 ^ 64 \<le> n"
  shows "(\<exists>p s'' t'. c_calloc cfg num sz (s', ts j) = Some (Inr (p, s'', t')) \<and> (\<forall>a. covered live a \<longrightarrow> mem s'' a = mem s' a) \<and>
      (if 2 ^ 64 \<le> n then p = 0 \<and> mem s'' = mem s' \<and> t' = ts j
       else p \<noteq> 0 \<and> (\<forall>i < n. mem s'' (p + of_nat i) = 0) \<and> (\<forall>r \<in> set live. apart (p, n) r))) \<or>
    (\<exists>e. c_calloc cfg num sz (s', ts j) = Some (Inl e)) \<and> refused cfg (num * sz) (s'\<lparr>override_calloc := True, override_malloc := True\<rparr>) (ts j)"
proof (cases "2 ^ 64 \<le> n")
  case True
  then show ?thesis using c_calloc_overflow [of num sz cfg s' "ts j"] assms(4) by auto
next
  case False
  note kern = c_run_ok(1) [OF assms(1-3)] and w = c_run_ok(2) [OF assms(1-3)]
  have env: "mmap_contract (cfg_os cfg)" using kern by (simp add: kernel_ok_def)
  let ?s = "s'\<lparr>override_calloc := True, override_malloc := True\<rparr>"
  have n: "n \<le> 2 ^ 32 - PAGE" "unat (num * sz) = n" using False assms(4,5) unat_mult_lem [of num sz] by auto
  have c: "c_calloc cfg num sz (s', ts j) = orbind (do_malloc cfg (num * sz) (?s, ts j)) (\<lambda>(p, x2).
      orbind (Some (clear_bytes p n x2)) (\<lambda>x3. Some (Inr (p, x3))))"
    using False n(2) assms(4) by (simp add: c_calloc_def c_malloc_def with_state_def)
  have ok: "world_ok cfg (?s, ts, live)" using w by simp
  from do_malloc_owned [OF env world_okD(1) [OF ok] _ world_okD(2) [OF ok], of "num * sz" j] show ?thesis
  proof (elim meta_impE disjE exE conjE)
    fix p s1 t' assume d: "do_malloc cfg (num * sz) (?s, ts j) = Some (Inr (p, s1, t'))"
      "heap_ok (cfg_hash cfg) (cfg_target cfg) s1 (\<lambda>k. bins ((ts(j := t')) k)) ((p, unat (num * sz)) # live)" "data_kept ?s s1 live"
    note new = new_live [OF d(2) [unfolded n(2)]]
    let ?f = "put_bytes p (replicate n 0) (mem s1)"
    have cl: "clear_bytes p n (s1, t') = Inr (s1\<lparr>mem := ?f\<rparr>, t')" using new(4) by (intro cleared [OF new(1)]) simp
    have zero: "?f (p + of_nat i) = 0" if "i < n" for i using that new(4) put_bytes_at [of i "replicate n 0"] by simp
    have "?f a = mem s' a" if a: "covered live a" for a
    proof -
      have "\<not> covers (p, n) a" using a new(3) by (force simp: covered_def covers_def apart_def)
      then have "n \<le> unat (a - p)" by (intro outside_span [OF new(4)]) (auto simp: covers_def)
      then show ?thesis using data_kept_covered [OF d(3) a] by (simp add: put_bytes_def)
    qed
    moreover have "c_calloc cfg num sz (s', ts j) = Some (Inr (p, s1\<lparr>mem := ?f\<rparr>, t'))" by (simp add: c d(1) cl)
    ultimately show ?thesis using new(1,3) zero False by auto
  next
    fix e assume "do_malloc cfg (num * sz) (?s, ts j) = Some (Inl e)" "refused cfg (num * sz) ?s (ts j)"
    then show ?thesis by (simp add: c)
  qed (use n in simp)
qed

section \<open>A C program on the concrete kernel\<close>

definition new_api :: api_state where
  "new_api = malloc_state.extend new_malloc
     \<lparr>override_malloc = False, override_calloc = False, override_realloc = False, override_free = False,
      override_aligned_alloc = False\<rparr>"

lemma new_api_simps [simp]:
  "os_maps new_api = []" "os_calls new_api = 0" "\<not> use_boot new_api" "super_block (descs new_api d) = None" "fresh_malloc bump_cfg new_api"
proof -
  have "descs new_api = descs new_malloc" by (simp add: new_api_def malloc_state.defs)
  then show "super_block (descs new_api d) = None" by (simp add: new_malloc_unused)
  show "fresh_malloc bump_cfg new_api" "os_maps new_api = []" "os_calls new_api = 0" "\<not> use_boot new_api"
    using new_malloc_fresh new_malloc_simps(1,2,10)
    by (simp_all add: new_api_def malloc_state.defs fresh_malloc_def free_list_def pages_ok_def size_map_or_new_def del: new_malloc_simps)
qed

lemma new_api_starts: "starts nm_cfg new_api"
  by (rule nm_startsI) simp_all

lemma ready_flags [simp]:
  "malloc_ready cfg (s\<lparr>override_malloc := b\<rparr>) = malloc_ready cfg s" "malloc_ready cfg (s\<lparr>override_calloc := b\<rparr>) = malloc_ready cfg s"
  "partial_rep i (s\<lparr>override_malloc := b\<rparr>) ds = partial_rep i s ds" "partial_rep i (s\<lparr>override_calloc := b\<rparr>) ds = partial_rep i s ds"
  "free_list (s\<lparr>override_malloc := b\<rparr>) fs = free_list s fs" "free_list (s\<lparr>override_calloc := b\<rparr>) fs = free_list s fs"
  by (simp_all add: malloc_ready_def alloc_ok_def pm_ready_def tables_ok_def heap_class_def desc_live_def
      partial_rep_def free_list_def pages_ok_def size_map_or_new_def)

lemma new_api_calloc:
  "\<exists>s p s' t'. init_once nm_cfg new_api = Some (Inr s) \<and> c_calloc nm_cfg 10 10 (s, thread_new) = Some (Inr (p, s', t')) \<and> p \<noteq> 0"
proof -
  obtain s where s: "init_once bump_cfg new_api = Some (Inr s)" "malloc_ready bump_cfg s" "quiet bump_cfg s"
    "\<forall>i. 1 \<le> i \<and> i < MAX_SZ_IDX \<longrightarrow> partial_rep i s []" "free_list s []"
    "\<forall>r \<in> set (os_maps s). unat (fst r) + map_span (snd r) \<le> 1048576 + 2 ^ 41 + 135168"
    using first_init(2) [of new_api] by auto
  let ?s = "s\<lparr>override_calloc := True, override_malloc := True\<rparr>"
  have r: "malloc_ready bump_cfg ?s" "\<forall>i. 1 \<le> i \<and> i < MAX_SZ_IDX \<longrightarrow> partial_rep i ?s []" "free_list ?s []"
    "\<forall>r \<in> set (os_maps ?s). unat (fst r) + map_span (snd r) \<le> 1048576 + 2 ^ 41 + 135168"
    using s(2,4-6) by simp_all
  obtain sci c d s1 where f: "unat (100 :: usize) \<le> MAX_SZ" "get_size_class (sc_lookup ?s) (unat (100 :: usize)) = sci" "sc_table ?s ! sci = c"
    "sci < length (bins thread_new)" "block_num (bins thread_new ! sci) = 0" "partial_rep sci ?s []"
    "desc_alloc (cfg_os bump_cfg) (cfg_hash bump_cfg) ?s = Inr (d, s1)"
    "mmap (cfg_os bump_cfg) False (os_calls s1) (os_maps s1) (of_nat (sc_sb_size c)) \<noteq> MAP_FAILED"
    using ready_first [OF r] by blast
  have n: "mmap_contract (cfg_os nm_cfg)" "malloc_ready nm_cfg ?s" "quiet nm_cfg ?s" "desc_alloc (cfg_os nm_cfg) (cfg_hash nm_cfg) ?s = Inr (d, s1)"
    "mmap (cfg_os nm_cfg) False (os_calls s1) (os_maps s1) (of_nat (sc_sb_size c)) \<noteq> MAP_FAILED"
    using r(1) s(3) f(7,8) bump_env_contract by (simp_all add: nm_cfg_same)
  obtain p s' t' where m: "do_malloc nm_cfg 100 (?s, thread_new) = Some (Inr (p, s', t'))" "os_maps s' = (p, of_nat (sc_sb_size c)) # os_maps s1" "maps_ok (os_maps s')"
    using do_malloc_first [OF n(1-3) f(1-3) refl f(4-6) n(4) refl n(5)] by blast
  have "valid_map (p, of_nat (sc_sb_size c))" using maps_ok_valid [OF m(3)] m(2) by simp
  then have p: "p \<noteq> 0" by (simp add: valid_map_def)
  have "c_calloc nm_cfg 10 10 (s, thread_new) = orbind (do_malloc nm_cfg 100 (?s, thread_new)) (\<lambda>(p, x2).
      orbind (Some (clear_bytes p 100 x2)) (\<lambda>x3. Some (Inr (p, x3))))"
    by (simp add: c_calloc_def c_malloc_def with_state_def)
  then have "\<exists>y. c_calloc nm_cfg 10 10 (s, thread_new) = Some (Inr (p, y))" using p m(1) clear_bytes_result [of p 100 "(s', t')"] by simp
  moreover have "init_once nm_cfg new_api = Some (Inr s)" using s(1) by (simp add: nm_cfg_same)
  ultimately show ?thesis using p by force
qed

theorem callocs_zero_witness:
  "\<exists>s p y. init_once nm_cfg new_api = Some (Inr s) \<and> c_calloc nm_cfg 10 10 (s, thread_new) = Some (Inr (p, y)) \<and> mem (fst y) (p + 99) = 0"
proof -
  obtain s p s' t' where r: "init_once nm_cfg new_api = Some (Inr s)" "c_calloc nm_cfg 10 10 (s, thread_new) = Some (Inr (p, s', t'))"
    using new_api_calloc by blast
  have "100 = unat (10 :: usize) * unat (10 :: usize)" "100 \<le> 2 ^ 32 - PAGE \<or> (2 :: nat) ^ 64 \<le> 100" by (simp_all add: PAGE_value)
  from callocs_zero [OF new_api_starts r(1) trace_nil this]
  have "\<forall>i < 100. mem s' (p + of_nat i) = 0" unfolding r(2) by auto
  then have "mem s' (p + of_nat 99) = 0" by (simp del: of_nat_numeral)
  then have "mem (fst (s', t')) (p + 99) = 0" by simp
  then show ?thesis using r by blast
qed

text \<open>The actions of \<^verbatim>\<open>calloc(10, 10)\<close>.\<close>

theorem c_program_refines_spec_witness:
  "\<exists>s s' ts p c. p \<noteq> 0 \<and> init_once nm_cfg new_api = Some (Inr s) \<and>
    traces (api_step nm_cfg) (got_zeroed p 100) (s, \<lambda>_. thread_new, []) (s', ts, with_new p 100 []) \<and>
    run_all spec_do (got_zeroed p 100) ([], Map.empty) = Some (with_new p 100 [], c) \<and> spec_ok (with_new p 100 [], c)"
proof -
  obtain s p s' t' where r: "init_once nm_cfg new_api = Some (Inr s)" "c_calloc nm_cfg 10 10 (s, thread_new) = Some (Inr (p, s', t'))" "p \<noteq> 0"
    using new_api_calloc by blast
  have "unat (10 :: usize) * unat (10 :: usize) \<le> 2 ^ 32 - PAGE \<or> 2 ^ 64 \<le> unat (10 :: usize) * unat (10 :: usize)" by (simp add: PAGE_value)
  from api_calloc [where ts = "\<lambda>_ :: nat. thread_new" and j = 3 and live = "[]", OF this r(2)]
  have "api_step nm_cfg (got_zeroed p 100) (s, \<lambda>_. thread_new, []) (s', (\<lambda>_. thread_new)(3 := t'), with_new p 100 [])" by simp
  then have star: "traces (api_step nm_cfg) (got_zeroed p 100) (s, \<lambda>_. thread_new, []) (s', (\<lambda>_. thread_new)(3 := t'), with_new p 100 [])"
    by (rule trace_one)
  from c_program_refines_spec [OF new_api_starts r(1) star] show ?thesis using r(1,3) star by blast
qed

end
