(* ===== verification/Partial_List.thy ===== *)
theory Partial_List
  imports Central
begin

text \<open>
  The partial list of a heap under concurrency: \<^verbatim>\<open>list_push_partial\<close> and \<^verbatim>\<open>list_pop_partial\<close> of \<^verbatim>\<open>src/alloc.rs\<close> access
  by access. \<open>Central\<close> runs them as whole calls; here any number of threads execute them on the same
  list, and a step is one atomic access of one thread: a load of the head, a load or a store of
  \<^verbatim>\<open>next_partial\<close>, a compare-and-swap, which may also fail for no reason (\<^verbatim>\<open>compare_exchange_weak\<close>).
  Accesses are sequentially consistent. A step shows its linearisation point as an event.
\<close>

section \<open>Steps\<close>

datatype list_pc = Idle
  | PushLoad usize | PushStore usize "descriptor_node option" | PushCas usize "descriptor_node option"
  | PopLoad | PopNext descriptor_node | PopCas descriptor_node "descriptor_node option"
  | Crashed

datatype list_event = Pushed usize | Popped "usize option"

text \<open>\<open>pl_out\<close> are the descriptors outside the list that may be pushed: a thread that pops one may push it again later.\<close>

record partial_state =
  pl_head :: "descriptor_node option"
  pl_next :: "usize \<Rightarrow> descriptor_node option"
  pl_pc :: "nat \<Rightarrow> list_pc"
  pl_out :: "usize list"

definition pl_goto :: "nat \<Rightarrow> list_pc \<Rightarrow> partial_state \<Rightarrow> partial_state" where
  "pl_goto t p s = s\<lparr>pl_pc := (pl_pc s)(t := p)\<rparr>"

definition pushed_head :: "usize \<Rightarrow> descriptor_node option \<Rightarrow> descriptor_node" where
  "pushed_head d old_head = node_set (Some d) (case old_head of None \<Rightarrow> 0 | Some n \<Rightarrow> node_get_counter n + 1)"

definition popped_head :: "descriptor_node option \<Rightarrow> descriptor_node option res" where
  "popped_head new_head =
     (case new_head of
        None \<Rightarrow> Inr None
      | Some node \<Rightarrow> rbind (unwrap (node_get_desc node)) (\<lambda>desc. Inr (Some (node_set (Some desc) (node_get_counter node)))))"

fun popping :: "list_pc \<Rightarrow> bool" where
  "popping PopLoad = True"
| "popping (PopNext n) = True"
| "popping (PopCas n m) = True"
| "popping _ = False"

text \<open>With \<open>serial\<close>, a pop starts only while no other thread is inside a pop.\<close>

inductive list_step :: "bool \<Rightarrow> partial_state \<Rightarrow> list_event list \<Rightarrow> partial_state \<Rightarrow> bool" for serial where
  push_begin: "pl_pc s t = Idle \<Longrightarrow> d \<in> set (pl_out s) \<Longrightarrow>
    list_step serial s [] (pl_goto t (PushLoad d) (s\<lparr>pl_out := remove1 d (pl_out s)\<rparr>))"
| push_load: "pl_pc s t = PushLoad d \<Longrightarrow> list_step serial s [] (pl_goto t (PushStore d (pl_head s)) s)"
| push_store: "pl_pc s t = PushStore d old \<Longrightarrow> list_step serial s [] (pl_goto t (PushCas d old) (s\<lparr>pl_next := (pl_next s)(d := old)\<rparr>))"
| push_cas: "pl_pc s t = PushCas d old \<Longrightarrow> pl_head s = old \<Longrightarrow>
    list_step serial s [Pushed d] (pl_goto t Idle (s\<lparr>pl_head := Some (pushed_head d old)\<rparr>))"
| push_retry: "pl_pc s t = PushCas d old \<Longrightarrow> list_step serial s [] (pl_goto t (PushLoad d) s)"
| pop_begin: "pl_pc s t = Idle \<Longrightarrow> (serial \<Longrightarrow> \<forall>u. \<not> popping (pl_pc s u)) \<Longrightarrow> list_step serial s [] (pl_goto t PopLoad s)"
| pop_none: "pl_pc s t = PopLoad \<Longrightarrow> pl_head s = None \<Longrightarrow> list_step serial s [Popped None] (pl_goto t Idle s)"
| pop_load: "pl_pc s t = PopLoad \<Longrightarrow> pl_head s = Some old \<Longrightarrow> list_step serial s [] (pl_goto t (PopNext old) s)"
| pop_next: "pl_pc s t = PopNext old \<Longrightarrow> node_get_desc old = Some d \<Longrightarrow> popped_head (pl_next s d) = Inr new \<Longrightarrow>
    list_step serial s [] (pl_goto t (PopCas old new) s)"
| pop_crash: "pl_pc s t = PopNext old \<Longrightarrow> rbind (unwrap (node_get_desc old)) (\<lambda>d. popped_head (pl_next s d)) = Inl e \<Longrightarrow>
    list_step serial s [] (pl_goto t Crashed s)"
| pop_cas: "pl_pc s t = PopCas old new \<Longrightarrow> pl_head s = Some old \<Longrightarrow> node_get_desc old = Some d \<Longrightarrow>
    list_step serial s [Popped (Some d)] (pl_goto t Idle (s\<lparr>pl_head := new, pl_out := d # pl_out s\<rparr>))"
| pop_retry: "pl_pc s t = PopCas old new \<Longrightarrow> list_step serial s [] (pl_goto t PopLoad s)"

inductive list_run :: "bool \<Rightarrow> partial_state \<Rightarrow> list_event list \<Rightarrow> partial_state \<Rightarrow> bool" for serial where
  run_none: "list_run serial s [] s"
| run_more: "list_run serial s es s1 \<Longrightarrow> list_step serial s1 e s2 \<Longrightarrow> list_run serial s (es @ e) s2"

text \<open>What the events mean: a stack of descriptors. \<open>None\<close> is a history that no stack has.\<close>

fun stack_event :: "list_event \<Rightarrow> usize list \<Rightarrow> usize list option" where
  "stack_event (Pushed d) xs = Some (d # xs)"
| "stack_event (Popped None) xs = (if xs = [] then Some [] else None)"
| "stack_event (Popped (Some d)) xs = (case xs of [] \<Rightarrow> None | x # ys \<Rightarrow> if x = d then Some ys else None)"

fun replay :: "list_event list \<Rightarrow> usize list \<Rightarrow> usize list option" where
  "replay [] xs = Some xs"
| "replay (e # es) xs = (case stack_event e xs of None \<Rightarrow> None | Some ys \<Rightarrow> replay es ys)"

lemma replay_append: "replay (es @ fs) xs = (case replay es xs of None \<Rightarrow> None | Some ys \<Rightarrow> replay fs ys)"
  by (induction es arbitrary: xs) (auto split: option.splits)

section \<open>Invariant\<close>

text \<open>The list as a chain of nodes.\<close>

fun node_chain :: "descriptor_node option \<Rightarrow> (usize \<Rightarrow> descriptor_node option) \<Rightarrow> usize list \<Rightarrow> bool" where
  "node_chain h nx [] = (h = None)"
| "node_chain h nx (d # ds) = (\<exists>n. h = Some n \<and> node_get_desc n = Some d \<and> node_chain (nx d) nx ds)"

text \<open>The descriptor that a push has taken and not yet linked.\<close>

fun in_flight :: "list_pc \<Rightarrow> usize option" where
  "in_flight (PushLoad d) = Some d"
| "in_flight (PushStore d old) = Some d"
| "in_flight (PushCas d old) = Some d"
| "in_flight _ = None"

text \<open>What the local variables of a thread say of the list \<open>xs\<close>.\<close>

fun pc_ok :: "partial_state \<Rightarrow> usize list \<Rightarrow> list_pc \<Rightarrow> bool" where
  "pc_ok s xs (PushCas d old) = (pl_next s d = old)"
| "pc_ok s xs (PopNext old) = (\<exists>d \<in> set xs. node_get_desc old = Some d)"
| "pc_ok s xs (PopCas old new) = (\<exists>d \<in> set xs. node_get_desc old = Some d \<and> pl_next s d = new)"
| "pc_ok s xs Crashed = False"
| "pc_ok s xs _ = True"

definition list_inv :: "partial_state \<Rightarrow> usize list \<Rightarrow> bool" where
  "list_inv s xs \<longleftrightarrow> node_chain (pl_head s) (pl_next s) xs \<and> distinct xs \<and> distinct (pl_out s) \<and> set xs \<inter> set (pl_out s) = {} \<and>
     (\<forall>d \<in> set (pl_out s). desc_addr d) \<and>
     (\<forall>t d. in_flight (pl_pc s t) = Some d \<longrightarrow> desc_addr d \<and> d \<notin> set xs \<and> d \<notin> set (pl_out s)) \<and>
     (\<forall>t u d. in_flight (pl_pc s t) = Some d \<longrightarrow> in_flight (pl_pc s u) = Some d \<longrightarrow> t = u) \<and>
     (\<forall>t. pc_ok s xs (pl_pc s t)) \<and> (\<forall>t u. popping (pl_pc s t) \<longrightarrow> popping (pl_pc s u) \<longrightarrow> t = u)"

definition outside :: "partial_state \<Rightarrow> usize set" where
  "outside s = set (pl_out s) \<union> {d. \<exists>t. in_flight (pl_pc s t) = Some d}"

lemma node_set_get: "node_get_desc n = Some d \<Longrightarrow> node_set (Some d) (node_get_counter n) = n"
  by (auto simp: node_get_desc_def node_set_def node_get_counter_def CACHE_LINE_MASK_mask Let_def bit_simps split: if_splits
      intro!: bit_word_eqI)

lemma popped_head_same: "node_chain h nx xs \<Longrightarrow> popped_head h = Inr h"
  by (cases xs) (auto simp: popped_head_def node_set_get)

lemma node_chain_frame: "d \<notin> set xs \<Longrightarrow> node_chain h (nx(d := v)) xs = node_chain h nx xs"
  by (induction xs arbitrary: h) auto

lemma node_chain_suffix: "node_chain h nx xs \<Longrightarrow> d \<in> set xs \<Longrightarrow> \<exists>ys. node_chain (nx d) nx ys"
  by (induction xs arbitrary: h) auto

lemma node_get_desc_pushed [simp]: "desc_addr d \<Longrightarrow> node_get_desc (pushed_head d old) = Some d"
  by (simp add: pushed_head_def)

lemma list_invD:
  assumes "list_inv s xs"
  shows "node_chain (pl_head s) (pl_next s) xs" "distinct xs" "distinct (pl_out s)" "set xs \<inter> set (pl_out s) = {}"
    "d \<in> set (pl_out s) \<Longrightarrow> desc_addr d" "in_flight (pl_pc s t) = Some d \<Longrightarrow> desc_addr d \<and> d \<notin> set xs \<and> d \<notin> set (pl_out s)"
    "in_flight (pl_pc s t) = Some d \<Longrightarrow> in_flight (pl_pc s u) = Some d \<Longrightarrow> t = u" "pc_ok s xs (pl_pc s t)"
    "popping (pl_pc s t) \<Longrightarrow> popping (pl_pc s u) \<Longrightarrow> t = u"
  using assms by (auto simp: list_inv_def)

lemma list_invI:
  assumes "node_chain (pl_head s) (pl_next s) xs" "distinct xs" "distinct (pl_out s)" "set xs \<inter> set (pl_out s) = {}"
    "\<And>d. d \<in> set (pl_out s) \<Longrightarrow> desc_addr d" "\<And>t d. in_flight (pl_pc s t) = Some d \<Longrightarrow> desc_addr d \<and> d \<notin> set xs \<and> d \<notin> set (pl_out s)"
    "\<And>t u d. in_flight (pl_pc s t) = Some d \<Longrightarrow> in_flight (pl_pc s u) = Some d \<Longrightarrow> t = u" "\<And>t. pc_ok s xs (pl_pc s t)"
    "\<And>t u. popping (pl_pc s t) \<Longrightarrow> popping (pl_pc s u) \<Longrightarrow> t = u"
  shows "list_inv s xs"
  unfolding list_inv_def using assms by blast

lemma pl_goto_simps [simp]:
  "pl_head (pl_goto t p s) = pl_head s" "pl_next (pl_goto t p s) = pl_next s" "pl_out (pl_goto t p s) = pl_out s"
  "pl_pc (pl_goto t p s) = (pl_pc s)(t := p)"
  by (simp_all add: pl_goto_def)

lemma pc_ok_cong: "pl_next s = pl_next s' \<Longrightarrow> pc_ok s xs p = pc_ok s' xs p"
  by (cases p) auto

text \<open>Steps that only change local variables.\<close>

lemma list_inv_goto:
  assumes "list_inv s xs" "in_flight p = in_flight (pl_pc s t)" "pc_ok s xs p"
    "popping p \<Longrightarrow> popping (pl_pc s t) \<or> (\<forall>u. \<not> popping (pl_pc s u))"
  shows "list_inv (pl_goto t p s) xs" "outside (pl_goto t p s) = outside s"
proof -
  note inv = list_invD [OF assms(1)]
  have flight: "in_flight (((pl_pc s)(t := p)) u) = in_flight (pl_pc s u)" for u using assms(2) by simp
  have pop: "u = v" if "popping (((pl_pc s)(t := p)) u)" "popping (((pl_pc s)(t := p)) v)" for u v
    using that assms(4) inv(9) by (auto split: if_splits)
  have pcs: "pc_ok (pl_goto t p s) xs (((pl_pc s)(t := p)) u)" for u
    using assms(3) inv(8) [of u] pc_ok_cong [of "pl_goto t p s" s] by simp
  show "list_inv (pl_goto t p s) xs" unfolding list_inv_def pl_goto_simps flight using inv pop pcs by blast
  show "outside (pl_goto t p s) = outside s" unfolding outside_def pl_goto_simps flight by simp
qed

lemma push_begin_inv:
  assumes "list_inv s xs" "pl_pc s t = Idle" "d \<in> set (pl_out s)"
  shows "list_inv (pl_goto t (PushLoad d) (s\<lparr>pl_out := remove1 d (pl_out s)\<rparr>)) xs"
    "outside (pl_goto t (PushLoad d) (s\<lparr>pl_out := remove1 d (pl_out s)\<rparr>)) = outside s"
proof -
  note inv = list_invD [OF assms(1)]
  let ?s = "pl_goto t (PushLoad d) (s\<lparr>pl_out := remove1 d (pl_out s)\<rparr>)"
  have pcs: "pc_ok ?s xs (pl_pc ?s u)" for u using inv(8) [of u] pc_ok_cong [of ?s s] by simp
  have out: "set (remove1 d (pl_out s)) = set (pl_out s) - {d}" using inv(3) by simp
  have fl: "d' \<noteq> d" if "in_flight (pl_pc s u) = Some d'" for u d' using inv(6) [OF that] assms(3) by auto
  have xs: "d \<notin> set xs" using inv(4) assms(3) by auto
  show "list_inv ?s xs"
    unfolding list_inv_def using inv pcs out fl xs assms(3) by (auto split: if_splits)
  show "outside ?s = outside s" using out fl assms(2,3) by (auto simp: outside_def) (metis in_flight.simps(4) option.distinct(1))
qed

lemma push_store_inv:
  assumes "list_inv s xs" "pl_pc s t = PushStore d old"
  shows "list_inv (pl_goto t (PushCas d old) (s\<lparr>pl_next := (pl_next s)(d := old)\<rparr>)) xs"
    "outside (pl_goto t (PushCas d old) (s\<lparr>pl_next := (pl_next s)(d := old)\<rparr>)) = outside s"
proof -
  note inv = list_invD [OF assms(1)]
  let ?s = "s\<lparr>pl_next := (pl_next s)(d := old)\<rparr>"
  have fl: "in_flight (pl_pc s t) = Some d" using assms(2) by simp
  have d: "d \<notin> set xs" using inv(6) [OF fl] by blast
  have "pc_ok ?s xs (pl_pc s u)" for u
  proof -
    have "d \<noteq> d'" if "pl_pc s u = PushCas d' o'" for d' o' using inv(7) [OF fl, of u] that assms(2) by auto
    then show ?thesis using inv(8) [of u] d by (cases "pl_pc s u") auto
  qed
  moreover have "node_chain (pl_head s) ((pl_next s)(d := old)) xs" using inv(1) d by (simp add: node_chain_frame)
  ultimately have s: "list_inv ?s xs" using assms(1) by (simp add: list_inv_def)
  show "list_inv (pl_goto t (PushCas d old) ?s) xs" using assms(2) by (intro list_inv_goto [OF s]) simp_all
  have "outside (pl_goto t (PushCas d old) ?s) = outside ?s" using assms(2) by (intro list_inv_goto [OF s]) simp_all
  then show "outside (pl_goto t (PushCas d old) ?s) = outside s" by (simp add: outside_def)
qed

text \<open>The two linearisation points.\<close>

lemma idle_flight: "in_flight (((pl_pc s)(t := Idle)) u) = Some d \<longleftrightarrow> u \<noteq> t \<and> in_flight (pl_pc s u) = Some d"
  by auto

lemma idle_popping: "popping (((pl_pc s)(t := Idle)) u) \<longleftrightarrow> u \<noteq> t \<and> popping (pl_pc s u)"
  by auto

lemma push_cas_inv:
  assumes "list_inv s xs" "pl_pc s t = PushCas d (pl_head s)"
  shows "list_inv (pl_goto t Idle (s\<lparr>pl_head := Some (pushed_head d (pl_head s))\<rparr>)) (d # xs)" (is "list_inv ?s _")
    "insert d (outside (pl_goto t Idle (s\<lparr>pl_head := Some (pushed_head d (pl_head s))\<rparr>))) = outside s"
proof -
  note inv = list_invD [OF assms(1)]
  have fl: "in_flight (pl_pc s t) = Some d" using assms(2) by simp
  note d = inv(6) [OF fl]
  have other: "u = t" if "in_flight (pl_pc s u) = Some d" for u using inv(7) [OF fl, of u] that by auto
  show "list_inv ?s (d # xs)"
  proof (rule list_invI, unfold pl_goto_simps)
    have "pl_next s d = pl_head s" using inv(8) [of t] assms(2) by simp
    then show "node_chain (pl_head (s\<lparr>pl_head := Some (pushed_head d (pl_head s))\<rparr>)) (pl_next (s\<lparr>pl_head := Some (pushed_head d (pl_head s))\<rparr>)) (d # xs)"
      using inv(1) d by simp
    show "pc_ok ?s (d # xs) (((pl_pc (s\<lparr>pl_head := Some (pushed_head d (pl_head s))\<rparr>))(t := Idle)) u)" for u
      using inv(8) [of u] by (cases "pl_pc s u") auto
  qed (use inv d other in \<open>auto simp: idle_flight idle_popping simp del: fun_upd_apply\<close>)
  have "u \<noteq> t" if "in_flight (pl_pc s u) = Some x" "x \<noteq> d" for u x using that fl by auto
  then show "insert d (outside ?s) = outside s"
    unfolding outside_def pl_goto_simps using fl by (auto simp: idle_flight simp del: fun_upd_apply)
qed

lemma pop_cas_inv:
  assumes "list_inv s xs" "pl_pc s t = PopCas old new" "pl_head s = Some old" "node_get_desc old = Some d"
  shows "\<exists>ys. xs = d # ys \<and> list_inv (pl_goto t Idle (s\<lparr>pl_head := new, pl_out := d # pl_out s\<rparr>)) ys"
    "outside (pl_goto t Idle (s\<lparr>pl_head := new, pl_out := d # pl_out s\<rparr>)) = insert d (outside s)"
proof -
  note inv = list_invD [OF assms(1)]
  let ?s1 = "s\<lparr>pl_head := new, pl_out := d # pl_out s\<rparr>" and ?s = "pl_goto t Idle (s\<lparr>pl_head := new, pl_out := d # pl_out s\<rparr>)"
  obtain ys where ys: "xs = d # ys" "node_chain (pl_next s d) (pl_next s) ys" using inv(1) assms(3,4) by (cases xs) auto
  have new: "pl_next s d = new" using inv(8) [of t] assms(2,4) by simp
  have d: "desc_addr d" "d \<notin> set (pl_out s)" "d \<notin> set ys" using node_get_desc_addr [OF assms(4)] inv(2,4) ys(1) by auto
  have "list_inv ?s ys"
  proof (rule list_invI, unfold pl_goto_simps)
    show "node_chain (pl_head ?s1) (pl_next ?s1) ys" using ys(2) new by simp
    show "pc_ok ?s ys (((pl_pc ?s1)(t := Idle)) u)" for u
    proof -
      have "\<not> popping (pl_pc s u)" if "u \<noteq> t" using inv(9) [of t u] assms(2) that by auto
      then show ?thesis using inv(8) [of u] ys(1) by (cases "pl_pc s u") auto
    qed
  qed (use inv d ys(1) in \<open>auto simp: idle_flight idle_popping simp del: fun_upd_apply\<close>)
  then show "\<exists>ys. xs = d # ys \<and> list_inv ?s ys" using ys(1) by blast
  have other: "u \<noteq> t" if "in_flight (pl_pc s u) = Some x" for u x using that assms(2) by auto
  show "outside ?s = insert d (outside s)"
    unfolding outside_def pl_goto_simps using other by (auto simp: idle_flight simp del: fun_upd_apply)
qed

lemma list_step_inv:
  assumes "list_step True s e s'" "list_inv s xs"
  shows "\<exists>ys. replay e xs = Some ys \<and> list_inv s' ys \<and> set ys \<union> outside s' = set xs \<union> outside s"
  using assms
proof (induction rule: list_step.induct)
  case (push_begin s t d)
  then show ?case using push_begin_inv [OF push_begin(3,1,2)] by simp
next
  case (push_load s t d)
  then show ?case using list_inv_goto [of s xs "PushStore d (pl_head s)" t] by simp
next
  case (push_store s t d old)
  then show ?case using push_store_inv [OF push_store(2,1)] by simp
next
  case (push_cas s t d old)
  then show ?case using push_cas_inv [of s xs t d] by auto
next
  case (push_retry s t d old)
  then show ?case using list_inv_goto [of s xs "PushLoad d" t] by simp
next
  case (pop_begin s t)
  then show ?case using list_inv_goto [of s xs PopLoad t] by simp
next
  case (pop_none s t)
  then have "xs = []" using list_invD(1) [of s xs] by (cases xs) auto
  then show ?case using pop_none list_inv_goto [of s xs Idle t] by simp
next
  case (pop_load s t old)
  then have "\<exists>d \<in> set xs. node_get_desc old = Some d" using list_invD(1) [of s xs] by (cases xs) auto
  then show ?case using pop_load list_inv_goto [of s xs "PopNext old" t] by simp
next
  case (pop_next s t old d new)
  note inv = list_invD [OF pop_next(4)]
  have d: "d \<in> set xs" using inv(8) [of t] pop_next(1,2) by auto
  then have "new = pl_next s d" using node_chain_suffix [OF inv(1) d] popped_head_same [of "pl_next s d"] pop_next(3) by auto
  then show ?case using pop_next d list_inv_goto [of s xs "PopCas old new" t] by simp
next
  case (pop_crash s t old e)
  note inv = list_invD [OF pop_crash(3)]
  obtain d where d: "d \<in> set xs" "node_get_desc old = Some d" using inv(8) [of t] pop_crash(1) by auto
  then have "popped_head (pl_next s d) = Inr (pl_next s d)" using node_chain_suffix [OF inv(1) d(1)] popped_head_same by blast
  then show ?case using pop_crash(2) d(2) by simp
next
  case (pop_cas s t old new d)
  then show ?case using pop_cas_inv [OF pop_cas(4,1,2,3)] by auto
next
  case (pop_retry s t old new)
  then show ?case using list_inv_goto [of s xs PopLoad t] by simp
qed

definition list_start :: "usize list \<Rightarrow> partial_state" where
  "list_start ds = \<lparr>pl_head = None, pl_next = (\<lambda>_. None), pl_pc = (\<lambda>_. Idle), pl_out = ds\<rparr>"

lemma list_start_inv: "distinct ds \<Longrightarrow> (\<And>d. d \<in> set ds \<Longrightarrow> desc_addr d) \<Longrightarrow> list_inv (list_start ds) []" "outside (list_start ds) = set ds"
  by (simp_all add: list_inv_def list_start_def outside_def)

lemma list_run_inv:
  assumes "list_run True s es s'" "list_inv s xs"
  shows "\<exists>ys. replay es xs = Some ys \<and> list_inv s' ys \<and> set ys \<union> outside s' = set xs \<union> outside s"
  using assms
proof (induction rule: list_run.induct)
  case (run_more s es s1 e s2)
  then obtain ys where ys: "replay es xs = Some ys" "list_inv s1 ys" "set ys \<union> outside s1 = set xs \<union> outside s" by blast
  then obtain zs where "replay e ys = Some zs" "list_inv s2 zs" "set zs \<union> outside s2 = set ys \<union> outside s1"
    using list_step_inv [OF run_more(2)] by blast
  then show ?case using ys by (auto simp: replay_append)
qed auto

section \<open>A thread that is not disturbed\<close>

lemma list_run_step: "list_step serial s e s' \<Longrightarrow> list_run serial s e s'"
  using run_more [OF run_none] by fastforce

lemma list_run_trans: "list_run serial s1 fs s2 \<Longrightarrow> list_run serial s es s1 \<Longrightarrow> list_run serial s (es @ fs) s2"
proof (induction rule: list_run.induct)
  case (run_more s' fs s1 e s2)
  then show ?case using list_run.run_more by (metis append.assoc)
qed simp

text \<open>The state after a whole push and after a whole pop.\<close>

definition after_push :: "usize \<Rightarrow> partial_state \<Rightarrow> partial_state" where
  "after_push d s = s\<lparr>pl_head := Some (pushed_head d (pl_head s)), pl_next := (pl_next s)(d := pl_head s), pl_out := remove1 d (pl_out s)\<rparr>"

definition after_pop :: "usize \<Rightarrow> descriptor_node option \<Rightarrow> partial_state \<Rightarrow> partial_state" where
  "after_pop d new s = s\<lparr>pl_head := new, pl_out := d # pl_out s\<rparr>"

lemma solo_push:
  assumes "pl_pc s t = Idle" "d \<in> set (pl_out s)"
  shows "list_run serial s [Pushed d] (after_push d s)"
proof -
  let ?s1 = "pl_goto t (PushLoad d) (s\<lparr>pl_out := remove1 d (pl_out s)\<rparr>)"
  let ?s2 = "pl_goto t (PushStore d (pl_head s)) ?s1"
  let ?s3 = "pl_goto t (PushCas d (pl_head s)) (?s2\<lparr>pl_next := (pl_next ?s2)(d := pl_head s)\<rparr>)"
  let ?s4 = "pl_goto t Idle (?s3\<lparr>pl_head := Some (pushed_head d (pl_head s))\<rparr>)"
  have r1: "list_step serial s [] ?s1" by (rule list_step.push_begin [OF assms])
  have r2: "list_step serial ?s1 [] ?s2" using list_step.push_load [of ?s1 t d serial] by simp
  have r3: "list_step serial ?s2 [] ?s3" by (rule list_step.push_store) simp
  have r4: "list_step serial ?s3 [Pushed d] ?s4" by (rule list_step.push_cas) simp_all
  have "list_run serial s [Pushed d] ?s4" using run_more [OF run_more [OF run_more [OF run_more [OF run_none r1] r2] r3] r4] by simp
  moreover have "?s4 = after_push d s" using assms(1) by (simp add: pl_goto_def after_push_def fun_upd_idem)
  ultimately show ?thesis by simp
qed

text \<open>A pop up to its compare-and-swap, and the rest of it.\<close>

definition ready_to_pop :: "nat \<Rightarrow> descriptor_node \<Rightarrow> descriptor_node option \<Rightarrow> partial_state \<Rightarrow> partial_state" where
  "ready_to_pop t old new s = pl_goto t (PopCas old new) s"

lemma solo_pop_reads:
  assumes "pl_pc s t = Idle" "serial \<Longrightarrow> \<forall>u. \<not> popping (pl_pc s u)" "pl_head s = Some old" "node_get_desc old = Some d" "popped_head (pl_next s d) = Inr new"
  shows "list_run serial s [] (ready_to_pop t old new s)"
proof -
  let ?s1 = "pl_goto t PopLoad s"
  let ?s2 = "pl_goto t (PopNext old) ?s1"
  let ?s3 = "pl_goto t (PopCas old new) ?s2"
  have r1: "list_step serial s [] ?s1" by (rule list_step.pop_begin [OF assms(1,2)])
  have r2: "list_step serial ?s1 [] ?s2" by (rule list_step.pop_load) (simp_all add: assms(3))
  have r3: "list_step serial ?s2 [] ?s3" by (rule list_step.pop_next [OF _ assms(4)]) (simp_all add: assms(5))
  have "list_run serial s [] ?s3" using run_more [OF run_more [OF run_more [OF run_none r1] r2] r3] by simp
  moreover have "?s3 = ready_to_pop t old new s" by (simp add: pl_goto_def ready_to_pop_def)
  ultimately show ?thesis by simp
qed

lemma solo_pop:
  assumes "pl_pc s t = Idle" "serial \<Longrightarrow> \<forall>u. \<not> popping (pl_pc s u)" "pl_head s = Some old" "node_get_desc old = Some d" "popped_head (pl_next s d) = Inr new"
  shows "list_run serial s [Popped (Some d)] (after_pop d new s)"
proof -
  let ?s3 = "ready_to_pop t old new s"
  have "list_step serial ?s3 [Popped (Some d)] (pl_goto t Idle (?s3\<lparr>pl_head := new, pl_out := d # pl_out ?s3\<rparr>))"
    using assms(3,4) by (intro list_step.pop_cas [of _ t old]) (simp_all add: ready_to_pop_def)
  moreover have "pl_goto t Idle (?s3\<lparr>pl_head := new, pl_out := d # pl_out ?s3\<rparr>) = after_pop d new s"
    using assms(1) by (simp add: pl_goto_def ready_to_pop_def after_pop_def fun_upd_idem)
  ultimately show ?thesis using run_more [OF solo_pop_reads [OF assms]] by simp
qed

lemma solo_pop_none:
  assumes "pl_pc s t = Idle" "serial \<Longrightarrow> \<forall>u. \<not> popping (pl_pc s u)" "pl_head s = None"
  shows "list_run serial s [Popped None] s"
proof -
  let ?s1 = "pl_goto t PopLoad s"
  have "list_step serial s [] ?s1" by (rule list_step.pop_begin [OF assms(1,2)])
  moreover have "list_step serial ?s1 [Popped None] (pl_goto t Idle ?s1)" using assms(3) by (intro list_step.pop_none) simp_all
  moreover have "pl_goto t Idle ?s1 = s" using assms(1) by (simp add: pl_goto_def fun_upd_idem)
  ultimately show ?thesis using run_more [OF list_run_step, of serial s "[]"] by simp
qed

lemma finish_push:
  assumes "pl_pc s t = PushLoad d"
  shows "\<exists>es s'. list_run serial s es s' \<and> pl_pc s' = (pl_pc s)(t := Idle)"
proof -
  let ?s2 = "pl_goto t (PushStore d (pl_head s)) s"
  let ?s3 = "pl_goto t (PushCas d (pl_head s)) (?s2\<lparr>pl_next := (pl_next ?s2)(d := pl_head s)\<rparr>)"
  let ?s4 = "pl_goto t Idle (?s3\<lparr>pl_head := Some (pushed_head d (pl_head s))\<rparr>)"
  have r2: "list_step serial s [] ?s2" by (rule list_step.push_load [OF assms])
  have r3: "list_step serial ?s2 [] ?s3" by (rule list_step.push_store) simp
  have r4: "list_step serial ?s3 [Pushed d] ?s4" by (rule list_step.push_cas) simp_all
  have "list_run serial s [Pushed d] ?s4" using run_more [OF run_more [OF run_more [OF run_none r2] r3] r4] by simp
  moreover have "pl_pc ?s4 = (pl_pc s)(t := Idle)" by (simp add: pl_goto_def)
  ultimately show ?thesis by blast
qed

lemma finish_pop:
  assumes "pl_pc s t = PopLoad" "node_chain (pl_head s) (pl_next s) xs"
  shows "\<exists>es s'. list_run serial s es s' \<and> pl_pc s' = (pl_pc s)(t := Idle)"
proof (cases xs)
  case Nil
  then have "list_step serial s [Popped None] (pl_goto t Idle s)" using assms by (intro list_step.pop_none) simp_all
  then show ?thesis using list_run_step by fastforce
next
  case (Cons d ds)
  then obtain old where old: "pl_head s = Some old" "node_get_desc old = Some d" "popped_head (pl_next s d) = Inr (pl_next s d)"
    using assms(2) popped_head_same by auto
  let ?s2 = "pl_goto t (PopNext old) s"
  let ?s3 = "pl_goto t (PopCas old (pl_next s d)) ?s2"
  let ?s4 = "pl_goto t Idle (?s3\<lparr>pl_head := pl_next s d, pl_out := d # pl_out ?s3\<rparr>)"
  have r2: "list_step serial s [] ?s2" by (rule list_step.pop_load [OF assms(1) old(1)])
  have r3: "list_step serial ?s2 [] ?s3" by (rule list_step.pop_next [OF _ old(2)]) (simp_all add: old(3))
  have r4: "list_step serial ?s3 [Popped (Some d)] ?s4" by (rule list_step.pop_cas [OF _ _ old(2)]) (simp_all add: old(1))
  have "list_run serial s [Popped (Some d)] ?s4" using run_more [OF run_more [OF run_more [OF run_none r2] r3] r4] by simp
  moreover have "pl_pc ?s4 = (pl_pc s)(t := Idle)" by (simp add: pl_goto_def)
  ultimately show ?thesis by blast
qed

text \<open>Wherever a thread is, it gets to the beginning of its loop in at most two steps.\<close>

lemma back_to_loop:
  assumes "list_inv s xs"
  shows "\<exists>es s'. list_run True s es s' \<and> (\<exists>p. pl_pc s' = (pl_pc s)(t := p) \<and> (p = Idle \<or> p = PopLoad \<or> (\<exists>d. p = PushLoad d)))"
proof (cases "pl_pc s t")
  case (PushStore d old)
  let ?s1 = "pl_goto t (PushCas d old) (s\<lparr>pl_next := (pl_next s)(d := old)\<rparr>)"
  have r1: "list_step True s [] ?s1" by (rule list_step.push_store [OF PushStore])
  have r2: "list_step True ?s1 [] (pl_goto t (PushLoad d) ?s1)" by (rule list_step.push_retry [of _ t d old]) simp
  show ?thesis using run_more [OF run_more [OF run_none r1] r2] by fastforce
next
  case (PushCas d old)
  show ?thesis using list_run_step [OF list_step.push_retry [OF PushCas, of True]] by fastforce
next
  case (PopNext old)
  obtain d where d: "d \<in> set xs" "node_get_desc old = Some d" using list_invD(8) [OF assms, of t] PopNext by auto
  then have "popped_head (pl_next s d) = Inr (pl_next s d)" using node_chain_suffix [OF list_invD(1) [OF assms] d(1)] popped_head_same by blast
  then have r1: "list_step True s [] (pl_goto t (PopCas old (pl_next s d)) s)" by (rule list_step.pop_next [OF PopNext d(2)])
  have r2: "list_step True (pl_goto t (PopCas old (pl_next s d)) s) [] (pl_goto t PopLoad (pl_goto t (PopCas old (pl_next s d)) s))"
    by (rule list_step.pop_retry [of _ t old "pl_next s d"]) simp
  show ?thesis using run_more [OF run_more [OF run_none r1] r2] by fastforce
next
  case (PopCas old new)
  show ?thesis using list_run_step [OF list_step.pop_retry [OF PopCas, of True]] by fastforce
next
  case Crashed
  then show ?thesis using list_invD(8) [OF assms, of t] by simp
qed (use run_none in \<open>fastforce simp: fun_upd_idem\<close>)+

lemma list_progress:
  assumes "list_inv s xs"
  shows "\<exists>es s'. list_run True s es s' \<and> pl_pc s' = (pl_pc s)(t := Idle)"
proof -
  obtain es s1 p where s1: "list_run True s es s1" "pl_pc s1 = (pl_pc s)(t := p)" "p = Idle \<or> p = PopLoad \<or> (\<exists>d. p = PushLoad d)"
    using back_to_loop [OF assms] by blast
  obtain ys where ys: "list_inv s1 ys" using list_run_inv [OF s1(1) assms] by blast
  have "\<exists>fs s'. list_run True s1 fs s' \<and> pl_pc s' = (pl_pc s1)(t := Idle)"
  proof (cases "p = Idle")
    case True
    then show ?thesis using run_none [of True s1] s1(2) by (metis fun_upd_triv fun_upd_upd)
  next
    case False
    then show ?thesis using s1(2,3) finish_push [of s1 t] finish_pop [OF _ list_invD(1) [OF ys], of t] by auto
  qed
  then show ?thesis using list_run_trans s1(1,2) by (metis fun_upd_upd)
qed

section \<open>Properties\<close>

text \<open>C13. When pops do not overlap each other, the lock-free partial list is a stack, whatever the pushes of other
  threads do in between, and in every interleaving: the compare-and-swaps, in their order, are a
  history of a stack whose contents are what the links of the descriptors spell; no descriptor is in
  the list and outside at the same time, none is handed out twice, none is lost; no thread runs into
  a missing descriptor, and every thread can finish its call when it is left alone.\<close>

theorem partial_list_linear:
  assumes "list_run True (list_start ds) es s" "distinct ds" "\<forall>d \<in> set ds. desc_addr d"
  shows "\<exists>xs. replay es [] = Some xs \<and> node_chain (pl_head s) (pl_next s) xs \<and> distinct xs \<and> distinct (pl_out s) \<and>
    set xs \<inter> outside s = {} \<and> set xs \<union> outside s = set ds \<and>
    (\<forall>t. pl_pc s t \<noteq> Crashed \<and> (\<exists>fs s'. list_run True s fs s' \<and> pl_pc s' = (pl_pc s)(t := Idle)))"
proof -
  have "list_inv (list_start ds) []" using assms(2,3) by (intro list_start_inv) auto
  then obtain xs where xs: "replay es [] = Some xs" "list_inv s xs" "set xs \<union> outside s = set ds"
    using list_run_inv [OF assms(1), of "[]"] list_start_inv(2) [of ds] by auto
  note inv = list_invD [OF xs(2)]
  have "set xs \<inter> outside s = {}" using inv(4,6) by (auto simp: outside_def)
  moreover have "pl_pc s t \<noteq> Crashed" for t using inv(8) [of t] by auto
  ultimately show ?thesis using xs inv(1-3) list_progress [OF xs(2)] by blast
qed

text \<open>The counter in a node.\<close>

lemma pushed_head_counter: "desc_addr d \<Longrightarrow> node_get_counter (pushed_head d None) = 0"
  by (simp add: pushed_head_def node_get_counter_set)

lemma pushed_head_same_counter: "desc_addr d \<Longrightarrow> desc_addr d' \<Longrightarrow> pushed_head x (Some (pushed_head d None)) = pushed_head x (Some (pushed_head d' None))"
  by (simp add: pushed_head_def [of x] pushed_head_counter)

lemma popped_pushed_head: "desc_addr d \<Longrightarrow> popped_head (Some (pushed_head d old)) = Inr (Some (pushed_head d old))"
  using node_set_get [of "pushed_head d old" d] by (simp add: popped_head_def)

text \<open>Two pushes, and a thread that reads both nodes of the list and is then interrupted.\<close>

lemma aba_setup:
  assumes d: "distinct [d0, d1, d2]" "desc_addr d0" "desc_addr d1" "desc_addr d2"
  defines "n0 \<equiv> pushed_head d0 None"
  shows "list_run False (list_start [d0, d1, d2]) [Pushed d0, Pushed d1]
    \<lparr>pl_head = Some (pushed_head d1 (Some n0)), pl_next = (\<lambda>_. None)(d0 := None, d1 := Some n0),
     pl_pc = (\<lambda>_. Idle)(0 := PopCas (pushed_head d1 (Some n0)) (Some n0)), pl_out = [d2]\<rparr>"
proof -
  let ?s0 = "list_start [d0, d1, d2]"
  let ?s2 = "after_push d1 (after_push d0 ?s0)"
  have r1: "list_run False ?s0 [Pushed d0] (after_push d0 ?s0)" using d by (intro solo_push [of _ 2]) (simp_all add: list_start_def)
  have r2: "list_run False (after_push d0 ?s0) [Pushed d1] ?s2"
    using d by (intro solo_push [of _ 2]) (simp_all add: list_start_def after_push_def)
  have r3: "list_run False ?s2 [] (ready_to_pop 0 (pushed_head d1 (Some n0)) (Some n0) ?s2)"
  proof (rule solo_pop_reads [where d = d1])
    show "node_get_desc (pushed_head d1 (Some n0)) = Some d1" using d(3) by simp
    show "popped_head (pl_next ?s2 d1) = Inr (Some n0)" using d popped_pushed_head [OF d(2)] by (simp add: list_start_def after_push_def n0_def)
  qed (simp_all add: list_start_def after_push_def n0_def)
  have "ready_to_pop 0 (pushed_head d1 (Some n0)) (Some n0) ?s2 =
    \<lparr>pl_head = Some (pushed_head d1 (Some n0)), pl_next = (\<lambda>_. None)(d0 := None, d1 := Some n0),
     pl_pc = (\<lambda>_. Idle)(0 := PopCas (pushed_head d1 (Some n0)) (Some n0)), pl_out = [d2]\<rparr>"
    using d(1) by (simp add: ready_to_pop_def pl_goto_def after_push_def list_start_def n0_def)
  then show ?thesis using list_run_trans [OF r3 list_run_trans [OF r2 r1]] by simp
qed

text \<open>Another thread takes both nodes and pushes a third descriptor and the first one: the head has its old value.\<close>

lemma aba_middle:
  assumes d: "distinct [d0, d1, d2]" "desc_addr d0" "desc_addr d1" "desc_addr d2" and idle: "pc 2 = Idle"
  defines "n0 \<equiv> pushed_head d0 None" and "h \<equiv> pushed_head d1 (Some (pushed_head d0 None))"
  shows "list_run False \<lparr>pl_head = Some h, pl_next = (\<lambda>_. None)(d0 := None, d1 := Some n0), pl_pc = pc, pl_out = [d2]\<rparr>
    [Popped (Some d1), Popped (Some d0), Pushed d2, Pushed d1]
    \<lparr>pl_head = Some h, pl_next = (\<lambda>_. None)(d0 := None, d2 := None, d1 := Some (pushed_head d2 None)), pl_pc = pc, pl_out = [d0]\<rparr>"
    (is "list_run False ?s _ ?s'")
proof -
  let ?s1 = "after_pop d1 (Some n0) ?s"
  let ?s2 = "after_pop d0 None ?s1"
  let ?s3 = "after_push d2 ?s2"
  have r1: "list_run False ?s [Popped (Some d1)] ?s1"
  proof (rule solo_pop [of _ 2])
    show "popped_head (pl_next ?s d1) = Inr (Some n0)" using d popped_pushed_head [OF d(2)] by (simp add: n0_def)
    show "node_get_desc h = Some d1" unfolding h_def using d(3) by (rule node_get_desc_pushed)
  qed (use idle in simp_all)
  have r2: "list_run False ?s1 [Popped (Some d0)] ?s2"
  proof (rule solo_pop [of _ 2])
    show "popped_head (pl_next ?s1 d0) = Inr None" using d(1) by (simp add: after_pop_def popped_head_def)
    show "node_get_desc n0 = Some d0" unfolding n0_def using d(2) by (rule node_get_desc_pushed)
  qed (use idle in \<open>simp_all add: after_pop_def\<close>)
  have r3: "list_run False ?s2 [Pushed d2] ?s3" by (rule solo_push [of _ 2]) (simp_all add: after_pop_def idle)
  have r4: "list_run False ?s3 [Pushed d1] (after_push d1 ?s3)"
    by (rule solo_push [of _ 2]) (use d(1) in \<open>simp_all add: after_pop_def after_push_def idle\<close>)
  have "pushed_head d1 (Some (pushed_head d2 None)) = h" unfolding h_def using d by (intro pushed_head_same_counter)
  then have "after_push d1 ?s3 = ?s'" using d(1) by (simp add: after_push_def after_pop_def fun_eq_iff)
  then show ?thesis using list_run_trans [OF r4 list_run_trans [OF r3 list_run_trans [OF r2 r1]]] by simp
qed

text \<open>C14. When two pops overlap, the counter that is meant to tell a node from an older node of the same
  descriptor does not: it restarts at zero whenever the list is empty and otherwise follows the depth of
  the list. For any three descriptors there is a run of two threads in which a pop succeeds although
  the list changed under it. The descriptor that it makes the head of the list is not in the list: it is
  handed out twice, and another descriptor is lost.\<close>

theorem partial_list_aba:
  assumes "distinct [d0, d1, d2]" "desc_addr d0" "desc_addr d1" "desc_addr d2"
  shows "\<exists>es s. list_run False (list_start [d0, d1, d2]) es s \<and> replay es [] = None \<and> pl_head s = None \<and>
    (\<forall>t. pl_pc s t = Idle) \<and> pl_out s = [d0, d1, d0]"
proof -
  let ?n0 = "pushed_head d0 None"
  let ?h = "pushed_head d1 (Some ?n0)"
  let ?nx = "(\<lambda>_. None)(d0 := None, d2 := None, d1 := Some (pushed_head d2 None))"
  let ?s = "\<lparr>pl_head = Some ?h, pl_next = ?nx, pl_pc = (\<lambda>_. Idle)(0 := PopCas ?h (Some ?n0)), pl_out = [d0]\<rparr>"
  let ?s1 = "\<lparr>pl_head = Some ?n0, pl_next = ?nx, pl_pc = (\<lambda>_. Idle), pl_out = [d1, d0]\<rparr>"
  have "((\<lambda>_ :: nat. Idle)(0 := PopCas ?h (Some ?n0))) 2 = Idle" by simp
  note r = list_run_trans [OF aba_middle [where pc = "(\<lambda>_. Idle)(0 := PopCas ?h (Some ?n0))", OF assms this] aba_setup [OF assms]]
  have "list_step False ?s [Popped (Some d1)] (pl_goto 0 Idle (?s\<lparr>pl_head := Some ?n0, pl_out := d1 # pl_out ?s\<rparr>))"
    using assms(3) by (intro list_step.pop_cas [of _ 0 ?h]) simp_all
  then have r1: "list_run False ?s [Popped (Some d1)] ?s1" using list_run_step by (simp add: pl_goto_def fun_upd_idem)
  have r2: "list_run False ?s1 [Popped (Some d0)] (after_pop d0 None ?s1)"
  proof (rule solo_pop [of _ 2])
    show "popped_head (pl_next ?s1 d0) = Inr None" using assms(1) by (simp add: popped_head_def)
    show "node_get_desc ?n0 = Some d0" using assms(2) by (rule node_get_desc_pushed)
  qed simp_all
  let ?es = "[Pushed d0, Pushed d1, Popped (Some d1), Popped (Some d0), Pushed d2, Pushed d1, Popped (Some d1), Popped (Some d0)]"
  have "list_run False (list_start [d0, d1, d2]) ?es (after_pop d0 None ?s1)"
    using list_run_trans [OF r2 list_run_trans [OF r1 r]] by simp
  moreover have "replay ?es [] = None" using assms(1) by auto
  ultimately show ?thesis by (intro exI [of _ ?es] exI [of _ "after_pop d0 None ?s1"]) (simp add: after_pop_def)
qed

text \<open>The list of heap \<open>hi\<close> in the state of the allocator.\<close>

definition list_view :: "nat \<Rightarrow> (nat \<Rightarrow> list_pc) \<Rightarrow> usize list \<Rightarrow> 's alloc_state_scheme \<Rightarrow> partial_state" where
  "list_view hi pcs out s =
     \<lparr>pl_head = partial_list (the (heaps s) ! hi), pl_next = (\<lambda>d. next_partial (descs s d)), pl_pc = pcs, pl_out = out\<rparr>"

lemma list_pop_partial_view:
  assumes "heaps s = Some hs" "hi < length hs" "list_pop_partial hi s = Inr (Some d, s')"
  shows "\<exists>old new. partial_list (hs ! hi) = Some old \<and> node_get_desc old = Some d \<and> popped_head (next_partial (descs s d)) = Inr new \<and>
    list_view hi pcs (d # out) s' = after_pop d new (list_view hi pcs out s)"
  using assms
  by (auto simp: list_pop_partial_def get_heap_at_def put_heap_at_def popped_head_def list_view_def after_pop_def rbind_def unwrap_def
      index_list_def update_list_def split: option.splits sum.splits if_splits)

text \<open>A call that no other thread disturbs does what the model of whole calls in \<open>Central\<close> does: \<^verbatim>\<open>list_push_partial\<close> and
  \<^verbatim>\<open>list_pop_partial\<close> of \<open>Central\<close> are runs of the single accesses, with the same head, the same links and the same
  result.\<close>

theorem partial_list_solo:
  assumes "heaps s = Some hs" "hi < length hs" "pcs t = Idle" "\<forall>u. \<not> popping (pcs u)"
  shows "(proc_heap (descs s d) = Some hi \<and> d \<in> set out \<longrightarrow> (\<exists>s'. list_push_partial d s = Inr s' \<and>
       list_run True (list_view hi pcs out s) [Pushed d] (list_view hi pcs (remove1 d out) s'))) \<and>
    (\<forall>x s'. list_pop_partial hi s = Inr (Some x, s') \<longrightarrow>
       list_run True (list_view hi pcs out s) [Popped (Some x)] (list_view hi pcs (x # out) s')) \<and>
    (\<forall>s'. list_pop_partial hi s = Inr (None, s') \<longrightarrow> s' = s \<and> list_run True (list_view hi pcs out s) [Popped None] (list_view hi pcs out s))"
proof (intro conjI impI allI)
  assume d: "proc_heap (descs s d) = Some hi \<and> d \<in> set out"
  let ?s = "s\<lparr>descs := (descs s)(d := (descs s d)\<lparr>next_partial := partial_list (hs ! hi)\<rparr>),
    heaps := Some (hs[hi := (hs ! hi)\<lparr>partial_list := Some (pushed_head d (partial_list (hs ! hi)))\<rparr>])\<rparr>"
  have "list_push_partial d s = Inr ?s"
    using d assms(1,2) by (simp add: list_push_partial_def get_heap_at_def put_heap_at_def upd_desc_def pushed_head_def unwrap_def index_list_def update_list_def Let_def)
  moreover have "list_view hi pcs (remove1 d out) ?s = after_push d (list_view hi pcs out s)"
    using assms(1,2) by (simp add: list_view_def after_push_def fun_eq_iff)
  ultimately show "\<exists>s'. list_push_partial d s = Inr s' \<and> list_run True (list_view hi pcs out s) [Pushed d] (list_view hi pcs (remove1 d out) s')"
    using solo_push [of "list_view hi pcs out s" t d True] d assms(3) by (simp add: list_view_def)
next
  fix x s' assume "list_pop_partial hi s = Inr (Some x, s')"
  then obtain old new where "partial_list (hs ! hi) = Some old" "node_get_desc old = Some x" "popped_head (next_partial (descs s x)) = Inr new"
    "list_view hi pcs (x # out) s' = after_pop x new (list_view hi pcs out s)"
    using list_pop_partial_view [OF assms(1,2)] by blast
  then show "list_run True (list_view hi pcs out s) [Popped (Some x)] (list_view hi pcs (x # out) s')"
    using solo_pop [of "list_view hi pcs out s" t True old x new] assms by (simp add: list_view_def)
next
  fix s' assume p: "list_pop_partial hi s = Inr (None, s')"
  then show "s' = s" using assms(1,2)
    by (auto simp: list_pop_partial_def get_heap_at_def rbind_def unwrap_def index_list_def split: option.splits sum.splits)
  have "partial_list (hs ! hi) = None" using p assms(1,2)
    by (auto simp: list_pop_partial_def get_heap_at_def rbind_def unwrap_def index_list_def split: option.splits sum.splits)
  then show "list_run True (list_view hi pcs out s) [Popped None] (list_view hi pcs out s)"
    using solo_pop_none [of "list_view hi pcs out s" t True] assms by (simp add: list_view_def)
qed

section \<open>Concrete runs\<close>

lemma desc_addr_sample: "desc_addr 0x1000" "desc_addr 0x1040" "desc_addr 0x1080"
  by (simp_all add: desc_addr_def CACHE_LINE_MASK_mask take_bit_eq_mask [symmetric] take_bit_eq_mod)

theorem partial_list_linear_witness:
  "\<exists>s xs. list_run True (list_start [0x1000]) [Pushed 0x1000] s \<and> replay [Pushed 0x1000] [] = Some xs \<and> node_chain (pl_head s) (pl_next s) xs \<and>
    set xs \<union> outside s = {0x1000}"
proof -
  have r: "list_run True (list_start [0x1000]) [Pushed 0x1000] (after_push 0x1000 (list_start [0x1000]))"
    by (rule solo_push [of _ 0]) (simp_all add: list_start_def)
  have "distinct [0x1000 :: usize]" "\<forall>d \<in> set [0x1000 :: usize]. desc_addr d" using desc_addr_sample by simp_all
  from partial_list_linear [OF r this] r show ?thesis by auto
qed

theorem partial_list_aba_witness:
  "\<exists>es s. list_run False (list_start [0x1000, 0x1040, 0x1080]) es s \<and> replay es [] = None \<and> pl_out s = [0x1000, 0x1040, 0x1000]"
proof -
  have "distinct [0x1000 :: usize, 0x1040, 0x1080]" by simp
  from partial_list_aba [OF this desc_addr_sample] show ?thesis by blast
qed

definition sample_heaps :: alloc_state where
  "sample_heaps = map_state.extend (empty_map_state\<lparr>descs := (\<lambda>_. descriptor_default)(0x1000 := descriptor_default\<lparr>proc_heap := Some 0\<rparr>)\<rparr>)
     \<lparr>heaps = Some [heap_new_none 0]\<rparr>"

theorem partial_list_solo_witness:
  "\<exists>s'. list_push_partial 0x1000 sample_heaps = Inr s' \<and>
    list_run True (list_view 0 (\<lambda>_. Idle) [0x1000] sample_heaps) [Pushed 0x1000] (list_view 0 (\<lambda>_. Idle) [] s')"
proof -
  have h: "heaps sample_heaps = Some [heap_new_none 0]" "0 < length [heap_new_none 0]" "\<forall>u :: nat. \<not> popping Idle"
    "proc_heap (descs sample_heaps 0x1000) = Some 0"
    by (simp_all add: sample_heaps_def map_state.defs)
  from partial_list_solo [where pcs = "\<lambda>_. Idle" and t = 0 and d = "0x1000" and out = "[0x1000]", OF h(1,2) refl h(3)] h(4)
  show ?thesis by auto
qed

end
