(* ===== verification/Anchor_Race.thy ===== *)
theory Anchor_Race
  imports Thread_Cache
begin

text \<open>
  The anchor of a super block under concurrency: the loop of \<^verbatim>\<open>malloc_from_partial\<close> (\<^verbatim>\<open>src/alloc.rs\<close>), which takes
  all free blocks, and the loop of \<^verbatim>\<open>flush_cache\<close> (\<^verbatim>\<open>src/thread_cache.rs\<close>), which gives blocks back, access by
  access. Any number of threads run them on one descriptor; a step is one atomic access of one thread.
\<close>

section \<open>Steps\<close>

datatype anchor_pc = Resting
  | TakeLoad | TakeCas anchor | Taken anchor | Retired
  | FlushLoad nat nat | FlushCas nat nat anchor | Flushed anchor

record anchor_state =
  an_anchor :: anchor
  an_max :: nat
  an_pc :: "nat \<Rightarrow> anchor_pc"

definition an_goto :: "nat \<Rightarrow> anchor_pc \<Rightarrow> anchor_state \<Rightarrow> anchor_state" where
  "an_goto t p s = s\<lparr>an_pc := (an_pc s)(t := p)\<rparr>"

definition taken_anchor :: "nat \<Rightarrow> anchor \<Rightarrow> anchor" where
  "taken_anchor mc old = set_state FULL (set_avail mc (set_count 0 old))"

text \<open>\<^verbatim>\<open>malloc_from_partial\<close> loads the anchor once, before its loop, and exchanges it with a strong compare-and-swap;
  \<^verbatim>\<open>flush_cache\<close> loads it in the loop and its compare-and-swap may fail for no reason.\<close>

inductive anchor_step :: "nat \<Rightarrow> anchor_state \<Rightarrow> anchor_state \<Rightarrow> bool" for t where
  take_begin: "an_pc s t = Resting \<Longrightarrow> anchor_step t s (an_goto t TakeLoad s)"
| take_load: "an_pc s t = TakeLoad \<Longrightarrow> anchor_step t s (an_goto t (TakeCas (an_anchor s)) s)"
| take_empty: "an_pc s t = TakeCas old \<Longrightarrow> a_state old = EMPTY \<Longrightarrow> anchor_step t s (an_goto t Retired s)"
| take_cas: "an_pc s t = TakeCas old \<Longrightarrow> a_state old \<noteq> EMPTY \<Longrightarrow> an_anchor s = old \<Longrightarrow>
    anchor_step t s (an_goto t (Taken old) (s\<lparr>an_anchor := taken_anchor (an_max s) old\<rparr>))"
| take_again: "an_pc s t = TakeCas old \<Longrightarrow> a_state old \<noteq> EMPTY \<Longrightarrow> an_anchor s \<noteq> old \<Longrightarrow> anchor_step t s s"
| flush_begin: "an_pc s t = Resting \<Longrightarrow> anchor_step t s (an_goto t (FlushLoad index n) s)"
| flush_load: "an_pc s t = FlushLoad index n \<Longrightarrow> anchor_step t s (an_goto t (FlushCas index n (an_anchor s)) s)"
| flush_cas: "an_pc s t = FlushCas index n old \<Longrightarrow> an_anchor s = old \<Longrightarrow>
    anchor_step t s (an_goto t (Flushed old) (s\<lparr>an_anchor := flush_anchor old (an_max s) index n\<rparr>))"
| flush_again: "an_pc s t = FlushCas index n old \<Longrightarrow> anchor_step t s (an_goto t (FlushLoad index n) s)"

inductive_cases anchor_stepE: "anchor_step t s s'"

definition any_step :: "anchor_state \<Rightarrow> anchor_state \<Rightarrow> bool" where
  "any_step s s' \<longleftrightarrow> (\<exists>t. anchor_step t s s')"

definition anchor_start :: "anchor \<Rightarrow> nat \<Rightarrow> anchor_state" where
  "anchor_start a mc = \<lparr>an_anchor = a, an_max = mc, an_pc = (\<lambda>_. Resting)\<rparr>"

lemma an_goto_simps [simp]:
  "an_anchor (an_goto t p s) = an_anchor s" "an_max (an_goto t p s) = an_max s" "an_pc (an_goto t p s) = (an_pc s)(t := p)"
  by (simp_all add: an_goto_def)

section \<open>Properties\<close>

text \<open>A thread whose copy of the anchor is out of date does not get out of the loop by itself.\<close>

lemma stale_take_stays:
  assumes "(anchor_step t)\<^sup>*\<^sup>* s s'" "an_pc s t = TakeCas old" "a_state old \<noteq> EMPTY" "an_anchor s \<noteq> old"
  shows "s' = s"
  using assms
proof (induction rule: rtranclp_induct)
  case (step x y)
  then have "x = s" by blast
  then show ?case using step.hyps(2) step.prems by (elim anchor_stepE) auto
qed simp

text \<open>An undisturbed thread exchanges the anchor as the models of whole calls do.\<close>

lemma solo_take:
  assumes "an_pc s t = Resting" "a_state (an_anchor s) \<noteq> EMPTY"
  shows "(anchor_step t)\<^sup>*\<^sup>* s (an_goto t (Taken (an_anchor s)) (s\<lparr>an_anchor := taken_anchor (an_max s) (an_anchor s)\<rparr>))"
proof -
  let ?s1 = "an_goto t TakeLoad s"
  let ?s2 = "an_goto t (TakeCas (an_anchor s)) ?s1"
  have "anchor_step t s ?s1" by (rule anchor_step.take_begin [OF assms(1)])
  moreover have "anchor_step t ?s1 ?s2" using anchor_step.take_load [of ?s1 t] by simp
  moreover have "anchor_step t ?s2 (an_goto t (Taken (an_anchor s)) (?s2\<lparr>an_anchor := taken_anchor (an_max s) (an_anchor s)\<rparr>))"
    using anchor_step.take_cas [of ?s2 t "an_anchor s"] assms(2) by simp
  moreover have "an_goto t (Taken (an_anchor s)) (?s2\<lparr>an_anchor := taken_anchor (an_max s) (an_anchor s)\<rparr>) =
    an_goto t (Taken (an_anchor s)) (s\<lparr>an_anchor := taken_anchor (an_max s) (an_anchor s)\<rparr>)" by (simp add: an_goto_def)
  ultimately show ?thesis by (metis converse_rtranclp_into_rtranclp rtranclp.rtrancl_refl)
qed

lemma solo_flush:
  assumes "an_pc s t = FlushLoad index n"
  shows "(anchor_step t)\<^sup>*\<^sup>* s (an_goto t (Flushed (an_anchor s)) (s\<lparr>an_anchor := flush_anchor (an_anchor s) (an_max s) index n\<rparr>))"
proof -
  let ?s2 = "an_goto t (FlushCas index n (an_anchor s)) s"
  have "anchor_step t s ?s2" by (rule anchor_step.flush_load [OF assms(1)])
  moreover have "anchor_step t ?s2 (an_goto t (Flushed (an_anchor s)) (?s2\<lparr>an_anchor := flush_anchor (an_anchor s) (an_max s) index n\<rparr>))"
    using anchor_step.flush_cas [of ?s2 t index n "an_anchor s"] by simp
  moreover have "an_goto t (Flushed (an_anchor s)) (?s2\<lparr>an_anchor := flush_anchor (an_anchor s) (an_max s) index n\<rparr>) =
    an_goto t (Flushed (an_anchor s)) (s\<lparr>an_anchor := flush_anchor (an_anchor s) (an_max s) index n\<rparr>)" by (simp add: an_goto_def)
  ultimately show ?thesis by (metis converse_rtranclp_into_rtranclp rtranclp.rtrancl_refl)
qed

text \<open>The anchors of \<open>Central\<close> and \<open>Thread_Cache\<close>.\<close>

lemma take_partial_anchor:
  assumes "take_partial d (s, cache, got) = Inr (s', cache', got')"
  shows "d_anchor (descs s' d) = taken_anchor (max_count (descs s d)) (d_anchor (descs s d))"
  using assms by (auto simp: take_partial_def taken_anchor_def upd_desc_def Let_def rbind_def unwrap_def split: option.splits sum.splits if_splits)

lemma flush_can_finish:
  assumes "an_pc s t = FlushLoad index n \<or> an_pc s t = FlushCas index n old"
  shows "\<exists>s' a. (anchor_step t)\<^sup>*\<^sup>* s s' \<and> an_pc s' t = Flushed a"
  using assms
proof
  assume "an_pc s t = FlushLoad index n"
  then show ?thesis using solo_flush [of s t index n] by force
next
  assume c: "an_pc s t = FlushCas index n old"
  let ?s1 = "an_goto t (FlushLoad index n) s"
  have "anchor_step t s ?s1" by (rule anchor_step.flush_again [OF c])
  moreover have "\<exists>s' a. (anchor_step t)\<^sup>*\<^sup>* ?s1 s' \<and> an_pc s' t = Flushed a" using solo_flush [of ?s1 t index n] by force
  ultimately show ?thesis by (meson converse_rtranclp_into_rtranclp)
qed

text \<open>A flush between the load and the exchange of a thread that takes the blocks.\<close>

lemma flush_in_between:
  assumes "t \<noteq> u"
  shows "any_step\<^sup>*\<^sup>* (anchor_start a mc) \<lparr>an_anchor = flush_anchor a mc index n, an_max = mc, an_pc = (\<lambda>_. Resting)(t := TakeCas a, u := Flushed a)\<rparr>"
proof -
  let ?s0 = "anchor_start a mc"
  let ?s1 = "an_goto t TakeLoad ?s0"
  let ?s2 = "an_goto t (TakeCas a) ?s1"
  let ?s3 = "an_goto u (FlushLoad index n) ?s2"
  let ?s4 = "an_goto u (Flushed a) (?s3\<lparr>an_anchor := flush_anchor a mc index n\<rparr>)"
  have any: "any_step\<^sup>*\<^sup>* x y" if "(anchor_step v)\<^sup>*\<^sup>* x y" for v x y
    using that by (induction rule: rtranclp_induct) (auto simp: any_step_def intro: rtranclp.rtrancl_into_rtrancl)
  have "anchor_step t ?s0 ?s1" by (rule anchor_step.take_begin) (simp add: anchor_start_def)
  moreover have "anchor_step t ?s1 ?s2" using anchor_step.take_load [of ?s1 t] by (simp add: anchor_start_def)
  moreover have "anchor_step u ?s2 ?s3" using assms by (intro anchor_step.flush_begin) (simp add: anchor_start_def)
  ultimately have "any_step\<^sup>*\<^sup>* ?s0 ?s3" by (meson any_step_def converse_rtranclp_into_rtranclp rtranclp.rtrancl_refl)
  moreover have "any_step\<^sup>*\<^sup>* ?s3 ?s4" using any [OF solo_flush [of ?s3 u index n]] by (simp add: anchor_start_def an_goto_def)
  ultimately have "any_step\<^sup>*\<^sup>* ?s0 ?s4" by (rule rtranclp_trans)
  moreover have "?s4 = \<lparr>an_anchor = flush_anchor a mc index n, an_max = mc, an_pc = (\<lambda>_. Resting)(t := TakeCas a, u := Flushed a)\<rparr>"
    by (simp add: anchor_start_def an_goto_def)
  ultimately show ?thesis by simp
qed

text \<open>C16. The loops on the anchor of a super block. \<^verbatim>\<open>flush_cache\<close> can always finish when it is left alone. \<^verbatim>\<open>malloc_from_partial\<close>
  cannot: it loads the anchor before its loop and never again, so that it gets out exactly when its copy
  is still the anchor or says that the super block is empty. A flush that changes the anchor of a partial super
  block between its load and its exchange therefore leaves it spinning, and this state is reachable.\<close>

theorem anchor_loops:
  assumes "t \<noteq> u" "a_state a \<noteq> EMPTY" "flush_anchor a mc index n \<noteq> a"
  shows "(an_pc s t = FlushLoad index n \<or> an_pc s t = FlushCas index n old \<longrightarrow> (\<exists>s' x. (anchor_step t)\<^sup>*\<^sup>* s s' \<and> an_pc s' t = Flushed x)) \<and>
    (an_pc s t = TakeCas old \<longrightarrow> (\<exists>s'. (anchor_step t)\<^sup>*\<^sup>* s s' \<and> (an_pc s' t = Taken old \<or> an_pc s' t = Retired)) =
       (an_anchor s = old \<or> a_state old = EMPTY)) \<and>
    (\<exists>s'. any_step\<^sup>*\<^sup>* (anchor_start a mc) s' \<and> an_pc s' u = Flushed a \<and> (\<forall>s''. (anchor_step t)\<^sup>*\<^sup>* s' s'' \<longrightarrow> an_pc s'' t = TakeCas a))"
proof (intro conjI impI)
  show "\<exists>s' x. (anchor_step t)\<^sup>*\<^sup>* s s' \<and> an_pc s' t = Flushed x" if "an_pc s t = FlushLoad index n \<or> an_pc s t = FlushCas index n old"
    using flush_can_finish [OF that] .
  assume c: "an_pc s t = TakeCas old"
  have "\<exists>s'. anchor_step t s s' \<and> (an_pc s' t = Taken old \<or> an_pc s' t = Retired)" if "an_anchor s = old \<or> a_state old = EMPTY"
    using that anchor_step.take_cas [OF c] anchor_step.take_empty [OF c] by (cases "a_state old = EMPTY") fastforce+
  then show "(\<exists>s'. (anchor_step t)\<^sup>*\<^sup>* s s' \<and> (an_pc s' t = Taken old \<or> an_pc s' t = Retired)) = (an_anchor s = old \<or> a_state old = EMPTY)"
    using stale_take_stays [of t s _ old] c by (metis anchor_pc.distinct(27) anchor_pc.distinct(29) r_into_rtranclp)
next
  let ?s = "\<lparr>an_anchor = flush_anchor a mc index n, an_max = mc, an_pc = (\<lambda>_. Resting)(t := TakeCas a, u := Flushed a)\<rparr>"
  have "an_pc s'' t = TakeCas a" if "(anchor_step t)\<^sup>*\<^sup>* ?s s''" for s''
    using stale_take_stays [OF that, of a] assms by simp
  then show "\<exists>s'. any_step\<^sup>*\<^sup>* (anchor_start a mc) s' \<and> an_pc s' u = Flushed a \<and> (\<forall>s''. (anchor_step t)\<^sup>*\<^sup>* s' s'' \<longrightarrow> an_pc s'' t = TakeCas a)"
    using flush_in_between [OF assms(1)] by (intro exI [of _ ?s]) simp
qed

text \<open>One block is given back to a super block of ten that has five free blocks, the first of them block 3.\<close>

theorem anchor_loops_witness:
  "\<exists>s. any_step\<^sup>*\<^sup>* (anchor_start \<lparr>a_state = PARTIAL, a_avail = 3, a_count = 5\<rparr> 10) s \<and> an_pc s 1 = Flushed \<lparr>a_state = PARTIAL, a_avail = 3, a_count = 5\<rparr> \<and>
    an_pc s 0 = TakeCas \<lparr>a_state = PARTIAL, a_avail = 3, a_count = 5\<rparr> \<and> an_anchor s \<noteq> \<lparr>a_state = PARTIAL, a_avail = 3, a_count = 5\<rparr>"
proof -
  let ?a = "\<lparr>a_state = PARTIAL, a_avail = 3, a_count = 5\<rparr>"
  have a: "(0 :: nat) \<noteq> 1" "a_state ?a \<noteq> EMPTY" "flush_anchor ?a 10 7 1 \<noteq> ?a"
    by (simp_all add: flush_anchor_def set_avail_def set_count_def set_state_def Let_def)
  obtain s where s: "any_step\<^sup>*\<^sup>* (anchor_start ?a 10) s" "an_pc s 1 = Flushed ?a" "\<And>s''. (anchor_step 0)\<^sup>*\<^sup>* s s'' \<Longrightarrow> an_pc s'' 0 = TakeCas ?a"
    using anchor_loops [OF a] by blast
  have c: "an_pc s 0 = TakeCas ?a" using s(3) by blast
  have "an_anchor s \<noteq> ?a" using anchor_loops [OF a, of s ?a] c s(3) by fastforce
  then show ?thesis using s(1,2) c by blast
qed

end
