(* ===== verification/Single_Access.thy ===== *)
theory Single_Access
  imports Prelude
begin

text \<open>
  \<^verbatim>\<open>SingleAccess\<close> of \<^verbatim>\<open>src/single_access.rs\<close>, the barrier behind which \<^verbatim>\<open>init_malloc\<close> and \<^verbatim>\<open>init_heaps\<close> run.
  Any number of threads execute \<^verbatim>\<open>with\<close> (or, when \<open>then_after\<close> holds, \<^verbatim>\<open>with_then\<close>) on the same struct.
  A state is the three flags, a program counter for every thread and ghost counters of the calls;
  a step is one access of one thread to the flags, in the order of the code, and the start and the
  end of \<open>func\<close> are separate steps, so that every interleaving of the threads is a run. \<open>func\<close> and \<open>after\<close> return or
  panic; a panic unwinds the thread out of \<^verbatim>\<open>with\<close>. Accesses are sequentially consistent, also those to the
  flags \<^verbatim>\<open>wait\<close> and \<^verbatim>\<open>skip\<close>, which the code does not declare atomic.
\<close>

section \<open>Steps\<close>

datatype pc = Enter | Cas | Func | ClearWait | SetSkip | After | Spin | Done | Panicked

record single_access =
  access :: bool
  sa_wait :: bool
  sa_skip :: bool
  pcs :: "nat \<Rightarrow> pc"
  started :: nat
  finished :: nat
  afters :: nat

definition sa_new :: single_access where
  "sa_new = \<lparr>access = False, sa_wait = True, sa_skip = False, pcs = (\<lambda>_. Enter),
     started = 0, finished = 0, afters = 0\<rparr>"

definition goto :: "nat \<Rightarrow> pc \<Rightarrow> single_access \<Rightarrow> single_access" where
  "goto t p s = s\<lparr>pcs := (pcs s)(t := p)\<rparr>"

inductive sa_step :: "bool \<Rightarrow> single_access \<Rightarrow> single_access \<Rightarrow> bool" for then_after where
  skip_true: "pcs s t = Enter \<Longrightarrow> sa_skip s \<Longrightarrow> sa_step then_after s (goto t Done s)"
| skip_false: "pcs s t = Enter \<Longrightarrow> \<not> sa_skip s \<Longrightarrow> sa_step then_after s (goto t Cas s)"
| cas_win: "pcs s t = Cas \<Longrightarrow> \<not> access s \<Longrightarrow>
    sa_step then_after s (goto t Func (s\<lparr>access := True, started := Suc (started s)\<rparr>))"
| cas_lose: "pcs s t = Cas \<Longrightarrow> access s \<Longrightarrow> sa_step then_after s (goto t Spin s)"
| func_end: "pcs s t = Func \<Longrightarrow> sa_step then_after s (goto t ClearWait (s\<lparr>finished := Suc (finished s)\<rparr>))"
| clear_wait: "pcs s t = ClearWait \<Longrightarrow> sa_step then_after s (goto t SetSkip (s\<lparr>sa_wait := False\<rparr>))"
| set_skip: "pcs s t = SetSkip \<Longrightarrow>
    sa_step then_after s (goto t (if then_after then After else Spin) (s\<lparr>sa_skip := True\<rparr>))"
| after: "pcs s t = After \<Longrightarrow> sa_step then_after s (goto t Spin (s\<lparr>afters := Suc (afters s)\<rparr>))"
| spin_end: "pcs s t = Spin \<Longrightarrow> \<not> sa_wait s \<Longrightarrow> sa_step then_after s (goto t Done s)"
| spin: "pcs s t = Spin \<Longrightarrow> sa_wait s \<Longrightarrow> sa_step then_after s s"
| func_panic: "pcs s t = Func \<Longrightarrow> sa_step then_after s (goto t Panicked s)"
| after_panic: "pcs s t = After \<Longrightarrow> sa_step then_after s (goto t Panicked (s\<lparr>afters := Suc (afters s)\<rparr>))"

inductive_cases sa_stepE: "sa_step then_after s s'"

definition sa_reachable :: "bool \<Rightarrow> single_access \<Rightarrow> bool" where
  "sa_reachable then_after s \<longleftrightarrow> (sa_step then_after)\<^sup>*\<^sup>* sa_new s"

section \<open>Invariant\<close>

text \<open>Before the first compare-and-swap, nothing has happened; afterwards one thread owns the struct
  and its program counter determines the flags and the counters.\<close>

definition fresh :: "single_access \<Rightarrow> bool" where
  "fresh s \<longleftrightarrow> \<not> access s \<and> sa_wait s \<and> \<not> sa_skip s \<and> (\<forall>t. pcs s t \<in> {Enter, Cas}) \<and>
     started s = 0 \<and> finished s = 0 \<and> afters s = 0"

definition owner_flags :: "pc \<Rightarrow> single_access \<Rightarrow> bool" where
  "owner_flags p s \<longleftrightarrow> (case p of
       Func \<Rightarrow> sa_wait s \<and> \<not> sa_skip s \<and> finished s = 0 \<and> afters s = 0
     | ClearWait \<Rightarrow> sa_wait s \<and> \<not> sa_skip s \<and> finished s = 1 \<and> afters s = 0
     | SetSkip \<Rightarrow> \<not> sa_wait s \<and> \<not> sa_skip s \<and> finished s = 1 \<and> afters s = 0
     | After \<Rightarrow> \<not> sa_wait s \<and> sa_skip s \<and> finished s = 1 \<and> afters s = 0
     | Spin \<Rightarrow> \<not> sa_wait s \<and> sa_skip s \<and> finished s = 1 \<and> afters s \<le> 1
     | Done \<Rightarrow> \<not> sa_wait s \<and> sa_skip s \<and> finished s = 1 \<and> afters s \<le> 1
     | Panicked \<Rightarrow> sa_wait s \<and> \<not> sa_skip s \<and> finished s = 0 \<and> afters s = 0 \<or>
         \<not> sa_wait s \<and> sa_skip s \<and> finished s = 1 \<and> afters s = 1
     | _ \<Rightarrow> False)"

definition owned :: "nat \<Rightarrow> single_access \<Rightarrow> bool" where
  "owned u s \<longleftrightarrow> access s \<and> started s = 1 \<and> owner_flags (pcs s u) s \<and>
     (\<forall>t. t \<noteq> u \<longrightarrow> pcs s t \<in> {Enter, Cas, Spin} \<or> pcs s t = Done \<and> \<not> sa_wait s)"

lemma goto_simps [simp]:
  "access (goto t p s) = access s" "sa_wait (goto t p s) = sa_wait s" "sa_skip (goto t p s) = sa_skip s"
  "pcs (goto t p s) = (pcs s)(t := p)" "started (goto t p s) = started s" "finished (goto t p s) = finished s"
  "afters (goto t p s) = afters s"
  by (simp_all add: goto_def)

lemma fresh_step:
  assumes "fresh s" "sa_step then_after s s'" shows "fresh s' \<or> (\<exists>u. owned u s')"
proof -
  have F: "pcs s t \<noteq> Func" "pcs s t \<noteq> ClearWait" "pcs s t \<noteq> SetSkip" "pcs s t \<noteq> After" "pcs s t \<noteq> Spin" for t
    using assms(1) unfolding fresh_def by (metis empty_iff insert_iff pc.distinct)+
  show ?thesis
    using assms(2)
  proof cases
    case (cas_win t)
    then have "owned t s'" using assms(1) by (auto simp: fresh_def owned_def owner_flags_def)
    then show ?thesis by blast
  qed (use assms(1) F in \<open>auto simp: fresh_def\<close>)
qed

lemma owned_step: "owned u s \<Longrightarrow> sa_step then_after s s' \<Longrightarrow> owned u s'"
proof (erule sa_stepE, goal_cases)
  case (1 t)
  then show ?case by (cases "t = u") (auto simp: owned_def owner_flags_def split: pc.splits)
next
  case (2 t)
  then show ?case by (cases "t = u") (auto simp: owned_def owner_flags_def split: pc.splits)
next
  case (3 t)
  then show ?case by (simp add: owned_def)
next
  case (4 t)
  then show ?case by (cases "t = u") (auto simp: owned_def owner_flags_def split: pc.splits)
next
  case (5 t)
  then show ?case by (cases "t = u") (auto simp: owned_def owner_flags_def)
next
  case (6 t)
  then show ?case by (cases "t = u") (auto simp: owned_def owner_flags_def)
next
  case (7 t)
  then show ?case by (cases "t = u") (auto simp: owned_def owner_flags_def)
next
  case (8 t)
  then show ?case by (cases "t = u") (auto simp: owned_def owner_flags_def)
next
  case (9 t)
  then show ?case by (cases "t = u") (auto simp: owned_def owner_flags_def split: pc.splits)
next
  case (10 t)
  then show ?case by simp
next
  case (11 t)
  then show ?case by (cases "t = u") (auto simp: owned_def owner_flags_def)
next
  case (12 t)
  then show ?case by (cases "t = u") (auto simp: owned_def owner_flags_def)
qed

lemma reachable_cases: "sa_reachable then_after s \<Longrightarrow> fresh s \<or> (\<exists>u. owned u s)"
  unfolding sa_reachable_def
proof (induction rule: rtranclp_induct)
  case base
  then show ?case by (simp add: fresh_def sa_new_def)
next
  case (step y z)
  then show ?case using fresh_step owned_step by blast
qed

text \<open>C26. However many threads enter and however their steps interleave, \<open>func\<close> starts at most once,
  \<open>after\<close> runs at most once, and a thread only gets past the barrier when \<open>func\<close> has returned.\<close>

theorem single_access_once:
  assumes "sa_reachable then_after s"
  shows "started s \<le> 1 \<and> afters s \<le> 1 \<and> (pcs s t = Done \<longrightarrow> finished s = 1)"
proof -
  have "finished s = 1" if "owned u s" "pcs s t = Done" for u
    using that by (cases "t = u") (auto simp: owned_def owner_flags_def split: pc.splits)
  moreover have "afters s \<le> 1" if "owned u s" for u
    using that by (auto simp: owned_def owner_flags_def split: pc.splits)
  ultimately show ?thesis
    using reachable_cases [OF assms] by (auto simp: fresh_def owned_def dest: spec [of _ t])
qed

section \<open>Progress\<close>

abbreviation sa_runs :: "bool \<Rightarrow> single_access \<Rightarrow> single_access \<Rightarrow> bool" where
  "sa_runs then_after \<equiv> (sa_step then_after)\<^sup>*\<^sup>*"

definition can_finish :: "bool \<Rightarrow> nat \<Rightarrow> single_access \<Rightarrow> bool" where
  "can_finish then_after t s \<longleftrightarrow> (\<exists>s'. sa_runs then_after s s' \<and> pcs s' t = Done)"

lemma can_finish_step: "sa_step then_after s s' \<Longrightarrow> can_finish then_after t s' \<Longrightarrow> can_finish then_after t s"
  unfolding can_finish_def by (meson converse_rtranclp_into_rtranclp)

lemma can_finish_runs: "sa_runs then_after s s' \<Longrightarrow> can_finish then_after t s' \<Longrightarrow> can_finish then_after t s"
  unfolding can_finish_def by (meson rtranclp_trans)

lemma finish_done: "pcs s t = Done \<Longrightarrow> can_finish then_after t s"
  unfolding can_finish_def by blast

lemma finish_spin: "pcs s t = Spin \<Longrightarrow> \<not> sa_wait s \<Longrightarrow> can_finish then_after t s"
  by (rule can_finish_step, erule (1) spin_end) (simp add: finish_done)

lemma finish_cas: "pcs s t = Cas \<Longrightarrow> access s \<Longrightarrow> \<not> sa_wait s \<Longrightarrow> can_finish then_after t s"
  by (rule can_finish_step, erule (1) cas_lose) (simp add: finish_spin)

lemma finish_enter: "pcs s t = Enter \<Longrightarrow> access s \<Longrightarrow> \<not> sa_wait s \<Longrightarrow> can_finish then_after t s"
proof (cases "sa_skip s")
  case True
  assume "pcs s t = Enter"
  then show ?thesis by (rule can_finish_step [OF skip_true [OF _ True]]) (simp add: finish_done)
next
  case False
  assume "pcs s t = Enter" "access s" "\<not> sa_wait s"
  then show ?thesis by (intro can_finish_step [OF skip_false [OF _ False]] finish_cas) simp_all
qed

lemma finish_after: "pcs s t = After \<Longrightarrow> \<not> sa_wait s \<Longrightarrow> can_finish then_after t s"
  by (rule can_finish_step, erule after) (simp add: finish_spin)

lemma finish_set_skip: "pcs s t = SetSkip \<Longrightarrow> \<not> sa_wait s \<Longrightarrow> can_finish then_after t s"
  by (rule can_finish_step, erule set_skip) (simp add: finish_spin finish_after)

lemma finish_clear_wait: "pcs s t = ClearWait \<Longrightarrow> can_finish then_after t s"
  by (rule can_finish_step, erule clear_wait) (simp add: finish_set_skip)

lemma finish_func: "pcs s t = Func \<Longrightarrow> can_finish then_after t s"
  by (rule can_finish_step, erule func_end) (simp add: finish_clear_wait)

text \<open>The thread that runs \<open>func\<close> has panicked in it.\<close>

definition func_panicked :: "single_access \<Rightarrow> bool" where
  "func_panicked s \<longleftrightarrow> finished s = 0 \<and> (\<exists>u. pcs s u = Panicked)"

text \<open>The owner releases the other threads without their help.\<close>

lemma owner_releases:
  assumes "owned u s" "\<not> func_panicked s"
  shows "\<exists>s'. sa_runs then_after s s' \<and> owned u s' \<and> \<not> sa_wait s' \<and> (\<forall>t. t \<noteq> u \<longrightarrow> pcs s' t = pcs s t) \<and>
    (pcs s u = Panicked \<longrightarrow> s' = s) \<and> (pcs s' u = Panicked \<longrightarrow> pcs s u = Panicked)"
proof -
  have clear: "\<exists>s'. sa_runs then_after s s' \<and> owned u s' \<and> \<not> sa_wait s' \<and> (\<forall>t. t \<noteq> u \<longrightarrow> pcs s' t = pcs s t) \<and> pcs s' u \<noteq> Panicked"
    if "owned u s" "pcs s u = ClearWait" for s
  proof -
    have st: "sa_step then_after s (goto u SetSkip (s\<lparr>sa_wait := False\<rparr>))" using that(2) by (rule clear_wait)
    then show ?thesis
      using owned_step [OF that(1) st] by (intro exI [of _ "goto u SetSkip (s\<lparr>sa_wait := False\<rparr>)"]) auto
  qed
  show ?thesis
  proof (cases "pcs s u")
    case Func
    let ?s = "goto u ClearWait (s\<lparr>finished := Suc (finished s)\<rparr>)"
    have st: "sa_step then_after s ?s" using Func by (rule func_end)
    obtain s' where "sa_runs then_after ?s s'" "owned u s'" "\<not> sa_wait s'" "\<forall>t. t \<noteq> u \<longrightarrow> pcs s' t = pcs ?s t" "pcs s' u \<noteq> Panicked"
      using clear [OF owned_step [OF assms(1) st]] by auto
    then show ?thesis using st Func by (intro exI [of _ s']) (auto intro: converse_rtranclp_into_rtranclp)
  next
    case ClearWait
    then show ?thesis using clear [OF assms(1)] by auto
  qed (use assms in \<open>auto simp: owned_def owner_flags_def func_panicked_def\<close>)
qed

lemma finish_released:
  assumes "owned u s" "\<not> sa_wait s" "pcs s t \<noteq> Panicked" shows "can_finish then_after t s"
proof (cases "pcs s t")
  case Enter
  then show ?thesis using assms by (intro finish_enter) (auto simp: owned_def)
next
  case Cas
  then show ?thesis using assms by (intro finish_cas) (auto simp: owned_def)
qed (use assms in \<open>auto intro: finish_func finish_clear_wait finish_set_skip finish_after finish_spin finish_done\<close>)

lemma finish_owned:
  assumes "owned u s" "\<not> func_panicked s" "pcs s t \<noteq> Panicked" shows "can_finish then_after t s"
proof -
  obtain s' where s': "sa_runs then_after s s'" "owned u s'" "\<not> sa_wait s'" "\<forall>t. t \<noteq> u \<longrightarrow> pcs s' t = pcs s t"
    "pcs s' u = Panicked \<longrightarrow> pcs s u = Panicked"
    using owner_releases [OF assms(1,2), of then_after] by blast
  have "pcs s' t \<noteq> Panicked" using s'(4,5) assms(3) by (cases "t = u") auto
  then show ?thesis by (intro can_finish_runs [OF s'(1)] finish_released [OF s'(2,3)])
qed

text \<open>After a panic of \<open>func\<close> the flags never change again.\<close>

lemma panicked_step:
  assumes "owned u s" "pcs s u = Panicked" "sa_wait s" "sa_step then_after s s'"
  shows "pcs s' u = Panicked" "sa_wait s'"
proof -
  have F: "pcs s t \<in> {Enter, Cas, Spin, Panicked}" for t
  proof (cases "t = u")
    case False
    then have "pcs s t \<in> {Enter, Cas, Spin} \<or> pcs s t = Done \<and> \<not> sa_wait s" using assms(1) unfolding owned_def by blast
    then show ?thesis using assms(3) by auto
  qed (simp add: assms(2))
  from assms(4) have "pcs s' u = Panicked \<and> sa_wait s'"
  proof cases
    case (clear_wait t)
    then show ?thesis using F [of t] by simp
  qed (use assms(2,3) in \<open>auto split: if_splits\<close>)
  then show "pcs s' u = Panicked" "sa_wait s'" by simp_all
qed

lemma panicked_runs:
  assumes "owned u s" "pcs s u = Panicked" "sa_wait s" "sa_runs then_after s s'"
  shows "owned u s' \<and> pcs s' u = Panicked \<and> sa_wait s'"
  using assms(4,1-3)
proof (induction rule: rtranclp_induct)
  case (step y z)
  then show ?case using owned_step panicked_step by blast
qed blast

lemma panicked_blocks:
  assumes "owned u s" "func_panicked s" "sa_runs then_after s s'" shows "pcs s' t \<noteq> Done"
proof -
  have p: "pcs s u = Panicked" using assms(1,2) by (auto simp: owned_def func_panicked_def)
  then have "sa_wait s" using assms(1,2) by (auto simp: owned_def owner_flags_def func_panicked_def)
  from panicked_runs [OF assms(1) p this assms(3)] show ?thesis by (cases "t = u") (auto simp: owned_def)
qed

lemma finish_fresh:
  assumes "fresh s" shows "can_finish then_after t s"
proof -
  have win: "can_finish then_after t s" if "pcs s t = Cas" "\<not> access s" for s
    by (rule can_finish_step [OF cas_win [OF that]], rule finish_func) simp
  have s: "pcs s t = Enter \<or> pcs s t = Cas" "\<not> access s" "\<not> sa_skip s" using assms by (auto simp: fresh_def)
  show ?thesis
  proof (cases "pcs s t = Cas")
    case True
    then show ?thesis using win s(2) by blast
  next
    case False
    then have e: "pcs s t = Enter" using s(1) by simp
    show ?thesis by (rule can_finish_step [OF skip_false [OF e s(3)]], rule win) (simp_all add: s)
  qed
qed

text \<open>C27. As long as \<open>func\<close> has not panicked, no thread is stuck: every thread, unless \<open>after\<close> panicked in it, can still get past the
  barrier. Once \<open>func\<close> has panicked, no thread ever gets past it, as the documentation of \<^verbatim>\<open>with\<close> warns.\<close>

theorem single_access_progress:
  assumes "sa_reachable then_after s"
  shows "if func_panicked s then \<forall>s'. (sa_step then_after)\<^sup>*\<^sup>* s s' \<longrightarrow> pcs s' t \<noteq> Done
    else pcs s t = Panicked \<or> (\<exists>s'. (sa_step then_after)\<^sup>*\<^sup>* s s' \<and> pcs s' t = Done)"
  using reachable_cases [OF assms]
proof (elim disjE exE)
  assume "fresh s"
  then have "pcs s u \<noteq> Panicked" for u unfolding fresh_def by (metis empty_iff insert_iff pc.distinct)
  then have "\<not> func_panicked s" by (simp add: func_panicked_def)
  then show ?thesis using finish_fresh [OF \<open>fresh s\<close>, of then_after t] by (simp add: can_finish_def)
next
  fix u assume u: "owned u s"
  then show ?thesis using finish_owned [OF u, of t then_after] panicked_blocks [OF u, of then_after] by (auto simp: can_finish_def)
qed

lemma sa_new_fresh: "fresh sa_new"
  by (simp add: fresh_def sa_new_def)

lemma sa_new_reachable: "sa_reachable then_after sa_new"
  by (simp add: sa_reachable_def)

theorem single_access_once_witness:
  "\<exists>s. sa_reachable False s \<and> pcs s 0 = Done \<and> finished s = 1"
proof -
  obtain s where s: "sa_runs False sa_new s" "pcs s 0 = Done"
    using finish_fresh [OF sa_new_fresh] unfolding can_finish_def by blast
  then have r: "sa_reachable False s" by (simp add: sa_reachable_def)
  then show ?thesis using single_access_once [OF r, of 0] s by blast
qed

text \<open>Thread 7 gets past a new barrier; and when \<open>func\<close> panics in thread 0, it does not.\<close>

definition sa_panicked :: single_access where
  "sa_panicked = goto 0 Panicked (goto 0 Func ((goto 0 Cas sa_new)\<lparr>access := True, started := 1\<rparr>))"

lemma sa_panicked_reachable: "sa_reachable then_after sa_panicked"
proof -
  let ?s1 = "goto 0 Cas sa_new"
  let ?s2 = "goto 0 Func (?s1\<lparr>access := True, started := Suc (started ?s1)\<rparr>)"
  have "sa_step then_after sa_new ?s1" by (rule skip_false) (simp_all add: sa_new_def)
  moreover have "sa_step then_after ?s1 ?s2" by (rule cas_win) (simp_all add: sa_new_def)
  moreover have "sa_step then_after ?s2 (goto 0 Panicked ?s2)" by (rule func_panic) simp
  ultimately have "sa_runs then_after sa_new (goto 0 Panicked ?s2)" by (metis converse_rtranclp_into_rtranclp rtranclp.rtrancl_refl)
  then show ?thesis by (simp add: sa_reachable_def sa_panicked_def sa_new_def)
qed

theorem single_access_progress_witness:
  "(\<exists>s'. (sa_step True)\<^sup>*\<^sup>* sa_new s' \<and> pcs s' 7 = Done) \<and> \<not> (\<exists>s'. (sa_step True)\<^sup>*\<^sup>* sa_panicked s' \<and> pcs s' 7 = Done)"
proof -
  have "\<not> func_panicked sa_new" "pcs sa_new 7 \<noteq> Panicked" "func_panicked sa_panicked"
    by (auto simp: func_panicked_def sa_new_def sa_panicked_def)
  then show ?thesis
    using single_access_progress [OF sa_new_reachable, of True 7] single_access_progress [OF sa_panicked_reachable, of True 7] by auto
qed

end
