(* ===== verification/Arrays.thy ===== *)
theory Arrays
  imports Segments
begin

text \<open>
  \<^verbatim>\<open>RawArray\<close>, \<^verbatim>\<open>Array\<close> and \<^verbatim>\<open>ArrayIterator\<close> of \<^verbatim>\<open>src/independent_collections/array.rs\<close>: a growable array
  whose memory is requested from the kernel segment by segment. The size and the alignment of the
  element type are a parameter. The elements behind the pointer of an array are a partial function
  on indices, \<open>None\<close> where memory holds no element; \<open>extent\<close> is the number of elements for which there
  is memory. Accesses that are undefined behaviour in the source (through a null pointer, outside
  the memory, of an element that was never written) are the panic \<open>undefined_access\<close>.
  References to elements are represented by the elements. Values that go out of scope are
  reported by the operations that drop them, because the source drops some of them twice.
\<close>

section \<open>Raw arrays\<close>

record layout =
  t_size :: nat
  t_align :: nat

definition ref_layout :: layout where "ref_layout = \<lparr>t_size = 8, t_align = 8\<rparr>"

record 'a raw_array =
  raw_segment :: "segment option"
  raw_no_dealloc :: bool
  slots :: "nat \<Rightarrow> 'a option"
  extent :: nat

definition raw_new :: "'a raw_array" where
  "raw_new = \<lparr>raw_segment = None, raw_no_dealloc = False, slots = (\<lambda>_. None), extent = 0\<rparr>"

definition raw_capacity :: "layout \<Rightarrow> 'a raw_array \<Rightarrow> nat" where
  "raw_capacity L r = (case raw_segment r of None \<Rightarrow> 0 | Some seg \<Rightarrow> unat (seg_length seg) div t_size L)"

text \<open>The size in bytes that \<^verbatim>\<open>reserve\<close> requests.\<close>

definition raw_bytes :: "layout \<Rightarrow> nat \<Rightarrow> usize" where
  "raw_bytes L n = align_val (of_nat n * of_nat (t_size L)) (of_nat (t_align L))"

definition raw_reserve ::
  "os_env \<Rightarrow> layout \<Rightarrow> nat \<Rightarrow> 's os_state_scheme \<times> 'a raw_array \<Rightarrow> ('s os_state_scheme \<times> 'a raw_array) res" where
  "raw_reserve env L new_capacity x =
     (let (s, r) = x in
      if raw_segment r \<noteq> None \<and> new_capacity < raw_capacity L r then Inr x
      else case seg_allocate env (raw_bytes L new_capacity) s of
        (Inl e, s1) \<Rightarrow> Inl UnwrapNone
      | (Inr new_ptr, s1) \<Rightarrow>
          let n = unat (seg_length new_ptr) div t_size L in
          (case raw_segment r of
             None \<Rightarrow> Inr (s1, r\<lparr>raw_segment := Some new_ptr, slots := (\<lambda>_. None), extent := n\<rparr>)
           | Some old \<Rightarrow>
               let copied = unat (seg_length old) div t_size L;
                   r1 = r\<lparr>raw_segment := Some new_ptr, slots := (\<lambda>i. if i < copied then slots r i else None), extent := n\<rparr>;
                   s2 = (if seg_ptr old \<noteq> seg_ptr new_ptr then snd (seg_deallocate env old s1) else s1)
               in Inr (s2, r1)))"

definition raw_with_capacity ::
  "os_env \<Rightarrow> layout \<Rightarrow> nat \<Rightarrow> 's os_state_scheme \<Rightarrow> ('s os_state_scheme \<times> 'a raw_array) res" where
  "raw_with_capacity env L capacity s = raw_reserve env L capacity (s, raw_new)"

definition raw_get_ptr :: "'a raw_array \<Rightarrow> usize" where
  "raw_get_ptr r = (case raw_segment r of None \<Rightarrow> 0 | Some seg \<Rightarrow> seg_ptr seg)"

text \<open>The segment is forgotten, it is not given back to the kernel.\<close>

definition raw_clear :: "'a raw_array \<Rightarrow> 'a raw_array" where
  "raw_clear r =
     (if \<not> raw_no_dealloc r then r\<lparr>raw_segment := None, slots := (\<lambda>_. None), extent := 0\<rparr> else r)"

definition raw_write :: "nat \<Rightarrow> 'a \<Rightarrow> 'a raw_array \<Rightarrow> 'a raw_array res" where
  "raw_write i v r = (if i < extent r then Inr (r\<lparr>slots := (slots r)(i \<mapsto> v)\<rparr>) else Inl undefined_access)"

definition raw_index :: "'a raw_array \<Rightarrow> nat \<Rightarrow> 'a res" where
  "raw_index r i =
     (if i < extent r then (case slots r i of Some v \<Rightarrow> Inr v | None \<Rightarrow> Inl undefined_access)
      else Inl undefined_access)"

section \<open>Arrays\<close>

record 'a array =
  ar_size :: nat
  ar_no_dealloc :: bool
  ar_raw :: "'a raw_array"

definition array_new :: "'a array" where
  "array_new = \<lparr>ar_size = 0, ar_no_dealloc = False, ar_raw = raw_new\<rparr>"

definition array_with_capacity ::
  "os_env \<Rightarrow> layout \<Rightarrow> nat \<Rightarrow> 's os_state_scheme \<Rightarrow> ('s os_state_scheme \<times> 'a array) res" where
  "array_with_capacity env L capacity s =
     rbind (raw_with_capacity env L capacity s) (\<lambda>(s1, r).
     Inr (s1, \<lparr>ar_size = 0, ar_no_dealloc = False, ar_raw = r\<rparr>))"

definition write_raw :: "'a \<Rightarrow> nat \<Rightarrow> 'a array \<Rightarrow> 'a array res" where
  "write_raw v i a = rbind (raw_write i v (ar_raw a)) (\<lambda>r. Inr (a\<lparr>ar_raw := r\<rparr>))"

definition of_size_using ::
  "os_env \<Rightarrow> layout \<Rightarrow> 'a \<Rightarrow> nat \<Rightarrow> 's os_state_scheme \<Rightarrow> ('s os_state_scheme \<times> 'a array) res" where
  "of_size_using env L dflt n s =
     rbind (raw_with_capacity env L n s) (\<lambda>(s1, r).
     rbind (for_each (write_raw dflt) [0..<n] \<lparr>ar_size = n, ar_no_dealloc = False, ar_raw = r\<rparr>) (\<lambda>a.
     Inr (s1, a)))"

definition of_size ::
  "os_env \<Rightarrow> layout \<Rightarrow> 'a \<Rightarrow> nat \<Rightarrow> 's os_state_scheme \<Rightarrow> ('s os_state_scheme \<times> 'a array) res" where
  "of_size = of_size_using"

text \<open>An array over memory that the caller owns; the length of its segment is the number of elements.\<close>

definition array_from_ptr :: "'a \<Rightarrow> usize \<Rightarrow> nat \<Rightarrow> 'a array res" where
  "array_from_ptr dflt ptr n =
     for_each (write_raw dflt) [0..<n]
       \<lparr>ar_size = n, ar_no_dealloc = True,
        ar_raw = \<lparr>raw_segment = Some \<lparr>seg_ptr = ptr, seg_length = of_nat n\<rparr>, raw_no_dealloc = True,
          slots = (\<lambda>_. None), extent = n\<rparr>\<rparr>"

definition array_grow ::
  "os_env \<Rightarrow> layout \<Rightarrow> 'a \<Rightarrow> nat \<Rightarrow> 's os_state_scheme \<times> 'a array \<Rightarrow> ('s os_state_scheme \<times> 'a array) res" where
  "array_grow env L dflt new_size x =
     (let (s, a) = x in
      if new_size > ar_size a then
        rbind (raw_reserve env L new_size (s, ar_raw a)) (\<lambda>(s1, r).
        rbind (for_each (write_raw dflt) [ar_size a..<new_size] (a\<lparr>ar_raw := r\<rparr>)) (\<lambda>a1.
        Inr (s1, a1\<lparr>ar_size := new_size\<rparr>)))
      else Inr x)"

definition array_len :: "'a array \<Rightarrow> nat" where "array_len a = ar_size a"

definition array_is_empty :: "'a array \<Rightarrow> bool" where "array_is_empty a \<longleftrightarrow> array_len a = 0"

definition array_capacity :: "layout \<Rightarrow> 'a array \<Rightarrow> nat" where "array_capacity L a = raw_capacity L (ar_raw a)"

definition array_get :: "'a array \<Rightarrow> nat \<Rightarrow> 'a option res" where
  "array_get a i = (if i \<ge> ar_size a then Inr None else rbind (raw_index (ar_raw a) i) (\<lambda>v. Inr (Some v)))"

definition array_index :: "'a array \<Rightarrow> nat \<Rightarrow> 'a res" where
  "array_index a i =
     rbind (array_get a i) (\<lambda>r. case r of None \<Rightarrow> Inl (Panic ''Array index out of bounds'') | Some v \<Rightarrow> Inr v)"

definition array_get_ptr :: "layout \<Rightarrow> nat \<Rightarrow> 'a array \<Rightarrow> usize" where
  "array_get_ptr L offset a =
     (case raw_segment (ar_raw a) of None \<Rightarrow> 0 | Some s \<Rightarrow> seg_ptr s + of_nat (offset * t_size L))"

definition array_push ::
  "os_env \<Rightarrow> layout \<Rightarrow> 'a \<Rightarrow> 's os_state_scheme \<times> 'a array \<Rightarrow> ('s os_state_scheme \<times> 'a array) res" where
  "array_push env L v x =
     (let (s, a) = x; capacity = raw_capacity L (ar_raw a) in
      rbind (if ar_size a \<ge> capacity
             then raw_reserve env L (if ar_size a > 0 then ar_size a * 2 else 1) (s, ar_raw a)
             else Inr (s, ar_raw a)) (\<lambda>(s1, r).
      rbind (raw_write (ar_size a) v r) (\<lambda>r1.
      Inr (s1, a\<lparr>ar_raw := r1, ar_size := ar_size a + 1\<rparr>))))"

text \<open>\<^verbatim>\<open>array!\<close> pushes its arguments one after the other.\<close>

definition array_macro :: "os_env \<Rightarrow> layout \<Rightarrow> 'a list \<Rightarrow> 's os_state_scheme \<Rightarrow> ('s os_state_scheme \<times> 'a array) res" where
  "array_macro env L elements s = for_each (array_push env L) elements (s, array_new)"

definition array_pop :: "'a array \<Rightarrow> ('a option \<times> 'a array) res" where
  "array_pop a =
     (if ar_size a = 0 then Inr (None, a)
      else let n = ar_size a - 1 in
        rbind (raw_index (ar_raw a) n) (\<lambda>v. Inr (Some v, a\<lparr>ar_size := n\<rparr>)))"

text \<open>The slice that \<^verbatim>\<open>deref\<close> gives, and the slices of ranges.\<close>

definition array_deref :: "'a array \<Rightarrow> 'a list res" where
  "array_deref a =
     (if raw_get_ptr (ar_raw a) = 0 then Inr [] else traverse_res (raw_index (ar_raw a)) [0..<ar_size a])"

definition array_range_from :: "'a array \<Rightarrow> nat \<Rightarrow> 'a list res" where
  "array_range_from a i =
     rbind (array_deref a) (\<lambda>xs. if i \<le> length xs then Inr (drop i xs) else Inl OutOfBounds)"

definition array_range_to :: "'a array \<Rightarrow> nat \<Rightarrow> 'a list res" where
  "array_range_to a i =
     rbind (array_deref a) (\<lambda>xs. if i \<le> length xs then Inr (take i xs) else Inl OutOfBounds)"

text \<open>\<^verbatim>\<open>clear\<close> and \<^verbatim>\<open>Drop\<close> report the values they drop.\<close>

definition array_clear :: "'a array \<Rightarrow> ('a list \<times> 'a array) res" where
  "array_clear a = rbind (array_deref a) (\<lambda>xs. Inr (xs, a\<lparr>ar_raw := raw_clear (ar_raw a), ar_size := 0\<rparr>))"

definition array_drop :: "'a array \<Rightarrow> 'a list res" where
  "array_drop a = (if \<not> ar_no_dealloc a then rbind (array_clear a) (\<lambda>(xs, _). Inr xs) else Inr [])"

definition array_swap :: "nat \<Rightarrow> 'a \<Rightarrow> 'a array \<Rightarrow> ('a option \<times> 'a array) res" where
  "array_swap i v a =
     (if i \<ge> ar_size a then Inr (None, a)
      else rbind (array_index a i) (\<lambda>old. rbind (write_raw v i a) (\<lambda>a1. Inr (Some old, a1))))"

text \<open>The slice method \<^verbatim>\<open>reverse\<close> on the elements of an array.\<close>

definition array_reverse :: "'a array \<Rightarrow> 'a array" where
  "array_reverse a =
     (if raw_get_ptr (ar_raw a) = 0 then a
      else let r = ar_raw a
        in a\<lparr>ar_raw := r\<lparr>slots := (\<lambda>i. if i < ar_size a then slots r (ar_size a - 1 - i) else slots r i)\<rparr>\<rparr>)"

section \<open>Iterators\<close>

record 'a array_iterator =
  it_index :: nat
  it_array :: "'a array"

definition into_iter :: "'a array \<Rightarrow> 'a array_iterator" where
  "into_iter a = \<lparr>it_index = 0, it_array = a\<rparr>"

definition iter_next :: "'a array_iterator \<Rightarrow> ('a option \<times> 'a array_iterator) res" where
  "iter_next it =
     (if it_index it \<ge> array_len (it_array it) then Inr (None, it)
      else rbind (array_index (it_array it) (it_index it)) (\<lambda>v. Inr (Some v, it\<lparr>it_index := it_index it + 1\<rparr>)))"

text \<open>A \<^verbatim>\<open>for\<close> loop over an iterator: the values it yields, and the iterator at the end of the loop.\<close>

function iter_all :: "'a array_iterator \<Rightarrow> ('a list \<times> 'a array_iterator) res" where
  "iter_all it =
     (case iter_next it of
        Inl e \<Rightarrow> Inl e
      | Inr (None, it') \<Rightarrow> Inr ([], it')
      | Inr (Some v, it') \<Rightarrow> rbind (iter_all it') (\<lambda>(vs, it''). Inr (v # vs, it'')))"
  by pat_completeness auto
termination
  by (relation "measure (\<lambda>it. ar_size (it_array it) - it_index it)")
    (auto simp: iter_next_def array_len_def rbind_eq_Inr split: if_splits)

declare iter_all.simps [simp del]

definition array_from_iter ::
  "os_env \<Rightarrow> layout \<Rightarrow> 'a list \<Rightarrow> 's os_state_scheme \<Rightarrow> ('s os_state_scheme \<times> 'a array) res" where
  "array_from_iter env L vs s = for_each (array_push env L) vs (s, array_new)"

text \<open>\<^verbatim>\<open>iter\<close> collects references to the elements in a second array, and so does the iteration over a
  reference, which reserves the memory beforehand.\<close>

definition push_element ::
  "os_env \<Rightarrow> 'a array \<Rightarrow> nat \<Rightarrow> 's os_state_scheme \<times> 'a array \<Rightarrow> ('s os_state_scheme \<times> 'a array) res" where
  "push_element env a i x = rbind (array_index a i) (\<lambda>v. array_push env ref_layout v x)"

definition array_iter ::
  "os_env \<Rightarrow> 's os_state_scheme \<times> 'a array \<Rightarrow> ('s os_state_scheme \<times> 'a array_iterator) res" where
  "array_iter env x =
     (let (s, a) = x in
      rbind (for_each (push_element env a) [0..<ar_size a] (s, array_new)) (\<lambda>(s1, arr). Inr (s1, into_iter arr)))"

definition ref_into_iter ::
  "os_env \<Rightarrow> 's os_state_scheme \<times> 'a array \<Rightarrow> ('s os_state_scheme \<times> 'a array_iterator) res" where
  "ref_into_iter env x =
     (let (s, a) = x in
      rbind (array_with_capacity env ref_layout (array_len a) s) (\<lambda>(s1, out).
      rbind (for_each (push_element env a) [0..<array_len a] (s1, out)) (\<lambda>(s2, arr). Inr (s2, into_iter arr))))"

definition array_clone ::
  "os_env \<Rightarrow> layout \<Rightarrow> ('a \<Rightarrow> 'a) \<Rightarrow> 's os_state_scheme \<times> 'a array \<Rightarrow> ('s os_state_scheme \<times> 'a array) res" where
  "array_clone env L clone x =
     rbind (array_iter env x) (\<lambda>(s1, it).
     rbind (iter_all it) (\<lambda>(vs, _). array_from_iter env L (map clone vs) s1))"

fun eq_loop :: "'a list \<Rightarrow> 'a list \<Rightarrow> bool" where
  "eq_loop (x # xs) (y # ys) = (if x \<noteq> y then False else eq_loop xs ys)"
| "eq_loop _ _ = True"

definition array_eq ::
  "os_env \<Rightarrow> 's os_state_scheme \<Rightarrow> 'a array \<Rightarrow> 'a array \<Rightarrow> (bool \<times> 's os_state_scheme) res" where
  "array_eq env s a b =
     (if array_len a \<noteq> array_len b then Inr (False, s)
      else rbind (array_iter env (s, a)) (\<lambda>(s1, ia). rbind (array_iter env (s1, b)) (\<lambda>(s2, ib).
        rbind (iter_all ia) (\<lambda>(xs, _). rbind (iter_all ib) (\<lambda>(ys, _). Inr (eq_loop xs ys, s2))))))"

section \<open>Removal\<close>

text \<open>The elements behind the removed one are popped, saved, reversed and pushed again. The loop that pushes them
  consumes the array of the saved elements; when its iterator goes out of scope, its array drops them all,
  although they are in the array again. The second component of the result are the values that are dropped.\<close>

definition save_one ::
  "os_env \<Rightarrow> layout \<Rightarrow> 's os_state_scheme \<times> 'a array \<times> 'a array \<Rightarrow> ('s os_state_scheme \<times> 'a array \<times> 'a array) res" where
  "save_one env L x =
     (let (s, a, saved) = x in
      rbind (array_pop a) (\<lambda>(r, a1). rbind (unwrap r) (\<lambda>v.
      rbind (array_push env L v (s, saved)) (\<lambda>(s1, saved1). Inr (s1, a1, saved1)))))"

definition array_remove ::
  "os_env \<Rightarrow> layout \<Rightarrow> nat \<Rightarrow> 's os_state_scheme \<times> 'a array \<Rightarrow> ('a option \<times> 'a list \<times> 's os_state_scheme \<times> 'a array) res" where
  "array_remove env L i x =
     (let (s, a) = x in
      if i \<ge> ar_size a then Inr (None, [], s, a)
      else let pre_pops = array_len a - i - 1 in
        rbind (for_each (\<lambda>_. save_one env L) [0..<pre_pops] (s, a, array_new)) (\<lambda>(s1, a1, saved).
        rbind (array_pop a1) (\<lambda>(r, a2).
        rbind (iter_all (into_iter (array_reverse saved))) (\<lambda>(vs, it).
        rbind (for_each (array_push env L) vs (s1, a2)) (\<lambda>(s2, a3).
        rbind (array_drop (it_array it)) (\<lambda>dropped. Inr (r, dropped, s2, a3)))))))"

section \<open>Bits\<close>

text \<open>An array of bytes as a bit set. A shift by eight or more overflows.\<close>

definition byte_index :: "nat \<Rightarrow> nat \<times> nat" where
  "byte_index bit_index = (bit_index mod 8, bit_index mod 256 div 8)"

definition get_byte :: "u8 array \<Rightarrow> nat \<Rightarrow> u8 option res" where
  "get_byte a i = array_get a i"

definition bit_mask :: "nat \<Rightarrow> u8 res" where
  "bit_mask i = (if i < 8 then Inr (push_bit i 1) else Inl Overflow)"

definition array_get_bit :: "u8 array \<Rightarrow> nat \<Rightarrow> bool option res" where
  "array_get_bit a i =
     (let (byte_i, bit_i) = byte_index i in
      rbind (get_byte a byte_i) (\<lambda>r. case r of
        None \<Rightarrow> Inr None
      | Some byte \<Rightarrow> rbind (bit_mask bit_i) (\<lambda>mask_byte. Inr (Some (byte AND mask_byte \<noteq> 0)))))"

definition array_set_bit :: "nat \<Rightarrow> bool \<Rightarrow> u8 array \<Rightarrow> u8 array res" where
  "array_set_bit i b a =
     (let (byte_i, bit_i) = byte_index i in
      rbind (get_byte a byte_i) (\<lambda>r. case r of
        None \<Rightarrow> Inl (Panic ''Index out of bounds'')
      | Some byte \<Rightarrow> rbind (bit_mask bit_i) (\<lambda>mask_byte.
          let shifted = push_bit bit_i (if b then 1 else 0)
          in write_raw ((byte AND NOT mask_byte) OR shifted) byte_i a)))"

end
