(* ===== verification/Auto_Ptr.thy ===== *)
theory Auto_Ptr
  imports Realloc Arrays
begin

text \<open>
  \<^verbatim>\<open>AutoPtr\<close> of \<^verbatim>\<open>src/ptr/auto_ptr.rs\<close>, an owning pointer to a block of the allocator, and \<^verbatim>\<open>allocate_val\<close> of
  \<^verbatim>\<open>src/lib.rs\<close>. A value of the pointed-to type is the list of its bytes; its size and alignment are
  the layout. Reading or writing a value through the null pointer is the panic \<open>undefined_access\<close>.
  Drop glue is reported as the value that is dropped.
\<close>

section \<open>Values in memory\<close>

definition write_val :: "usize \<Rightarrow> u8 list \<Rightarrow> 's malloc_state_scheme \<Rightarrow> 's malloc_state_scheme res" where
  "write_val p v s =
     (if p = 0 then Inl undefined_access
      else Inr (s\<lparr>mem := (\<lambda>a. if unat (a - p) < length v then v ! unat (a - p) else mem s a)\<rparr>))"

definition read_val :: "usize \<Rightarrow> nat \<Rightarrow> 's malloc_state_scheme \<Rightarrow> u8 list res" where
  "read_val p n s =
     (if p = 0 then Inl undefined_access else Inr (map (\<lambda>i. mem s (p + of_nat i)) [0..<n]))"

definition allocate_val :: "config \<Rightarrow> layout \<Rightarrow> u8 list \<Rightarrow> 's st \<Rightarrow> (usize \<times> 's st) res option" where
  "allocate_val cfg L v x =
     orbind (allocate_type cfg (of_nat (t_size L)) (of_nat (t_align L)) x) (\<lambda>(p, s, t).
     if p \<noteq> 0 then orbind (Some (write_val p v s)) (\<lambda>s1. Some (Inr (p, s1, t))) else Some (Inr (p, s, t)))"

section \<open>Operations\<close>

record auto_ptr =
  ap_data :: usize

definition ap_new :: "config \<Rightarrow> layout \<Rightarrow> u8 list \<Rightarrow> 's st \<Rightarrow> (auto_ptr \<times> 's st) res option" where
  "ap_new cfg L v x =
     orbind (do_aligned_alloc cfg (of_nat (t_align L)) (of_nat (t_size L)) x) (\<lambda>(p, s, t).
     orbind (Some (write_val p v s)) (\<lambda>s1. Some (Inr (\<lparr>ap_data = p\<rparr>, s1, t))))"

definition ap_take :: "config \<Rightarrow> layout \<Rightarrow> auto_ptr \<Rightarrow> 's st \<Rightarrow> (u8 list \<times> 's st) res option" where
  "ap_take cfg L a x =
     orbind (Some (read_val (ap_data a) (t_size L) (fst x))) (\<lambda>v.
     orbind (do_free cfg (ap_data a) x) (\<lambda>x1. Some (Inr (v, x1))))"

definition into_ptr :: "auto_ptr \<Rightarrow> usize" where "into_ptr a = ap_data a"

definition ap_from_ptr :: "usize \<Rightarrow> auto_ptr" where "ap_from_ptr p = \<lparr>ap_data = p\<rparr>"

definition ap_replace ::
  "layout \<Rightarrow> u8 list \<Rightarrow> auto_ptr \<Rightarrow> 's malloc_state_scheme \<Rightarrow> (u8 list \<times> 's malloc_state_scheme) res" where
  "ap_replace L v a s =
     rbind (read_val (ap_data a) (t_size L) s) (\<lambda>old. rbind (write_val (ap_data a) v s) (\<lambda>s1. Inr (old, s1)))"

definition ap_write ::
  "layout \<Rightarrow> u8 list \<Rightarrow> auto_ptr \<Rightarrow> 's malloc_state_scheme \<Rightarrow> 's malloc_state_scheme res" where
  "ap_write L v a s = rbind (ap_replace L v a s) (\<lambda>(_, s1). Inr s1)"

definition ap_deref :: "layout \<Rightarrow> auto_ptr \<Rightarrow> 's malloc_state_scheme \<Rightarrow> u8 list res" where
  "ap_deref L a s = read_val (ap_data a) (t_size L) s"

definition ap_drop :: "config \<Rightarrow> layout \<Rightarrow> auto_ptr \<Rightarrow> 's st \<Rightarrow> (u8 list \<times> 's st) res option" where
  "ap_drop cfg L a x =
     orbind (Some (read_val (ap_data a) (t_size L) (fst x))) (\<lambda>v.
     orbind (do_free cfg (ap_data a) x) (\<lambda>x1. Some (Inr (v, x1))))"

definition ap_clone ::
  "config \<Rightarrow> layout \<Rightarrow> (u8 list \<Rightarrow> u8 list) \<Rightarrow> auto_ptr \<Rightarrow> 's st \<Rightarrow> (auto_ptr \<times> 's st) res option" where
  "ap_clone cfg L clone a x =
     orbind (Some (ap_deref L a (fst x))) (\<lambda>v. ap_new cfg L (clone v) x)"

section \<open>Values come back\<close>

lemma read_write_val:
  assumes "write_val p v s = Inr s'" "length v \<le> 2 ^ 64"
  shows "read_val p (length v) s' = Inr v"
proof -
  have "map (\<lambda>i. mem s' (p + of_nat i)) [0..<length v] = v"
    using assms by (intro nth_equalityI) (auto simp: write_val_def unat_of_nat split: if_splits)
  then show ?thesis using assms(1) by (simp add: read_val_def write_val_def split: if_splits)
qed

lemma write_val_rep:
  assumes "bin_rep nm (mem s, b) xs" "\<forall>y \<in> set xs. cell_clear p (length v) y" "write_val p v s = Inr s'"
  shows "bin_rep nm (mem s', b) xs"
  using assms(2,3) by (intro bin_rep_frame [OF assms(1)])
    (fastforce simp: write_val_def cell_clear_def not_less split: if_splits)

lemma do_aligned_alloc_bin:
  assumes "quiet cfg s" "is_power_of_two align" "unat (align_size sz align) \<le> PAGE"
    and "get_size_class (sc_lookup s) (unat (align_size sz align)) = sci" "sci < length (bins t)"
    and "bin_rep (cfg_nm cfg) (mem s, bins t ! sci) (x # xs)"
  shows "\<exists>b'. do_aligned_alloc cfg align sz (s, t) = Some (Inr (x, s, put_bin sci b' t)) \<and> bin_rep (cfg_nm cfg) (mem s, b') xs"
  using allocate_to_cache_bin [OF assms(1,5,6), of "align_size sz align"] assms(1-4)
  by (auto simp: do_aligned_alloc_def init_once_def quiet_def)

lemma write_val_ok: "p \<noteq> 0 \<Longrightarrow> \<exists>m. write_val p v s = Inr (s\<lparr>mem := m\<rparr>)"
  by (auto simp: write_val_def)

text \<open>C35. An \<^verbatim>\<open>AutoPtr\<close> owns its value: with tuning off, \<^verbatim>\<open>new\<close> stores the value in the top block of the bin
  of its size and alignment, dereferencing reads it back, \<^verbatim>\<open>replace\<close> returns it and stores the new one,
  and \<^verbatim>\<open>take\<close> returns that one and puts the block back into the bin, which holds the same blocks as at
  the beginning.\<close>

theorem auto_ptr_roundtrip:
  fixes s :: "'s malloc_state_scheme"
  assumes state: "quiet cfg s" "block_of_class s x bs sci" "sci < length (bins t)"
      "bin_rep (cfg_nm cfg) (mem s, bins t ! sci) (x # xs)" "length xs < sc_cache_block_num (sc_table s ! sci)"
    and L: "is_power_of_two (of_nat (t_align L))" "n = unat (align_size (of_nat (t_size L)) (of_nat (t_align L)))" "n \<le> PAGE"
      "get_size_class (sc_lookup s) n = sci"
    and v: "length v = t_size L" "length w = t_size L" "t_size L \<le> 2 ^ 64" "\<forall>y \<in> set xs. cell_clear x (t_size L) y"
  shows "\<exists>a s1 t1 s2 s3 t3. ap_new cfg L v (s, t) = Some (Inr (a, s1, t1)) \<and> into_ptr a = x \<and> ap_deref L a s1 = Inr v \<and>
    ap_replace L w a s1 = Inr (v, s2) \<and> ap_deref L a s2 = Inr w \<and>
    ap_take cfg L a (s2, t1) = Some (Inr (w, s3, t3)) \<and> bin_rep (cfg_nm cfg) (mem s3, bins t3 ! sci) (x # xs)"
proof -
  have fit: "x \<noteq> 0" "bin_fits xs x" using state(4) by (auto simp: bin_rep_def bin_fits_def)
  obtain b1 where b1: "do_aligned_alloc cfg (of_nat (t_align L)) (of_nat (t_size L)) (s, t) = Some (Inr (x, s, put_bin sci b1 t))"
    "bin_rep (cfg_nm cfg) (mem s, b1) xs"
    using do_aligned_alloc_bin [OF state(1) L(1) _ _ state(3,4)] L(2-4) by auto
  let ?t1 = "put_bin sci b1 t" and ?a = "\<lparr>ap_data = x\<rparr>"
  obtain m1 where m1: "write_val x v s = Inr (s\<lparr>mem := m1\<rparr>)" using write_val_ok [OF fit(1)] by blast
  let ?s1 = "s\<lparr>mem := m1\<rparr>"
  obtain m2 where m2: "write_val x w ?s1 = Inr (?s1\<lparr>mem := m2\<rparr>)" using write_val_ok [OF fit(1)] by blast
  let ?s2 = "?s1\<lparr>mem := m2\<rparr>"
  have rd: "read_val x (t_size L) ?s1 = Inr v" "read_val x (t_size L) ?s2 = Inr w"
    using read_write_val [OF m1] read_write_val [OF m2] v(1-3) by simp_all
  have "bin_rep (cfg_nm cfg) (mem ?s1, b1) xs" using write_val_rep [OF b1(2) _ m1] v(1,4) by simp
  then have r2: "bin_rep (cfg_nm cfg) (mem ?s2, b1) xs" using write_val_rep [OF _ _ m2] v(2,4) by simp
  have q: "quiet cfg ?s2" "block_of_class ?s2 x bs sci" using state(1,2) by simp_all
  obtain u b3 where b3: "do_free cfg x (?s2, ?t1) = Some (Inr (?s2\<lparr>mem := store64 (mem ?s2) x u\<rparr>, put_bin sci b3 ?t1))"
    "bin_rep (cfg_nm cfg) (store64 (mem ?s2) x u, b3) (x # xs)"
    using do_free_bin [OF q, of ?t1 xs] r2 fit(2) state(3,5) by auto
  have "ap_new cfg L v (s, t) = Some (Inr (?a, ?s1, ?t1))" using b1(1) m1 by (simp add: ap_new_def)
  moreover have "ap_replace L w ?a ?s1 = Inr (v, ?s2)" using rd(1) m2 by (simp add: ap_replace_def)
  moreover have "ap_take cfg L ?a (?s2, ?t1) = Some (Inr (w, ?s2\<lparr>mem := store64 (mem ?s2) x u\<rparr>, put_bin sci b3 ?t1))"
    using rd(2) b3(1) by (simp add: ap_take_def)
  ultimately show ?thesis
    using rd b3(2) state(3) by (intro exI [of _ ?a] exI [of _ ?s1] exI [of _ ?t1] exI [of _ ?s2] exI conjI)
      (assumption | simp add: into_ptr_def ap_deref_def)+
qed

lemma next_cell_clear: "cell_clear p 8 (p + 8)"
proof -
  have "8 \<le> unat (p + 8 + of_nat i - p)" if "i < 8" for i
  proof -
    have "p + 8 + of_nat i - p = of_nat (8 + i)" by simp
    moreover have "unat (of_nat (8 + i) :: usize) = 8 + i" using that by (simp only: unat_of_nat) simp
    ultimately show ?thesis by (simp only:)
  qed
  then show ?thesis by (simp add: cell_clear_def)
qed

theorem auto_ptr_roundtrip_witness:
  "\<exists>a s1 t1. ap_new bump_cfg \<lparr>t_size = 8, t_align = 8\<rparr> [1, 2, 3, 4, 5, 6, 7, 8] (small_malloc, small_thread) = Some (Inr (a, s1, t1)) \<and>
    into_ptr a = 1114112 \<and> ap_deref \<lparr>t_size = 8, t_align = 8\<rparr> a s1 = Inr [1, 2, 3, 4, 5, 6, 7, 8]"
proof -
  have "is_power_of_two 8" "align_size 8 8 = 8" by (simp_all add: is_power_of_two_def align_size_def)
  moreover have "cell_clear 1114112 8 1114120" using next_cell_clear [of 1114112] by simp
  ultimately show ?thesis
    using auto_ptr_roundtrip [OF small_quiet small_block _ small_bin, of "\<lparr>t_size = 8, t_align = 8\<rparr>" 8
        "[1, 2, 3, 4, 5, 6, 7, 8]" "replicate 8 0"] small_class [of 8]
    by (auto simp: small_lengths MAX_SZ_IDX_def MAX_SZ_value PAGE_value)
qed

end
