(* ===== verification/Buffers.thy ===== *)
theory Buffers
  imports Lifo
begin

text \<open>
  Contracts of the growable containers. A buffer is described by the list of its elements; pushing
  may panic (the memory may be refused), so the laws speak of pushes that return. A stack takes
  from the end where it pushes, a queue from the other one.
\<close>

locale growing_buffer =
  fixes rep :: "'s \<Rightarrow> 'a list \<Rightarrow> bool"
    and push :: "'a \<Rightarrow> 's \<Rightarrow> 's res"
  assumes push_rep: "rep s xs \<Longrightarrow> push v s = Inr s' \<Longrightarrow> rep s' (xs @ [v])"
begin

lemma push_all_rep: "rep s xs \<Longrightarrow> for_each push ys s = Inr s' \<Longrightarrow> rep s' (xs @ ys)"
proof (induction ys arbitrary: s xs)
  case (Cons y ys)
  then obtain s1 where s1: "push y s = Inr s1" "for_each push ys s1 = Inr s'" by (auto simp: rbind_eq_Inr)
  show ?case using Cons.IH [OF push_rep [OF Cons.prems(1) s1(1)] s1(2)] by simp
qed simp

end

locale stack_buffer = growing_buffer +
  fixes pop :: "'s \<Rightarrow> ('a option \<times> 's) res"
  assumes pop_rep: "rep s xs \<Longrightarrow>
    \<exists>s'. pop s = Inr (if xs = [] then None else Some (last xs), s') \<and> rep s' (butlast xs)"
begin

lemma pop_many_rep:
  "rep s (xs @ ys) \<Longrightarrow> \<exists>s'. pop_many pop (length ys) s = Inr (map Some (rev ys), s') \<and> rep s' xs"
proof (induction ys arbitrary: s rule: rev_induct)
  case (snoc y ys)
  obtain s1 where s1: "pop s = Inr (Some y, s1)" "rep s1 (xs @ ys)"
    using pop_rep [OF snoc.prems] by (auto simp: butlast_append)
  then obtain s2 where "pop_many pop (length ys) s1 = Inr (map Some (rev ys), s2)" "rep s2 xs"
    using snoc.IH by blast
  then show ?case using s1(1) by simp
qed simp

lemma push_pop_all:
  assumes "rep s xs" "for_each push ys s = Inr s1"
  shows "\<exists>s2. pop_many pop (length ys) s1 = Inr (map Some (rev ys), s2) \<and> rep s2 xs"
  using pop_many_rep [OF push_all_rep [OF assms]] .

end

locale queue_buffer = growing_buffer +
  fixes pop_front :: "'s \<Rightarrow> ('a option \<times> 's) res"
  assumes pop_front_rep: "rep s xs \<Longrightarrow>
    \<exists>s'. pop_front s = Inr (if xs = [] then None else Some (hd xs), s') \<and> rep s' (tl xs)"
begin

lemma pop_front_many_rep:
  "rep s (xs @ ys) \<Longrightarrow> \<exists>s'. pop_many pop_front (length xs) s = Inr (map Some xs, s') \<and> rep s' ys"
proof (induction xs arbitrary: s)
  case (Cons x xs)
  obtain s1 where s1: "pop_front s = Inr (Some x, s1)" "rep s1 (xs @ ys)"
    using pop_front_rep [OF Cons.prems] by auto
  then obtain s2 where "pop_many pop_front (length xs) s1 = Inr (map Some xs, s2)" "rep s2 ys"
    using Cons.IH by blast
  then show ?case using s1(1) by simp
qed simp

lemma push_pop_front_all:
  assumes "rep s xs" "for_each push ys s = Inr s1"
  shows "\<exists>s2. pop_many pop_front (length (xs @ ys)) s1 = Inr (map Some (xs @ ys), s2) \<and> rep s2 []"
  using pop_front_many_rep [of s1 "xs @ ys" "[]"] push_all_rep [OF assms] by simp

end

end
