(* ===== verification/Array_Facts.thy ===== *)
theory Array_Facts
  imports Arrays Buffers
begin

text \<open>
  Arrays represent lists: the representation of an array, that every operation follows the list
  operation it stands for, and what the iterators drop.
\<close>

section \<open>Representation\<close>

text \<open>The layouts Rust allows: a positive size that is a multiple of a power-of-two alignment and at
  most \<^verbatim>\<open>isize::MAX\<close>.\<close>

definition layout_ok :: "layout \<Rightarrow> bool" where
  "layout_ok L \<longleftrightarrow> 0 < t_size L \<and> t_size L < 2 ^ 63 \<and> (\<exists>k < 64. t_align L = 2 ^ k) \<and> t_align L dvd t_size L"

definition raw_ok :: "layout \<Rightarrow> 'a raw_array \<Rightarrow> bool" where
  "raw_ok L r \<longleftrightarrow> extent r = raw_capacity L r \<and>
     (\<forall>seg. raw_segment r = Some seg \<longrightarrow> seg_ptr seg \<noteq> 0 \<and> unat (seg_length seg) \<le> 2 ^ 47)"

definition array_rep :: "layout \<Rightarrow> 'a array \<Rightarrow> 'a list \<Rightarrow> bool" where
  "array_rep L a xs \<longleftrightarrow> ar_size a = length xs \<and> raw_ok L (ar_raw a) \<and> length xs \<le> raw_capacity L (ar_raw a) \<and>
     (\<forall>i < length xs. slots (ar_raw a) i = Some (xs ! i))"

lemma raw_new_ok [simp]: "raw_ok L raw_new"
  by (simp add: raw_ok_def raw_new_def raw_capacity_def)

lemma array_new_rep [simp]: "array_rep L array_new []"
  by (simp add: array_rep_def array_new_def)

lemma array_rep_len: "array_rep L a xs \<Longrightarrow> ar_size a = length xs"
  by (simp add: array_rep_def)

lemma array_rep_read: "array_rep L a xs \<Longrightarrow> i < length xs \<Longrightarrow> raw_index (ar_raw a) i = Inr (xs ! i)"
  by (simp add: array_rep_def raw_ok_def raw_index_def)

lemma array_get_rep: "array_rep L a xs \<Longrightarrow> array_get a i = Inr (if i < length xs then Some (xs ! i) else None)"
  by (simp add: array_get_def array_rep_len array_rep_read)

lemma array_index_rep: "array_rep L a xs \<Longrightarrow> i < length xs \<Longrightarrow> array_index a i = Inr (xs ! i)"
  by (simp add: array_index_def array_get_rep)

lemma array_rep_ptr: "array_rep L a xs \<Longrightarrow> raw_get_ptr (ar_raw a) = 0 \<Longrightarrow> xs = []"
  by (auto simp: array_rep_def raw_ok_def raw_get_ptr_def raw_capacity_def split: option.splits)

lemma array_deref_rep: "array_rep L a xs \<Longrightarrow> array_deref a = Inr xs"
proof (cases "raw_get_ptr (ar_raw a) = 0")
  case False
  assume r: "array_rep L a xs"
  have "traverse_res (raw_index (ar_raw a)) [0..<length xs] = Inr (map ((!) xs) [0..<length xs])"
    using array_rep_read [OF r] by (intro traverse_res_map) auto
  then show ?thesis using False array_rep_len [OF r] by (simp add: array_deref_def map_nth)
qed (auto simp: array_deref_def dest: array_rep_ptr)

section \<open>Reserving\<close>

lemma raw_reserve_ok:
  assumes "mmap_contract env" "raw_ok L r" "raw_reserve env L n (s, r) = Inr (s', r')"
  shows "raw_ok L r' \<and> (\<forall>i < raw_capacity L r. slots r' i = slots r i)"
proof (cases "raw_segment r \<noteq> None \<and> n < raw_capacity L r")
  case True
  then show ?thesis using assms by (simp add: raw_reserve_def)
next
  case False
  obtain res s1 where res: "seg_allocate env (raw_bytes L n) s = (res, s1)"
    by (cases "seg_allocate env (raw_bytes L n) s")
  then obtain seg where seg: "res = Inr seg"
    using assms(3) False by (cases res) (auto simp: raw_reserve_def)
  have v: "valid_map (seg_ptr seg, seg_length seg)"
    using res seg mmap_contractD(1) [OF assms(1), of False "os_calls s" "os_maps s" "raw_bytes L n"]
    by (auto simp: seg_allocate_def map_segment_def Let_def split: if_splits)
  then have "seg_ptr seg \<noteq> 0" "unat (seg_length seg) \<le> 2 ^ 47"
    using map_span_pos [OF v] by (auto simp: valid_map_def)
  then show ?thesis
    using assms(2,3) False res seg
    by (auto simp: raw_reserve_def raw_ok_def raw_capacity_def Let_def split: option.splits)
qed

lemma raw_bytes_exact:
  assumes "layout_ok L" "n * t_size L + t_align L \<le> 2 ^ 64"
  shows "unat (raw_bytes L n) = n * t_size L"
proof -
  obtain k where k: "k < 64" "t_align L = 2 ^ k" "2 ^ k dvd t_size L" "0 < t_size L"
    using assms(1) by (auto simp: layout_ok_def)
  have "n * t_size L < 2 ^ 64" using assms(2) k(2) zero_less_power [of "2::nat" k] by linarith
  then have p: "unat (of_nat n * of_nat (t_size L) :: usize) = n * t_size L"
    by (simp only: of_nat_mult [symmetric] unat_of_nat) simp
  have "unat (raw_bytes L n) = round_up (n * t_size L) (2 ^ k)"
    unfolding raw_bytes_def k(2) using assms(2) k p by (simp add: unat_align_val)
  moreover have "round_up (n * t_size L) (2 ^ k) = n * t_size L"
    using k by (intro antisym round_up_least round_up_ge) auto
  ultimately show ?thesis by simp
qed

text \<open>Reserving fails only when the kernel refuses the request.\<close>

lemma raw_reserve_returns:
  assumes "layout_ok L" "mmap env False (os_calls s) (os_maps s) (raw_bytes L n) \<noteq> MAP_FAILED"
    and "n * t_size L + t_align L \<le> 2 ^ 64"
  shows "\<exists>s' r'. raw_reserve env L n (s, r) = Inr (s', r') \<and> n \<le> raw_capacity L r'"
proof -
  have "unat (raw_bytes L n) div t_size L = n"
    using assms(1) raw_bytes_exact [OF assms(1,3)] by (simp add: layout_ok_def)
  then show ?thesis
    using assms(2) by (auto simp: raw_reserve_def seg_allocate_def map_segment_def raw_capacity_def Let_def
        split: option.splits)
qed

lemma raw_capacity_bytes: "raw_ok L r \<Longrightarrow> raw_capacity L r * t_size L \<le> 2 ^ 47"
proof (cases "raw_segment r")
  case (Some seg)
  assume "raw_ok L r"
  then have "unat (seg_length seg) \<le> 2 ^ 47" using Some by (simp add: raw_ok_def)
  then have "unat (seg_length seg) div t_size L * t_size L \<le> 2 ^ 47"
    using div_times_less_eq_dividend order_trans by blast
  then show ?thesis using Some by (simp add: raw_capacity_def)
qed (simp add: raw_capacity_def)

section \<open>Pushing and popping\<close>

lemma array_push_rep:
  assumes "mmap_contract env" "array_rep L a xs" "array_push env L v (s, a) = Inr (s', a')"
  shows "array_rep L a' (xs @ [v])"
proof -
  obtain s1 r where r: "(if ar_size a \<ge> raw_capacity L (ar_raw a)
      then raw_reserve env L (if ar_size a > 0 then ar_size a * 2 else 1) (s, ar_raw a)
      else Inr (s, ar_raw a)) = Inr (s1, r)" "ar_size a < extent r"
    "a' = a\<lparr>ar_raw := r\<lparr>slots := (slots r)(ar_size a \<mapsto> v)\<rparr>, ar_size := ar_size a + 1\<rparr>"
    using assms(3) by (auto simp: array_push_def Let_def rbind_eq_Inr raw_write_def split: if_splits)
  have ok: "raw_ok L (ar_raw a)" using assms(2) by (simp add: array_rep_def)
  have "raw_ok L r \<and> (\<forall>i < raw_capacity L (ar_raw a). slots r i = slots (ar_raw a) i)"
  proof (cases "ar_size a \<ge> raw_capacity L (ar_raw a)")
    case True
    then show ?thesis using r(1) by (intro raw_reserve_ok [OF assms(1) ok]) simp
  qed (use r(1) ok in simp)
  then show ?thesis
    using assms(2) r(2,3) by (auto simp: array_rep_def raw_ok_def raw_capacity_def nth_append less_Suc_eq)
qed

lemma array_push_panic:
  assumes "layout_ok L" "array_rep L a xs" "array_push env L v (s, a) = Inl e"
  shows "length xs = raw_capacity L (ar_raw a) \<and>
    mmap env False (os_calls s) (os_maps s) (raw_bytes L (max 1 (length xs * 2))) = MAP_FAILED"
proof (rule ccontr)
  let ?n = "if ar_size a > 0 then ar_size a * 2 else 1"
  have n: "?n = max 1 (length xs * 2)" using assms(2) by (cases xs) (auto simp: array_rep_def)
  assume neg: "\<not> (length xs = raw_capacity L (ar_raw a) \<and>
    mmap env False (os_calls s) (os_maps s) (raw_bytes L (max 1 (length xs * 2))) = MAP_FAILED)"
  have len: "ar_size a = length xs" "length xs \<le> raw_capacity L (ar_raw a)" "raw_ok L (ar_raw a)"
    using assms(2) by (auto simp: array_rep_def)
  have al: "t_align L \<le> t_size L" "t_size L < 2 ^ 63" using assms(1) by (auto simp: layout_ok_def dvd_imp_le)
  have "raw_capacity L (ar_raw a) * t_size L \<le> 2 ^ 47" using len(3) by (rule raw_capacity_bytes)
  then have "length xs * t_size L \<le> 2 ^ 47" using len(2) by (meson le_trans mult_le_mono1)
  then have fit: "?n * t_size L + t_align L \<le> 2 ^ 64"
    using al len(1) by (cases xs) (auto simp: algebra_simps)
  show False
  proof (cases "length xs = raw_capacity L (ar_raw a)")
    case True
    then obtain s1 r where "raw_reserve env L ?n (s, ar_raw a) = Inr (s1, r)" "?n \<le> raw_capacity L r"
      using raw_reserve_returns [OF assms(1) _ fit, of env s "ar_raw a"] neg n by auto
    moreover from this(1) have "extent r = raw_capacity L r"
      using True len by (auto simp: raw_reserve_def raw_ok_def raw_capacity_def Let_def split: sum.splits option.splits
          prod.splits if_splits)
    ultimately show False
      using assms(3) True len(1) by (auto simp: array_push_def Let_def raw_write_def rbind_eq_Inl split: if_splits)
  next
    case False
    then show False
      using assms(3) len by (auto simp: array_push_def Let_def raw_write_def raw_ok_def rbind_eq_Inl split: if_splits)
  qed
qed

lemma array_pop_rep:
  assumes "array_rep L a xs"
  shows "\<exists>a'. array_pop a = Inr (if xs = [] then None else Some (last xs), a') \<and> array_rep L a' (butlast xs)"
proof (cases xs rule: rev_cases)
  case Nil
  then show ?thesis using assms by (simp add: array_pop_def array_rep_def)
next
  case (snoc ys y)
  then have "raw_index (ar_raw a) (ar_size a - 1) = Inr y"
    using array_rep_read [OF assms, of "length ys"] array_rep_len [OF assms] by (simp add: nth_append)
  then show ?thesis
    using assms snoc by (auto simp: array_pop_def array_rep_def Let_def nth_append)
qed

text \<open>An array in an operating system that keeps its contract is a stack buffer.\<close>

definition array_state :: "os_env \<Rightarrow> layout \<Rightarrow> 's os_state_scheme \<times> 'a array \<Rightarrow> 'a list \<Rightarrow> bool" where
  "array_state env L x xs \<longleftrightarrow> mmap_contract env \<and> array_rep L (snd x) xs"

definition array_pop_on :: "'s \<times> 'a array \<Rightarrow> ('a option \<times> 's \<times> 'a array) res" where
  "array_pop_on x = rbind (array_pop (snd x)) (\<lambda>(r, a). Inr (r, fst x, a))"

interpretation arr: stack_buffer "array_state env L" "array_push env L" array_pop_on for env L
proof unfold_locales
  fix s :: "'a os_state_scheme \<times> 'b array" and xs v s'
  assume "array_state env L s xs" "array_push env L v s = Inr s'"
  then show "array_state env L s' (xs @ [v])"
    using array_push_rep [of env L "snd s" xs v "fst s" "fst s'" "snd s'"] by (simp add: array_state_def)
next
  fix s :: "'a os_state_scheme \<times> 'b array" and xs
  assume "array_state env L s xs"
  then show "\<exists>s'. array_pop_on s = Inr (if xs = [] then None else Some (last xs), s') \<and> array_state env L s' (butlast xs)"
    using array_pop_rep [of L "snd s" xs] by (auto simp: array_state_def array_pop_on_def)
qed

lemma array_push_all_rep:
  assumes "mmap_contract env" "array_rep L a xs" "for_each (array_push env L) ys (s, a) = Inr (s', a')"
  shows "array_rep L a' (xs @ ys)"
  using arr.push_all_rep [of env L "(s, a)" xs ys "(s', a')"] assms by (simp add: array_state_def)

lemma array_macro_rep: "mmap_contract env \<Longrightarrow> array_macro env L xs s = Inr (s', a) \<Longrightarrow> array_rep L a xs"
  unfolding array_macro_def by (drule (1) array_push_all_rep [OF _ array_new_rep]) simp

section \<open>Reversing and iterating\<close>

lemma array_reverse_rep: "array_rep L a xs \<Longrightarrow> array_rep L (array_reverse a) (rev xs)"
proof (cases "raw_get_ptr (ar_raw a) = 0")
  case False
  assume "array_rep L a xs"
  then show ?thesis
    using False by (auto simp: array_reverse_def array_rep_def raw_ok_def raw_capacity_def Let_def rev_nth)
qed (use array_rep_ptr in \<open>fastforce simp: array_reverse_def\<close>)

lemma iter_all_rep:
  assumes "array_rep L (it_array it) xs" "it_index it \<le> length xs"
  shows "\<exists>it'. iter_all it = Inr (drop (it_index it) xs, it') \<and> it_array it' = it_array it"
  using assms
proof (induction "length xs - it_index it" arbitrary: it)
  case 0
  then show ?case
    by (subst iter_all.simps) (simp add: iter_next_def array_len_def array_rep_len)
next
  case (Suc n)
  let ?it = "it\<lparr>it_index := it_index it + 1\<rparr>"
  have lt: "it_index it < length xs" using Suc.hyps(2) by linarith
  then have nx: "iter_next it = Inr (Some (xs ! it_index it), ?it)"
    using Suc.prems(1) by (simp add: iter_next_def array_len_def array_rep_len array_index_rep)
  obtain it' where "iter_all ?it = Inr (drop (Suc (it_index it)) xs, it')" "it_array it' = it_array it"
    using Suc.hyps(1) [of ?it] Suc.hyps(2) Suc.prems lt by fastforce
  then show ?case using nx lt by (subst iter_all.simps) (simp add: Cons_nth_drop_Suc)
qed

lemma into_iter_all: "array_rep L a xs \<Longrightarrow> \<exists>it'. iter_all (into_iter a) = Inr (xs, it') \<and> it_array it' = a"
  using iter_all_rep [of L "into_iter a" xs] by (simp add: into_iter_def)

lemma push_elements_eq:
  assumes "array_rep L a xs"
  shows "for_each (push_element env a) [0..<length xs] x = for_each (array_push env ref_layout) xs x"
proof -
  have "for_each (push_element env a) is x = for_each (array_push env ref_layout) (map ((!) xs) is) x"
    if "set is \<subseteq> {..<length xs}" for "is" x
    using that by (induction "is" arbitrary: x)
      (auto simp: push_element_def array_index_rep [OF assms] intro!: rbind_cong)
  from this [of "[0..<length xs]" x] show ?thesis by (simp add: map_nth atLeast0LessThan)
qed

lemma push_elements_rep:
  assumes "mmap_contract env" "array_rep L a xs" "array_rep ref_layout b []"
    and "for_each (push_element env a) [0..<length xs] (s, b) = Inr (s', b')"
  shows "array_rep ref_layout b' xs"
  using array_push_all_rep [OF assms(1,3), of xs] assms(4) by (simp add: push_elements_eq [OF assms(2)])

section \<open>Removing\<close>

lemma save_loop_rep:
  assumes "mmap_contract env" "array_rep L a (xs @ ys)" "array_rep L saved zs" "length is = length ys"
    and "for_each (\<lambda>_. save_one env L) is (s, a, saved) = Inr (s', a', saved')"
  shows "array_rep L a' xs \<and> array_rep L saved' (zs @ rev ys)"
  using assms(2-)
proof (induction "is" arbitrary: ys zs s a saved)
  case (Cons i "is")
  then obtain ws y where y: "ys = ws @ [y]" by (cases ys rule: rev_cases) auto
  obtain a1 where a1: "array_pop a = Inr (Some y, a1)" "array_rep L a1 (xs @ ws)"
    using array_pop_rep [OF Cons.prems(1)] y by (auto simp: butlast_append)
  then have "save_one env L (s, a, saved) = rbind (array_push env L y (s, saved)) (\<lambda>(s1, saved1). Inr (s1, a1, saved1))"
    by (simp add: save_one_def)
  then obtain s1 saved1 where s1: "array_push env L y (s, saved) = Inr (s1, saved1)"
    "for_each (\<lambda>_. save_one env L) is (s1, a1, saved1) = Inr (s', a', saved')"
    using Cons.prems(4) by (auto simp: rbind_eq_Inr)
  show ?case
    using Cons.IH [OF a1(2) array_push_rep [OF assms(1) Cons.prems(2) s1(1)] _ s1(2)] Cons.prems(3) y by simp
qed simp

lemma array_push_owner: "array_push env L v (s, a) = Inr (s', a') \<Longrightarrow> ar_no_dealloc a' = ar_no_dealloc a"
  by (auto simp: array_push_def Let_def rbind_eq_Inr)

lemma save_loop_owner:
  "for_each (\<lambda>_. save_one env L) is (s, a, saved) = Inr (s', a', saved') \<Longrightarrow> ar_no_dealloc saved' = ar_no_dealloc saved"
proof (induction "is" arbitrary: s a saved)
  case (Cons i "is")
  then obtain s1 a1 saved1 where "save_one env L (s, a, saved) = Inr (s1, a1, saved1)"
    "for_each (\<lambda>_. save_one env L) is (s1, a1, saved1) = Inr (s', a', saved')"
    by (auto simp: rbind_eq_Inr)
  then show ?case using Cons.IH array_push_owner by (fastforce simp: save_one_def rbind_eq_Inr)
qed simp

lemma array_drop_rep: "array_rep L a xs \<Longrightarrow> \<not> ar_no_dealloc a \<Longrightarrow> array_drop a = Inr xs"
  by (simp add: array_drop_def array_clear_def array_deref_rep)

lemma array_remove_rep:
  assumes "mmap_contract env" "array_rep L a xs" "array_remove env L i (s, a) = Inr (r, dropped, s', a')"
  shows "r = (if i < length xs then Some (xs ! i) else None) \<and> array_rep L a' (take i xs @ drop (Suc i) xs) \<and> dropped = drop (Suc i) xs"
proof (cases "i < length xs")
  case False
  then show ?thesis using assms(2,3) by (auto simp: array_remove_def array_rep_len)
next
  case True
  define ys where "ys = drop (Suc i) xs"
  have xs: "xs = (take i xs @ [xs ! i]) @ ys" using True by (simp add: ys_def id_take_nth_drop [symmetric])
  have n: "length [0..<array_len a - i - 1] = length ys"
    using array_rep_len [OF assms(2)] by (simp add: ys_def array_len_def)
  obtain s1 a1 saved a2 vs it where st:
    "for_each (\<lambda>_. save_one env L) [0..<array_len a - i - 1] (s, a, array_new) = Inr (s1, a1, saved)"
    "array_pop a1 = Inr (r, a2)" "iter_all (into_iter (array_reverse saved)) = Inr (vs, it)"
    "for_each (array_push env L) vs (s1, a2) = Inr (s', a')" "array_drop (it_array it) = Inr dropped"
    using assms(3) True array_rep_len [OF assms(2)] by (auto simp: array_remove_def Let_def rbind_eq_Inr)
  have a1: "array_rep L a1 (take i xs @ [xs ! i])" and sv: "array_rep L saved (rev ys)"
    using save_loop_rep [OF assms(1) _ array_new_rep n st(1), of "take i xs @ [xs ! i]"] assms(2) xs by auto
  have "r = Some (xs ! i)" "array_rep L a2 (take i xs)" using array_pop_rep [OF a1] st(2) by auto
  moreover have it: "vs = ys" "it_array it = array_reverse saved" using into_iter_all [OF array_reverse_rep [OF sv]] st(3) by auto
  moreover have "\<not> ar_no_dealloc (array_reverse saved)"
    using save_loop_owner [OF st(1)] by (simp add: array_reverse_def array_new_def Let_def)
  then have "dropped = ys" using array_drop_rep [OF array_reverse_rep [OF sv]] st(5) it(2) by simp
  ultimately show ?thesis
    using array_push_all_rep [OF assms(1) _ st(4), of "take i xs"] True by (simp add: ys_def)
qed

lemma write_raw_rep:
  "array_rep L a xs \<Longrightarrow> i < length xs \<Longrightarrow> \<exists>a'. write_raw v i a = Inr a' \<and> array_rep L a' (xs[i := v])"
  by (auto simp: write_raw_def raw_write_def array_rep_def raw_ok_def raw_capacity_def nth_list_update)

lemma array_swap_rep:
  "array_rep L a xs \<Longrightarrow> \<exists>a'. array_swap i v a = Inr (if i < length xs then Some (xs ! i) else None, a') \<and>
    array_rep L a' (xs[i := v])"
  using write_raw_rep [of L a xs i v]
  by (auto simp: array_swap_def array_rep_len array_index_rep list_update_beyond not_less)

text \<open>C33. An array is the list of its elements: reads, pushes, pops and replacements are
  those of the list, also across reallocations, and a push panics only when the array is full and
  the kernel refuses the larger segment. A removal that returns takes out the element as the list does, but it drops
  every element behind the removed one although those stay in the array.\<close>

theorem array_list_ops:
  assumes "layout_ok L" "mmap_contract env" "array_rep L a xs"
  shows "array_get a i = Inr (if i < length xs then Some (xs ! i) else None) \<and>
    (\<exists>a'. array_pop a = Inr (if xs = [] then None else Some (last xs), a') \<and> array_rep L a' (butlast xs)) \<and>
    (\<exists>a'. array_swap i v a = Inr (if i < length xs then Some (xs ! i) else None, a') \<and> array_rep L a' (xs[i := v])) \<and>
    (case array_push env L v (s, a) of
       Inr (s', a') \<Rightarrow> array_rep L a' (xs @ [v])
     | Inl e \<Rightarrow> length xs = array_capacity L a \<and>
         mmap env False (os_calls s) (os_maps s) (raw_bytes L (max 1 (length xs * 2))) = MAP_FAILED) \<and>
    (\<forall>r dropped s' a'. array_remove env L i (s, a) = Inr (r, dropped, s', a') \<longrightarrow>
       r = (if i < length xs then Some (xs ! i) else None) \<and> array_rep L a' (take i xs @ drop (Suc i) xs) \<and> dropped = drop (Suc i) xs)"
proof (intro conjI)
  show "array_get a i = Inr (if i < length xs then Some (xs ! i) else None)" using assms(3) by (rule array_get_rep)
  show "\<exists>a'. array_pop a = Inr (if xs = [] then None else Some (last xs), a') \<and> array_rep L a' (butlast xs)"
    using assms(3) by (rule array_pop_rep)
  show "\<exists>a'. array_swap i v a = Inr (if i < length xs then Some (xs ! i) else None, a') \<and> array_rep L a' (xs[i := v])"
    using assms(3) by (rule array_swap_rep)
  show "case array_push env L v (s, a) of
      Inr (s', a') \<Rightarrow> array_rep L a' (xs @ [v])
    | Inl e \<Rightarrow> length xs = array_capacity L a \<and>
        mmap env False (os_calls s) (os_maps s) (raw_bytes L (max 1 (length xs * 2))) = MAP_FAILED"
    using array_push_rep [OF assms(2,3), of v s] array_push_panic [OF assms(1,3), of env v s]
    unfolding array_capacity_def by (cases "array_push env L v (s, a)") force+
  show "\<forall>r dropped s' a'. array_remove env L i (s, a) = Inr (r, dropped, s', a') \<longrightarrow>
      r = (if i < length xs then Some (xs ! i) else None) \<and> array_rep L a' (take i xs @ drop (Suc i) xs) \<and> dropped = drop (Suc i) xs"
    using array_remove_rep [OF assms(2,3)] by blast
qed

definition one_page_array :: "nat array" where
  "one_page_array = \<lparr>ar_size = 2, ar_no_dealloc = False,
     ar_raw = \<lparr>raw_segment = Some \<lparr>seg_ptr = 4096, seg_length = 16\<rparr>, raw_no_dealloc = False,
       slots = (\<lambda>i. Some (10 + i)), extent = 2\<rparr>\<rparr>"

lemma one_page_array_rep: "array_rep ref_layout one_page_array [10, 11]"
  by (simp add: array_rep_def one_page_array_def raw_ok_def raw_capacity_def ref_layout_def nth_Cons' less_Suc_eq)

lemma ref_layout_ok: "layout_ok ref_layout"
  unfolding layout_ok_def ref_layout_def by (auto intro: exI [of _ 3])

definition no_maps :: os_state where "no_maps = \<lparr>mem = (\<lambda>_. 0), os_maps = [], os_calls = 0\<rparr>"

lemma one_page_remove: "\<exists>y. array_remove bump_env ref_layout 0 (no_maps, one_page_array) = Inr y"
proof -
  let ?a1 = "one_page_array\<lparr>ar_size := 1\<rparr>" and ?a2 = "one_page_array\<lparr>ar_size := 0\<rparr>"
  obtain s1 sv where p: "array_push bump_env ref_layout 11 (no_maps, array_new) = Inr (s1, sv :: nat array)"
    by (simp add: array_push_def array_new_def raw_new_def raw_capacity_def raw_reserve_def seg_allocate_def map_segment_def no_maps_def
        bump_env_def bump_mmap_def raw_bytes_def ref_layout_def align_val_def map_span_def round_up_def raw_write_def Let_def PAGE_value MAP_FAILED_def)
  have sv: "array_rep ref_layout sv [11]" "\<not> ar_no_dealloc sv"
    using array_push_rep [OF bump_env_contract array_new_rep p] array_push_owner [OF p] by (simp_all add: array_new_def)
  have pops: "array_pop one_page_array = Inr (Some 11, ?a1)" "array_pop ?a1 = Inr (Some 10, ?a2)"
    by (simp_all add: array_pop_def one_page_array_def raw_index_def)
  obtain it where it: "iter_all (into_iter (array_reverse sv)) = Inr ([11], it)" "it_array it = array_reverse sv"
    using into_iter_all [OF array_reverse_rep [OF sv(1)]] by auto
  have d: "array_drop (array_reverse sv) = Inr [11]"
    using array_drop_rep [OF array_reverse_rep [OF sv(1)]] sv(2) by (simp add: array_reverse_def Let_def)
  have "\<exists>x. array_push bump_env ref_layout 11 (s1, ?a2) = Inr x"
    by (simp add: array_push_def one_page_array_def raw_capacity_def ref_layout_def raw_write_def)
  moreover have "ar_size one_page_array = 2" by (simp add: one_page_array_def)
  ultimately show ?thesis
    using p pops it d by (auto simp: array_remove_def save_one_def array_len_def unwrap_def)
qed

text \<open>An array of two elements: a read, a pop, and the removal of the first element, which drops the second one.\<close>

theorem array_list_ops_witness:
  "array_get one_page_array 0 = Inr (Some 10) \<and> (\<exists>a'. array_pop one_page_array = Inr (Some 11, a') \<and> array_rep ref_layout a' [10]) \<and>
    (\<exists>s' a'. array_remove bump_env ref_layout 0 (no_maps, one_page_array) = Inr (Some 10, [11], s', a') \<and> array_rep ref_layout a' [11])"
proof -
  obtain r d s' a' where r: "array_remove bump_env ref_layout 0 (no_maps, one_page_array) = Inr (r, d, s', a')"
    using one_page_remove by auto
  then show ?thesis
    using array_list_ops [OF ref_layout_ok bump_env_contract one_page_array_rep, of 0 0 no_maps] by auto
qed

section \<open>Iteration and dropping\<close>

text \<open>Consuming an array with a \<^verbatim>\<open>for\<close> loop hands every element to the loop body, which owns it from
  then on; when the iterator goes out of scope its array drops every element a second time.\<close>

theorem array_iter_drops_twice:
  assumes "array_rep L a xs" "\<not> ar_no_dealloc a"
  shows "\<exists>it. iter_all (into_iter a) = Inr (xs, it) \<and> array_drop (it_array it) = Inr xs"
proof -
  obtain it where "iter_all (into_iter a) = Inr (xs, it)" "it_array it = a" using into_iter_all [OF assms(1)] by blast
  moreover have "array_drop a = Inr xs" using assms by (rule array_drop_rep)
  ultimately show ?thesis by auto
qed

theorem array_iter_drops_twice_witness:
  "\<exists>it. iter_all (into_iter one_page_array) = Inr ([10, 11], it) \<and> array_drop (it_array it) = Inr [10, 11]"
  using array_iter_drops_twice [OF one_page_array_rep] by (simp add: one_page_array_def)

text \<open>Iterating over a reference to an array yields its elements; for an empty array the request
  for no memory fails.\<close>

lemma mmap_contract_zero: "mmap_contract env \<Longrightarrow> mmap env nr n maps 0 = MAP_FAILED"
  by (auto simp: mmap_contract_def valid_map_def)

lemma ref_into_iter_empty:
  fixes a :: "'b array"
  assumes "mmap_contract env" "array_rep L a []" shows "ref_into_iter env (s, a) = Inl UnwrapNone"
proof -
  have "raw_bytes ref_layout 0 = 0" by (simp add: raw_bytes_def ref_layout_def align_val_def)
  then have "raw_reserve env ref_layout 0 (s, raw_new :: 'b raw_array) = Inl UnwrapNone"
    using mmap_contract_zero [OF assms(1)]
    by (simp add: raw_reserve_def raw_new_def seg_allocate_def map_segment_def Let_def)
  then show ?thesis
    using assms(2) by (simp add: ref_into_iter_def array_with_capacity_def raw_with_capacity_def array_len_def array_rep_len)
qed

lemma array_with_capacity_rep:
  "mmap_contract env \<Longrightarrow> array_with_capacity env L n s = Inr (s', a) \<Longrightarrow> array_rep L a []"
proof -
  assume c: "mmap_contract env" "array_with_capacity env L n s = Inr (s', a)"
  then obtain r where "raw_reserve env L n (s, raw_new) = Inr (s', r)" "a = \<lparr>ar_size = 0, ar_no_dealloc = False, ar_raw = r\<rparr>"
    by (auto simp: array_with_capacity_def raw_with_capacity_def rbind_eq_Inr)
  then show ?thesis using raw_reserve_ok [OF c(1) raw_new_ok] by (fastforce simp: array_rep_def)
qed

lemma ref_into_iter_rep:
  assumes "mmap_contract env" "array_rep L a xs" "ref_into_iter env (s, a) = Inr (s', it)"
  shows "\<exists>it'. iter_all it = Inr (xs, it')"
proof -
  obtain s1 b b' where b: "array_with_capacity env ref_layout (length xs) s = Inr (s1, b)"
    "for_each (push_element env a) [0..<length xs] (s1, b) = Inr (s', b')" "it = into_iter b'"
    using assms(3) array_rep_len [OF assms(2)] by (auto simp: ref_into_iter_def array_len_def rbind_eq_Inr)
  have "array_rep ref_layout b' xs"
    using push_elements_rep [OF assms(1,2) array_with_capacity_rep [OF assms(1) b(1)] b(2)] .
  then show ?thesis using into_iter_all b(3) by blast
qed

section \<open>Building, copying, comparing\<close>

lemma write_range_rep:
  assumes "raw_ok L (ar_raw a)" "n \<le> raw_capacity L (ar_raw a)" "m \<le> n"
  shows "\<exists>a'. for_each (write_raw v) [m..<n] a = Inr a' \<and> raw_ok L (ar_raw a') \<and>
    raw_capacity L (ar_raw a') = raw_capacity L (ar_raw a) \<and> ar_size a' = ar_size a \<and>
    (\<forall>i. slots (ar_raw a') i = (if m \<le> i \<and> i < n then Some v else slots (ar_raw a) i))"
  using assms(2,3)
proof (induction n)
  case (Suc n)
  show ?case
  proof (cases "m \<le> n")
    case True
    then obtain a1 where a1: "for_each (write_raw v) [m..<n] a = Inr a1" "raw_ok L (ar_raw a1)"
      "raw_capacity L (ar_raw a1) = raw_capacity L (ar_raw a)" "ar_size a1 = ar_size a"
      "\<forall>i. slots (ar_raw a1) i = (if m \<le> i \<and> i < n then Some v else slots (ar_raw a) i)"
      using Suc by auto
    then have "write_raw v n a1 = Inr (a1\<lparr>ar_raw := (ar_raw a1)\<lparr>slots := (slots (ar_raw a1))(n \<mapsto> v)\<rparr>\<rparr>)"
      using Suc.prems(1) by (simp add: write_raw_def raw_write_def raw_ok_def)
    then show ?thesis
      using a1 True by (auto simp: for_each_append raw_ok_def raw_capacity_def less_Suc_eq)
  qed (use Suc.prems assms(1) in auto)
qed (use assms(1) in auto)

lemma of_size_using_rep:
  fixes v :: 'a
  assumes "layout_ok L" "mmap_contract env" "n * t_size L + t_align L \<le> 2 ^ 64"
    and "mmap env False (os_calls s) (os_maps s) (raw_bytes L n) \<noteq> MAP_FAILED"
  shows "\<exists>s' a. of_size_using env L v n s = Inr (s', a) \<and> array_rep L a (replicate n v)"
proof -
  obtain s1 and r :: "'a raw_array" where r: "raw_reserve env L n (s, raw_new) = Inr (s1, r)" "n \<le> raw_capacity L r"
    using raw_reserve_returns [OF assms(1,4,3)] by blast
  have ok: "raw_ok L r" using raw_reserve_ok [OF assms(2) raw_new_ok r(1)] by blast
  let ?a = "\<lparr>ar_size = n, ar_no_dealloc = False, ar_raw = r\<rparr>"
  obtain a where "for_each (write_raw v) [0..<n] ?a = Inr a" "raw_ok L (ar_raw a)"
    "raw_capacity L (ar_raw a) = raw_capacity L r" "ar_size a = n" "\<forall>i < n. slots (ar_raw a) i = Some v"
    using write_range_rep [of L ?a n 0 v] ok r(2) by auto
  then show ?thesis
    using r by (auto simp: of_size_using_def raw_with_capacity_def array_rep_def)
qed

lemma array_from_iter_rep:
  "mmap_contract env \<Longrightarrow> array_from_iter env L vs s = Inr (s', a) \<Longrightarrow> array_rep L a vs"
  using array_push_all_rep [of env L array_new "[]" vs s s' a] by (simp add: array_from_iter_def)

lemma array_iter_rep:
  assumes "mmap_contract env" "array_rep L a xs" "array_iter env (s, a) = Inr (s', it)"
  shows "\<exists>it'. iter_all it = Inr (xs, it')"
proof -
  obtain b where b: "for_each (push_element env a) [0..<length xs] (s, array_new) = Inr (s', b)" "it = into_iter b"
    using assms(3) array_rep_len [OF assms(2)] by (auto simp: array_iter_def rbind_eq_Inr)
  show ?thesis
    using into_iter_all [OF push_elements_rep [OF assms(1,2) array_new_rep b(1)]] b(2) by auto
qed

lemma array_clone_rep:
  assumes "mmap_contract env" "array_rep L a xs" "array_clone env L cl (s, a) = Inr (s', b)"
  shows "array_rep L b (map cl xs)"
proof -
  obtain s1 it vs it' where it: "array_iter env (s, a) = Inr (s1, it)" "iter_all it = Inr (vs, it')"
    "array_from_iter env L (map cl vs) s1 = Inr (s', b)"
    using assms(3) by (auto simp: array_clone_def rbind_eq_Inr)
  then have "vs = xs" using array_iter_rep [OF assms(1,2) it(1)] by auto
  then show ?thesis using array_from_iter_rep [OF assms(1) it(3)] by simp
qed

lemma eq_loop_iff: "length xs = length ys \<Longrightarrow> eq_loop xs ys \<longleftrightarrow> xs = ys"
  by (induction xs ys rule: list_induct2) auto

lemma array_eq_iff:
  assumes "mmap_contract env" "array_rep L a xs" "array_rep L b ys" "array_eq env s a b = Inr (r, s')"
  shows "r \<longleftrightarrow> xs = ys"
proof (cases "length xs = length ys")
  case False
  then show ?thesis using assms(2-) by (auto simp: array_eq_def array_len_def array_rep_len)
next
  case True
  then obtain s1 ia s2 ib us ia' ws ib' where it: "array_iter env (s, a) = Inr (s1, ia)" "array_iter env (s1, b) = Inr (s2, ib)"
    "iter_all ia = Inr (us, ia')" "iter_all ib = Inr (ws, ib')" "r = eq_loop us ws"
    using assms(2-) by (auto simp: array_eq_def array_len_def array_rep_len rbind_eq_Inr)
  then have "us = xs" "ws = ys"
    using array_iter_rep [OF assms(1,2) it(1)] array_iter_rep [OF assms(1,3) it(2)] by auto
  then show ?thesis using True it(5) by (simp add: eq_loop_iff)
qed

section \<open>Bits\<close>

lemma byte_index_small: "i < 64 \<Longrightarrow> byte_index i = (i mod 8, i div 8)"
  by (simp add: byte_index_def)

lemma get_bit_rep:
  assumes "array_rep L a xs" "i < 64"
  shows "array_get_bit a i = Inr (if i mod 8 < length xs then Some (bit (xs ! (i mod 8)) (i div 8)) else None)"
proof -
  have "i div 8 < 8" using assms(2) by auto
  then have "bit_mask (i div 8) = Inr (push_bit (i div 8) 1)" by (simp add: bit_mask_def)
  moreover have "w AND push_bit (i div 8) 1 \<noteq> 0 \<longleftrightarrow> bit w (i div 8)" for w :: u8
    by (simp add: bit_iff_and_push_bit_not_eq_0)
  ultimately show ?thesis
    using assms by (simp add: array_get_bit_def byte_index_small get_byte_def array_get_rep)
qed

lemma update_bit:
  "n < 8 \<Longrightarrow> m < 8 \<Longrightarrow> bit ((w AND NOT (push_bit n 1)) OR push_bit n (if b then 1 else 0) :: u8) m \<longleftrightarrow>
    (if m = n then b else bit w m)"
  by (auto simp: bit_simps)

lemma set_bit_rep:
  assumes "array_rep L a xs" "i mod 8 < length xs" "i < 64"
    and "ys = xs[i mod 8 := (xs ! (i mod 8) AND NOT (push_bit (i div 8) 1)) OR push_bit (i div 8) (if b then 1 else 0)]"
  shows "\<exists>a'. array_set_bit i b a = Inr a' \<and> array_rep L a' ys"
proof -
  have "i div 8 < 8" using assms(3) by auto
  then have "array_set_bit i b a = write_raw ((xs ! (i mod 8) AND NOT (push_bit (i div 8) 1)) OR
      push_bit (i div 8) (if b then 1 else 0)) (i mod 8) a"
    unfolding array_set_bit_def byte_index_small [OF assms(3)] get_byte_def array_get_rep [OF assms(1)] bit_mask_def
    using assms(2) by simp
  then show ?thesis using write_raw_rep [OF assms(1,2)] assms(4) by metis
qed

text \<open>Below index 64 an array of bytes is a bit set: setting a bit makes it read as set and leaves
  the other bits alone. From index 64 to 255 the shift overflows, because the index of the byte and
  the index of the bit are exchanged, so that an array has at most 64 bits however long it is.\<close>

theorem array_bits:
  assumes "array_rep L a xs" "i mod 8 < length xs"
  shows "(i < 64 \<longrightarrow> (\<exists>a' ys. array_set_bit i b a = Inr a' \<and> array_rep L a' ys \<and> length ys = length xs \<and>
      array_get_bit a' i = Inr (Some b) \<and> (\<forall>j < 64. j \<noteq> i \<longrightarrow> array_get_bit a' j = array_get_bit a j))) \<and>
    (64 \<le> i \<and> i < 256 \<longrightarrow> array_set_bit i b a = Inl Overflow \<and> array_get_bit a i = Inl Overflow)"
proof (intro conjI impI)
  assume i: "i < 64"
  define ys where "ys = xs[i mod 8 := (xs ! (i mod 8) AND NOT (push_bit (i div 8) 1)) OR
    push_bit (i div 8) (if b then 1 else 0)]"
  obtain a' where a': "array_set_bit i b a = Inr a'" "array_rep L a' ys"
    using set_bit_rep [OF assms i ys_def] by blast
  have new: "array_get_bit a' j = (if j = i then Inr (Some b) else array_get_bit a j)" if j: "j < 64" for j
  proof -
    have "i div 8 < 8" "j div 8 < 8" using i j by auto
    note bw = update_bit [OF this, of "xs ! (i mod 8)" b]
    show ?thesis
    proof (cases "j mod 8 = i mod 8")
      case True
      then have "j div 8 = i div 8 \<longleftrightarrow> j = i" by (metis div_mult_mod_eq)
      then show ?thesis
        using True bw assms(2) unfolding get_bit_rep [OF a'(2) j] get_bit_rep [OF assms(1) j] ys_def by simp
    next
      case False
      then show ?thesis
        unfolding get_bit_rep [OF a'(2) j] get_bit_rep [OF assms(1) j] ys_def by auto
    qed
  qed
  then show "\<exists>a' ys. array_set_bit i b a = Inr a' \<and> array_rep L a' ys \<and> length ys = length xs \<and>
      array_get_bit a' i = Inr (Some b) \<and> (\<forall>j < 64. j \<noteq> i \<longrightarrow> array_get_bit a' j = array_get_bit a j)"
    using a' i new by (intro exI [of _ a'] exI [of _ ys]) (simp add: ys_def)
next
  assume "64 \<le> i \<and> i < 256"
  then have "bit_mask (i div 8) = Inl Overflow" "i mod 256 = i" by (auto simp: bit_mask_def)
  then show "array_set_bit i b a = Inl Overflow" "array_get_bit a i = Inl Overflow"
    using assms by (simp_all add: array_set_bit_def array_get_bit_def byte_index_def get_byte_def array_get_rep)
qed

definition byte_array :: "u8 array" where
  "byte_array = \<lparr>ar_size = 1, ar_no_dealloc = False,
     ar_raw = \<lparr>raw_segment = Some \<lparr>seg_ptr = 4096, seg_length = 1\<rparr>, raw_no_dealloc = False,
       slots = (\<lambda>i. Some 0), extent = 1\<rparr>\<rparr>"

theorem array_bits_witness:
  "(\<exists>a'. array_set_bit 8 True byte_array = Inr a' \<and> array_get_bit a' 8 = Inr (Some True)) \<and>
    array_set_bit 64 True byte_array = Inl Overflow"
proof -
  have "array_rep \<lparr>t_size = 1, t_align = 1\<rparr> byte_array [0]"
    by (simp add: array_rep_def byte_array_def raw_ok_def raw_capacity_def)
  from array_bits [OF this, of 8 True] array_bits [OF this, of 64 True] show ?thesis by auto
qed

end
