(* ===== verification/Array_Deque.thy ===== *)
theory Array_Deque
  imports Array_Facts
begin

text \<open>
  \<^verbatim>\<open>ArrayDeque\<close> of \<^verbatim>\<open>src/independent_collections/array.rs\<close>: a double-ended queue in one raw array, whose
  elements are those from \<open>dq_start\<close> on and before \<open>dq_end\<close>.
\<close>

section \<open>Operations\<close>

record 'a array_deque =
  dq_raw :: "'a raw_array"
  dq_start :: nat
  dq_end :: nat

definition deque_new :: "'a array_deque" where
  "deque_new = \<lparr>dq_raw = raw_new, dq_start = 0, dq_end = 0\<rparr>"

definition deque_with_capacity ::
  "os_env \<Rightarrow> layout \<Rightarrow> nat \<Rightarrow> 's os_state_scheme \<Rightarrow> ('s os_state_scheme \<times> 'a array_deque) res" where
  "deque_with_capacity env L capacity s =
     rbind (raw_with_capacity env L capacity s) (\<lambda>(s1, r). Inr (s1, \<lparr>dq_raw = r, dq_start = 0, dq_end = 0\<rparr>))"

definition deque_capacity :: "layout \<Rightarrow> 'a array_deque \<Rightarrow> nat" where
  "deque_capacity L d = raw_capacity L (dq_raw d)"

definition grow_back ::
  "os_env \<Rightarrow> layout \<Rightarrow> 's os_state_scheme \<times> 'a array_deque \<Rightarrow> ('s os_state_scheme \<times> 'a array_deque) res" where
  "grow_back env L x =
     (let (s, d) = x;
          doubled = raw_capacity L (dq_raw d) * 2;
          capacity = (if doubled = 0 then 1 else doubled)
      in rbind (raw_reserve env L capacity (s, dq_raw d)) (\<lambda>(s1, r). Inr (s1, d\<lparr>dq_raw := r\<rparr>)))"

text \<open>\<^verbatim>\<open>copy_nonoverlapping\<close> of the first \<open>n\<close> elements to the place \<open>n\<close> elements further.\<close>

definition copy_up :: "nat \<Rightarrow> 'a raw_array \<Rightarrow> 'a raw_array res" where
  "copy_up n r =
     (if n + n \<le> extent r
      then Inr (r\<lparr>slots := (\<lambda>i. if n \<le> i \<and> i < n + n then slots r (i - n) else slots r i)\<rparr>)
      else Inl undefined_access)"

definition grow_front ::
  "os_env \<Rightarrow> layout \<Rightarrow> 's os_state_scheme \<times> 'a array_deque \<Rightarrow> ('s os_state_scheme \<times> 'a array_deque) res" where
  "grow_front env L x =
     (let old_capacity = raw_capacity L (dq_raw (snd x)) in
      rbind (grow_back env L x) (\<lambda>(s, d).
      rbind (copy_up old_capacity (dq_raw d)) (\<lambda>r.
      Inr (s, d\<lparr>dq_raw := r, dq_start := old_capacity, dq_end := dq_end d + old_capacity\<rparr>))))"

definition deque_len :: "'a array_deque \<Rightarrow> nat res" where
  "deque_len d = checked_sub (dq_end d) (dq_start d)"

definition deque_is_empty :: "'a array_deque \<Rightarrow> bool" where
  "deque_is_empty d \<longleftrightarrow> dq_start d = dq_end d"

definition push_back ::
  "os_env \<Rightarrow> layout \<Rightarrow> 'a \<Rightarrow> 's os_state_scheme \<times> 'a array_deque \<Rightarrow> ('s os_state_scheme \<times> 'a array_deque) res" where
  "push_back env L v x =
     rbind (if dq_end (snd x) = deque_capacity L (snd x) then grow_back env L x else Inr x) (\<lambda>(s, d).
     rbind (raw_write (dq_end d) v (dq_raw d)) (\<lambda>r.
     Inr (s, d\<lparr>dq_raw := r, dq_end := dq_end d + 1\<rparr>)))"

definition push_front ::
  "os_env \<Rightarrow> layout \<Rightarrow> 'a \<Rightarrow> 's os_state_scheme \<times> 'a array_deque \<Rightarrow> ('s os_state_scheme \<times> 'a array_deque) res" where
  "push_front env L v x =
     rbind (deque_len (snd x)) (\<lambda>n.
     if n = 0 then push_back env L v x
     else
       rbind (if dq_start (snd x) = 0 then grow_front env L x else Inr x) (\<lambda>(s, d).
       rbind (checked_sub (dq_start d) 1) (\<lambda>start.
       rbind (raw_write start v (dq_raw d)) (\<lambda>r.
       Inr (s, d\<lparr>dq_raw := r, dq_start := start\<rparr>)))))"

definition recentre :: "layout \<Rightarrow> 'a array_deque \<Rightarrow> 'a array_deque" where
  "recentre L d =
     (if dq_start d = dq_end d
      then d\<lparr>dq_start := deque_capacity L d div 2, dq_end := deque_capacity L d div 2\<rparr> else d)"

definition pop_front :: "layout \<Rightarrow> 'a array_deque \<Rightarrow> ('a option \<times> 'a array_deque) res" where
  "pop_front L d =
     (if deque_is_empty d then Inr (None, d)
      else rbind (raw_index (dq_raw d) (dq_start d)) (\<lambda>v.
        Inr (Some v, recentre L (d\<lparr>dq_start := dq_start d + 1\<rparr>))))"

text \<open>\<^verbatim>\<open>pop_back\<close> reads the element at the end pointer, one past the last element.\<close>

definition pop_back :: "layout \<Rightarrow> 'a array_deque \<Rightarrow> ('a option \<times> 'a array_deque) res" where
  "pop_back L d =
     (if deque_is_empty d then Inr (None, d)
      else rbind (raw_index (dq_raw d) (dq_end d)) (\<lambda>v.
        rbind (checked_sub (dq_end d) 1) (\<lambda>e.
        Inr (Some v, recentre L (d\<lparr>dq_end := e\<rparr>)))))"

definition deque_deref :: "'a array_deque \<Rightarrow> 'a list res" where
  "deque_deref d =
     (if raw_get_ptr (dq_raw d) = 0 then Inr []
      else rbind (deque_len d) (\<lambda>n. traverse_res (raw_index (dq_raw d)) [dq_start d..<dq_start d + n]))"

definition get_start_ptr :: "layout \<Rightarrow> 'a array_deque \<Rightarrow> usize" where
  "get_start_ptr L d = raw_get_ptr (dq_raw d) + of_nat (dq_start d * t_size L)"

definition get_end_ptr :: "layout \<Rightarrow> 'a array_deque \<Rightarrow> usize" where
  "get_end_ptr L d = raw_get_ptr (dq_raw d) + of_nat (dq_end d * t_size L)"

text \<open>The elements \<^verbatim>\<open>iter\<close> yields.\<close>

definition deque_iter :: "'a array_deque \<Rightarrow> 'a list res" where
  "deque_iter d = deque_deref d"

definition deque_from_array :: "'a array \<Rightarrow> 'a array_deque res" where
  "deque_from_array a = rbind (checked_sub (array_len a) 1) (\<lambda>e.
     Inr \<lparr>dq_raw = ar_raw a, dq_start = 0, dq_end = e\<rparr>)"

definition deque_from_iter ::
  "os_env \<Rightarrow> layout \<Rightarrow> 'a list \<Rightarrow> 's os_state_scheme \<Rightarrow> ('s os_state_scheme \<times> 'a array_deque) res" where
  "deque_from_iter env L vs s =
     rbind (array_from_iter env L vs s) (\<lambda>(s1, a). rbind (deque_from_array a) (\<lambda>d. Inr (s1, d)))"

definition deque_clone ::
  "os_env \<Rightarrow> layout \<Rightarrow> ('a \<Rightarrow> 'a) \<Rightarrow> 's os_state_scheme \<times> 'a array_deque \<Rightarrow> ('s os_state_scheme \<times> 'a array_deque) res" where
  "deque_clone env L clone x =
     rbind (deque_deref (snd x)) (\<lambda>vs. deque_from_iter env L (map clone vs) (fst x))"

definition deque_eq :: "'a array_deque \<Rightarrow> 'a array_deque \<Rightarrow> bool res" where
  "deque_eq d e =
     rbind (deque_len d) (\<lambda>m. rbind (deque_len e) (\<lambda>n.
     if m \<noteq> n then Inr False
     else rbind (deque_deref d) (\<lambda>xs. rbind (deque_deref e) (\<lambda>ys. Inr (eq_loop xs ys)))))"

section \<open>Representation\<close>

definition deque_rep :: "layout \<Rightarrow> 'a array_deque \<Rightarrow> 'a list \<Rightarrow> bool" where
  "deque_rep L d xs \<longleftrightarrow> raw_ok L (dq_raw d) \<and> dq_end d = dq_start d + length xs \<and>
     dq_end d \<le> raw_capacity L (dq_raw d) \<and> (\<forall>i < length xs. slots (dq_raw d) (dq_start d + i) = Some (xs ! i))"

lemma deque_new_rep [simp]: "deque_rep L deque_new []"
  by (simp add: deque_rep_def deque_new_def)

lemma deque_len_rep: "deque_rep L d xs \<Longrightarrow> deque_len d = Inr (length xs)"
  by (simp add: deque_rep_def deque_len_def)

lemma deque_read: "deque_rep L d xs \<Longrightarrow> i < length xs \<Longrightarrow> raw_index (dq_raw d) (dq_start d + i) = Inr (xs ! i)"
  by (simp add: deque_rep_def raw_ok_def raw_index_def)

lemma recentre_rep: "deque_rep L d xs \<Longrightarrow> deque_rep L (recentre L d) xs"
  by (auto simp: deque_rep_def recentre_def deque_capacity_def)

lemma grow_back_raw:
  assumes "mmap_contract env" "deque_rep L d xs" "grow_back env L (s, d) = Inr (s', d')"
  shows "\<exists>r. d' = d\<lparr>dq_raw := r\<rparr> \<and> raw_ok L r \<and> (\<forall>i < raw_capacity L (dq_raw d). slots r i = slots (dq_raw d) i)"
proof -
  obtain n r where r: "raw_reserve env L n (s, dq_raw d) = Inr (s', r)" "d' = d\<lparr>dq_raw := r\<rparr>"
    using assms(3) by (auto simp: grow_back_def Let_def rbind_eq_Inr)
  moreover have "raw_ok L (dq_raw d)" using assms(2) by (simp add: deque_rep_def)
  ultimately show ?thesis using raw_reserve_ok [OF assms(1) _ r(1)] by blast
qed

lemma push_back_rep:
  assumes "mmap_contract env" "deque_rep L d xs" "push_back env L v (s, d) = Inr (s', d')"
  shows "deque_rep L d' (xs @ [v])"
proof -
  obtain d1 where d1: "(if dq_end d = deque_capacity L d then grow_back env L (s, d) else Inr (s, d)) = Inr (s', d1)"
    "dq_end d1 < extent (dq_raw d1)"
    "d' = d1\<lparr>dq_raw := (dq_raw d1)\<lparr>slots := (slots (dq_raw d1))(dq_end d1 \<mapsto> v)\<rparr>, dq_end := dq_end d1 + 1\<rparr>"
    using assms(3) by (auto simp: push_back_def rbind_eq_Inr raw_write_def split: if_splits)
  have "\<exists>r. d1 = d\<lparr>dq_raw := r\<rparr> \<and> raw_ok L r \<and> (\<forall>i < raw_capacity L (dq_raw d). slots r i = slots (dq_raw d) i)"
  proof (cases "dq_end d = deque_capacity L d")
    case True
    then show ?thesis using d1(1) by (intro grow_back_raw [OF assms(1,2)]) simp
  next
    case False
    then show ?thesis using d1(1) assms(2) by (intro exI [of _ "dq_raw d"]) (simp add: deque_rep_def)
  qed
  then show ?thesis
    using assms(2) d1(2,3) by (auto simp: deque_rep_def raw_ok_def raw_capacity_def nth_append less_Suc_eq)
qed

lemma pop_front_rep:
  assumes "deque_rep L d xs"
  shows "\<exists>d'. pop_front L d = Inr (if xs = [] then None else Some (hd xs), d') \<and> deque_rep L d' (tl xs)"
proof (cases xs)
  case Nil
  then show ?thesis using assms by (simp add: pop_front_def deque_is_empty_def deque_rep_def)
next
  case (Cons y ys)
  have "raw_index (dq_raw d) (dq_start d) = Inr y" using deque_read [OF assms, of 0] Cons by simp
  moreover have "deque_rep L (d\<lparr>dq_start := dq_start d + 1\<rparr>) ys" using assms Cons by (fastforce simp: deque_rep_def)
  moreover have "\<not> deque_is_empty d" using assms Cons by (simp add: deque_is_empty_def deque_rep_def)
  ultimately show ?thesis
    using Cons recentre_rep [of L "d\<lparr>dq_start := dq_start d + 1\<rparr>" ys] by (simp add: pop_front_def)
qed

lemma grow_front_rep:
  assumes "mmap_contract env" "deque_rep L d xs" "dq_start d = 0" "grow_front env L (s, d) = Inr (s', d')"
  shows "deque_rep L d' xs \<and> dq_start d' = raw_capacity L (dq_raw d)"
proof -
  let ?n = "raw_capacity L (dq_raw d)"
  obtain d1 where d1: "grow_back env L (s, d) = Inr (s', d1)" "?n + ?n \<le> extent (dq_raw d1)"
    "d' = d1\<lparr>dq_raw := (dq_raw d1)\<lparr>slots := (\<lambda>i. if ?n \<le> i \<and> i < ?n + ?n then slots (dq_raw d1) (i - ?n)
      else slots (dq_raw d1) i)\<rparr>, dq_start := ?n, dq_end := dq_end d1 + ?n\<rparr>"
    using assms(4) by (auto simp: grow_front_def Let_def rbind_eq_Inr copy_up_def split: if_splits)
  obtain r where r: "d1 = d\<lparr>dq_raw := r\<rparr>" "raw_ok L r" "\<forall>i < ?n. slots r i = slots (dq_raw d) i"
    using grow_back_raw [OF assms(1,2) d1(1)] by blast
  then show ?thesis
    using assms(2,3) d1(2,3) by (auto simp: deque_rep_def raw_ok_def raw_capacity_def)
qed

lemma push_front_rep:
  assumes "mmap_contract env" "deque_rep L d xs" "push_front env L v (s, d) = Inr (s', d')"
  shows "deque_rep L d' (v # xs)"
proof (cases "xs = []")
  case True
  then show ?thesis
    using assms push_back_rep [OF assms(1,2), of v s s' d'] by (simp add: push_front_def deque_len_rep [OF assms(2)])
next
  case False
  then obtain d1 start where d1: "(if dq_start d = 0 then grow_front env L (s, d) else Inr (s, d)) = Inr (s', d1)"
    "0 < dq_start d1" "start = dq_start d1 - 1" "start < extent (dq_raw d1)"
    "d' = d1\<lparr>dq_raw := (dq_raw d1)\<lparr>slots := (slots (dq_raw d1))(start \<mapsto> v)\<rparr>, dq_start := start\<rparr>"
    using assms(3) by (auto simp: push_front_def deque_len_rep [OF assms(2)] rbind_eq_Inr raw_write_def checked_sub_def
        split: if_splits)
  have "deque_rep L d1 xs" using d1(1) grow_front_rep [OF assms(1,2)] assms(2) by (auto split: if_splits)
  moreover have "dq_start d1 = Suc start" using d1(2,3) by simp
  ultimately show ?thesis
    using d1(4,5) by (auto simp: deque_rep_def raw_ok_def raw_capacity_def nth_Cons split: nat.splits)
qed

section \<open>A queue\<close>

definition deque_state :: "os_env \<Rightarrow> layout \<Rightarrow> 's os_state_scheme \<times> 'a array_deque \<Rightarrow> 'a list \<Rightarrow> bool" where
  "deque_state env L x xs \<longleftrightarrow> mmap_contract env \<and> deque_rep L (snd x) xs"

definition pop_front_on :: "layout \<Rightarrow> 's \<times> 'a array_deque \<Rightarrow> ('a option \<times> 's \<times> 'a array_deque) res" where
  "pop_front_on L x = rbind (pop_front L (snd x)) (\<lambda>(r, d). Inr (r, fst x, d))"

interpretation deq: queue_buffer "deque_state env L" "push_back env L" "pop_front_on L" for env L
proof unfold_locales
  fix s :: "'a os_state_scheme \<times> 'b array_deque" and xs v s'
  assume "deque_state env L s xs" "push_back env L v s = Inr s'"
  then show "deque_state env L s' (xs @ [v])"
    using push_back_rep [of env L "snd s" xs v "fst s" "fst s'" "snd s'"] by (simp add: deque_state_def)
next
  fix s :: "'a os_state_scheme \<times> 'b array_deque" and xs
  assume "deque_state env L s xs"
  then show "\<exists>s'. pop_front_on L s = Inr (if xs = [] then None else Some (hd xs), s') \<and> deque_state env L s' (tl xs)"
    using pop_front_rep [of L "snd s" xs] by (auto simp: deque_state_def pop_front_on_def)
qed

text \<open>C34. At its front a deque is exact: what is pushed to the back comes out of the front in the same
  order, after what was in the deque, however often the memory grows and the elements are moved to
  make room; and an element pushed to the front is the first of the deque.\<close>

theorem deque_queue:
  assumes "mmap_contract env" "deque_rep L d xs" "for_each (push_back env L) ys (s, d) = Inr (s1, d1)"
  shows "(\<exists>s2 d2. pop_many (pop_front_on L) (length (xs @ ys)) (s1, d1) = Inr (map Some (xs @ ys), s2, d2) \<and>
      deque_rep L d2 []) \<and>
    (\<forall>s2 d2. push_front env L v (s1, d1) = Inr (s2, d2) \<longrightarrow> deque_rep L d2 (v # xs @ ys))"
proof -
  have r: "deque_state env L (s, d) xs" using assms(1,2) by (simp add: deque_state_def)
  have "deque_rep L d1 (xs @ ys)" using deq.push_all_rep [OF r assms(3)] by (simp add: deque_state_def)
  then show ?thesis
    using deq.push_pop_front_all [OF r assms(3)] push_front_rep [OF assms(1)] by (auto simp: deque_state_def)
qed

definition free_os :: os_state where "free_os = \<lparr>mem = (\<lambda>_. 0), os_maps = [], os_calls = 0\<rparr>"

definition short_deque :: "nat array_deque" where
  "short_deque = \<lparr>dq_raw = \<lparr>raw_segment = Some \<lparr>seg_ptr = 4096, seg_length = 16\<rparr>, raw_no_dealloc = False,
     slots = (\<lambda>i. if i = 0 then Some 7 else None), extent = 2\<rparr>, dq_start = 0, dq_end = 1\<rparr>"

lemma short_deque_rep: "deque_rep ref_layout short_deque [7]"
  by (simp add: deque_rep_def short_deque_def raw_ok_def raw_capacity_def ref_layout_def)

theorem deque_queue_witness:
  "\<exists>s1 d1 s2 d2. for_each (push_back bump_env ref_layout) [8] (free_os, short_deque) = Inr (s1, d1) \<and>
    pop_many (pop_front_on ref_layout) 2 (s1, d1) = Inr ([Some 7, Some 8], s2, d2)"
proof -
  obtain s1 d1 where p: "for_each (push_back bump_env ref_layout) [8] (free_os, short_deque) = Inr (s1, d1)"
    by (simp add: push_back_def short_deque_def deque_capacity_def raw_capacity_def ref_layout_def raw_write_def)
  from deque_queue [OF bump_env_contract short_deque_rep p, of 0] p show ?thesis
    by (auto simp: numeral_2_eq_2 simp del: pop_many.simps)
qed

section \<open>The back\<close>

definition fresh_back :: "'a array_deque \<Rightarrow> bool" where
  "fresh_back d \<longleftrightarrow> (\<forall>i \<ge> dq_end d. slots (dq_raw d) i = None)"

lemma push_back_fresh:
  assumes "fresh_back d" "push_back env L v (s, d) = Inr (s', d')" shows "fresh_back d'"
proof -
  obtain d1 where d1: "(if dq_end d = deque_capacity L d then grow_back env L (s, d) else Inr (s, d)) = Inr (s', d1)"
    "d' = d1\<lparr>dq_raw := (dq_raw d1)\<lparr>slots := (slots (dq_raw d1))(dq_end d1 \<mapsto> v)\<rparr>, dq_end := dq_end d1 + 1\<rparr>"
    using assms(2) by (auto simp: push_back_def rbind_eq_Inr raw_write_def split: if_splits)
  have "fresh_back d1"
    using d1(1) assms(1)
    by (auto simp: fresh_back_def grow_back_def raw_reserve_def rbind_eq_Inr Let_def split: if_splits prod.splits sum.splits
        option.splits)
  then show ?thesis by (auto simp: fresh_back_def d1(2))
qed

lemma deque_deref_rep: "deque_rep L d xs \<Longrightarrow> xs \<noteq> [] \<Longrightarrow> deque_deref d = Inr xs"
proof -
  assume r: "deque_rep L d xs" "xs \<noteq> []"
  then have "raw_get_ptr (dq_raw d) \<noteq> 0"
    by (auto simp: deque_rep_def raw_ok_def raw_get_ptr_def raw_capacity_def split: option.splits)
  moreover have "traverse_res (raw_index (dq_raw d)) [dq_start d..<dq_start d + length xs] =
      Inr (map (\<lambda>j. xs ! (j - dq_start d)) [dq_start d..<dq_start d + length xs])"
    using deque_read [OF r(1)] by (intro traverse_res_map) (auto simp: le_iff_add)
  moreover have "map (\<lambda>j. xs ! (j - dq_start d)) [dq_start d..<dq_start d + length xs] = xs"
    by (rule nth_equalityI) auto
  ultimately show ?thesis by (simp add: deque_deref_def deque_len_rep [OF r(1)])
qed

lemma deque_from_array_rep:
  "array_rep L a xs \<Longrightarrow> xs \<noteq> [] \<Longrightarrow> \<exists>d. deque_from_array a = Inr d \<and> deque_rep L d (butlast xs)"
  by (auto simp: deque_from_array_def array_len_def array_rep_def deque_rep_def nth_butlast Suc_le_eq)

text \<open>C39. At its back a deque is not: after any number of pushes to the back of a new deque, \<^verbatim>\<open>pop_back\<close>
  reads past the last element, where nothing was ever written; and a copy of a deque, which is
  built from an array, lacks the last element.\<close>

theorem deque_back_end:
  assumes "mmap_contract env" "for_each (push_back env L) xs (s, deque_new) = Inr (s1, d)" "xs \<noteq> []"
  shows "pop_back L d = Inl undefined_access \<and>
    (\<forall>s2 d2. deque_clone env L cl (s1, d) = Inr (s2, d2) \<longrightarrow> deque_rep L d2 (butlast (map cl xs)))"
proof -
  have "deque_state env L (s, deque_new) []" using assms(1) by (simp add: deque_state_def)
  from deq.push_all_rep [OF this assms(2)] have r: "deque_rep L d xs" by (simp add: deque_state_def)
  have "fresh_back d'" if "fresh_back d" "for_each (push_back env L) ys (s, d) = Inr (s', d')" for d d' :: "'b array_deque" and s s' ys
    using that by (induction ys arbitrary: s d) (auto simp: rbind_eq_Inr dest: push_back_fresh)
  moreover have "fresh_back (deque_new :: 'b array_deque)" by (simp add: fresh_back_def deque_new_def raw_new_def)
  ultimately have f: "fresh_back d" using assms(2) by blast
  then have "pop_back L d = Inl undefined_access"
    using r assms(3) by (auto simp: pop_back_def deque_is_empty_def deque_rep_def fresh_back_def raw_index_def)
  moreover have "deque_rep L d2 (butlast (map cl xs))" if c: "deque_clone env L cl (s1, d) = Inr (s2, d2)" for s2 d2
  proof -
    obtain a where a: "array_from_iter env L (map cl xs) s1 = Inr (s2, a)" "deque_from_array a = Inr d2"
      using c deque_deref_rep [OF r assms(3)] by (auto simp: deque_clone_def deque_from_iter_def rbind_eq_Inr)
    show ?thesis
      using deque_from_array_rep [OF array_from_iter_rep [OF assms(1) a(1)]] a(2) assms(3) by auto
  qed
  ultimately show ?thesis by blast
qed

theorem deque_back_end_witness:
  "\<exists>s1 d. for_each (push_back bump_env ref_layout) [3 :: nat] (free_os, deque_new) = Inr (s1, d) \<and>
    pop_back ref_layout d = Inl undefined_access"
proof -
  have "mmap bump_env False 0 [] (raw_bytes ref_layout 1) \<noteq> MAP_FAILED"
    by (simp add: bump_env_def bump_mmap_def raw_bytes_def ref_layout_def align_val_def MAP_FAILED_def PAGE_value
        round_up_def map_span_def Let_def)
  then obtain s1 and d :: "nat array_deque" where p: "for_each (push_back bump_env ref_layout) [3] (free_os, deque_new) = Inr (s1, d)"
    by (auto simp: push_back_def deque_new_def raw_new_def deque_capacity_def raw_capacity_def grow_back_def raw_reserve_def
        seg_allocate_def map_segment_def free_os_def raw_write_def Let_def raw_bytes_def ref_layout_def align_val_def)
  from deque_back_end [OF bump_env_contract p] p show ?thesis by auto
qed

end
