(* ===== verification/Array_Requests.thy ===== *)
theory Array_Requests
  imports Array_Facts
begin

text \<open>
  How much memory the operations on arrays need. The kernel may refuse any request; a state \<open>grants\<close> a number of
  requests of a size if it does not. An operation \<open>costs\<close> a number of requests if it returns whenever the kernel
  grants so many, and leaves the rest of the budget; what it costs and what it computes are shown together,
  with one rule for the sequence of two operations and one for loops.
\<close>

section \<open>Budgets\<close>

text \<open>The kernel grants every request of at most \<open>B\<close> bytes, \<open>n\<close> times in a row, whatever is unmapped in between.\<close>

fun grants :: "os_env \<Rightarrow> nat \<Rightarrow> nat \<Rightarrow> 's os_state_scheme \<Rightarrow> bool" where
  "grants env B 0 s = True"
| "grants env B (Suc n) s =
    ((\<forall>len. 0 < unat len \<and> unat len \<le> B \<longrightarrow>
        mmap env False (os_calls s) (os_maps s) len \<noteq> MAP_FAILED \<and> grants env B n (snd (seg_allocate env len s))) \<and>
     (\<forall>seg. grants env B n (snd (seg_deallocate env seg s))))"

lemma grants_mono: "grants env B n s \<Longrightarrow> m \<le> n \<Longrightarrow> grants env B m s"
proof (induction n arbitrary: m s)
  case (Suc n)
  then show ?case by (cases m) simp_all
qed simp

text \<open>An outcome that satisfies \<open>P\<close> and leaves the rest of the budget, or the budget was not there.\<close>

definition costs ::
  "os_env \<Rightarrow> nat \<Rightarrow> nat \<Rightarrow> 's os_state_scheme \<Rightarrow> ('r \<Rightarrow> 's os_state_scheme) \<Rightarrow> 'r res \<Rightarrow> ('r \<Rightarrow> bool) \<Rightarrow> bool" where
  "costs env B n s os R P \<longleftrightarrow> (case R of
       Inl e \<Rightarrow> \<not> grants env B n s
     | Inr y \<Rightarrow> P y \<and> (\<forall>k. grants env B (n + k) s \<longrightarrow> grants env B k (os y)))"

lemma costs_Inr: "P y \<Longrightarrow> os y = s \<Longrightarrow> costs env B n s os (Inr y) P"
  using grants_mono by (fastforce simp: costs_def)

lemma costs_more: "costs env B n s os R P \<Longrightarrow> n \<le> m \<Longrightarrow> costs env B m s os R P"
proof -
  assume c: "costs env B n s os R P" "n \<le> m"
  have "grants env B (m + k) s \<Longrightarrow> grants env B (n + k) s" "grants env B m s \<Longrightarrow> grants env B n s" for k
    using grants_mono c(2) by (metis add_le_mono1)+
  then show ?thesis using c(1) by (auto simp: costs_def split: sum.splits)
qed

lemma costs_weaken: "costs env B n s os R P \<Longrightarrow> (\<And>y. R = Inr y \<Longrightarrow> P y \<Longrightarrow> Q y) \<Longrightarrow> costs env B n s os R Q"
  by (auto simp: costs_def split: sum.splits)

lemma costs_bind:
  assumes "costs env B n s os R P" "\<And>y. R = Inr y \<Longrightarrow> P y \<Longrightarrow> costs env B m (os y) os' (g y) Q"
  shows "costs env B (n + m) s os' (rbind R g) Q"
proof (cases R)
  case (Inl e)
  then show ?thesis using assms(1) grants_mono [of env B "n + m" s n] by (auto simp: costs_def)
next
  case (Inr y)
  then have y: "P y" "\<And>k. grants env B (n + k) s \<Longrightarrow> grants env B k (os y)" using assms(1) by (auto simp: costs_def)
  show ?thesis using assms(2) [OF Inr y(1)] y(2) [of m] y(2) [of "m + _"] Inr
    by (auto simp: costs_def add.assoc split: sum.splits)
qed

text \<open>A loop: the invariant speaks of the elements that are done.\<close>

lemma costs_for_each:
  assumes "P [] a" "\<And>ys x zs a. xs = ys @ x # zs \<Longrightarrow> P ys a \<Longrightarrow> costs env B (w x) (os a) os (f x a) (P (ys @ [x]))"
  shows "costs env B (\<Sum>x\<leftarrow>xs. w x) (os a) os (for_each f xs a) (P xs)"
proof -
  have "\<exists>zs. xs = ys @ zs \<Longrightarrow> costs env B (\<Sum>x\<leftarrow>ys. w x) (os a) os (for_each f ys a) (P ys)" for ys
  proof (induction ys rule: rev_induct)
    case Nil
    then show ?case using assms(1) by (simp add: costs_Inr)
  next
    case (snoc x ys)
    then obtain zs where xs: "xs = ys @ x # zs" by auto
    then have IH: "costs env B (\<Sum>x\<leftarrow>ys. w x) (os a) os (for_each f ys a) (P ys)" using snoc.IH by blast
    have "costs env B ((\<Sum>x\<leftarrow>ys. w x) + w x) (os a) os (rbind (for_each f ys a) (for_each f [x])) (P (ys @ [x]))"
    proof (rule costs_bind [OF IH])
      fix b assume "P ys b"
      moreover have "for_each f [x] b = f x b" by (cases "f x b") simp_all
      ultimately show "costs env B (w x) (os b) os (for_each f [x] b) (P (ys @ [x]))" using assms(2) [OF xs] by simp
    qed
    then show ?case by (simp add: for_each_append)
  qed
  then show ?thesis by blast
qed

lemma costs_loop:
  assumes "P [] a" "\<And>ys x zs a. xs = ys @ x # zs \<Longrightarrow> P ys a \<Longrightarrow> costs env B c (os a) os (f x a) (P (ys @ [x]))"
  shows "costs env B (c * length xs) (os a) os (for_each f xs a) (P xs)"
  using costs_for_each [where w = "\<lambda>_. c", OF assms] by (simp add: sum_list_triv mult.commute)

section \<open>Arrays\<close>

text \<open>The memory of an array with room for twice the number of its elements.\<close>

definition fits :: "layout \<Rightarrow> nat \<Rightarrow> nat \<Rightarrow> bool" where
  "fits L B n \<longleftrightarrow> max 1 (2 * n) * t_size L \<le> B"

lemma fits_mono: "fits L B n \<Longrightarrow> m \<le> n \<Longrightarrow> fits L B m"
proof -
  assume f: "fits L B n" "m \<le> n"
  then have "max 1 (2 * m) * t_size L \<le> max 1 (2 * n) * t_size L" by (intro mult_right_mono) simp_all
  then show ?thesis using f(1) unfolding fits_def by (rule order_trans)
qed

lemma push_size:
  assumes "layout_ok L" "array_rep L a xs"
  shows "max 1 (2 * length xs) * t_size L + t_align L \<le> 2 ^ 64"
proof -
  have al: "t_align L \<le> t_size L" "t_size L < 2 ^ 63" using assms(1) by (auto simp: layout_ok_def dvd_imp_le)
  have "raw_ok L (ar_raw a)" "length xs \<le> raw_capacity L (ar_raw a)" using assms(2) by (simp_all add: array_rep_def)
  then have "length xs * t_size L \<le> 2 ^ 47" using raw_capacity_bytes by (meson le_trans mult_le_mono1)
  then show ?thesis using al by (cases xs) (auto simp: algebra_simps max_def)
qed

lemma raw_reserve_cases:
  assumes "s1 = snd (seg_allocate env (raw_bytes L n) s)"
  obtains "raw_reserve env L n (s, r) = Inr (s, r)"
  | "mmap env False (os_calls s) (os_maps s) (raw_bytes L n) = MAP_FAILED" "raw_reserve env L n (s, r) = Inl UnwrapNone"
  | r' where "raw_reserve env L n (s, r) = Inr (s1, r')"
  | old r' where "raw_reserve env L n (s, r) = Inr (snd (seg_deallocate env old s1), r')"
proof (cases "raw_segment r \<noteq> None \<and> n < raw_capacity L r")
  case True
  then show ?thesis using that(1) by (simp add: raw_reserve_def)
next
  case False
  show ?thesis
  proof (cases "seg_allocate env (raw_bytes L n) s")
    case (Pair res s')
    then have s': "s' = s1" using assms by simp
    show ?thesis
    proof (cases res)
      case (Inl e)
      then have "mmap env False (os_calls s) (os_maps s) (raw_bytes L n) = MAP_FAILED"
        using Pair by (auto simp: seg_allocate_def map_segment_def Let_def split: if_splits)
      then show ?thesis using that(2) False Pair Inl by (simp add: raw_reserve_def)
    next
      case (Inr seg)
      then show ?thesis using that(3,4) False Pair s' by (cases "raw_segment r"; cases "seg_ptr (the (raw_segment r)) = seg_ptr seg") (simp_all add: raw_reserve_def Let_def)
    qed
  qed
qed

lemma raw_reserve_costs:
  assumes "layout_ok L" "0 < n" "n * t_size L + t_align L \<le> 2 ^ 64" "n * t_size L \<le> B"
  shows "costs env B 2 s fst (raw_reserve env L n (s, r)) (\<lambda>_. True)"
proof -
  have len: "0 < unat (raw_bytes L n)" "unat (raw_bytes L n) \<le> B"
    using raw_bytes_exact [OF assms(1,3)] assms by (simp_all add: layout_ok_def)
  define s1 where "s1 = snd (seg_allocate env (raw_bytes L n) s)"
  have g: "grants env B (2 + k) s \<Longrightarrow> grants env B (Suc k) s1" for k using len by (simp add: s1_def)
  have k: "grants env B (2 + k) s \<Longrightarrow> grants env B k s1" for k by (erule grants_mono [OF g]) simp
  have d: "grants env B (2 + k) s \<Longrightarrow> grants env B k (snd (seg_deallocate env old s1))" for k old
    by (drule g) simp
  from s1_def show ?thesis
  proof (cases rule: raw_reserve_cases [where r = r])
    case 1
    then show ?thesis by (simp add: costs_Inr)
  next
    case 2
    then have "\<not> grants env B 2 s" using len by (auto simp: numeral_2_eq_2)
    then show ?thesis using 2 by (simp add: costs_def)
  qed (use k d in \<open>simp_all add: costs_def\<close>)
qed

lemma array_push_costs:
  assumes "layout_ok L" "mmap_contract env" "array_rep L a xs" "fits L B (length xs)"
  shows "costs env B 2 s fst (array_push env L v (s, a)) (\<lambda>(s', a'). array_rep L a' (xs @ [v]) \<and> ar_no_dealloc a' = ar_no_dealloc a)"
proof -
  let ?R = "if ar_size a \<ge> raw_capacity L (ar_raw a)
    then raw_reserve env L (if ar_size a > 0 then ar_size a * 2 else 1) (s, ar_raw a) else Inr (s, ar_raw a)"
  have n: "(if ar_size a > 0 then ar_size a * 2 else 1) = max 1 (2 * length xs)" using array_rep_len [OF assms(3)] by (cases xs) auto
  have c: "costs env B 2 s fst ?R (\<lambda>_. True)"
  proof (cases "ar_size a \<ge> raw_capacity L (ar_raw a)")
    case True
    then show ?thesis
      using raw_reserve_costs [OF assms(1) _ push_size [OF assms(1,3)], of B env s "ar_raw a"] assms(4) by (simp add: n fits_def)
  qed (simp add: costs_Inr)
  have "costs env B (2 + 0) s fst (rbind ?R (\<lambda>(s1, r). rbind (raw_write (ar_size a) v r) (\<lambda>r1.
      Inr (s1, a\<lparr>ar_raw := r1, ar_size := ar_size a + 1\<rparr>)))) (\<lambda>_. True)"
  proof (rule costs_bind [OF c], clarsimp)
    fix s1 r assume r: "?R = Inr (s1, r)"
    have "\<not> (\<exists>e. raw_write (ar_size a) v r = Inl e)"
    proof
      assume "\<exists>e. raw_write (ar_size a) v r = Inl e"
      then obtain e where "array_push env L v (s, a) = Inl e" using r by (auto simp: array_push_def Let_def)
      from array_push_panic [OF assms(1,3) this] show False
        using r array_rep_len [OF assms(3)] by (auto simp: n max.commute mult.commute raw_reserve_def seg_allocate_def map_segment_def Let_def split: if_splits)
    qed
    then obtain r1 where "raw_write (ar_size a) v r = Inr r1" by (cases "raw_write (ar_size a) v r") auto
    then show "costs env B 0 s1 fst (rbind (raw_write (ar_size a) v r) (\<lambda>r1. Inr (s1, a\<lparr>ar_raw := r1, ar_size := Suc (ar_size a)\<rparr>))) (\<lambda>_. True)"
      by (simp add: costs_Inr)
  qed
  then have "costs env B 2 s fst (array_push env L v (s, a)) (\<lambda>_. True)" by (simp add: array_push_def Let_def)
  then show ?thesis
    by (rule costs_weaken) (auto dest: array_push_rep [OF assms(2,3)] array_push_owner)
qed

lemma array_push_all_costs:
  fixes a :: "'a array" and s :: "'s os_state_scheme"
  assumes "layout_ok L" "mmap_contract env" "array_rep L a xs" "fits L B (length xs + length ys)"
  shows "costs env B (2 * length ys) s fst (for_each (array_push env L) ys (s, a))
    (\<lambda>(s', a'). array_rep L a' (xs @ ys) \<and> ar_no_dealloc a' = ar_no_dealloc a)"
proof -
  let ?P = "\<lambda>vs (x :: 's os_state_scheme \<times> 'a array). array_rep L (snd x) (xs @ vs) \<and> ar_no_dealloc (snd x) = ar_no_dealloc a"
  have "costs env B (2 * length ys) (fst (s, a)) fst (for_each (array_push env L) ys (s, a)) (?P ys)"
  proof (rule costs_loop)
    fix us u zs x assume ys: "ys = us @ u # zs" and p: "?P us x"
    have "fits L B (length (xs @ us))" using fits_mono [OF assms(4)] ys by simp
    from array_push_costs [OF assms(1,2) conjunct1 [OF p] this, of "fst x" u]
    show "costs env B 2 (fst x) fst (array_push env L u x) (?P (us @ [u]))"
      using p by (auto intro: costs_weaken)
  qed (use assms(3) in simp)
  then show ?thesis by (simp add: case_prod_unfold)
qed

text \<open>The references that \<^verbatim>\<open>iter\<close> collects.\<close>

lemma array_iter_costs:
  assumes "mmap_contract env" "array_rep L a xs" "fits ref_layout B (length xs)"
  shows "costs env B (2 * length xs) s fst (array_iter env (s, a)) (\<lambda>(s', it). \<exists>it'. iter_all it = Inr (xs, it'))"
proof -
  have "for_each (push_element env a) [0..<ar_size a] (s, array_new) = for_each (array_push env ref_layout) xs (s, array_new)"
    using push_elements_eq [OF assms(2)] array_rep_len [OF assms(2)] by simp
  then have it: "array_iter env (s, a) = rbind (for_each (array_push env ref_layout) xs (s, array_new)) (\<lambda>(s1, arr). Inr (s1, into_iter arr))"
    by (simp add: array_iter_def)
  have "costs env B (2 * length xs + 0) s fst (array_iter env (s, a)) (\<lambda>_. True)"
    unfolding it using array_push_all_costs [OF ref_layout_ok assms(1) array_new_rep, of B xs s] assms(3)
    by (intro costs_bind [where P = "\<lambda>_. True"]) (auto simp: costs_Inr intro: costs_weaken)
  then have "costs env B (2 * length xs) s fst (array_iter env (s, a)) (\<lambda>_. True)" by simp
  then show ?thesis by (rule costs_weaken) (use array_iter_rep [OF assms(1,2)] in \<open>auto split: prod.splits\<close>)
qed

end
