(* ===== verification/Hash_Map_Memory.thy ===== *)
theory Hash_Map_Memory
  imports Array_Requests Hash_Map
begin

text \<open>
  The hash map of \<^verbatim>\<open>src/independent_collections/hash_map.rs\<close> on its arrays. In \<open>Hash_Map\<close> a chain is a list; here it
  is an \<open>Array\<close>, the table is an \<open>Array\<close> of them, every push and every iterator may request memory from the kernel,
  and the panic of a refused request is a result. The layouts of a chain and of a bucket are
  parameters. The insertion and the lookup on arrays refine those on lists, and they panic only when the
  kernel refuses memory. The values that \<^verbatim>\<open>grow\<close> drops are reported: it drops every bucket twice,
  which is harmless for keys and values without \<^verbatim>\<open>Drop\<close> only.
\<close>

section \<open>Operations\<close>

record ('k, 'v) mem_map =
  mm_buckets :: "('k, 'v) bucket array array"
  mm_containers_used :: nat
  mm_len :: nat

definition mm_get_hash :: "('k \<Rightarrow> nat) \<Rightarrow> ('k, 'v) mem_map \<Rightarrow> 'k \<Rightarrow> nat res" where
  "mm_get_hash h m key =
     (if array_len (mm_buckets m) = 0 then Inl (Panic ''attempt to calculate the remainder with a divisor of zero'')
      else Inr (h key mod array_len (mm_buckets m)))"

text \<open>The body of the inner loop of \<^verbatim>\<open>grow\<close>.\<close>

definition rehash_into ::
  "os_env \<Rightarrow> layout \<Rightarrow> ('k \<Rightarrow> nat) \<Rightarrow> nat \<Rightarrow> ('k, 'v) bucket \<Rightarrow> 's os_state_scheme \<times> ('k, 'v) bucket array array \<times> nat \<Rightarrow>
    ('s os_state_scheme \<times> ('k, 'v) bucket array array \<times> nat) res" where
  "rehash_into env LB h new_capacity b x =
     (let (s, new_array, used) = x; i = h (b_key b) mod new_capacity in
      rbind (array_index new_array i) (\<lambda>arr.
      rbind (array_push env LB (b\<lparr>b_hash := i\<rparr>) (s, arr)) (\<lambda>(s1, arr1).
      rbind (write_raw arr1 i new_array) (\<lambda>new1.
      Inr (s1, new1, if array_is_empty arr then used + 1 else used)))))"

text \<open>The inner loop consumes a chain; its iterator drops the buckets that the loop has moved out.\<close>

definition rehash_chain ::
  "os_env \<Rightarrow> layout \<Rightarrow> ('k \<Rightarrow> nat) \<Rightarrow> nat \<Rightarrow> ('k, 'v) bucket array \<Rightarrow>
    ('k, 'v) bucket list \<times> 's os_state_scheme \<times> ('k, 'v) bucket array array \<times> nat \<Rightarrow>
    (('k, 'v) bucket list \<times> 's os_state_scheme \<times> ('k, 'v) bucket array array \<times> nat) res" where
  "rehash_chain env LB h new_capacity old_buckets x =
     rbind (iter_all (into_iter old_buckets)) (\<lambda>(bs, it).
     rbind (for_each (rehash_into env LB h new_capacity) bs (snd x)) (\<lambda>y.
     rbind (array_drop (it_array it)) (\<lambda>dropped. Inr (fst x @ dropped, y))))"

definition mm_grow ::
  "os_env \<Rightarrow> layout \<Rightarrow> layout \<Rightarrow> ('k \<Rightarrow> nat) \<Rightarrow> 's os_state_scheme \<times> ('k, 'v) mem_map \<Rightarrow>
    (('k, 'v) bucket list \<times> 's os_state_scheme \<times> ('k, 'v) mem_map) res" where
  "mm_grow env LA LB h x =
     (let (s, m) = x; new_capacity = array_len (mm_buckets m) * 2 + 1 in
      rbind (for_each (\<lambda>_. array_push env LA array_new) [0..<new_capacity] (s, array_new)) (\<lambda>(s1, new_array).
      rbind (iter_all (into_iter (mm_buckets m))) (\<lambda>(olds, it).
      rbind (for_each (rehash_chain env LB h new_capacity) olds ([], s1, new_array, 0)) (\<lambda>(dropped, s2, new1, used).
      rbind (array_drop (it_array it)) (\<lambda>arrays.
      rbind (traverse_res array_drop arrays) (\<lambda>ds.
      Inr (dropped @ concat ds, s2, m\<lparr>mm_buckets := new1, mm_containers_used := used\<rparr>)))))))"

definition mm_needs_grow :: "('k, 'v) mem_map \<Rightarrow> bool res" where
  "mm_needs_grow m =
     (if mm_len m \<ge> array_len (mm_buckets m) div 2 \<and> mm_len m \<noteq> 0 \<and> 2 * mm_containers_used m < mm_len m then Inr True
      else rbind (checked_sub (array_len (mm_buckets m)) 1) (\<lambda>n. Inr (mm_len m = n)))"

text \<open>The result is the old value, the key that the returned reference points to and the buckets that were dropped.\<close>

definition mm_insert_keep_key ::
  "os_env \<Rightarrow> layout \<Rightarrow> layout \<Rightarrow> ('k \<Rightarrow> nat) \<Rightarrow> 'k \<Rightarrow> 'v \<Rightarrow> 's os_state_scheme \<times> ('k, 'v) mem_map \<Rightarrow>
    ('v option \<times> 'k \<times> ('k, 'v) bucket list \<times> 's os_state_scheme \<times> ('k, 'v) mem_map) res" where
  "mm_insert_keep_key env LA LB h key v x =
     rbind (mm_needs_grow (snd x)) (\<lambda>g.
     rbind (if g then mm_grow env LA LB h x else Inr ([], x)) (\<lambda>(dropped, s1, m).
     rbind (mm_get_hash h m key) (\<lambda>i.
     rbind (array_index (mm_buckets m) i) (\<lambda>bs.
     rbind (array_iter env (s1, bs)) (\<lambda>(s2, it).
     rbind (iter_all it) (\<lambda>(refs, _).
     let m1 = (if array_len bs = 0 then m\<lparr>mm_containers_used := mm_containers_used m + 1\<rparr> else m);
         m2 = m1\<lparr>mm_len := mm_len m1 + 1\<rparr>
     in case old_index key refs of
          None \<Rightarrow>
            rbind (array_push env LB \<lparr>b_hash = i, b_key = key, b_value = v\<rparr> (s2, bs)) (\<lambda>(s3, bs1).
            rbind (write_raw bs1 i (mm_buckets m)) (\<lambda>t.
            Inr (None, key, dropped, s3, m2\<lparr>mm_buckets := t\<rparr>)))
        | Some j \<Rightarrow>
            rbind (array_index bs j) (\<lambda>b.
            rbind (write_raw (b\<lparr>b_value := v\<rparr>) j bs) (\<lambda>bs1.
            rbind (write_raw bs1 i (mm_buckets m)) (\<lambda>t.
            Inr (Some (b_value b), b_key b, dropped, s2, m2\<lparr>mm_buckets := t\<rparr>))))))))))"

definition mm_insert ::
  "os_env \<Rightarrow> layout \<Rightarrow> layout \<Rightarrow> ('k \<Rightarrow> nat) \<Rightarrow> 'k \<Rightarrow> 'v \<Rightarrow> 's os_state_scheme \<times> ('k, 'v) mem_map \<Rightarrow>
    ('v option \<times> ('k, 'v) bucket list \<times> 's os_state_scheme \<times> ('k, 'v) mem_map) res" where
  "mm_insert env LA LB h key v x = rbind (mm_insert_keep_key env LA LB h key v x) (\<lambda>(old, _, y). Inr (old, y))"

definition mm_get ::
  "os_env \<Rightarrow> ('k \<Rightarrow> nat) \<Rightarrow> 'k \<Rightarrow> 's os_state_scheme \<times> ('k, 'v) mem_map \<Rightarrow> ('v option \<times> 's os_state_scheme) res" where
  "mm_get env h key x =
     (let (s, m) = x in
      rbind (mm_get_hash h m key) (\<lambda>i.
      rbind (array_index (mm_buckets m) i) (\<lambda>bs.
      rbind (array_iter env (s, bs)) (\<lambda>(s1, it).
      rbind (iter_all it) (\<lambda>(refs, _).
      Inr (map_option b_value (find (\<lambda>b. b_key b = key) refs), s1))))))"

section \<open>Representation\<close>

definition chain_rep :: "layout \<Rightarrow> 'a array \<Rightarrow> 'a list \<Rightarrow> bool" where
  "chain_rep LB r bs \<longleftrightarrow> array_rep LB r bs \<and> \<not> ar_no_dealloc r"

definition table_rep :: "layout \<Rightarrow> layout \<Rightarrow> 'a array array \<Rightarrow> 'a list list \<Rightarrow> bool" where
  "table_rep LA LB a bss \<longleftrightarrow> (\<exists>arrs. chain_rep LA a arrs \<and> list_all2 (chain_rep LB) arrs bss)"

definition mm_rep :: "layout \<Rightarrow> layout \<Rightarrow> ('k, 'v) mem_map \<Rightarrow> ('k, 'v) hash_map \<Rightarrow> bool" where
  "mm_rep LA LB m hm \<longleftrightarrow> table_rep LA LB (mm_buckets m) (hm_buckets hm) \<and>
     mm_containers_used m = hm_containers_used hm \<and> mm_len m = hm_len hm"

text \<open>The requests and the bytes that the operations on a map need at most.\<close>

definition map_requests :: "('k, 'v) hash_map \<Rightarrow> nat" where
  "map_requests hm = 4 * (length (hm_buckets hm) + length (concat (hm_buckets hm)) + 1)"

definition map_bytes :: "layout \<Rightarrow> layout \<Rightarrow> ('k, 'v) hash_map \<Rightarrow> nat" where
  "map_bytes LA LB hm = (let n = 2 * (2 * length (hm_buckets hm) + length (concat (hm_buckets hm)) + 1)
     in max (n * t_size LA) (max (n * t_size LB) (n * t_size ref_layout)))"

lemma map_fits:
  assumes "n \<le> 2 * length (hm_buckets hm) + length (concat (hm_buckets hm)) + 1"
  shows "fits LA (map_bytes LA LB hm) n" "fits LB (map_bytes LA LB hm) n" "fits ref_layout (map_bytes LA LB hm) n"
proof -
  let ?m = "2 * (2 * length (hm_buckets hm) + length (concat (hm_buckets hm)) + 1)"
  have "max 1 (2 * n) * t_size L \<le> ?m * t_size L" for L using assms by (intro mult_right_mono) simp_all
  then show "fits LA (map_bytes LA LB hm) n" "fits LB (map_bytes LA LB hm) n" "fits ref_layout (map_bytes LA LB hm) n"
    unfolding fits_def map_bytes_def Let_def by (meson le_max_iff_disj)+
qed

lemma length_nth_concat: "i < length xss \<Longrightarrow> length (xss ! i) \<le> length (concat xss)"
  using length_concat_update [of i xss "[]"] by simp

lemma table_rep_len: "table_rep LA LB a bss \<Longrightarrow> array_len a = length bss"
  by (auto simp: table_rep_def chain_rep_def array_len_def array_rep_len list_all2_lengthD)

lemma table_rep_index:
  assumes "table_rep LA LB a bss" "i < length bss"
  obtains r where "array_index a i = Inr r" "chain_rep LB r (bss ! i)"
    "\<And>r' bs. chain_rep LB r' bs \<Longrightarrow> \<exists>a'. write_raw r' i a = Inr a' \<and> table_rep LA LB a' (bss[i := bs])"
proof -
  obtain arrs where a: "chain_rep LA a arrs" "list_all2 (chain_rep LB) arrs bss" using assms(1) by (auto simp: table_rep_def)
  then have i: "i < length arrs" "array_rep LA a arrs" using assms(2) by (simp_all add: list_all2_lengthD chain_rep_def)
  show ?thesis
  proof
    show "array_index a i = Inr (arrs ! i)" by (rule array_index_rep [OF i(2,1)])
    show "chain_rep LB (arrs ! i) (bss ! i)" using a(2) i(1) by (rule list_all2_nthD)
    fix r' :: "'a array" and bs assume r': "chain_rep LB r' bs"
    obtain a' where a': "write_raw r' i a = Inr a'" "array_rep LA a' (arrs[i := r'])" using write_raw_rep [OF i(2,1)] by blast
    have "ar_no_dealloc a' = ar_no_dealloc a" using a'(1) by (auto simp: write_raw_def rbind_eq_Inr)
    then have "chain_rep LA a' (arrs[i := r'])" using a(1) a'(2) by (simp add: chain_rep_def)
    moreover have "list_all2 (chain_rep LB) (arrs[i := r']) (bss[i := bs])" using a(2) r' by (rule list_all2_update_cong)
    ultimately show "\<exists>a'. write_raw r' i a = Inr a' \<and> table_rep LA LB a' (bss[i := bs])"
      using a'(1) unfolding table_rep_def by blast
  qed
qed

section \<open>Growing\<close>

lemma rehash_step_length:
  assumes "rehash_step h n b (bss, u) = (bss', u')" "length bss = n" "0 < n"
  shows "length bss' = n" "length (concat bss') = Suc (length (concat bss))"
proof -
  have i: "h (b_key b) mod n < length bss" using assms(2,3) by simp
  have b: "bss' = bss[h (b_key b) mod n := bss ! (h (b_key b) mod n) @ [b\<lparr>b_hash := h (b_key b) mod n\<rparr>]]"
    using assms(1) by (simp add: rehash_step_def Let_def)
  show "length bss' = n" "length (concat bss') = Suc (length (concat bss))"
    using length_concat_update [OF i, of "bss ! (h (b_key b) mod n) @ [b\<lparr>b_hash := h (b_key b) mod n\<rparr>]"] assms(2) by (simp_all add: b)
qed

lemma rehash_fold_length:
  "fold (rehash_step h n) L (bss, u) = (bss', u') \<Longrightarrow> length bss = n \<Longrightarrow> 0 < n \<Longrightarrow>
    length bss' = n \<and> length (concat bss') = length (concat bss) + length L"
proof (induction L arbitrary: bss u)
  case (Cons b L)
  obtain bss1 u1 where st: "rehash_step h n b (bss, u) = (bss1, u1)" by fastforce
  then show ?case using Cons.IH [of bss1 u1] Cons.prems rehash_step_length [OF st] by simp
qed simp

lemma rehash_into_costs:
  fixes s :: "'s os_state_scheme"
  assumes L: "layout_ok LB" "mmap_contract env" and r: "table_rep LA LB a bss" "length bss = n" "0 < n"
    and f: "fits LB B (length (concat bss))"
  shows "costs env B 2 s fst (rehash_into env LB h n b (s, a, u))
    (\<lambda>(s', a', u'). \<exists>bss'. rehash_step h n b (bss, u) = (bss', u') \<and> table_rep LA LB a' bss')"
proof -
  let ?i = "h (b_key b) mod n" and ?b = "b\<lparr>b_hash := h (b_key b) mod n\<rparr>"
  have i: "?i < length bss" using r(2,3) by simp
  obtain arr where arr: "array_index a ?i = Inr arr" "chain_rep LB arr (bss ! ?i)"
    "\<And>r' bs. chain_rep LB r' bs \<Longrightarrow> \<exists>a'. write_raw r' ?i a = Inr a' \<and> table_rep LA LB a' (bss[?i := bs])"
    using table_rep_index [OF r(1) i] by metis
  have e: "array_is_empty arr = (bss ! ?i = [])" using arr(2) by (auto simp: array_is_empty_def array_len_def chain_rep_def dest: array_rep_len)
  have "fits LB B (length (bss ! ?i))" using fits_mono [OF f] length_nth_concat [OF i] by blast
  then have p: "costs env B 2 s fst (array_push env LB ?b (s, arr)) (\<lambda>(s', r). chain_rep LB r (bss ! ?i @ [?b]))"
    using array_push_costs [OF L, of arr "bss ! ?i" B s ?b] arr(2) by (auto simp: chain_rep_def intro: costs_weaken)
  have "costs env B (2 + 0) s fst (rbind (array_push env LB ?b (s, arr)) (\<lambda>(s1, arr1).
      rbind (write_raw arr1 ?i a) (\<lambda>new1. Inr (s1, new1, if array_is_empty arr then u + 1 else u))))
    (\<lambda>(s', a', u'). \<exists>bss'. rehash_step h n b (bss, u) = (bss', u') \<and> table_rep LA LB a' bss')"
  proof (rule costs_bind [OF p], clarify)
    fix s1 arr1 assume "chain_rep LB arr1 (bss ! ?i @ [?b])"
    then obtain a' where "write_raw arr1 ?i a = Inr a'" "table_rep LA LB a' (bss[?i := bss ! ?i @ [?b]])" using arr(3) by blast
    then show "costs env B 0 (fst (s1, arr1)) fst (rbind (write_raw arr1 ?i a) (\<lambda>new1. Inr (s1, new1, if array_is_empty arr then u + 1 else u)))
      (\<lambda>(s', a', u'). \<exists>bss'. rehash_step h n b (bss, u) = (bss', u') \<and> table_rep LA LB a' bss')"
      by (auto simp: rehash_step_def Let_def e intro!: costs_Inr)
  qed
  then show ?thesis by (simp add: rehash_into_def Let_def arr(1))
qed

text \<open>The loops of \<^verbatim>\<open>grow\<close>; \<open>k\<close> bounds the number of buckets.\<close>

definition rehashed ::
  "layout \<Rightarrow> layout \<Rightarrow> ('k \<Rightarrow> nat) \<Rightarrow> nat \<Rightarrow> ('k, 'v) bucket list \<Rightarrow> ('k, 'v) bucket array array \<times> nat \<Rightarrow> bool" where
  "rehashed LA LB h n bs x \<longleftrightarrow>
     (\<exists>bss. fold (rehash_step h n) bs (replicate n [], 0) = (bss, snd x) \<and> table_rep LA LB (fst x) bss)"

lemma rehash_loop_costs:
  fixes x :: "'s os_state_scheme \<times> ('k, 'v) bucket array array \<times> nat"
  assumes L: "layout_ok LB" "mmap_contract env" and x: "rehashed LA LB h n done1 (snd x)" "0 < n"
    and f: "fits LB B (length done1 + length bs)"
  shows "costs env B (2 * length bs) (fst x) fst (for_each (rehash_into env LB h n) bs x) (\<lambda>y. rehashed LA LB h n (done1 @ bs) (snd y))"
proof (rule costs_loop [where P = "\<lambda>ys y. rehashed LA LB h n (done1 @ ys) (snd y)"])
  show "rehashed LA LB h n (done1 @ []) (snd x)" using x(1) by simp
  fix ys b zs and y :: "'s os_state_scheme \<times> ('k, 'v) bucket array array \<times> nat"
  assume bs: "bs = ys @ b # zs" and y: "rehashed LA LB h n (done1 @ ys) (snd y)"
  obtain s a u where su: "y = (s, a, u)" by (metis prod_cases3)
  obtain bss where r: "fold (rehash_step h n) (done1 @ ys) (replicate n [], 0) = (bss, u)" "table_rep LA LB a bss"
    using y by (auto simp: rehashed_def su)
  have len: "length bss = n" "length (concat bss) = length done1 + length ys" using rehash_fold_length [OF r(1)] x(2) by simp_all
  have "fits LB B (length (concat bss))" using fits_mono [OF f] bs len(2) by simp
  from rehash_into_costs [OF L r(2) len(1) x(2) this, of s h b u]
  show "costs env B 2 (fst y) fst (rehash_into env LB h n b y) (\<lambda>y. rehashed LA LB h n (done1 @ ys @ [b]) (snd y))"
    unfolding su by (auto simp: rehashed_def r(1) [simplified] elim!: costs_weaken)
qed

lemma rehash_chain_costs:
  fixes x :: "('k, 'v) bucket list \<times> 's os_state_scheme \<times> ('k, 'v) bucket array array \<times> nat"
  assumes L: "layout_ok LB" "mmap_contract env" and x: "rehashed LA LB h n done1 (snd (snd x))" "0 < n"
    and f: "fits LB B (length done1 + length bs)" and r: "chain_rep LB old bs"
  shows "costs env B (2 * length bs) (fst (snd x)) (\<lambda>y. fst (snd y)) (rehash_chain env LB h n old x)
    (\<lambda>y. rehashed LA LB h n (done1 @ bs) (snd (snd y)) \<and> fst y = fst x @ bs)"
proof -
  obtain it where it: "iter_all (into_iter old) = Inr (bs, it)" "it_array it = old" using into_iter_all [of LB old bs] r by (auto simp: chain_rep_def)
  have d: "array_drop old = Inr bs" using r array_drop_rep by (auto simp: chain_rep_def)
  have "costs env B (2 * length bs + 0) (fst (snd x)) (\<lambda>y. fst (snd y))
      (rbind (for_each (rehash_into env LB h n) bs (snd x)) (\<lambda>y. Inr (fst x @ bs, y)))
    (\<lambda>y. rehashed LA LB h n (done1 @ bs) (snd (snd y)) \<and> fst y = fst x @ bs)"
    by (rule costs_bind [OF rehash_loop_costs [OF L x f]]) (simp add: costs_Inr)
  then show ?thesis by (simp add: rehash_chain_def it d)
qed

lemma chains_dropped: "list_all2 (chain_rep LB) arrs bss \<Longrightarrow> traverse_res array_drop arrs = Inr bss"
  by (induction rule: list_all2_induct) (auto simp: chain_rep_def dest: array_drop_rep)

lemma chains_size: "list_all2 (chain_rep LB) arrs bss \<Longrightarrow> (\<Sum>r\<leftarrow>arrs. 2 * ar_size r) = 2 * length (concat bss)"
  by (induction rule: list_all2_induct) (auto simp: chain_rep_def dest: array_rep_len)

lemma for_each_replicate: "for_each (\<lambda>_. f v) is x = for_each f (replicate (length is) v) x"
  by (induction "is" arbitrary: x) (auto intro!: rbind_cong)

lemma new_table_costs:
  assumes "layout_ok LA" "mmap_contract env" "fits LA B n"
  shows "costs env B (2 * n) s fst (for_each (\<lambda>_. array_push env LA array_new) [0..<n] (s, array_new))
    (\<lambda>(s', a :: 'a array array). table_rep LA LB a (replicate n []))"
proof -
  have "costs env B (2 * length (replicate n (array_new :: 'a array))) s fst (for_each (array_push env LA) (replicate n array_new) (s, array_new :: 'a array array))
      (\<lambda>(s', a'). array_rep LA a' ([] @ replicate n array_new) \<and> ar_no_dealloc a' = ar_no_dealloc (array_new :: 'a array array))"
    by (rule array_push_all_costs [OF assms(1,2) array_new_rep]) (use assms(3) in simp)
  moreover have "list_all2 (chain_rep LB) (replicate n (array_new :: 'a array)) (replicate n [])"
    by (simp add: list_all2_conv_all_nth chain_rep_def) (simp add: array_new_def)
  ultimately show ?thesis unfolding for_each_replicate
    by (auto simp: table_rep_def chain_rep_def array_new_def [where 'a = "'a array"] elim!: costs_weaken)
qed

lemma rehash_all_costs:
  fixes s :: "'s os_state_scheme" and bss :: "('b, 'c) bucket list list"
  assumes L: "layout_ok LB" "mmap_contract env" and r: "list_all2 (chain_rep LB) arrs bss"
    and a: "table_rep LA LB a (replicate n [])" "0 < n" and f: "fits LB B (length (concat bss))"
  shows "costs env B (2 * length (concat bss)) s (\<lambda>y. fst (snd y)) (for_each (rehash_chain env LB h n) arrs ([], s, a, 0))
    (\<lambda>y. rehashed LA LB h n (concat bss) (snd (snd y)) \<and> fst y = concat bss)"
proof -
  let ?x = "([], s, a, 0) :: ('b, 'c) bucket list \<times> 's os_state_scheme \<times> ('b, 'c) bucket array array \<times> nat"
  let ?done = "\<lambda>k. concat (take k bss)"
  let ?P = "\<lambda>ys y. rehashed LA LB h n (?done (length ys)) (snd (snd y)) \<and> fst y = ?done (length ys)"
  have "costs env B (\<Sum>r\<leftarrow>arrs. 2 * ar_size r) (fst (snd ?x)) (\<lambda>y. fst (snd y)) (for_each (rehash_chain env LB h n) arrs ?x) (?P arrs)"
  proof (rule costs_for_each [where P = ?P])
    show "?P [] ?x" using a(1) by (auto simp: rehashed_def)
    fix ys old zs and y :: "('b, 'c) bucket list \<times> 's os_state_scheme \<times> ('b, 'c) bucket array array \<times> nat"
    assume arrs: "arrs = ys @ old # zs" and y: "?P ys y"
    let ?bs = "bss ! length ys"
    have k: "length ys < length bss" using r arrs by (auto dest: list_all2_lengthD)
    have old: "chain_rep LB old ?bs" using list_all2_nthD [OF r, of "length ys"] arrs by simp
    have len: "ar_size old = length ?bs" using old by (auto simp: chain_rep_def dest: array_rep_len)
    have d: "?done (length ys) @ ?bs = ?done (Suc (length ys))" using k by (simp add: take_Suc_conv_app_nth)
    have "length (?done (Suc (length ys))) \<le> length (concat bss)" by (metis append_take_drop_id concat_append le_add1 length_append)
    then have "fits LB B (length (?done (length ys)) + length ?bs)" using fits_mono [OF f] d by (metis length_append)
    from rehash_chain_costs [OF L _ a(2) this old, of LA h y] y
    show "costs env B (2 * ar_size old) (fst (snd y)) (\<lambda>y. fst (snd y)) (rehash_chain env LB h n old y) (?P (ys @ [old]))"
      by (simp add: len d)
  qed
  then show ?thesis using list_all2_lengthD [OF r] by (simp add: chains_size [OF r])
qed

lemma mm_grow_costs:
  fixes s :: "'s os_state_scheme" and hm :: "('k, 'v) hash_map"
  assumes L: "layout_ok LA" "layout_ok LB" "mmap_contract env" and r: "mm_rep LA LB m hm"
  shows "costs env (map_bytes LA LB hm) (2 * (2 * length (hm_buckets hm) + 1) + 2 * length (concat (hm_buckets hm))) s (\<lambda>y. fst (snd y))
    (mm_grow env LA LB h (s, m))
    (\<lambda>y. mm_rep LA LB (snd (snd y)) (hm_grow h hm) \<and> fst y = concat (hm_buckets hm) @ concat (hm_buckets hm))"
proof -
  let ?B = "map_bytes LA LB hm" and ?bss = "hm_buckets hm" and ?n = "length (hm_buckets hm) * 2 + 1"
  let ?P = "\<lambda>y. mm_rep LA LB (snd (snd y)) (hm_grow h hm) \<and> fst y = concat ?bss @ concat ?bss"
  obtain arrs where arrs: "chain_rep LA (mm_buckets m) arrs" "list_all2 (chain_rep LB) arrs ?bss"
    using r by (auto simp: mm_rep_def table_rep_def)
  have len: "array_len (mm_buckets m) = length ?bss" using r table_rep_len by (auto simp: mm_rep_def)
  obtain it where it: "iter_all (into_iter (mm_buckets m)) = Inr (arrs, it)" "it_array it = mm_buckets m"
    using into_iter_all [of LA "mm_buckets m" arrs] arrs(1) by (auto simp: chain_rep_def)
  have drop: "array_drop (mm_buckets m) = Inr arrs" using arrs(1) array_drop_rep by (auto simp: chain_rep_def)
  have fit: "fits LA ?B ?n" "fits LB ?B (length (concat ?bss))" by (rule map_fits; simp)+
  have "costs env ?B (2 * ?n + (2 * length (concat ?bss) + 0)) s (\<lambda>y. fst (snd y)) (mm_grow env LA LB h (s, m)) ?P"
    unfolding mm_grow_def Let_def prod.case len it(1) rbind_simps(2)
  proof (rule costs_bind [OF new_table_costs [OF L(1,3) fit(1), where LB = LB]], clarify, rule costs_bind)
    fix s1 :: "'s os_state_scheme" and a :: "('k, 'v) bucket array array" assume a: "table_rep LA LB a (replicate ?n [])"
    show "costs env ?B (2 * length (concat ?bss)) (fst (s1, a)) (\<lambda>y. fst (snd y)) (for_each (rehash_chain env LB h ?n) arrs ([], s1, a, 0))
        (\<lambda>y. rehashed LA LB h ?n (concat ?bss) (snd (snd y)) \<and> fst y = concat ?bss)"
      using rehash_all_costs [OF L(2,3) arrs(2) a _ fit(2), of s1 h] by simp
    fix y :: "('k, 'v) bucket list \<times> 's os_state_scheme \<times> ('k, 'v) bucket array array \<times> nat" assume "rehashed LA LB h ?n (concat ?bss) (snd (snd y)) \<and> fst y = concat ?bss"
    then show "costs env ?B 0 (fst (snd y)) (\<lambda>y. fst (snd y))
        (case y of (dropped, s2, new1, used) \<Rightarrow> rbind (array_drop (it_array it)) (\<lambda>arrays. rbind (traverse_res array_drop arrays) (\<lambda>ds.
          Inr (dropped @ concat ds, s2, m\<lparr>mm_buckets := new1, mm_containers_used := used\<rparr>)))) ?P"
      using r by (auto simp: it(2) drop chains_dropped [OF arrs(2)] rehashed_def mm_rep_def hm_grow_def Let_def split: prod.splits intro!: costs_Inr simp del: replicate_Suc)
  qed
  then show ?thesis by (simp add: algebra_simps)
qed

section \<open>Inserting\<close>

text \<open>What an insertion does after the table has grown, if it has to.\<close>

definition hm_store :: "('k \<Rightarrow> nat) \<Rightarrow> 'k \<Rightarrow> 'v \<Rightarrow> ('k, 'v) hash_map \<Rightarrow> ('v option \<times> 'k \<times> ('k, 'v) hash_map)" where
  "hm_store h key v m =
     (let i = h key mod length (hm_buckets m); bs = hm_buckets m ! i;
          m1 = (if bs = [] then m\<lparr>hm_containers_used := hm_containers_used m + 1\<rparr> else m);
          m2 = m1\<lparr>hm_len := hm_len m1 + 1\<rparr>
      in case old_index key bs of
           None \<Rightarrow> (None, key, m2\<lparr>hm_buckets := (hm_buckets m)[i := bs @ [\<lparr>b_hash = i, b_key = key, b_value = v\<rparr>]]\<rparr>)
         | Some j \<Rightarrow> (Some (b_value (bs ! j)), b_key (bs ! j),
             m2\<lparr>hm_buckets := (hm_buckets m)[i := bs[j := (bs ! j)\<lparr>b_value := v\<rparr>]]\<rparr>))"

definition mm_put ::
  "os_env \<Rightarrow> layout \<Rightarrow> 'k \<Rightarrow> 'v \<Rightarrow> nat \<Rightarrow> ('k, 'v) bucket array \<Rightarrow> ('k, 'v) bucket list \<Rightarrow> ('k, 'v) bucket list \<Rightarrow>
    's os_state_scheme \<times> ('k, 'v) mem_map \<Rightarrow> ('v option \<times> 'k \<times> ('k, 'v) bucket list \<times> 's os_state_scheme \<times> ('k, 'v) mem_map) res" where
  "mm_put env LB key v i bs refs dropped = (\<lambda>(s2, m).
     let m1 = (if array_len bs = 0 then m\<lparr>mm_containers_used := mm_containers_used m + 1\<rparr> else m);
         m2 = m1\<lparr>mm_len := mm_len m1 + 1\<rparr>
     in case old_index key refs of
          None \<Rightarrow>
            rbind (array_push env LB \<lparr>b_hash = i, b_key = key, b_value = v\<rparr> (s2, bs)) (\<lambda>(s3, bs1).
            rbind (write_raw bs1 i (mm_buckets m)) (\<lambda>t.
            Inr (None, key, dropped, s3, m2\<lparr>mm_buckets := t\<rparr>)))
        | Some j \<Rightarrow>
            rbind (array_index bs j) (\<lambda>b.
            rbind (write_raw (b\<lparr>b_value := v\<rparr>) j bs) (\<lambda>bs1.
            rbind (write_raw bs1 i (mm_buckets m)) (\<lambda>t.
            Inr (Some (b_value b), b_key b, dropped, s2, m2\<lparr>mm_buckets := t\<rparr>)))))"

definition mm_store ::
  "os_env \<Rightarrow> layout \<Rightarrow> ('k \<Rightarrow> nat) \<Rightarrow> 'k \<Rightarrow> 'v \<Rightarrow> ('k, 'v) bucket list \<times> 's os_state_scheme \<times> ('k, 'v) mem_map \<Rightarrow>
    ('v option \<times> 'k \<times> ('k, 'v) bucket list \<times> 's os_state_scheme \<times> ('k, 'v) mem_map) res" where
  "mm_store env LB h key v = (\<lambda>(dropped, s1, m).
     rbind (mm_get_hash h m key) (\<lambda>i.
     rbind (array_index (mm_buckets m) i) (\<lambda>bs.
     rbind (array_iter env (s1, bs)) (\<lambda>(s2, it).
     rbind (iter_all it) (\<lambda>(refs, _). mm_put env LB key v i bs refs dropped (s2, m))))))"

lemma insert_keep_key_store:
  assumes "hm_invar h hm" "needs_grow hm = Inr g"
  shows "insert_keep_key h k v hm = Inr (hm_store h k v (if g then hm_grow h hm else hm))"
proof -
  have "hm_invar h (if g then hm_grow h hm else hm)" using assms(1) hm_grow_ok by auto
  from hm_get_hash_ok [OF this, of k] show ?thesis
    by (auto simp: insert_keep_key_def assms(2) hm_store_def Let_def split: option.splits)
qed

lemma mm_insert_store:
  "mm_insert_keep_key env LA LB h k v x =
    rbind (mm_needs_grow (snd x)) (\<lambda>g. rbind (if g then mm_grow env LA LB h x else Inr ([], x)) (mm_store env LB h k v))"
  by (simp add: mm_insert_keep_key_def mm_store_def mm_put_def)

lemma needs_grow_rep: "mm_rep LA LB m hm \<Longrightarrow> mm_needs_grow m = needs_grow hm"
  by (auto simp: mm_rep_def mm_needs_grow_def needs_grow_def spread_below_half_def dest: table_rep_len)

text \<open>The chain of a key: what it represents, and what storing another chain in its place does.\<close>

lemma chain_of_key:
  assumes r: "mm_rep LA LB m hm" "hm_buckets hm \<noteq> []" and i: "i = h k mod length (hm_buckets hm)"
  obtains bs where "mm_get_hash h m k = Inr i" "array_index (mm_buckets m) i = Inr bs" "chain_rep LB bs (hm_buckets hm ! i)"
    "\<forall>r' ys. chain_rep LB r' ys \<longrightarrow> (\<exists>a'. write_raw r' i (mm_buckets m) = Inr a' \<and> table_rep LA LB a' ((hm_buckets hm)[i := ys]))"
    "length (hm_buckets hm ! i) \<le> length (concat (hm_buckets hm))"
proof -
  have t: "table_rep LA LB (mm_buckets m) (hm_buckets hm)" using r(1) by (simp add: mm_rep_def)
  have l: "i < length (hm_buckets hm)" using r(2) by (simp add: i)
  have "mm_get_hash h m k = Inr i" using table_rep_len [OF t] r(2) by (simp add: mm_get_hash_def i)
  then show ?thesis using table_rep_index [OF t l] length_nth_concat [OF l] that by metis
qed

lemma mm_put_costs:
  fixes s :: "'s os_state_scheme"
  assumes L: "layout_ok LB" "mmap_contract env" and r: "mm_rep LA LB m hm"
    and i: "i = h k mod length (hm_buckets hm)" "xs = hm_buckets hm ! i" and bs: "chain_rep LB bs xs" "fits LB B (length xs)"
    and w: "\<forall>r' ys. chain_rep LB r' ys \<longrightarrow> (\<exists>a'. write_raw r' i (mm_buckets m) = Inr a' \<and> table_rep LA LB a' ((hm_buckets hm)[i := ys]))"
  shows "costs env B 2 s (\<lambda>(_, _, _, s, _). s) (mm_put env LB k v i bs xs dropped (s, m))
    (\<lambda>(old, k', d, s', m'). d = dropped \<and> (\<exists>hm'. hm_store h k v hm = (old, k', hm') \<and> mm_rep LA LB m' hm'))"
    (is "costs env B 2 s ?os _ ?P")
proof -
  have t: "mm_containers_used m = hm_containers_used hm" "mm_len m = hm_len hm" using r by (simp_all add: mm_rep_def)
  have rep: "array_rep LB bs xs" "\<not> ar_no_dealloc bs" "array_len bs = length xs" using bs(1) by (auto simp: chain_rep_def array_len_def dest: array_rep_len)
  let ?m2 = "(if array_len bs = 0 then m\<lparr>mm_containers_used := mm_containers_used m + 1\<rparr> else m)\<lparr>mm_len := mm_len m + 1\<rparr>"
  show ?thesis
  proof (cases "old_index k xs")
    case None
    let ?b = "\<lparr>b_hash = i, b_key = k, b_value = v\<rparr>"
    have "costs env B (2 + 0) s ?os (rbind (array_push env LB ?b (s, bs)) (\<lambda>(s3, bs1).
          rbind (write_raw bs1 i (mm_buckets m)) (\<lambda>t. Inr (None, k, dropped, s3, ?m2\<lparr>mm_buckets := t\<rparr>)))) ?P"
    proof (rule costs_bind [OF array_push_costs [OF L rep(1) bs(2)]], clarify)
      fix s3 bs1 assume "array_rep LB bs1 (xs @ [?b])" "ar_no_dealloc bs1 = ar_no_dealloc bs"
      then have "chain_rep LB bs1 (xs @ [?b])" using rep(2) by (simp add: chain_rep_def)
      then obtain a' where "write_raw bs1 i (mm_buckets m) = Inr a'" "table_rep LA LB a' ((hm_buckets hm)[i := xs @ [?b]])" using w by blast
      then show "costs env B 0 (fst (s3, bs1)) ?os (rbind (write_raw bs1 i (mm_buckets m)) (\<lambda>t. Inr (None, k, dropped, s3, ?m2\<lparr>mm_buckets := t\<rparr>))) ?P"
        using None t rep(3) by (auto simp: hm_store_def mm_rep_def Let_def simp flip: i intro!: costs_Inr)
    qed
    then show ?thesis by (simp add: mm_put_def None if_distrib [where f = mm_len] cong: if_cong)
  next
    case (Some j)
    let ?b = "(xs ! j)\<lparr>b_value := v\<rparr>"
    have j: "j < length xs" using old_index_Some [OF Some] by simp
    obtain bs1 where bs1: "write_raw ?b j bs = Inr bs1" "array_rep LB bs1 (xs[j := ?b])" using write_raw_rep [OF rep(1) j] by blast
    have "ar_no_dealloc bs1 = ar_no_dealloc bs" using bs1(1) by (auto simp: write_raw_def rbind_eq_Inr)
    then have "chain_rep LB bs1 (xs[j := ?b])" using bs1(2) rep(2) by (simp add: chain_rep_def)
    then obtain a' where "write_raw bs1 i (mm_buckets m) = Inr a'" "table_rep LA LB a' ((hm_buckets hm)[i := xs[j := ?b]])" using w by blast
    then show ?thesis
      using Some t rep(3) array_index_rep [OF rep(1) j] bs1(1)
      by (auto simp: mm_put_def hm_store_def mm_rep_def Let_def simp flip: i intro!: costs_Inr)
  qed
qed

lemma mm_store_costs:
  fixes s :: "'s os_state_scheme"
  assumes L: "layout_ok LB" "mmap_contract env" and r: "mm_rep LA LB m hm" "hm_buckets hm \<noteq> []"
    and f: "fits LB B (length (concat (hm_buckets hm)))" "fits ref_layout B (length (concat (hm_buckets hm)))"
  shows "costs env B (2 * length (concat (hm_buckets hm)) + 2) s (\<lambda>(_, _, _, s, _). s) (mm_store env LB h k v (dropped, s, m))
    (\<lambda>(old, k', d, s', m'). d = dropped \<and> (\<exists>hm'. hm_store h k v hm = (old, k', hm') \<and> mm_rep LA LB m' hm'))"
    (is "costs env B _ s ?os _ ?P")
proof -
  let ?i = "h k mod length (hm_buckets hm)"
  let ?xs = "hm_buckets hm ! ?i"
  obtain bs where bs: "mm_get_hash h m k = Inr ?i" "array_index (mm_buckets m) ?i = Inr bs" "chain_rep LB bs ?xs"
    "\<forall>r' ys. chain_rep LB r' ys \<longrightarrow> (\<exists>a'. write_raw r' ?i (mm_buckets m) = Inr a' \<and> table_rep LA LB a' ((hm_buckets hm)[?i := ys]))"
    "length ?xs \<le> length (concat (hm_buckets hm))"
    using chain_of_key [OF r refl, of h k] by metis
  have fx: "fits LB B (length ?xs)" "fits ref_layout B (length ?xs)" using fits_mono f bs(5) by blast+
  have "array_rep LB bs ?xs" using bs(3) by (simp add: chain_rep_def)
  note it = array_iter_costs [OF L(2) this fx(2)]
  have "costs env B (2 * length ?xs + 2) s ?os
      (rbind (array_iter env (s, bs)) (\<lambda>(s2, it). rbind (iter_all it) (\<lambda>(refs, _). mm_put env LB k v ?i bs refs dropped (s2, m)))) ?P"
  proof (rule costs_bind [OF it], clarify)
    fix s2 it it' assume "iter_all it = Inr (?xs, it')"
    then show "costs env B 2 (fst (s2, it)) ?os (rbind (iter_all it) (\<lambda>(refs, _). mm_put env LB k v ?i bs refs dropped (s2, m))) ?P"
      using mm_put_costs [where h = h and k = k, OF L r(1) refl refl bs(3) fx(1) bs(4), of s2 v dropped] by simp
  qed
  then have "costs env B (2 * length ?xs + 2) s ?os (mm_store env LB h k v (dropped, s, m)) ?P" by (simp add: mm_store_def bs(1,2))
  then show ?thesis by (rule costs_more) (use bs(5) in simp)
qed

lemma hm_grow_size:
  "hm_buckets (hm_grow h hm) \<noteq> []" "length (concat (hm_buckets (hm_grow h hm))) = length (concat (hm_buckets hm))"
proof -
  obtain bss u where f: "fold (rehash_step h (length (hm_buckets hm) * 2 + 1)) (concat (hm_buckets hm)) (replicate (length (hm_buckets hm) * 2 + 1) [], 0) = (bss, u)"
    by fastforce
  then have "hm_buckets (hm_grow h hm) = bss" by (simp add: hm_grow_def Let_def)
  then show "hm_buckets (hm_grow h hm) \<noteq> []" "length (concat (hm_buckets (hm_grow h hm))) = length (concat (hm_buckets hm))"
    using rehash_fold_length [OF f] by auto
qed

lemma mm_insert_costs:
  fixes s :: "'s os_state_scheme" and hm :: "('k, 'v) hash_map"
  assumes L: "layout_ok LA" "layout_ok LB" "mmap_contract env" and r: "mm_rep LA LB m hm" "hm_invar h hm" and g: "needs_grow hm = Inr g"
  shows "costs env (map_bytes LA LB hm) (map_requests hm) s (\<lambda>(_, _, _, s, _). s) (mm_insert_keep_key env LA LB h k v (s, m))
    (\<lambda>(old, k', d, s', m'). d = (if g then concat (hm_buckets hm) @ concat (hm_buckets hm) else []) \<and>
      (\<exists>hm'. insert_keep_key h k v hm = Inr (old, k', hm') \<and> mm_rep LA LB m' hm'))"
    (is "costs env ?B _ s ?os _ ?P")
proof -
  let ?T = "length (concat (hm_buckets hm))"
  define hm1 where "hm1 = (if g then hm_grow h hm else hm)"
  define d where "d = (if g then concat (hm_buckets hm) @ concat (hm_buckets hm) else [])"
  have hm: "hm_buckets hm1 \<noteq> []" "length (concat (hm_buckets hm1)) = ?T" using hm_grow_size [of h hm] r(2) by (auto simp: hm_invar_def hm1_def)
  have fit: "fits LB ?B ?T" "fits ref_layout ?B ?T" by (rule map_fits; simp)+
  have grow: "costs env ?B (2 * (2 * length (hm_buckets hm) + 1) + 2 * ?T) s (\<lambda>y. fst (snd y))
      (if g then mm_grow env LA LB h (s, m) else Inr ([], s, m)) (\<lambda>y. mm_rep LA LB (snd (snd y)) hm1 \<and> fst y = d)"
    using mm_grow_costs [OF L r(1), of s h] r(1) by (cases g) (simp_all add: costs_Inr hm1_def d_def)
  have ins: "insert_keep_key h k v hm = Inr (hm_store h k v hm1)" unfolding hm1_def by (rule insert_keep_key_store [OF r(2) g])
  have "costs env ?B (2 * (2 * length (hm_buckets hm) + 1) + 2 * ?T + (2 * ?T + 2)) s ?os (mm_insert_keep_key env LA LB h k v (s, m)) ?P"
    unfolding mm_insert_store snd_conv needs_grow_rep [OF r(1)] g rbind_simps(2)
  proof (rule costs_bind [OF grow])
    fix y :: "('k, 'v) bucket list \<times> 's os_state_scheme \<times> ('k, 'v) mem_map" assume y: "mm_rep LA LB (snd (snd y)) hm1 \<and> fst y = d"
    obtain d1 s1 m1 where y1: "y = (d1, s1, m1)" by (cases y)
    have "costs env ?B (2 * ?T + 2) s1 ?os (mm_store env LB h k v (d, s1, m1))
      (\<lambda>(old, k', d', s', m'). d' = d \<and> (\<exists>hm'. hm_store h k v hm1 = (old, k', hm') \<and> mm_rep LA LB m' hm'))"
      unfolding hm(2) [symmetric] by (rule mm_store_costs [OF L(2,3) _ hm(1)]) (use y y1 fit hm(2) in simp_all)
    then show "costs env ?B (2 * ?T + 2) (fst (snd y)) ?os (mm_store env LB h k v y) ?P"
      using y by (simp add: y1 ins flip: d_def)
  qed
  then show ?thesis by (rule costs_more) (simp add: map_requests_def)
qed

lemma mm_get_costs:
  fixes s :: "'s os_state_scheme"
  assumes L: "mmap_contract env" and r: "mm_rep LA LB m hm" "hm_invar h hm"
  shows "costs env (map_bytes LA LB hm) (map_requests hm) s snd (mm_get env h k (s, m)) (\<lambda>(r, s'). r = hm_lookup h hm k)"
    (is "costs env ?B _ s _ _ ?P")
proof -
  let ?i = "h k mod length (hm_buckets hm)"
  let ?xs = "hm_buckets hm ! ?i"
  have "hm_buckets hm \<noteq> []" using r(2) by (simp add: hm_invar_def)
  from chain_of_key [OF r(1) this refl, of h k]
  obtain bs where bs: "mm_get_hash h m k = Inr ?i" "array_index (mm_buckets m) ?i = Inr bs" "chain_rep LB bs ?xs"
    "length ?xs \<le> length (concat (hm_buckets hm))" by metis
  have "array_rep LB bs ?xs" using bs(3) by (simp add: chain_rep_def)
  moreover have "fits ref_layout ?B (length ?xs)" by (rule map_fits(3)) (use bs(4) in simp)
  ultimately have it: "costs env ?B (2 * length ?xs) s fst (array_iter env (s, bs)) (\<lambda>(s', it). \<exists>it'. iter_all it = Inr (?xs, it'))"
    by (rule array_iter_costs [OF L])
  have "costs env ?B (2 * length ?xs + 0) s snd (rbind (array_iter env (s, bs)) (\<lambda>(s1, it). rbind (iter_all it) (\<lambda>(refs, _).
      Inr (map_option b_value (find (\<lambda>b. b_key b = k) refs), s1)))) ?P"
  proof (rule costs_bind [OF it], clarify)
    fix s1 it it' assume "iter_all it = Inr (?xs, it')"
    then show "costs env ?B 0 (fst (s1, it)) snd (rbind (iter_all it) (\<lambda>(refs, _). Inr (map_option b_value (find (\<lambda>b. b_key b = k) refs), s1))) ?P"
      by (auto simp: find_bucket_map hm_lookup_def intro!: costs_Inr)
  qed
  then have "costs env ?B (2 * length ?xs) s snd (mm_get env h k (s, m)) ?P" by (simp add: mm_get_def bs(1,2))
  then show ?thesis by (rule costs_more) (use bs(4) in \<open>simp add: map_requests_def\<close>)
qed

text \<open>C32. The hash map on its arrays is a map: an insertion that returns gives the value that the key had, afterwards the
  map holds the new value for that key and for every other key what it held before, whether or not the table had to
  grow; a lookup that returns gives the value of the key. Either panics only when the kernel does not grant the requests for
  the arrays, whose number and size have a bound. An insertion that grows the table drops every bucket
  twice although all of them stay in the map; otherwise it drops none.\<close>

theorem map_on_arrays:
  assumes "layout_ok LA" "layout_ok LB" "mmap_contract env" "mm_rep LA LB m hm" "hm_invar h hm"
  shows "(case mm_insert env LA LB h k v (s, m) of
      Inl e \<Rightarrow> \<not> grants env (map_bytes LA LB hm) (map_requests hm) s
    | Inr (old, dropped, s', m') \<Rightarrow> old = hm_lookup h hm k \<and>
        (\<exists>hm'. mm_rep LA LB m' hm' \<and> hm_invar h hm' \<and> hm_lookup h hm' = (hm_lookup h hm)(k \<mapsto> v)) \<and>
        dropped = (if needs_grow hm = Inr True then concat (hm_buckets hm) @ concat (hm_buckets hm) else [])) \<and>
    (case mm_get env h k (s, m) of
      Inl e \<Rightarrow> \<not> grants env (map_bytes LA LB hm) (map_requests hm) s
    | Inr (r, s') \<Rightarrow> r = hm_lookup h hm k)"
proof
  obtain g where g: "needs_grow hm = Inr g" using needs_grow_ok [OF assms(5)] by blast
  obtain hm' where ins: "insert_keep_key h k v hm = Inr (hm_lookup h hm k, k, hm')" "hm_invar h hm'" "hm_lookup h hm' = (hm_lookup h hm)(k \<mapsto> v)"
    using insert_keep_key_ok [OF assms(5), of k v] by blast
  show "case mm_insert env LA LB h k v (s, m) of
      Inl e \<Rightarrow> \<not> grants env (map_bytes LA LB hm) (map_requests hm) s
    | Inr (old, dropped, s', m') \<Rightarrow> old = hm_lookup h hm k \<and>
        (\<exists>hm'. mm_rep LA LB m' hm' \<and> hm_invar h hm' \<and> hm_lookup h hm' = (hm_lookup h hm)(k \<mapsto> v)) \<and>
        dropped = (if needs_grow hm = Inr True then concat (hm_buckets hm) @ concat (hm_buckets hm) else [])"
    using mm_insert_costs [OF assms g, of s k v] ins by (auto simp: mm_insert_def costs_def g split: sum.splits)
  show "case mm_get env h k (s, m) of
      Inl e \<Rightarrow> \<not> grants env (map_bytes LA LB hm) (map_requests hm) s
    | Inr (r, s') \<Rightarrow> r = hm_lookup h hm k"
    using mm_get_costs [OF assms(3-5), of s k] by (auto simp: costs_def split: sum.splits)
qed

text \<open>A table of three empty chains on the concrete kernel: the chain of the key 7 gets its first memory.\<close>

definition three_chains :: "(nat, bool) mem_map" where
  "three_chains = \<lparr>mm_buckets = \<lparr>ar_size = 3, ar_no_dealloc = False,
       ar_raw = \<lparr>raw_segment = Some \<lparr>seg_ptr = 4096, seg_length = 120\<rparr>, raw_no_dealloc = False,
         slots = (\<lambda>_. Some array_new), extent = 3\<rparr>\<rparr>,
     mm_containers_used = 0, mm_len = 0\<rparr>"

definition chain_layout :: layout where "chain_layout = \<lparr>t_size = 40, t_align = 8\<rparr>"
definition bucket_layout :: layout where "bucket_layout = \<lparr>t_size = 24, t_align = 8\<rparr>"

lemma three_chains_rep: "mm_rep chain_layout bucket_layout three_chains (hm_with_capacity 3)"
proof -
  have "array_rep chain_layout (mm_buckets three_chains) (replicate 3 array_new)"
    by (simp add: array_rep_def three_chains_def raw_ok_def raw_capacity_def chain_layout_def less_Suc_eq numeral_3_eq_3)
  moreover have "list_all2 (chain_rep bucket_layout) (replicate 3 (array_new :: (nat, bool) bucket array)) (replicate 3 [])"
    by (simp add: list_all2_conv_all_nth chain_rep_def) (simp add: array_new_def)
  moreover have "\<not> ar_no_dealloc (mm_buckets three_chains)" by (simp add: three_chains_def)
  ultimately show ?thesis
    by (auto simp: mm_rep_def table_rep_def chain_rep_def hm_with_capacity_def) (simp_all add: three_chains_def)
qed

lemma layouts_ok: "layout_ok chain_layout" "layout_ok bucket_layout"
  unfolding layout_ok_def chain_layout_def bucket_layout_def by (auto intro: exI [of _ 3])

lemma three_chains_insert: "\<exists>y. mm_insert bump_env chain_layout bucket_layout (\<lambda>k. k) 7 True (no_maps, three_chains) = Inr y"
proof -
  have i: "array_index (mm_buckets three_chains) 1 = Inr array_new"
    by (simp add: three_chains_def array_index_def array_get_def raw_index_def)
  have it: "array_iter bump_env (no_maps, array_new :: (nat, bool) bucket array) = Inr (no_maps, into_iter array_new)"
    by (simp add: array_iter_def array_new_def)
  obtain it' where all: "iter_all (into_iter (array_new :: (nat, bool) bucket array)) = Inr ([], it')"
    using into_iter_all [OF array_new_rep] by blast
  have "\<exists>s a. array_push bump_env bucket_layout b (no_maps, array_new) = Inr (s, a)" for b :: "(nat, bool) bucket"
    by (simp add: array_push_def array_new_def raw_new_def raw_capacity_def raw_reserve_def seg_allocate_def map_segment_def no_maps_def
        bump_env_def bump_mmap_def raw_bytes_def bucket_layout_def align_val_def map_span_def round_up_def raw_write_def Let_def PAGE_value MAP_FAILED_def)
  then obtain s a where p: "array_push bump_env bucket_layout \<lparr>b_hash = 1, b_key = 7 :: nat, b_value = True\<rparr> (no_maps, array_new) = Inr (s, a)" by blast
  have "\<exists>t. write_raw a 1 (mm_buckets three_chains) = Inr t" by (simp add: write_raw_def raw_write_def three_chains_def)
  then obtain t where t: "write_raw a 1 (mm_buckets three_chains) = Inr t" by blast
  have "mm_len three_chains = 0" "ar_size (mm_buckets three_chains) = 3" "ar_size (array_new :: (nat, bool) bucket array) = 0"
    by (simp_all add: three_chains_def array_new_def)
  then show ?thesis
    using i it all p t by (simp add: mm_insert_def mm_insert_keep_key_def mm_needs_grow_def mm_get_hash_def array_len_def Let_def checked_sub_def)
qed

theorem map_on_arrays_witness:
  "\<exists>s' m' hm'. mm_insert bump_env chain_layout bucket_layout (\<lambda>k. k) 7 True (no_maps, three_chains) = Inr (None, [], s', m') \<and>
    mm_rep chain_layout bucket_layout m' hm' \<and> hm_lookup (\<lambda>k. k) hm' 7 = Some True"
proof -
  let ?hm = "hm_with_capacity 3 :: (nat, bool) hash_map"
  have "needs_grow ?hm = Inr False" by (simp add: needs_grow_def hm_with_capacity_def checked_sub_def)
  moreover have "hm_invar (\<lambda>k. k) ?hm" "hm_lookup (\<lambda>k. k) ?hm = Map.empty" by (simp_all add: hm_with_capacity_invar hm_with_capacity_lookup)
  ultimately show ?thesis
    using map_on_arrays [OF layouts_ok bump_env_contract three_chains_rep, where h = "\<lambda>k. k" and k = 7 and v = True and s = no_maps] three_chains_insert by auto (metis fun_upd_same)
qed

end
