(* ===== verification/Hash_Set.thy ===== *)
theory Hash_Set
  imports Hash_Map
begin

text \<open>
  \<^verbatim>\<open>HashSet\<close> of \<^verbatim>\<open>src/independent_collections/hash_map.rs\<close>: a \<^verbatim>\<open>HashMap\<close> with unit values. The set
  contract is proved from the map contract, and one theorem follows sequences of insertions.
\<close>

section \<open>Operations\<close>

datatype 'k hash_set = HashSet (hs_map: "('k, unit) hash_map")

definition hs_new :: "'k hash_set" where
  "hs_new = HashSet hm_new"

definition hs_with_capacity :: "nat \<Rightarrow> 'k hash_set" where
  "hs_with_capacity capacity = HashSet (hm_with_capacity capacity)"

definition hs_insert :: "('k \<Rightarrow> nat) \<Rightarrow> 'k \<Rightarrow> 'k hash_set \<Rightarrow> 'k hash_set res" where
  "hs_insert h v s = rbind (hm_insert h v () (hs_map s)) (\<lambda>(_, m). Inr (HashSet m))"

definition hs_remove :: "('k \<Rightarrow> nat) \<Rightarrow> 'k \<Rightarrow> 'k hash_set \<Rightarrow> 'k hash_set res" where
  "hs_remove h v s = rbind (hm_remove h v (hs_map s)) (\<lambda>(_, m). Inr (HashSet m))"

definition hs_contains :: "('k \<Rightarrow> nat) \<Rightarrow> 'k \<Rightarrow> 'k hash_set \<Rightarrow> bool res" where
  "hs_contains h v s = hm_contains h (hs_map s) v"

section \<open>The set contract\<close>

locale set_ops =
  fixes elems :: "'s \<Rightarrow> 'k set"
    and has :: "'k \<Rightarrow> 's \<Rightarrow> bool res"
    and add :: "'k \<Rightarrow> 's \<Rightarrow> 's res"
    and del :: "'k \<Rightarrow> 's \<Rightarrow> 's res"
    and invar :: "'s \<Rightarrow> bool"
  assumes has_elems: "invar s \<Longrightarrow> has k s = Inr (k \<in> elems s)"
    and add_ok: "invar s \<Longrightarrow> \<exists>s'. add k s = Inr s' \<and> invar s' \<and> elems s' = insert k (elems s)"
    and del_ok: "invar s \<Longrightarrow> k \<in> elems s \<Longrightarrow> \<exists>s'. del k s = Inr s' \<and> invar s' \<and> elems s' = elems s - {k}"
begin

lemma add_all:
  assumes "invar s"
  shows "\<exists>s'. for_each add ks s = Inr s' \<and> invar s' \<and> elems s' = set ks \<union> elems s"
  using assms
proof (induction ks arbitrary: s)
  case (Cons k ks)
  obtain s1 where s1: "add k s = Inr s1" "invar s1" "elems s1 = insert k (elems s)"
    using add_ok [OF Cons.prems] by blast
  show ?case using Cons.IH [OF s1(2)] s1 by auto
qed auto

text \<open>Elements are added in any order and any number of times; one removal is enough to lose one.\<close>

lemma add_all_del:
  assumes "invar s" "k \<in> set ks"
  shows "\<exists>s1 s2. for_each add ks s = Inr s1 \<and> del k s1 = Inr s2 \<and> invar s2 \<and>
    (\<forall>x. has x s1 = Inr (x \<in> set ks \<union> elems s)) \<and> (\<forall>x. has x s2 = Inr (x \<noteq> k \<and> x \<in> set ks \<union> elems s))"
proof -
  obtain s1 where s1: "for_each add ks s = Inr s1" "invar s1" "elems s1 = set ks \<union> elems s"
    using add_all [OF assms(1)] by blast
  obtain s2 where "del k s1 = Inr s2" "invar s2" "elems s2 = elems s1 - {k}"
    using del_ok [OF s1(2)] s1(3) assms(2) by blast
  then show ?thesis using s1 by (auto simp: has_elems)
qed

end

definition hs_elems :: "('k \<Rightarrow> nat) \<Rightarrow> 'k hash_set \<Rightarrow> 'k set" where
  "hs_elems h s = dom (hm_lookup h (hs_map s))"

definition hs_invar :: "('k \<Rightarrow> nat) \<Rightarrow> 'k hash_set \<Rightarrow> bool" where
  "hs_invar h s \<longleftrightarrow> hm_invar h (hs_map s)"

interpretation hs: set_ops "hs_elems h" "hs_contains h" "hs_insert h" "hs_remove h" "hs_invar h" for h
proof (unfold_locales, goal_cases)
  case (1 s k)
  then show ?case
    by (simp add: hs_invar_def hs_contains_def hs_elems_def hm_contains_lookup domIff)
next
  case (2 s k)
  then show ?case
    using hm.ins_ok [of h "hs_map s" k "()"] by (fastforce simp: hs_invar_def hs_insert_def hs_elems_def)
next
  case (3 s k)
  then show ?case
    using hm.del_ok [of h "hs_map s" k "()"] by (fastforce simp: hs_invar_def hs_remove_def hs_elems_def)
qed

lemma hs_with_capacity_ok [simp]:
  "0 < n \<Longrightarrow> hs_invar h (hs_with_capacity n)" "0 < n \<Longrightarrow> hs_elems h (hs_with_capacity n) = {}"
  by (simp_all add: hs_invar_def hs_elems_def hs_with_capacity_def hm_with_capacity_invar hm_with_capacity_lookup)

text \<open>A \<^verbatim>\<open>HashSet\<close> is a finite set for every hash function: any sequence of insertions returns,
  and exactly the inserted values and those of before are then members, however often each was
  inserted; one removal takes the value out and no other.\<close>

lemma hash_set_members:
  assumes "hs_invar h s" "k \<in> set ks"
  shows "\<exists>s1 s2. for_each (hs_insert h) ks s = Inr s1 \<and> hs_remove h k s1 = Inr s2 \<and> hs_invar h s2 \<and>
    (\<forall>x. hs_contains h x s1 = Inr (x \<in> set ks \<union> hs_elems h s)) \<and>
    (\<forall>x. hs_contains h x s2 = Inr (x \<noteq> k \<and> x \<in> set ks \<union> hs_elems h s))"
  by (rule hs.add_all_del [OF assms])

lemma hash_set_members_example:
  "\<exists>s1 s2. for_each (hs_insert (\<lambda>k. 0)) [3 :: nat, 5, 3] (hs_with_capacity 2) = Inr s1 \<and>
    hs_remove (\<lambda>k. 0) 3 s1 = Inr s2 \<and> hs_contains (\<lambda>k. 0) 3 s1 = Inr True \<and> hs_contains (\<lambda>k. 0) 3 s2 = Inr False \<and>
    hs_contains (\<lambda>k. 0) 5 s2 = Inr True"
  using hash_set_members [of "\<lambda>k. 0" "hs_with_capacity 2" "3 :: nat" "[3, 5, 3]"] by fastforce

end
