(* ===== verification/Windows.thy ===== *)
theory Windows
  imports Page_Map
begin

text \<open>
  The Windows implementations: \<^verbatim>\<open>SegAllocator\<close> over the process heap and \<^verbatim>\<open>VirtualAlloc\<close>
  (\<^verbatim>\<open>src/pages/external_mem_reservation.rs\<close>), and the accesses to the page map that commit the page of an
  entry first (\<^verbatim>\<open>src/page_map.rs\<close>). The system calls are parameters: \<open>win_env\<close> gives the result of the \<open>n\<close>-th
  call. \<open>win_contract\<close> is what their documentation says of \<^verbatim>\<open>VirtualQuery\<close> (the state of the page it is asked
  about) and \<^verbatim>\<open>VirtualFree\<close> (with \<^verbatim>\<open>MEM_RELEASE\<close> the size has to be zero).
\<close>

section \<open>The system interface\<close>

record win_env =
  GetProcessHeap :: "nat \<Rightarrow> usize"
  HeapAlloc :: "nat \<Rightarrow> usize \<Rightarrow> usize \<Rightarrow> usize"
  HeapFree :: "nat \<Rightarrow> usize \<Rightarrow> usize \<Rightarrow> int"
  VirtualReserve :: "nat \<Rightarrow> usize \<Rightarrow> usize"
  VirtualCommit :: "nat \<Rightarrow> usize \<Rightarrow> usize \<Rightarrow> usize"
  VirtualFree :: "nat \<Rightarrow> usize \<Rightarrow> usize \<Rightarrow> int"
  VirtualQuery :: "nat \<Rightarrow> nat set \<Rightarrow> usize \<Rightarrow> nat \<times> u32"

text \<open>The state of the Unix page map, the lock of \<^verbatim>\<open>external_mem_reservation.rs\<close> and the committed pages, by number.\<close>

record win_state = map_state +
  win_lock :: bool
  committed :: "nat set"

definition MEM_COMMIT :: u32 where "MEM_COMMIT = 0x1000"

definition win_contract :: "win_env \<Rightarrow> bool" where
  "win_contract env \<longleftrightarrow>
     (\<forall>n c p. let (k, st) = VirtualQuery env n c p in k \<noteq> 0 \<longrightarrow> (st OR MEM_COMMIT = st \<longleftrightarrow> unat p div PAGE \<in> c)) \<and>
     (\<forall>n p len. len \<noteq> 0 \<longrightarrow> VirtualFree env n p len = 0)"

section \<open>Segments\<close>

record win_segment = segment +
  seg_heap :: usize

datatype win_error = NoHeap | HeapNotCreated usize | WinAllocationFailed usize

definition win_call :: "'s win_state_scheme \<Rightarrow> 's win_state_scheme" where
  "win_call s = s\<lparr>os_calls := Suc (os_calls s)\<rparr>"

text \<open>\<^verbatim>\<open>HeapAlloc\<close> is asked for zeroed memory of exactly the requested size.\<close>

definition zero_bytes :: "usize \<Rightarrow> usize \<Rightarrow> memory \<Rightarrow> memory" where
  "zero_bytes p len m = (\<lambda>a. if a - p < len then 0 else m a)"

text \<open>The loop that takes the lock; it does not end when the lock is held.\<close>

partial_function (option) win_grab :: "'s win_state_scheme \<Rightarrow> 's win_state_scheme option" where
  "win_grab s = (if win_lock s then win_grab s else Some (s\<lparr>win_lock := True\<rparr>))"

definition win_release :: "'s win_state_scheme \<Rightarrow> 's win_state_scheme" where
  "win_release s = s\<lparr>win_lock := False\<rparr>"

definition win_allocate :: "win_env \<Rightarrow> usize \<Rightarrow> 's win_state_scheme \<Rightarrow> ((win_error + win_segment) \<times> 's win_state_scheme) option" where
  "win_allocate env sz s =
     (case win_grab s of
        None \<Rightarrow> None
      | Some s1 \<Rightarrow>
          let hp = GetProcessHeap env (os_calls s1);
              s2 = win_call s1
          in if hp = 0 then Some (Inl NoHeap, s2)
             else let p = HeapAlloc env (os_calls s2) hp sz;
                      s3 = win_release (win_call s2)
                  in if p = 0 then Some (Inl (WinAllocationFailed sz), s3)
                     else Some (Inr \<lparr>seg_ptr = p, seg_length = sz, seg_heap = hp\<rparr>,
                       s3\<lparr>mem := zero_bytes p sz (mem s3), os_maps := (p, sz) # os_maps s3\<rparr>))"

definition win_allocate_massive :: "win_env \<Rightarrow> usize \<Rightarrow> 's win_state_scheme \<Rightarrow> (win_error + win_segment) \<times> 's win_state_scheme" where
  "win_allocate_massive env sz s =
     (let p = VirtualReserve env (os_calls s) sz;
          s1 = win_call s
      in if p = 0 then (Inl (WinAllocationFailed sz), s1)
         else (Inr \<lparr>seg_ptr = p, seg_length = sz, seg_heap = p\<rparr>, s1\<lparr>os_maps := (p, sz) # os_maps s1\<rparr>))"

definition win_deallocate :: "win_env \<Rightarrow> win_segment \<Rightarrow> 's win_state_scheme \<Rightarrow> bool \<times> 's win_state_scheme" where
  "win_deallocate env seg s =
     (let hp = seg_heap seg;
          ph = GetProcessHeap env (os_calls s);
          s1 = win_call s;
          r = (if hp \<noteq> ph then VirtualFree env (os_calls s1) hp (seg_length seg) else HeapFree env (os_calls s1) hp (seg_ptr seg));
          s2 = win_call s1
      in if r \<noteq> 0 then (True, s2\<lparr>os_maps := removeAll (seg_ptr seg, seg_length seg) (os_maps s2)\<rparr>) else (False, s2))"

section \<open>The page map\<close>

text \<open>What \<^verbatim>\<open>commit_page\<close> and \<^verbatim>\<open>commit_page_of_ptr\<close> share: ask for the state of a page and commit it unless it is.\<close>

definition ensure_committed :: "win_env \<Rightarrow> usize \<Rightarrow> 's win_state_scheme \<Rightarrow> (usize \<times> 's win_state_scheme) res" where
  "ensure_committed env page s =
     (let (k, st) = VirtualQuery env (os_calls s) (committed s) page;
          s1 = win_call s
      in if k = 0 then Inl (Panic ''Failed to query the virtual address'')
         else if st OR MEM_COMMIT = st then Inr (page, s1)
         else let a = VirtualCommit env (os_calls s1) page (of_nat PAGE);
                  s2 = win_call s1
              in if a = 0 then Inl (Panic ''Couldn't commit page'')
                 else Inr (a, s2\<lparr>committed := insert (unat page div PAGE) (committed s2)\<rparr>))"

definition get_page :: "usize \<Rightarrow> nat \<Rightarrow> usize" where
  "get_page start key = start + of_nat (key * PAGE)"

definition commit_page :: "win_env \<Rightarrow> usize \<Rightarrow> nat \<Rightarrow> 's win_state_scheme \<Rightarrow> (usize \<times> 's win_state_scheme) res" where
  "commit_page env start key s = ensure_committed env (get_page start key) s"

definition commit_page_of_ptr :: "win_env \<Rightarrow> usize \<Rightarrow> 's win_state_scheme \<Rightarrow> (usize \<times> 's win_state_scheme) res" where
  "commit_page_of_ptr env ptr s = ensure_committed env (push_bit PM_KEY_SHIFT (addr_to_key ptr)) s"

text \<open>The address of an entry. The slice starts at \<^verbatim>\<open>mem_location\<close>; before \<^verbatim>\<open>init\<close> it is empty.\<close>

definition entry_addr :: "usize \<Rightarrow> 's map_state_scheme \<Rightarrow> usize" where
  "entry_addr key s = (case pm_location s of Some a \<Rightarrow> a | None \<Rightarrow> 0) + key * 8"

text \<open>An access to a page that is not committed is an access violation.\<close>

definition win_get_page_info :: "win_env \<Rightarrow> usize \<Rightarrow> 's win_state_scheme \<Rightarrow> (page_info \<times> 's win_state_scheme) res" where
  "win_get_page_info env ptr s =
     (let key = addr_to_key ptr
      in if unat key < pm_len s
         then rbind (commit_page_of_ptr env (entry_addr key s) s) (\<lambda>(_, s1).
           if unat (entry_addr key s1) div PAGE \<in> committed s1 then Inr (page_map s1 key, s1) else Inl undefined_access)
         else Inl OutOfBounds)"

definition win_set_page_info :: "win_env \<Rightarrow> usize \<Rightarrow> page_info \<Rightarrow> 's win_state_scheme \<Rightarrow> 's win_state_scheme res" where
  "win_set_page_info env ptr info s =
     (let key = addr_to_key ptr
      in if unat key < pm_len s
         then rbind (commit_page_of_ptr env (entry_addr key s) s) (\<lambda>(_, s1).
           if unat (entry_addr key s1) div PAGE \<in> committed s1 then Inr (s1\<lparr>page_map := (page_map s1)(key := info)\<rparr>) else Inl undefined_access)
         else Inl OutOfBounds)"

section \<open>Taking the lock\<close>

lemma win_grab_free: "\<not> win_lock s \<Longrightarrow> win_grab s = Some (s\<lparr>win_lock := True\<rparr>)"
  by (simp add: win_grab.simps)

lemma win_grab_held:
  assumes "win_lock s" shows "win_grab s = None"
proof -
  have "\<not> win_lock s" if "win_grab s = Some s'" for s' :: "'a win_state_scheme"
    using that by (rule win_grab.raw_induct [where P = "\<lambda>s s'. \<not> win_lock s", rotated]) (auto split: if_splits)
  then show ?thesis using assms by (cases "win_grab s") auto
qed

section \<open>Reading and writing entries\<close>

text \<open>The map lies below the 50-bit limit of its keys.\<close>

definition win_ready :: "'s win_state_scheme \<Rightarrow> bool" where
  "win_ready s \<longleftrightarrow> pm_ready s \<and> (\<exists>a. pm_location s = Some a \<and> PAGE \<le> unat a \<and> unat a + 2 ^ 41 \<le> 2 ^ 50)"

lemma entry_addr_bound:
  assumes "win_ready s" "unat key < 2 ^ 38" shows "unat (entry_addr key s) < 2 ^ 50" "PAGE \<le> unat (entry_addr key s)"
proof -
  obtain a where a: "pm_location s = Some a" "PAGE \<le> unat a" "unat a + 2 ^ 41 \<le> 2 ^ 50" using assms(1) by (auto simp: win_ready_def)
  have "unat (key * 8) = unat key * 8" using assms(2) unat_mult_lem [of key 8] by simp
  then have "unat (a + key * 8) = unat a + unat key * 8" using a(3) assms(2) unat_add_lem [of a "key * 8"] by simp
  then show "unat (entry_addr key s) < 2 ^ 50" "PAGE \<le> unat (entry_addr key s)" using a assms(2) by (simp_all add: entry_addr_def)
qed

lemma page_of_key:
  assumes "unat p < 2 ^ 50" shows "unat (push_bit PM_KEY_SHIFT (addr_to_key p)) div PAGE = unat p div PAGE"
proof -
  have k: "unat (addr_to_key p) = unat p div PAGE" using assms by (simp add: unat_addr_to_key PAGE_value)
  have "push_bit PM_KEY_SHIFT (addr_to_key p) = addr_to_key p * of_nat PAGE"
    by (simp add: page_map_consts PAGE_value push_bit_eq_mult)
  moreover have "unat (addr_to_key p * of_nat PAGE) = unat p div PAGE * PAGE"
    using le_less_trans [OF div_le_dividend [of "unat p" 4096], of "2 ^ 52"] assms k unat_mult_lem [of "addr_to_key p" "of_nat PAGE"]
    by (simp add: PAGE_value)
  ultimately have "unat (push_bit PM_KEY_SHIFT (addr_to_key p)) = unat p div PAGE * PAGE" by simp
  then show ?thesis by (simp add: PAGE_value)
qed

lemma ensure_committed_result:
  assumes "win_contract env" "ensure_committed env page s = Inr (q, s')"
  shows "unat page div PAGE \<in> committed s' \<and> committed s \<subseteq> committed s' \<and> page_map s' = page_map s \<and> pm_len s' = pm_len s \<and>
    pm_location s' = pm_location s"
proof -
  obtain k st where q: "VirtualQuery env (os_calls s) (committed s) page = (k, st)" by fastforce
  then have "k \<noteq> 0 \<Longrightarrow> (st OR MEM_COMMIT = st) = (unat page div PAGE \<in> committed s)"
    using assms(1) unfolding win_contract_def by (metis (mono_tags, lifting) case_prod_conv)
  then show ?thesis using assms(2) q by (auto simp: ensure_committed_def win_call_def Let_def split: if_splits)
qed

lemma commit_entry:
  assumes "win_contract env" "win_ready s" "unat key < 2 ^ 38" "commit_page_of_ptr env (entry_addr key s) s = Inr (q, s')"
  shows "unat (entry_addr key s') div PAGE \<in> committed s' \<and> committed s \<subseteq> committed s' \<and> page_map s' = page_map s \<and> pm_len s' = pm_len s \<and>
    pm_location s' = pm_location s"
proof -
  have "entry_addr key s' = entry_addr key s" if "pm_location s' = pm_location s" using that by (simp add: entry_addr_def)
  then show ?thesis
    using ensure_committed_result [OF assms(1)] assms(4) page_of_key [OF entry_addr_bound(1) [OF assms(2,3)]]
    by (metis commit_page_of_ptr_def)
qed

lemma win_get_page_info_result:
  assumes "win_contract env" "win_ready s"
  shows "win_get_page_info env p s = rbind (commit_page_of_ptr env (entry_addr (addr_to_key p) s) s) (\<lambda>(_, s'). Inr (page_map s (addr_to_key p), s'))"
proof -
  have "unat (addr_to_key p) < pm_len s" using assms(2) addr_to_key_less [of p] by (simp add: win_ready_def pm_ready_def)
  then show ?thesis using commit_entry [OF assms addr_to_key_less [of p]]
    by (auto simp: win_get_page_info_def rbind_def Let_def split: sum.splits)
qed

lemma win_set_page_info_result:
  assumes "win_contract env" "win_ready s"
  shows "win_set_page_info env p info s = rbind (commit_page_of_ptr env (entry_addr (addr_to_key p) s) s)
    (\<lambda>(_, s'). Inr (s'\<lparr>page_map := (page_map s)(addr_to_key p := info)\<rparr>))"
proof -
  have "unat (addr_to_key p) < pm_len s" using assms(2) addr_to_key_less [of p] by (simp add: win_ready_def pm_ready_def)
  then show ?thesis using commit_entry [OF assms addr_to_key_less [of p]]
    by (auto simp: win_set_page_info_def rbind_def Let_def split: sum.splits)
qed

lemma win_ready_cong:
  "pm_len s' = pm_len s \<Longrightarrow> pm_location s' = pm_location s \<Longrightarrow> win_ready s' = win_ready s"
  by (simp add: win_ready_def pm_ready_def)

interpretation windows_map: page_table "\<lambda>s. win_contract env \<and> win_ready s" "\<lambda>s p. page_map s (addr_to_key p)"
  "win_get_page_info env" "win_set_page_info env" for env
proof (unfold_locales, goal_cases)
  case (1 s p i s')
  then obtain q where "commit_page_of_ptr env (entry_addr (addr_to_key p) s) s = Inr (q, s')" "i = page_map s (addr_to_key p)"
    by (auto simp: win_get_page_info_result rbind_def split: sum.splits)
  then show ?case using 1 commit_entry [OF _ _ addr_to_key_less [of p], of env s q s'] win_ready_cong [of s' s] by auto
next
  case (2 s p i s' q)
  then obtain r s1 where s1: "commit_page_of_ptr env (entry_addr (addr_to_key p) s) s = Inr (r, s1)"
    "s' = s1\<lparr>page_map := (page_map s)(addr_to_key p := i)\<rparr>"
    by (auto simp: win_set_page_info_result rbind_def split: sum.splits)
  then show ?case using 2 commit_entry [OF _ _ addr_to_key_less [of p], of env s r s1] win_ready_cong [of s' s] addr_to_key_eq [of q p] by auto
qed

section \<open>Properties\<close>

text \<open>The two ways in which an access can fail.\<close>

definition commit_failed :: "panic \<Rightarrow> bool" where
  "commit_failed e \<longleftrightarrow> e = Panic ''Failed to query the virtual address'' \<or> e = Panic ''Couldn't commit page''"

lemma commit_page_of_ptr_fails: "commit_page_of_ptr env p s = Inl e \<Longrightarrow> commit_failed e"
  by (auto simp: commit_page_of_ptr_def ensure_committed_def commit_failed_def Let_def split: prod.splits if_splits)

text \<open>An assumption on the system, not a documented promise: it answers every query and commits every page but the
  null page. It is a premise only of the claim that an access returns.\<close>

definition pages_granted :: "win_env \<Rightarrow> bool" where
  "pages_granted env \<longleftrightarrow> (\<forall>n c r. fst (VirtualQuery env n c r) \<noteq> 0) \<and> (\<forall>n r len. r \<noteq> 0 \<longrightarrow> VirtualCommit env n r len \<noteq> 0)"

lemma commit_page_of_ptr_granted:
  assumes "pages_granted env" "unat p < 2 ^ 50" "PAGE \<le> unat p"
  shows "\<exists>y. commit_page_of_ptr env p s = Inr y"
proof -
  define page where "page = push_bit PM_KEY_SHIFT (addr_to_key p)"
  have "unat page div PAGE = unat p div PAGE" unfolding page_def by (rule page_of_key [OF assms(2)])
  then have "page \<noteq> 0" using assms(3) by (auto simp: PAGE_value)
  then show ?thesis using assms(1) unfolding pages_granted_def
    by (auto simp: commit_page_of_ptr_def page_def [symmetric] ensure_committed_def Let_def split: prod.splits) (metis fst_conv less_irrefl)
qed

text \<open>C28. On Windows the entries of the page map lie in reserved memory, and every access first commits the
  page of the entry. The committed page is the right one: an access never touches memory that is not
  committed, whatever address it is called with; it can only panic when the system does not answer a
  query or refuses a page, and it returns when both are granted. What it returns and what it writes is
  what the Unix version returns and writes.\<close>

theorem windows_page_map:
  fixes s :: "'s win_state_scheme"
  assumes "win_contract env" "win_ready s" "unat p < 2 ^ 50" "unat q < 2 ^ 50"
  shows "(\<forall>i s'. win_get_page_info env p s = Inr (i, s') \<longrightarrow> get_page_info p s = Inr i \<and> get_page_info q s' = get_page_info q s \<and> win_ready s') \<and>
    (\<forall>e. win_get_page_info env p s = Inl e \<or> win_set_page_info env p info s = Inl e \<longrightarrow> commit_failed e) \<and>
    (\<forall>s' j s''. win_set_page_info env p info s = Inr s' \<and> win_get_page_info env q s' = Inr (j, s'') \<longrightarrow>
       rbind (set_page_info p info s) (get_page_info q) = Inr j \<and> win_ready s'') \<and>
    (pages_granted env \<longrightarrow>
       (\<exists>y. win_get_page_info env p s = Inr y) \<and> (\<exists>y. win_set_page_info env p info s = Inr y))"
proof (intro conjI allI impI; (elim conjE)?)
  have ready: "pm_ready x" if "win_ready x" for x :: "'s win_state_scheme" using that by (simp add: win_ready_def)
  note ok = conjI [OF assms(1,2)]
  { fix i s' assume g: "win_get_page_info env p s = Inr (i, s')"
    note v = windows_map.rd_view [OF ok g]
    show "get_page_info p s = Inr i" "win_ready s'" using v ready [OF assms(2)] by (auto simp: get_page_info_ready)
    have "page_map s' (addr_to_key q) = page_map s (addr_to_key q)" using v by (metis (full_types))
    then show "get_page_info q s' = get_page_info q s" using v ready [OF assms(2)] ready [of s'] by (auto simp: get_page_info_ready) }
  show "commit_failed e" if "win_get_page_info env p s = Inl e \<or> win_set_page_info env p info s = Inl e" for e
    using that commit_page_of_ptr_fails
    by (fastforce simp: win_get_page_info_result [OF assms(1,2)] win_set_page_info_result [OF assms(1,2)] rbind_def split: sum.splits)
  { fix s' j s'' assume g: "win_set_page_info env p info s = Inr s'" "win_get_page_info env q s' = Inr (j, s'')"
    have "j = (if unat p div PAGE = unat q div PAGE then info else page_map s (addr_to_key q))"
      by (rule windows_map.wr_rd [OF ok g(1) assms(3,4) g(2)])
    then show "rbind (set_page_info p info s) (get_page_info q) = Inr j"
      using ready [OF assms(2)] addr_to_key_eq [OF assms(3,4)] by (auto simp: set_page_info_ready get_page_info_ready pm_ready_def)
    show "win_ready s''" using windows_map.wr_view [OF ok g(1) assms(3,4)] windows_map.rd_view [OF _ g(2)] by blast }
  assume "pages_granted env"
  then obtain y where "commit_page_of_ptr env (entry_addr (addr_to_key p) s) s = Inr y"
    using commit_page_of_ptr_granted [OF _ entry_addr_bound [OF assms(2) addr_to_key_less [of p]]] by blast
  then show "\<exists>y. win_get_page_info env p s = Inr y" "\<exists>y. win_set_page_info env p info s = Inr y"
    by (simp_all add: win_get_page_info_result [OF assms(1,2)] win_set_page_info_result [OF assms(1,2)] split: prod.splits)
qed

text \<open>\<^verbatim>\<open>commit_page\<close>, which nothing calls, takes the key for the number of a page of the map.\<close>

lemma commit_page_wrong_page:
  assumes "PAGE dvd unat a" "0 < key" "unat a + key * PAGE < 2 ^ 64" "pm_location s = Some a"
  shows "unat (get_page a key) div PAGE \<noteq> unat (entry_addr (of_nat key) s) div PAGE"
proof -
  have k1: "unat (of_nat key :: usize) = key" using assms(3) by (simp add: unat_of_nat PAGE_value)
  have k: "unat (of_nat (key * PAGE) :: usize) = key * PAGE" "unat (of_nat key * 8 :: usize) = key * 8"
    using assms(3) k1 unat_mult_lem [of "of_nat key :: usize" 8] by ((simp only: unat_of_nat, simp), simp add: PAGE_value)
  have "unat (get_page a key) = unat a + key * PAGE" using assms(3) k(1) unat_add_lem [of a "of_nat (key * PAGE)"] by (simp add: get_page_def)
  moreover have "unat (entry_addr (of_nat key) s) = unat a + key * 8"
    using assms(3,4) k(2) unat_add_lem [of a "of_nat key * 8"] by (simp add: entry_addr_def PAGE_value)
  ultimately show ?thesis using assms(1,2) by (auto simp: PAGE_value elim!: dvdE)
qed

text \<open>The Windows allocation of a segment: while the process heap is there, a request returns, gives the lock
  back, and answers a zeroed block of exactly the requested size or an error. When the process has no
  heap the error leaves the lock taken, and no later request ever returns. A segment of
  \<^verbatim>\<open>allocate_massive\<close> is never given back, since it is released with its length where the system
  requires zero.\<close>

theorem windows_segments:
  fixes s :: "'s win_state_scheme"
  assumes "win_contract env" "\<not> win_lock s" "sz \<noteq> 0"
  shows "(GetProcessHeap env (os_calls s) \<noteq> 0 \<longrightarrow> (\<exists>r s'. win_allocate env sz s = Some (r, s') \<and> \<not> win_lock s' \<and>
       (\<forall>seg. r = Inr seg \<longrightarrow> seg_length seg = sz \<and> (\<forall>k < unat sz. mem s' (seg_ptr seg + of_nat k) = 0)))) \<and>
    (GetProcessHeap env (os_calls s) = 0 \<longrightarrow> (\<exists>s'. win_allocate env sz s = Some (Inl NoHeap, s') \<and> (\<forall>env' n. win_allocate env' n s' = None))) \<and>
    (\<forall>seg s' b s''. win_allocate_massive env sz s = (Inr seg, s') \<and> seg_ptr seg \<noteq> GetProcessHeap env (os_calls s') \<and>
       win_deallocate env seg s' = (b, s'') \<longrightarrow> \<not> b \<and> (seg_ptr seg, sz) \<in> set (os_maps s''))"
proof (intro conjI impI allI)
  have z: "zero_bytes p sz m (p + of_nat k) = 0" if "k < unat sz" for p k and m :: memory
  proof -
    have "k < 2 ^ 64" using that unsigned_less [of sz, where ?'a = nat] by simp
    then have "(of_nat k :: usize) < sz" using that by (simp add: word_less_nat_alt unat_of_nat take_bit_eq_mod)
    then show ?thesis by (simp add: zero_bytes_def)
  qed
  show "\<exists>r s'. win_allocate env sz s = Some (r, s') \<and> \<not> win_lock s' \<and>
       (\<forall>seg. r = Inr seg \<longrightarrow> seg_length seg = sz \<and> (\<forall>k < unat sz. mem s' (seg_ptr seg + of_nat k) = 0))"
    if "GetProcessHeap env (os_calls s) \<noteq> 0"
    using that assms(2) z by (auto simp: win_allocate_def win_grab_free win_call_def win_release_def Let_def)
  show "\<exists>s'. win_allocate env sz s = Some (Inl NoHeap, s') \<and> (\<forall>env' n. win_allocate env' n s' = None)"
    if "GetProcessHeap env (os_calls s) = 0"
    using that assms(2) by (auto simp: win_allocate_def win_grab_free win_grab_held win_call_def Let_def)
  fix seg s' b s''
  assume d: "win_allocate_massive env sz s = (Inr seg, s') \<and> seg_ptr seg \<noteq> GetProcessHeap env (os_calls s') \<and> win_deallocate env seg s' = (b, s'')"
  moreover have "VirtualFree env n p sz = 0" for n p using assms(1,3) by (simp add: win_contract_def)
  ultimately show "\<not> b" "(seg_ptr seg, sz) \<in> set (os_maps s'')"
    by (auto simp: win_allocate_massive_def win_deallocate_def win_call_def Let_def split: if_splits)
qed

section \<open>A system that meets the contract\<close>

text \<open>The process heap is there from the second call on; everything is granted.\<close>

definition sample_windows :: win_env where
  "sample_windows = \<lparr>GetProcessHeap = (\<lambda>n. if n = 0 then 0 else 0x500000), HeapAlloc = (\<lambda>n hp sz. 0x600000), HeapFree = (\<lambda>n hp p. 1),
     VirtualReserve = (\<lambda>n sz. 0x10000000), VirtualCommit = (\<lambda>n p len. p), VirtualFree = (\<lambda>n p len. if len = 0 then 1 else 0),
     VirtualQuery = (\<lambda>n c p. (48, if unat p div PAGE \<in> c then MEM_COMMIT else 0))\<rparr>"

lemma sample_windows_contract: "win_contract sample_windows"
  by (auto simp: win_contract_def sample_windows_def MEM_COMMIT_def)

definition sample_win_state :: win_state where
  "sample_win_state = map_state.extend (empty_map_state\<lparr>pm_len := 2 ^ 38, pm_location := Some 0x10000000\<rparr>) \<lparr>win_lock = False, committed = {}\<rparr>"

lemma sample_windows_granted: "pages_granted sample_windows"
  by (simp add: pages_granted_def sample_windows_def)

lemma sample_win_state_ready: "win_ready sample_win_state" "\<not> win_lock sample_win_state" "os_calls sample_win_state = 0"
  by (simp_all add: win_ready_def pm_ready_def sample_win_state_def map_state.defs PAGE_value)

theorem windows_page_map_witness:
  "(\<exists>y. win_set_page_info sample_windows 0x7000 0x40 sample_win_state = Inr y) \<and>
    (\<exists>y. win_get_page_info sample_windows 0x7000 sample_win_state = Inr y)"
proof -
  have "unat (0x7000 :: usize) < 2 ^ 50" by simp
  from windows_page_map [OF sample_windows_contract sample_win_state_ready(1) this this, of "0x40"] sample_windows_granted
  show ?thesis by blast
qed

theorem windows_segments_witness:
  "\<exists>s'. win_allocate sample_windows 100 sample_win_state = Some (Inl NoHeap, s') \<and> (\<forall>env n. win_allocate env n s' = None)"
  using windows_segments [OF sample_windows_contract sample_win_state_ready(2), of 100] by (simp add: sample_win_state_ready(3) sample_windows_def)

end
