(* ===== verification/Range_Mapping.thy ===== *)
theory Range_Mapping
  imports Array_Facts Central
begin

text \<open>
  \<^verbatim>\<open>PageRangeMapping\<close> of \<^verbatim>\<open>src/independent_collections/range_mapping.rs\<close>: a tree of address ranges whose nodes
  lie in an \<^verbatim>\<open>Array\<close> and point to each other. A node pointer is an address; it leads to the element of
  the array that starts there, and to nothing (the panic \<open>undefined_access\<close>) when there is none, in
  particular after the array has moved. The search and the descent of an insertion follow pointers
  that may form a cycle, so both take fuel and return \<open>None\<close> when it is used up.
\<close>

section \<open>Nodes\<close>

datatype node_inner = Info page_info | Children (less: usize) (more: usize)

record node =
  n_start :: usize
  n_end :: usize
  n_inner :: node_inner

definition range_contains :: "node \<Rightarrow> usize \<Rightarrow> bool" where
  "range_contains n a \<longleftrightarrow> n_start n \<le> a \<and> a \<le> n_end n"

text \<open>\<^verbatim>\<open>create_parent_node\<close> of the nodes at two addresses.\<close>

definition create_parent_node :: "usize \<times> node \<Rightarrow> usize \<times> node \<Rightarrow> node" where
  "create_parent_node self other =
     \<lparr>n_start = min (n_start (snd self)) (n_start (snd other)), n_end = max (n_end (snd self)) (n_end (snd other)),
      n_inner = (if n_end (snd self) < n_start (snd other) then Children (fst self) (fst other)
                 else Children (fst other) (fst self))\<rparr>"

record range_mapping =
  rm_head :: usize
  memory_array :: "node array"

definition rm_new :: range_mapping where
  "rm_new = \<lparr>rm_head = 0, memory_array = array_new\<rparr>"

definition init_with_capacity ::
  "os_env \<Rightarrow> layout \<Rightarrow> nat \<Rightarrow> 's os_state_scheme \<times> range_mapping \<Rightarrow> ('s os_state_scheme \<times> range_mapping) res" where
  "init_with_capacity env L capacity x =
     rbind (array_with_capacity env L capacity (fst x)) (\<lambda>(s, a). Inr (s, (snd x)\<lparr>memory_array := a\<rparr>))"

text \<open>The address of an element of the array, and the element at an address.\<close>

definition node_ptr :: "layout \<Rightarrow> range_mapping \<Rightarrow> nat \<Rightarrow> usize" where
  "node_ptr L m i = raw_get_ptr (ar_raw (memory_array m)) + of_nat (i * t_size L)"

definition node_index :: "layout \<Rightarrow> range_mapping \<Rightarrow> usize \<Rightarrow> nat res" where
  "node_index L m p =
     (let off = unat (p - raw_get_ptr (ar_raw (memory_array m)))
      in if p = 0 \<or> off mod t_size L \<noteq> 0 then Inl undefined_access else Inr (off div t_size L))"

definition node_at :: "layout \<Rightarrow> range_mapping \<Rightarrow> usize \<Rightarrow> node res" where
  "node_at L m p = rbind (node_index L m p) (raw_index (ar_raw (memory_array m)))"

definition write_node :: "layout \<Rightarrow> usize \<Rightarrow> node \<Rightarrow> range_mapping \<Rightarrow> range_mapping res" where
  "write_node L p n m =
     rbind (node_index L m p) (\<lambda>i. rbind (write_raw n i (memory_array m)) (\<lambda>a. Inr (m\<lparr>memory_array := a\<rparr>)))"

section \<open>Search and insertion\<close>

fun find_info :: "nat \<Rightarrow> layout \<Rightarrow> range_mapping \<Rightarrow> node \<Rightarrow> usize \<Rightarrow> page_info option res option" where
  "find_info 0 L m n address = None"
| "find_info (Suc fuel) L m n address =
     (if range_contains n address then
        (case n_inner n of
           Info info \<Rightarrow> Some (Inr (Some info))
         | Children l h \<Rightarrow>
             orbind (Some (node_at L m l)) (\<lambda>ln. orbind (Some (node_at L m h)) (\<lambda>hn.
             if range_contains ln address then find_info fuel L m ln address
             else if range_contains hn address then find_info fuel L m hn address
             else Some (Inr None))))
      else Some (Inr None))"

definition rm_get_page_info :: "nat \<Rightarrow> layout \<Rightarrow> range_mapping \<Rightarrow> usize \<Rightarrow> page_info option res option" where
  "rm_get_page_info fuel L m ptr =
     (if rm_head m = 0 then Some (Inr None)
      else orbind (Some (node_at L m (rm_head m))) (\<lambda>hd. find_info fuel L m hd ptr))"

definition create_range_node ::
  "os_env \<Rightarrow> layout \<Rightarrow> usize \<Rightarrow> usize \<Rightarrow> page_info \<Rightarrow> 's os_state_scheme \<times> range_mapping \<Rightarrow>
   (usize \<times> 's os_state_scheme \<times> range_mapping) res" where
  "create_range_node env L lo hi info x =
     rbind (array_push env L \<lparr>n_start = lo, n_end = hi, n_inner = Info info\<rparr> (fst x, memory_array (snd x))) (\<lambda>(s, a).
     let m = (snd x)\<lparr>memory_array := a\<rparr> in
     rbind (checked_sub (array_len a) 1) (\<lambda>i. Inr (node_ptr L m i, s, m)))"

text \<open>The \<^verbatim>\<open>while let\<close> loop: where the new node is joined to the tree.\<close>

fun insert_place :: "nat \<Rightarrow> layout \<Rightarrow> range_mapping \<Rightarrow> node \<Rightarrow> usize \<Rightarrow> usize res option" where
  "insert_place 0 L m main ptr = None"
| "insert_place (Suc fuel) L m main ptr =
     orbind (Some (node_at L m ptr)) (\<lambda>n.
     case n_inner n of
       Info info \<Rightarrow> Some (Inr ptr)
     | Children l h \<Rightarrow>
         orbind (Some (node_at L m l)) (\<lambda>ln. orbind (Some (node_at L m h)) (\<lambda>hn.
         if n_end main < n_start ln then Some (Inr l)
         else if n_start ln < n_start main \<and> n_end ln > n_end main then insert_place fuel L m main l
         else if n_start main > n_end hn then Some (Inr h)
         else if n_start hn < n_start main \<and> n_end main > n_end main then insert_place fuel L m main h
         else Some (Inr ptr))))"

definition insert_node :: "nat \<Rightarrow> layout \<Rightarrow> usize \<Rightarrow> range_mapping \<Rightarrow> range_mapping res option" where
  "insert_node fuel L nd m =
     (if rm_head m = 0 then Some (Inr (m\<lparr>rm_head := nd\<rparr>))
      else orbind (Some (node_at L m nd)) (\<lambda>main.
        orbind (insert_place fuel L m main (rm_head m)) (\<lambda>ptr.
        orbind (Some (node_at L m ptr)) (\<lambda>pn.
        Some (write_node L ptr (create_parent_node (nd, main) (ptr, pn)) m)))))"

definition set_page_info_for_ptr ::
  "nat \<Rightarrow> os_env \<Rightarrow> layout \<Rightarrow> usize \<Rightarrow> page_info \<Rightarrow> 's os_state_scheme \<times> range_mapping \<Rightarrow>
   ('s os_state_scheme \<times> range_mapping) res option" where
  "set_page_info_for_ptr fuel env L ptr info x =
     orbind (Some (create_range_node env L ptr ptr info x)) (\<lambda>(nd, s, m).
     orbind (insert_node fuel L nd m) (\<lambda>m1. Some (Inr (s, m1))))"

definition rm_update_page_map ::
  "nat \<Rightarrow> os_env \<Rightarrow> layout \<Rightarrow> heap option \<Rightarrow> usize \<Rightarrow> usize option \<Rightarrow> nat \<Rightarrow> 's alloc_state_scheme \<times> range_mapping \<Rightarrow>
   ('s alloc_state_scheme \<times> range_mapping) res option" where
  "rm_update_page_map fuel env L hp ptr desc sc_index x =
     (let info = info_set_ptr (case desc of None \<Rightarrow> 0 | Some d \<Rightarrow> d) sc_index in
      case hp of
        None \<Rightarrow> set_page_info_for_ptr fuel env L ptr info x
      | Some h \<Rightarrow>
          orbind (Some (heap_get_size_class h (fst x))) (\<lambda>c.
          let sb_size = of_nat (sc_sb_size c) :: usize in
          if sb_size AND PAGE_MASK \<noteq> 0 then Some (Inl AssertFailed)
          else orbind (Some (create_range_node env L ptr (ptr + sb_size - 1) info x)) (\<lambda>(nd, s, m).
            orbind (insert_node fuel L nd m) (\<lambda>m1. Some (Inr (s, m1))))))"

section \<open>One range and two\<close>

lemma array_push_room:
  assumes "array_rep L a xs" "length xs < raw_capacity L (ar_raw a)"
  shows "\<exists>a'. array_push env L v (s, a) = Inr (s, a') \<and> array_rep L a' (xs @ [v]) \<and>
    raw_get_ptr (ar_raw a') = raw_get_ptr (ar_raw a) \<and> raw_capacity L (ar_raw a') = raw_capacity L (ar_raw a)"
  using assms by (auto simp: array_push_def array_rep_def raw_write_def raw_ok_def raw_get_ptr_def raw_capacity_def
      nth_append less_Suc_eq)

lemma node_index_ptr:
  assumes "raw_ok L (ar_raw (memory_array m))" "i < raw_capacity L (ar_raw (memory_array m))"
  shows "node_index L m (node_ptr L m i) = (if node_ptr L m i = 0 then Inl undefined_access else Inr i)"
proof -
  have b: "raw_capacity L (ar_raw (memory_array m)) * t_size L \<le> 2 ^ 47" using raw_capacity_bytes [OF assms(1)] .
  have "0 < t_size L" using assms(2) by (auto simp: raw_capacity_def split: option.splits intro: gr0I)
  moreover have "i * t_size L < 2 ^ 64"
  proof -
    have "i * t_size L \<le> raw_capacity L (ar_raw (memory_array m)) * t_size L" using assms(2) by (intro mult_le_mono1) simp
    also have "\<dots> < 2 ^ 64" by (rule le_less_trans [OF b]) simp
    finally show ?thesis .
  qed
  then have "unat (of_nat (i * t_size L) :: usize) = i * t_size L" by (simp only: unat_of_nat) simp
  ultimately show ?thesis by (simp add: node_index_def node_ptr_def del: of_nat_mult)
qed

lemma write_raw_ptr: "write_raw v i a = Inr a' \<Longrightarrow> raw_get_ptr (ar_raw a') = raw_get_ptr (ar_raw a)"
  by (auto simp: write_raw_def raw_write_def raw_get_ptr_def rbind_eq_Inr split: if_splits)

text \<open>A mapping whose nodes are a list, at addresses that are not null.\<close>

definition nodes_rep :: "layout \<Rightarrow> range_mapping \<Rightarrow> node list \<Rightarrow> bool" where
  "nodes_rep L m ns \<longleftrightarrow> array_rep L (memory_array m) ns \<and>
     0 < unat (raw_get_ptr (ar_raw (memory_array m))) \<and> unat (raw_get_ptr (ar_raw (memory_array m))) \<le> 2 ^ 47"

definition room :: "layout \<Rightarrow> range_mapping \<Rightarrow> nat" where
  "room L m = raw_capacity L (ar_raw (memory_array m))"

lemma node_ptr_index:
  assumes "nodes_rep L m ns" "i < length ns"
  shows "node_ptr L m i \<noteq> 0" "node_index L m (node_ptr L m i) = Inr i"
proof -
  let ?b = "raw_get_ptr (ar_raw (memory_array m))" and ?c = "raw_capacity L (ar_raw (memory_array m))"
  have r: "raw_ok L (ar_raw (memory_array m))" "i < ?c" "0 < unat ?b" "unat ?b \<le> 2 ^ 47"
    using assms by (auto simp: nodes_rep_def array_rep_def)
  have off: "i * t_size L \<le> 2 ^ 47"
    using raw_capacity_bytes [OF r(1)] mult_le_mono1 [of i ?c "t_size L"] r(2) by linarith
  then have "unat (of_nat (i * t_size L) :: usize) = i * t_size L" by (simp only: unat_of_nat) simp
  then have "unat (node_ptr L m i) = unat ?b + i * t_size L"
    unfolding node_ptr_def using off r(4) by (subst unat_add_no_overflow) simp_all
  then have "0 < unat (node_ptr L m i)" using r(3) by linarith
  then show "node_ptr L m i \<noteq> 0" by auto
  then show "node_index L m (node_ptr L m i) = Inr i" using node_index_ptr [OF r(1,2)] by simp
qed

lemma node_at_rep: "nodes_rep L m ns \<Longrightarrow> i < length ns \<Longrightarrow> node_at L m (node_ptr L m i) = Inr (ns ! i)"
  using node_ptr_index(2) array_rep_read by (fastforce simp: node_at_def nodes_rep_def)

lemma create_range_node_rep:
  assumes "nodes_rep L m ns" "length ns < room L m"
  shows "\<exists>m'. create_range_node env L lo hi info (s, m) = Inr (node_ptr L m' (length ns), s, m') \<and>
    nodes_rep L m' (ns @ [\<lparr>n_start = lo, n_end = hi, n_inner = Info info\<rparr>]) \<and> rm_head m' = rm_head m \<and> room L m' = room L m \<and>
    node_ptr L m' = node_ptr L m"
proof -
  obtain a where a: "array_push env L \<lparr>n_start = lo, n_end = hi, n_inner = Info info\<rparr> (s, memory_array m) = Inr (s, a)"
    "array_rep L a (ns @ [\<lparr>n_start = lo, n_end = hi, n_inner = Info info\<rparr>])"
    "raw_get_ptr (ar_raw a) = raw_get_ptr (ar_raw (memory_array m))"
    "raw_capacity L (ar_raw a) = raw_capacity L (ar_raw (memory_array m))"
    using array_push_room [of L "memory_array m" ns env "\<lparr>n_start = lo, n_end = hi, n_inner = Info info\<rparr>" s] assms
    by (auto simp: nodes_rep_def room_def)
  have "array_len a = Suc (length ns)" using array_rep_len [OF a(2)] by (simp add: array_len_def)
  then show ?thesis
    using a assms(1) by (auto simp: create_range_node_def nodes_rep_def room_def node_ptr_def fun_eq_iff)
qed

lemma write_node_rep:
  assumes "nodes_rep L m ns" "i < length ns"
  shows "\<exists>m'. write_node L (node_ptr L m i) n m = Inr m' \<and> nodes_rep L m' (ns[i := n]) \<and> rm_head m' = rm_head m \<and>
    node_ptr L m' = node_ptr L m"
proof -
  obtain a where "write_raw n i (memory_array m) = Inr a" "array_rep L a (ns[i := n])"
    "raw_get_ptr (ar_raw a) = raw_get_ptr (ar_raw (memory_array m))"
    using write_raw_rep [of L "memory_array m" ns i n] write_raw_ptr assms by (fastforce simp: nodes_rep_def)
  then show ?thesis
    using assms(1) node_ptr_index(2) [OF assms] by (auto simp: write_node_def nodes_rep_def node_ptr_def fun_eq_iff)
qed

text \<open>A search in a node that is its own child, for an address of its range that no child before it covers.\<close>

lemma find_info_cycle:
  assumes "range_contains n a" "n_inner n = Children l h" "node_at L m l = Inr ln" "node_at L m h = Inr hn"
    and "ln = n \<or> \<not> range_contains ln a \<and> hn = n"
  shows "find_info fuel L m n a = None"
  using assms by (induction fuel) auto

lemma first_range:
  assumes "rm_head m = 0" "nodes_rep L m []" "0 < room L m"
  shows "\<exists>m'. set_page_info_for_ptr 1 env L p i (s, m) = Some (Inr (s, m')) \<and> rm_head m' = node_ptr L m' 0 \<and>
    nodes_rep L m' [\<lparr>n_start = p, n_end = p, n_inner = Info i\<rparr>] \<and> room L m' = room L m"
proof -
  obtain m1 where "create_range_node env L p p i (s, m) = Inr (node_ptr L m1 0, s, m1)"
    "nodes_rep L m1 [\<lparr>n_start = p, n_end = p, n_inner = Info i\<rparr>]" "rm_head m1 = 0" "room L m1 = room L m"
    using create_range_node_rep [OF assms(2), of env p p i s] assms by auto
  then show ?thesis
    by (intro exI [of _ "m1\<lparr>rm_head := node_ptr L m1 0\<rparr>"])
      (simp add: set_page_info_for_ptr_def insert_node_def nodes_rep_def node_ptr_def room_def)
qed

text \<open>C40. A \<^verbatim>\<open>PageRangeMapping\<close> with room for its nodes finds one registered address, but not two: inserting the
  second node overwrites the first one with a parent node that has itself as a child. From then on
  the search for the first address never ends, whatever the order of the two addresses.\<close>

theorem second_range_loops:
  assumes "rm_head m = 0" "nodes_rep L m []" "2 \<le> room L m" "p \<noteq> q"
  shows "\<exists>m1 m2. set_page_info_for_ptr 1 env L p i (s, m) = Some (Inr (s, m1)) \<and>
    rm_get_page_info 1 L m1 p = Some (Inr (Some i)) \<and>
    set_page_info_for_ptr 1 env L q j (s, m1) = Some (Inr (s, m2)) \<and> (\<forall>fuel. rm_get_page_info fuel L m2 p = None)"
proof -
  let ?n1 = "\<lparr>n_start = p, n_end = p, n_inner = Info i\<rparr>" and ?n2 = "\<lparr>n_start = q, n_end = q, n_inner = Info j\<rparr>"
  obtain m1 where m1: "set_page_info_for_ptr 1 env L p i (s, m) = Some (Inr (s, m1))" "rm_head m1 = node_ptr L m1 0"
    "nodes_rep L m1 [?n1]" "room L m1 = room L m"
    using first_range [OF assms(1,2), of env p i s] assms(3) by auto
  obtain m2 where m2: "create_range_node env L q q j (s, m1) = Inr (node_ptr L m2 1, s, m2)" "nodes_rep L m2 [?n1, ?n2]"
    "rm_head m2 = rm_head m1" "node_ptr L m2 = node_ptr L m1"
    using create_range_node_rep [OF m1(3), of env q q j s] m1(4) assms(3) by auto
  let ?P = "node_ptr L m2"
  define n where "n = create_parent_node (?P 1, ?n2) (?P 0, ?n1)"
  obtain m3 where m3: "write_node L (?P 0) n m2 = Inr m3" "nodes_rep L m3 [n, ?n2]" "rm_head m3 = rm_head m2" "node_ptr L m3 = ?P"
    using write_node_rep [OF m2(2), of 0 n] by auto
  have at: "node_at L m1 (?P 0) = Inr ?n1" "node_at L m2 (?P 0) = Inr ?n1" "node_at L m2 (?P 1) = Inr ?n2"
    "node_at L m3 (?P 0) = Inr n" "node_at L m3 (?P 1) = Inr ?n2" "?P 0 \<noteq> 0"
    using node_at_rep [OF m1(3), of 0] node_at_rep [OF m2(2), of 0] node_at_rep [OF m2(2), of 1] node_at_rep [OF m3(2), of 0]
      node_at_rep [OF m3(2), of 1] node_ptr_index(1) [OF m2(2), of 0] m2(4) m3(4) by simp_all
  have hd: "rm_head m1 = ?P 0" "rm_head m2 = ?P 0" "rm_head m3 = ?P 0" using m1(2) m2(3,4) m3(3) by simp_all
  have "set_page_info_for_ptr 1 env L q j (s, m1) = Some (Inr (s, m3))"
    using m2(1) m3(1) at(2,3,6) hd(2) by (simp add: set_page_info_for_ptr_def insert_node_def n_def)
  moreover have "rm_get_page_info 1 L m1 p = Some (Inr (Some i))"
    using at(1,6) hd(1) by (simp add: rm_get_page_info_def range_contains_def)
  moreover have "rm_get_page_info fuel L m3 p = None" for fuel
  proof -
    have "range_contains n p" by (simp add: n_def create_parent_node_def range_contains_def)
    moreover have "n_inner n = (if q < p then Children (?P 1) (?P 0) else Children (?P 0) (?P 1))"
      by (simp add: n_def create_parent_node_def)
    moreover have "q < p \<Longrightarrow> \<not> range_contains ?n2 p" by (auto simp: range_contains_def)
    ultimately have "find_info fuel L m3 n p = None"
      using at(4,5) by (cases "q < p") (auto intro: find_info_cycle)
    then show ?thesis using at(4,6) hd(3) by (simp add: rm_get_page_info_def)
  qed
  ultimately show ?thesis using m1(1) by blast
qed

text \<open>A mapping with an array of two nodes of 64 bytes.\<close>

definition two_nodes :: range_mapping where
  "two_nodes = \<lparr>rm_head = 0, memory_array = \<lparr>ar_size = 0, ar_no_dealloc = False,
     ar_raw = \<lparr>raw_segment = Some \<lparr>seg_ptr = 1048576, seg_length = 128\<rparr>, raw_no_dealloc = False, slots = (\<lambda>_. None), extent = 2\<rparr>\<rparr>\<rparr>"

theorem second_range_loops_witness:
  "\<exists>m1 m2. set_page_info_for_ptr 1 bump_env \<lparr>t_size = 64, t_align = 8\<rparr> 8192 64 (empty_pages_state, two_nodes) = Some (Inr (empty_pages_state, m1)) \<and>
    set_page_info_for_ptr 1 bump_env \<lparr>t_size = 64, t_align = 8\<rparr> 4096 128 (empty_pages_state, m1) = Some (Inr (empty_pages_state, m2)) \<and>
    rm_get_page_info 100 \<lparr>t_size = 64, t_align = 8\<rparr> m2 8192 = None"
proof -
  have "nodes_rep \<lparr>t_size = 64, t_align = 8\<rparr> two_nodes []" "room \<lparr>t_size = 64, t_align = 8\<rparr> two_nodes = 2" "rm_head two_nodes = 0"
    by (simp_all add: nodes_rep_def room_def two_nodes_def array_rep_def raw_ok_def raw_capacity_def raw_get_ptr_def)
  then show ?thesis
    using second_range_loops [of two_nodes "\<lparr>t_size = 64, t_align = 8\<rparr>" 8192 4096 bump_env 64 empty_pages_state 128] by auto
qed

end
