(* ===== verification/Info_Dump.thy ===== *)
theory Info_Dump
  imports Prelude
begin

text \<open>
  The counters of \<^verbatim>\<open>src/info_dump.rs\<close>. Additions and subtractions are those of a build that checks for
  overflow. The lock makes every function atomic, so a run is a sequence of calls;
  what is printed is a value.
\<close>

section \<open>Counters\<close>

record info_dump =
  total_allocated_from_vm :: nat
  current_allocated_from_vm :: nat
  current_mem_allocated :: nat
  total_allocs :: nat
  total_frees :: nat

definition INFO_DUMP :: info_dump where
  "INFO_DUMP = \<lparr>total_allocated_from_vm = 0, current_allocated_from_vm = 0, current_mem_allocated = 0,
     total_allocs = 0, total_frees = 0\<rparr>"

definition checked_add :: "nat \<Rightarrow> nat \<Rightarrow> nat res" where
  "checked_add a b = (if a + b < 2 ^ 64 then Inr (a + b) else Inl Overflow)"

definition increase_allocated_from_vm :: "nat \<Rightarrow> info_dump \<Rightarrow> info_dump res" where
  "increase_allocated_from_vm change d =
     rbind (checked_add (current_allocated_from_vm d) change) (\<lambda>c.
     rbind (checked_add (total_allocated_from_vm d) change) (\<lambda>n.
     Inr (d\<lparr>current_allocated_from_vm := c, total_allocated_from_vm := n\<rparr>)))"

definition decrease_allocated_from_vm :: "nat \<Rightarrow> info_dump \<Rightarrow> info_dump res" where
  "decrease_allocated_from_vm change d =
     (if \<not> current_allocated_from_vm d \<ge> change then Inl AssertFailed
      else rbind (checked_sub (current_allocated_from_vm d) change) (\<lambda>c. Inr (d\<lparr>current_allocated_from_vm := c\<rparr>)))"

definition log_malloc :: "nat \<Rightarrow> info_dump \<Rightarrow> info_dump res" where
  "log_malloc sz d =
     rbind (checked_add (current_mem_allocated d) sz) (\<lambda>c.
     rbind (checked_add (total_allocs d) 1) (\<lambda>n.
     Inr (d\<lparr>current_mem_allocated := c, total_allocs := n\<rparr>)))"

definition log_free :: "nat \<Rightarrow> info_dump \<Rightarrow> info_dump res" where
  "log_free sz d =
     rbind (checked_sub (current_mem_allocated d) sz) (\<lambda>c.
     rbind (checked_add (total_frees d) 1) (\<lambda>n.
     Inr (d\<lparr>current_mem_allocated := c, total_frees := n\<rparr>)))"

definition get_info_dump :: "info_dump \<Rightarrow> info_dump" where
  "get_info_dump d = d"

text \<open>What \<^verbatim>\<open>print_info_dump\<close> prints, if anything, and its flag: a call that is entered while another one prints
  does nothing.\<close>

definition print_info_dump :: "bool \<times> info_dump \<Rightarrow> info_dump option \<times> bool" where
  "print_info_dump x = (case x of (skip, d) \<Rightarrow> if \<not> skip then (Some (get_info_dump d), False) else (None, skip))"

section \<open>Runs\<close>

datatype info_event = Vm_Up nat | Vm_Down nat | Log_Malloc nat | Log_Free nat

fun info_step :: "info_event \<Rightarrow> info_dump \<Rightarrow> info_dump res" where
  "info_step (Vm_Up n) = increase_allocated_from_vm n"
| "info_step (Vm_Down n) = decrease_allocated_from_vm n"
| "info_step (Log_Malloc n) = log_malloc n"
| "info_step (Log_Free n) = log_free n"

lemmas info_defs = increase_allocated_from_vm_def decrease_allocated_from_vm_def log_malloc_def log_free_def checked_add_def

text \<open>The two meters of a run: bytes from the kernel that were not given back, and bytes of blocks
  that are not freed.\<close>

fun vm_meter :: "info_event list \<Rightarrow> int" where
  "vm_meter [] = 0"
| "vm_meter (Vm_Up n # es) = int n + vm_meter es"
| "vm_meter (Vm_Down n # es) = vm_meter es - int n"
| "vm_meter (_ # es) = vm_meter es"

fun block_meter :: "info_event list \<Rightarrow> int" where
  "block_meter [] = 0"
| "block_meter (Log_Malloc n # es) = int n + block_meter es"
| "block_meter (Log_Free n # es) = block_meter es - int n"
| "block_meter (_ # es) = block_meter es"

lemma info_run_meters:
  assumes "for_each info_step es d = Inr d'"
  shows "int (current_allocated_from_vm d') = int (current_allocated_from_vm d) + vm_meter es \<and>
    int (current_mem_allocated d') = int (current_mem_allocated d) + block_meter es"
  using assms
proof (induction es arbitrary: d)
  case (Cons e es)
  then obtain d1 where d1: "info_step e d = Inr d1" "for_each info_step es d1 = Inr d'" by (auto simp: rbind_eq_Inr)
  then show ?case using Cons.IH [OF d1(2)]
    by (cases e) (auto simp: info_defs rbind_eq_Inr checked_sub_def split: if_splits)
qed simp

text \<open>The counters of a run from the start: what the meters say, so a run in which more bytes are
  freed than were allocated does not return.\<close>

lemma info_run:
  assumes "for_each info_step es INFO_DUMP = Inr d"
  shows "int (current_allocated_from_vm (get_info_dump d)) = vm_meter es"
    and "int (current_mem_allocated (get_info_dump d)) = block_meter es"
  using info_run_meters [OF assms] by (simp_all add: INFO_DUMP_def get_info_dump_def)

lemma printed_run:
  assumes "for_each info_step es INFO_DUMP = Inr d" "print_info_dump (skip, d) = (Some p, skip')"
  shows "int (current_allocated_from_vm p) = vm_meter es" "int (current_mem_allocated p) = block_meter es" "\<not> skip'"
  using info_run [OF assms(1)] assms(2) by (auto simp: print_info_dump_def split: if_splits)

end
