(* ===== verification/Page_Info_Holder.thy ===== *)
theory Page_Info_Holder
  imports Pages
begin

text \<open>
  \<^verbatim>\<open>PageInfoHolder\<close> of \<^verbatim>\<open>src/pages.rs\<close>: a table of the segments handed out, with a free list of its entries
  and a map from pointers to entries, behind a spin lock. A call that finds the lock taken spins
  forever and has the value \<open>None\<close>. The table is a list of entries; a pointer to an entry is its
  index. \<^verbatim>\<open>MmapMut::map_anon\<close> is the parameter \<open>map_anon\<close> of the kernel interface.
\<close>

section \<open>State\<close>

datatype mem_or_free = Map usize | Seg segment | Free "nat option"

definition mem_or_free_eq :: "mem_or_free \<Rightarrow> mem_or_free \<Rightarrow> bool" where
  "mem_or_free_eq a b = (case (a, b) of (Map p, Map q) \<Rightarrow> p = q | (Free p, Free q) \<Rightarrow> p = q | _ \<Rightarrow> False)"

record page_info_holder =
  ph_internals :: "mem_or_free list option"
  ph_count :: nat
  ph_capacity :: nat
  ph_head :: "nat option"
  ph_lock :: bool
  ph_tree :: "(usize, nat) hash_map option"

definition INITIAL_PAGES :: nat where "INITIAL_PAGES = 128"

definition size_of_entry :: nat where "size_of_entry = 24"

definition size_for_capacity :: "nat \<Rightarrow> nat" where
  "size_for_capacity capacity = capacity * size_of_entry"

definition get_space_within :: "nat \<Rightarrow> nat" where
  "get_space_within bytes = bytes div size_of_entry"

definition holder_new :: page_info_holder where
  "holder_new = \<lparr>ph_internals = None, ph_count = 0, ph_capacity = 0, ph_head = None, ph_lock = False, ph_tree = None\<rparr>"

definition holder_grab :: "page_info_holder \<Rightarrow> page_info_holder option" where
  "holder_grab h = (if ph_lock h then None else Some (h\<lparr>ph_lock := True\<rparr>))"

definition holder_release :: "page_info_holder \<Rightarrow> page_info_holder" where
  "holder_release h = h\<lparr>ph_lock := False\<rparr>"

section \<open>Operations\<close>

text \<open>The loop of \<^verbatim>\<open>initialize_slice\<close>, over the indices of the slice in reverse.\<close>

definition init_entry ::
  "nat \<Rightarrow> nat \<Rightarrow> mem_or_free list \<times> nat option \<times> bool \<Rightarrow> (mem_or_free list \<times> nat option \<times> bool) res" where
  "init_entry capacity index x =
     (let (es, prev, first) = x; es1 = es[index := Free prev] in
      if first then Inr (es1, Some (index + capacity), False)
      else rbind (unwrap prev) (\<lambda>p. rbind (checked_sub p 1) (\<lambda>q. Inr (es1, Some q, first))))"

definition initialize_slice :: "mem_or_free list \<Rightarrow> page_info_holder \<Rightarrow> (mem_or_free list \<times> page_info_holder) res" where
  "initialize_slice es h =
     rbind (for_each (init_entry (ph_capacity h)) (rev [0..<length es]) (es, ph_head h, True)) (\<lambda>(es1, _, _).
     if es1 = [] then Inl UnwrapNone
     else let es2 = (case last es1 of Free _ \<Rightarrow> es1[length es1 - 1 := Free (ph_head h)] | _ \<Rightarrow> es1)
       in Inr (es2, h\<lparr>ph_head := Some (ph_capacity h)\<rparr>))"

definition get_capacity :: "page_info_holder \<Rightarrow> nat" where
  "get_capacity h = ph_capacity h"

definition get_maps :: "page_info_holder \<Rightarrow> mem_or_free list res" where
  "get_maps h = rbind (unwrap (ph_internals h)) (\<lambda>es. Inr (take (get_capacity h) es))"

text \<open>The bytes of a new mapping, read as entries.\<close>

definition blank_entries :: "nat \<Rightarrow> mem_or_free list" where
  "blank_entries n = replicate n (Map 0)"

definition holder_init ::
  "os_env \<Rightarrow> 's os_state_scheme \<times> page_info_holder \<Rightarrow> ('s os_state_scheme \<times> page_info_holder) res option" where
  "holder_init env x =
     (case holder_grab (snd x) of
        None \<Rightarrow> None
      | Some _ \<Rightarrow> Some (
          let s = fst x; capacity = INITIAL_PAGES; mem_size = size_for_capacity capacity in
          if \<not> map_anon env (os_calls s) mem_size then Inl (Panic ''Memory map must be created'')
          else
            let h1 = \<lparr>ph_internals = None, ph_count = 0, ph_capacity = 0, ph_head = None, ph_lock = False,
                      ph_tree = Some (hm_with_capacity 10001)\<rparr> in
            rbind (initialize_slice (blank_entries (get_space_within mem_size)) h1) (\<lambda>(es, h2).
            Inr (s\<lparr>os_calls := Suc (os_calls s)\<rparr>,
                 holder_release (h2\<lparr>ph_internals := Some es, ph_capacity := capacity\<rparr>)))))"

definition get_at_index :: "page_info_holder \<Rightarrow> nat \<Rightarrow> mem_or_free option" where
  "get_at_index h index =
     (case ph_internals h of None \<Rightarrow> None | Some es \<Rightarrow> if index \<ge> ph_capacity h then None else Some (es ! index))"

definition put_at_index :: "nat \<Rightarrow> mem_or_free \<Rightarrow> page_info_holder \<Rightarrow> page_info_holder" where
  "put_at_index index e h = h\<lparr>ph_internals := map_option (\<lambda>es. es[index := e]) (ph_internals h)\<rparr>"

definition get_index_from_pointer :: "page_info_holder \<Rightarrow> nat \<Rightarrow> nat option" where
  "get_index_from_pointer h i =
     (case ph_internals h of None \<Rightarrow> None | Some _ \<Rightarrow> if i < ph_capacity h then Some i else None)"

definition holder_grow ::
  "os_env \<Rightarrow> 's os_state_scheme \<times> page_info_holder \<Rightarrow> ('s os_state_scheme \<times> page_info_holder) res" where
  "holder_grow env x =
     (let (s, h) = x; new_capacity = ph_capacity h * 2; sz = size_for_capacity new_capacity in
      if \<not> map_anon env (os_calls s) sz then Inl (Panic ''Should create'')
      else
        rbind (unwrap (ph_head h)) (\<lambda>prev_index.
        rbind (unwrap (ph_internals h)) (\<lambda>old.
        rbind (initialize_slice (blank_entries (get_space_within (sz - size_for_capacity (ph_capacity h))))
            (h\<lparr>ph_head := Some prev_index\<rparr>)) (\<lambda>(es, h1).
        Inr (s\<lparr>os_calls := Suc (os_calls s)\<rparr>, h1\<lparr>ph_internals := Some (old @ es), ph_capacity := new_capacity\<rparr>)))))"

text \<open>The entry at the head of the free list is taken and filled, and the pointer is recorded.\<close>

definition take_entry :: "(usize \<Rightarrow> nat) \<Rightarrow> usize \<Rightarrow> mem_or_free \<Rightarrow> page_info_holder \<Rightarrow> (nat \<times> page_info_holder) res" where
  "take_entry hash ptr memory h =
     rbind (unwrap (ph_head h)) (\<lambda>index.
     rbind (unwrap (get_at_index h index)) (\<lambda>e.
     case e of
       Free None \<Rightarrow> Inl (Panic ''Previous pointer should not be null'')
     | Free (Some nxt) \<Rightarrow>
         rbind (unwrap (ph_tree h)) (\<lambda>t.
         rbind (hm_insert hash ptr index t) (\<lambda>(_, t1).
         Inr (index, put_at_index index memory (h\<lparr>ph_head := Some nxt, ph_tree := Some t1\<rparr>))))
     | _ \<Rightarrow> Inl (Panic ''No more space in page container'')))"

definition grow_if_full ::
  "os_env \<Rightarrow> 's os_state_scheme \<times> page_info_holder \<Rightarrow> ('s os_state_scheme \<times> page_info_holder) res" where
  "grow_if_full env x =
     rbind (checked_sub (ph_capacity (snd x)) 1) (\<lambda>limit.
     if ph_count (snd x) = limit then holder_grow env x else Inr x)"

text \<open>A refused segment leaves \<^verbatim>\<open>alloc\<close> through the question mark, with the lock held.\<close>

definition holder_alloc ::
  "os_env \<Rightarrow> (usize \<Rightarrow> nat) \<Rightarrow> usize \<Rightarrow> 's os_state_scheme \<times> page_info_holder \<Rightarrow>
   ((AllocationError + usize) \<times> 's os_state_scheme \<times> page_info_holder) res option" where
  "holder_alloc env hash sz x =
     (case holder_grab (snd x) of
        None \<Rightarrow> None
      | Some h0 \<Rightarrow> Some (
          rbind (grow_if_full env (fst x, h0)) (\<lambda>(s, h).
          case seg_allocate env sz s of
            (Inl e, s1) \<Rightarrow> Inr (Inl e, s1, h)
          | (Inr segment, s1) \<Rightarrow>
              rbind (take_entry hash (seg_ptr segment) (Seg segment) h) (\<lambda>(index, h1).
              if ph_head h1 = Some index then Inl AssertFailed
              else Inr (Inr (seg_ptr segment), s1, holder_release (h1\<lparr>ph_count := ph_count h1 + 1\<rparr>))))))"

definition holder_alloc_overcommit ::
  "os_env \<Rightarrow> (usize \<Rightarrow> nat) \<Rightarrow> usize \<Rightarrow> 's os_state_scheme \<times> page_info_holder \<Rightarrow>
   ((AllocationError + usize) \<times> 's os_state_scheme \<times> page_info_holder) res option" where
  "holder_alloc_overcommit env hash sz x =
     (case holder_grab (snd x) of
        None \<Rightarrow> None
      | Some h0 \<Rightarrow> Some (
          rbind (grow_if_full env (fst x, h0)) (\<lambda>(s, h).
          if ph_head h = None then Inl (Panic ''Head is null when it shouldn't be'')
          else case allocate_massive env sz s of
            (Inl e, s1) \<Rightarrow> Inr (Inl e, s1, h)
          | (Inr segment, s1) \<Rightarrow>
              rbind (take_entry hash (seg_ptr segment) (Seg segment) h) (\<lambda>(_, h1).
              Inr (Inr (seg_ptr segment), s1, holder_release (h1\<lparr>ph_count := ph_count h1 + 1\<rparr>))))))"

definition holder_dealloc ::
  "os_env \<Rightarrow> (usize \<Rightarrow> nat) \<Rightarrow> usize \<Rightarrow> 's os_state_scheme \<times> page_info_holder \<Rightarrow>
   (bool \<times> 's os_state_scheme \<times> page_info_holder) res option" where
  "holder_dealloc env hash page_ptr x =
     (case holder_grab (snd x) of
        None \<Rightarrow> None
      | Some h \<Rightarrow> Some (
          let s = fst x; prev = ph_head h in
          rbind (unwrap (ph_tree h)) (\<lambda>t.
          rbind (hm_get hash t page_ptr) (\<lambda>r.
          case r of
            None \<Rightarrow> Inl (Panic ''Pointer must exist in map'')
          | Some index \<Rightarrow>
              (case get_at_index h index of
                 None \<Rightarrow> Inr (False, s, h)
               | Some m \<Rightarrow>
                   let h1 = put_at_index index (Free prev) h;
                       s1 = (case m of Seg segment \<Rightarrow> snd (seg_deallocate env segment s) | _ \<Rightarrow> s)
                   in rbind (checked_sub (ph_count h1) 1) (\<lambda>c.
                      rbind (hm_remove hash page_ptr t) (\<lambda>(_, t1).
                      Inr (True, s1, holder_release (h1\<lparr>ph_head := get_index_from_pointer h1 index,
                        ph_count := c, ph_tree := Some t1\<rparr>)))))))))"

partial_function (option) free_list_from ::
  "page_info_holder \<Rightarrow> nat option list \<Rightarrow> nat option \<Rightarrow> nat option list res option" where
  "free_list_from h out ptr =
     (case ptr of
        None \<Rightarrow> Some (Inr (out @ [None]))
      | Some i \<Rightarrow>
          (case get_at_index h i of
             Some (Free nxt) \<Rightarrow> free_list_from h (out @ [Some i]) nxt
           | _ \<Rightarrow> Some (Inl (Panic ''Free list inconsistent''))))"

definition get_free_list :: "page_info_holder \<Rightarrow> nat option list res option" where
  "get_free_list h = free_list_from h [] (ph_head h)"

section \<open>The free list of entries\<close>

fun free_chain :: "mem_or_free list \<Rightarrow> nat option \<Rightarrow> nat list \<Rightarrow> bool" where
  "free_chain es fst_free [] = (fst_free = None)"
| "free_chain es fst_free (i # xs) = (fst_free = Some i \<and> i < length es \<and> i \<notin> set xs \<and> (\<exists>nxt. es ! i = Free nxt \<and> free_chain es nxt xs))"

lemma free_chain_update: "free_chain es fst_free xs \<Longrightarrow> i \<notin> set xs \<Longrightarrow> free_chain (es[i := e]) fst_free xs"
  by (induction xs arbitrary: fst_free) auto

lemma free_chain_append: "free_chain es fst_free xs \<Longrightarrow> free_chain (es @ fs) fst_free xs"
  by (induction xs arbitrary: fst_free) (auto simp: nth_append)

lemma free_chain_bound: "free_chain es fst_free xs \<Longrightarrow> i \<in> set xs \<Longrightarrow> i < length es"
  by (induction xs arbitrary: fst_free) auto

lemma free_list_from_chain:
  "free_chain es ptr xs \<Longrightarrow> ph_internals h = Some es \<Longrightarrow> length es = ph_capacity h \<Longrightarrow>
    free_list_from h out ptr = Some (Inr (out @ map Some xs @ [None]))"
  by (induction xs arbitrary: ptr out) (subst free_list_from.simps; auto simp: get_at_index_def)+

lemma init_loop_down:
  assumes "k \<le> length es"
  shows "for_each (init_entry c) (rev [0..<k]) (es, Some (k + c), False) =
    Inr (map (\<lambda>j. Free (Some (Suc j + c))) [0..<k] @ drop k es, Some c, False)"
  using assms
proof (induction k arbitrary: es)
  case (Suc k)
  let ?e = "es[k := Free (Some (Suc k + c))]"
  have "for_each (init_entry c) (rev [0..<k]) (?e, Some (k + c), False) =
      Inr (map (\<lambda>j. Free (Some (Suc j + c))) [0..<k] @ drop k ?e, Some c, False)"
    using Suc.prems by (intro Suc.IH) simp
  moreover have "drop k ?e = Free (Some (Suc k + c)) # drop (Suc k) es"
    using Suc.prems by (simp add: drop_update_swap Cons_nth_drop_Suc [symmetric])
  moreover have "init_entry c k (es, Some (Suc k + c), False) = Inr (?e, Some (k + c), False)" by (simp add: init_entry_def)
  ultimately show ?case by simp
qed simp

text \<open>\<^verbatim>\<open>initialize_slice\<close> links the entries of the slice in order, in front of the free list.\<close>

lemma initialize_slice_result:
  assumes "0 < length es"
  shows "initialize_slice es h = Inr (map (\<lambda>i. Free (if Suc i < length es then Some (Suc i + ph_capacity h) else ph_head h))
      [0..<length es], h\<lparr>ph_head := Some (ph_capacity h)\<rparr>)"
proof -
  obtain k where k: "length es = Suc k" using assms by (cases es) auto
  let ?e = "es[k := Free (ph_head h)]" and ?c = "ph_capacity h"
  let ?r = "map (\<lambda>j. Free (Some (Suc j + ?c))) [0..<k] @ [Free (ph_head h)]"
  have "drop k ?e = [Free (ph_head h)]" using k by (simp add: drop_update_swap Cons_nth_drop_Suc [symmetric])
  then have "for_each (init_entry ?c) (rev [0..<length es]) (es, ph_head h, True) = Inr (?r, Some ?c, False)"
    using init_loop_down [of k ?e ?c] k init_entry_def [of ?c k "(es, ph_head h, True)"] by simp
  moreover have "?r[k := Free (ph_head h)] = map (\<lambda>i. Free (if Suc i < length es then Some (Suc i + ?c) else ph_head h)) [0..<length es]"
    using k by (intro nth_equalityI) (auto simp: nth_append nth_list_update less_Suc_eq)
  ultimately show ?thesis using k by (simp add: initialize_slice_def)
qed

lemma free_chain_init:
  assumes "es = map (\<lambda>i. Free (if Suc i < n then Some (Suc i + c) else fst_free)) [0..<n]" "length old = c" "free_chain old fst_free xs"
  shows "k \<le> n \<Longrightarrow> free_chain (old @ es) (if k < n then Some (k + c) else fst_free) ([k + c..<n + c] @ xs)"
proof (induction "n - k" arbitrary: k)
  case 0
  then show ?case using free_chain_append [OF assms(3)] by simp
next
  case (Suc m)
  then have k: "k < n" by simp
  have "free_chain (old @ es) (if Suc k < n then Some (Suc k + c) else fst_free) ([Suc k + c..<n + c] @ xs)"
    using Suc by (intro Suc.hyps) auto
  moreover have "(old @ es) ! (k + c) = Free (if Suc k < n then Some (Suc k + c) else fst_free)"
    using k assms(1,2) by (simp add: nth_append)
  moreover have "k + c \<notin> set xs" using free_chain_bound [OF assms(3)] assms(2) by fastforce
  moreover have "[k + c..<n + c] = (k + c) # [Suc k + c..<n + c]" using k by (simp add: upt_conv_Cons)
  ultimately show ?case using k assms(1,2) by auto
qed

section \<open>The invariant of the table\<close>

text \<open>The free entries are \<open>xs\<close>, in the order of the free list; every recorded pointer has an entry
  that is not free and holds a segment that starts there.\<close>

definition holder_ok :: "(usize \<Rightarrow> nat) \<Rightarrow> page_info_holder \<Rightarrow> nat list \<Rightarrow> bool" where
  "holder_ok hash h xs \<longleftrightarrow> (\<exists>es t. ph_internals h = Some es \<and> length es = ph_capacity h \<and> free_chain es (ph_head h) xs \<and>
     xs \<noteq> [] \<and> ph_count h + length xs = ph_capacity h \<and> ph_tree h = Some t \<and> hm_invar hash t \<and>
     (\<forall>p i. hm_lookup hash t p = Some i \<longrightarrow> i < length es \<and> i \<notin> set xs \<and> (\<exists>seg. es ! i = Seg seg \<and> seg_ptr seg = p)))"

definition holder_find :: "(usize \<Rightarrow> nat) \<Rightarrow> page_info_holder \<Rightarrow> usize \<Rightarrow> nat option" where
  "holder_find hash h p = Option.bind (ph_tree h) (\<lambda>t. hm_lookup hash t p)"

lemma holder_ok_lock [simp]: "holder_ok hash (h\<lparr>ph_lock := b\<rparr>) xs = holder_ok hash h xs"
  by (simp add: holder_ok_def)

lemma holder_find_lock [simp]: "holder_find hash (h\<lparr>ph_lock := b\<rparr>) = holder_find hash h"
  by (simp add: holder_find_def fun_eq_iff)

lemma get_free_list_ok: "holder_ok hash h xs \<Longrightarrow> get_free_list h = Some (Inr (map Some xs @ [None]))"
  by (auto simp: holder_ok_def get_free_list_def free_list_from_chain)

lemma holder_init_ok:
  assumes "\<not> ph_lock h" "map_anon env (os_calls s) (size_for_capacity INITIAL_PAGES)"
  shows "\<exists>h'. holder_init env (s, h) = Some (Inr (s\<lparr>os_calls := Suc (os_calls s)\<rparr>, h')) \<and>
    holder_ok hash h' [0..<INITIAL_PAGES] \<and> \<not> ph_lock h' \<and> holder_find hash h' = Map.empty"
proof -
  let ?es = "map (\<lambda>i. Free (if Suc i < 128 then Some (Suc i + 0) else None)) [0..<128]"
  let ?h = "\<lparr>ph_internals = Some ?es, ph_count = 0, ph_capacity = 128, ph_head = Some 0, ph_lock = False,
    ph_tree = Some (hm_with_capacity 10001)\<rparr>"
  have "free_chain ?es (Some 0) [0..<128]" using free_chain_init [of ?es 128 0 None "[]" "[]" 0] by simp
  then have "holder_ok hash ?h [0..<INITIAL_PAGES]"
    by (simp add: holder_ok_def INITIAL_PAGES_def hm_with_capacity_invar hm_with_capacity_lookup del: upt_rec_numeral)
  moreover have "holder_init env (s, h) = Some (Inr (s\<lparr>os_calls := Suc (os_calls s)\<rparr>, ?h))"
    using assms by (simp add: holder_init_def holder_grab_def INITIAL_PAGES_def initialize_slice_result blank_entries_def
        get_space_within_def size_for_capacity_def size_of_entry_def holder_release_def Let_def cong: if_cong del: upt_rec_numeral)
  moreover have "holder_find hash ?h = Map.empty" by (simp add: holder_find_def hm_with_capacity_lookup fun_eq_iff)
  ultimately show ?thesis by (intro exI [of _ ?h]) simp
qed

lemma holder_grow_ok:
  assumes "holder_ok hash h xs" "map_anon env (os_calls s) (size_for_capacity (ph_capacity h * 2))" "0 < ph_capacity h"
  shows "\<exists>h'. holder_grow env (s, h) = Inr (s\<lparr>os_calls := Suc (os_calls s)\<rparr>, h') \<and>
    holder_ok hash h' ([ph_capacity h..<2 * ph_capacity h] @ xs) \<and> ph_lock h' = ph_lock h \<and> ph_tree h' = ph_tree h"
proof -
  let ?c = "ph_capacity h"
  obtain es t where h: "ph_internals h = Some es" "length es = ?c" "free_chain es (ph_head h) xs" "xs \<noteq> []"
    "ph_count h + length xs = ?c" "ph_tree h = Some t" "hm_invar hash t"
    "\<forall>p i. hm_lookup hash t p = Some i \<longrightarrow> i < length es \<and> i \<notin> set xs \<and> (\<exists>seg. es ! i = Seg seg \<and> seg_ptr seg = p)"
    using assms(1) by (auto simp: holder_ok_def)
  obtain f where f: "ph_head h = Some f" using h(3,4) by (cases xs) auto
  define fs where "fs = map (\<lambda>i. Free (if Suc i < ?c then Some (Suc i + ?c) else ph_head h)) [0..<?c]"
  have ch: "free_chain (es @ fs) (Some ?c) ([?c..<2 * ?c] @ xs)"
    using free_chain_init [OF fs_def h(2,3), of 0] assms(3) by (simp add: mult_2)
  define h' where "h' = h\<lparr>ph_head := Some ?c, ph_internals := Some (es @ fs), ph_capacity := ?c * 2\<rparr>"
  have n: "get_space_within (size_for_capacity (?c * 2) - size_for_capacity ?c) = ?c"
    by (simp add: get_space_within_def size_for_capacity_def size_of_entry_def)
  have "holder_grow env (s, h) = Inr (s\<lparr>os_calls := Suc (os_calls s)\<rparr>, h')"
    using assms(2,3) h(1) f initialize_slice_result [of "blank_entries ?c" "h\<lparr>ph_head := Some f\<rparr>"]
    by (simp add: holder_grow_def n h'_def fs_def) (simp add: blank_entries_def)
  moreover have "\<forall>p i. hm_lookup hash t p = Some i \<longrightarrow> i < length (es @ fs) \<and> i \<notin> set ([?c..<2 * ?c] @ xs) \<and>
      (\<exists>seg. (es @ fs) ! i = Seg seg \<and> seg_ptr seg = p)"
    using h(2,8) by (fastforce simp: nth_append)
  then have "holder_ok hash h' ([?c..<2 * ?c] @ xs)"
    using h(2,4-7) ch unfolding holder_ok_def by (intro exI [of _ "es @ fs"] exI [of _ t]) (simp add: h'_def fs_def)
  ultimately show ?thesis by (auto simp: h'_def)
qed

section \<open>Allocation and release\<close>

lemma free_chain_distinct: "free_chain es f xs \<Longrightarrow> distinct xs"
  by (induction xs arbitrary: f) auto

lemma take_entry_ok:
  assumes "holder_ok hash h (i # j # xs)" "holder_find hash h (seg_ptr seg) = None"
  shows "\<exists>h'. take_entry hash (seg_ptr seg) (Seg seg) h = Inr (i, h') \<and> ph_head h' = Some j \<and> i \<noteq> j \<and>
    holder_ok hash (h'\<lparr>ph_count := ph_count h' + 1\<rparr>) (j # xs) \<and>
    holder_find hash h' = (holder_find hash h)(seg_ptr seg \<mapsto> i)"
proof -
  let ?p = "seg_ptr seg"
  obtain es t where h: "ph_internals h = Some es" "length es = ph_capacity h" "free_chain es (ph_head h) (i # j # xs)"
    "ph_count h + length (i # j # xs) = ph_capacity h" "ph_tree h = Some t" "hm_invar hash t"
    "\<forall>p k. hm_lookup hash t p = Some k \<longrightarrow> k < length es \<and> k \<notin> set (i # j # xs) \<and> (\<exists>seg. es ! k = Seg seg \<and> seg_ptr seg = p)"
    using assms(1) by (auto simp: holder_ok_def)
  have fr: "ph_head h = Some i" "i < length es" "es ! i = Free (Some j)" "free_chain es (Some j) (j # xs)" "i \<notin> set (j # xs)"
    using h(3) by auto
  obtain t' where t': "hm_insert hash ?p i t = Inr (None, t')" "hm_invar hash t'" "hm_lookup hash t' = (hm_lookup hash t)(?p \<mapsto> i)"
    using hm.ins_ok [OF h(6), of ?p i] assms(2) h(5) by (auto simp: holder_find_def)
  define h' where "h' = put_at_index i (Seg seg) (h\<lparr>ph_head := Some j, ph_tree := Some t'\<rparr>)"
  have "take_entry hash ?p (Seg seg) h = Inr (i, h')"
    using fr h(1,2,5) t'(1) by (simp add: take_entry_def get_at_index_def h'_def)
  moreover have "k < length (es[i := Seg seg]) \<and> k \<notin> set (j # xs) \<and> (\<exists>g. es[i := Seg seg] ! k = Seg g \<and> seg_ptr g = p)"
    if l: "hm_lookup hash t' p = Some k" for p k
  proof (cases "p = ?p")
    case True
    then show ?thesis using l fr(2,5) by (simp add: t'(3))
  next
    case False
    then have "hm_lookup hash t p = Some k" using l by (simp add: t'(3))
    then have k: "k < length es" "k \<notin> set (i # j # xs)" "\<exists>g. es ! k = Seg g \<and> seg_ptr g = p" using h(7) by blast+
    then show ?thesis by auto
  qed
  then have "holder_ok hash (h'\<lparr>ph_count := ph_count h' + 1\<rparr>) (j # xs)"
    using h(1,2,4) t'(2) free_chain_update [OF fr(4,5), of "Seg seg"] unfolding holder_ok_def
    by (intro exI [of _ "es[i := Seg seg]"] exI [of _ t']) (simp add: h'_def put_at_index_def)
  ultimately show ?thesis
    using t'(3) h(5) fr(5) by (auto simp: h'_def put_at_index_def holder_find_def fun_eq_iff)
qed

lemma grow_if_full_ok:
  assumes "holder_ok hash h xs" "length xs = 1 \<Longrightarrow> map_anon env (os_calls s) (size_for_capacity (ph_capacity h * 2))"
  shows "\<exists>h' i j ys. grow_if_full env (s, h) = Inr (if length xs = 1 then s\<lparr>os_calls := Suc (os_calls s)\<rparr> else s, h') \<and>
    holder_ok hash h' (i # j # ys) \<and> ph_lock h' = ph_lock h \<and> holder_find hash h' = holder_find hash h"
proof -
  have c: "ph_count h + length xs = ph_capacity h" "xs \<noteq> []" using assms(1) by (auto simp: holder_ok_def)
  then have limit: "checked_sub (ph_capacity h) 1 = Inr (ph_capacity h - 1)" "ph_count h = ph_capacity h - 1 \<longleftrightarrow> length xs = 1"
    by (cases xs; auto)+
  show ?thesis
  proof (cases "length xs = 1")
    case True
    then have cap: "0 < ph_capacity h" using c by simp
    obtain h' where h': "holder_grow env (s, h) = Inr (s\<lparr>os_calls := Suc (os_calls s)\<rparr>, h')"
      "holder_ok hash h' ([ph_capacity h..<2 * ph_capacity h] @ xs)" "ph_lock h' = ph_lock h" "ph_tree h' = ph_tree h"
      using holder_grow_ok [OF assms(1) _ cap, of env s] assms(2) [OF True] by blast
    have "[ph_capacity h..<2 * ph_capacity h] = ph_capacity h # [Suc (ph_capacity h)..<2 * ph_capacity h]"
      using cap by (simp add: upt_conv_Cons)
    then obtain i j ys where "[ph_capacity h..<2 * ph_capacity h] @ xs = i # j # ys"
      using c(2) by (cases "[Suc (ph_capacity h)..<2 * ph_capacity h] @ xs") auto
    then show ?thesis using h' limit True by (auto simp: grow_if_full_def holder_find_def fun_eq_iff)
  next
    case False
    then obtain i j ys where "xs = i # j # ys" using c(2) by (cases xs; cases "tl xs") auto
    then show ?thesis using assms(1) limit False by (auto simp: grow_if_full_def)
  qed
qed

text \<open>Every pointer that is handed out is recorded, and the table grows when its last free entry
  would be used.\<close>

lemma holder_alloc_ok:
  assumes "holder_ok hash h xs" "\<not> ph_lock h"
    and "length xs = 1 \<Longrightarrow> map_anon env (os_calls s) (size_for_capacity (ph_capacity h * 2))"
    and "p = mmap env False (if length xs = 1 then Suc (os_calls s) else os_calls s) (os_maps s) sz" "p \<noteq> MAP_FAILED"
    and "holder_find hash h p = None"
  shows "\<exists>s' h' i ys. holder_alloc env hash sz (s, h) = Some (Inr (Inr p, s', h')) \<and> holder_ok hash h' ys \<and> \<not> ph_lock h' \<and>
    holder_find hash h' = (holder_find hash h)(p \<mapsto> i) \<and> os_maps s' = (p, sz) # os_maps s"
proof -
  let ?h0 = "h\<lparr>ph_lock := True\<rparr>"
  define s0 where "s0 = (if length xs = 1 then s\<lparr>os_calls := Suc (os_calls s)\<rparr> else s)"
  obtain h1 i j ys where h1: "grow_if_full env (s, ?h0) = Inr (s0, h1)" "holder_ok hash h1 (i # j # ys)"
    "holder_find hash h1 = holder_find hash h"
    using grow_if_full_ok [of hash ?h0 xs env s] assms(1,3) by (auto simp: s0_def)
  obtain s1 where s1: "seg_allocate env sz s0 = (Inr \<lparr>seg_ptr = p, seg_length = sz\<rparr>, s1)" "os_maps s1 = (p, sz) # os_maps s"
    using assms(4,5) by (auto simp: s0_def seg_allocate_def map_segment_def Let_def split: if_splits)
  obtain h2 where h2: "take_entry hash p (Seg \<lparr>seg_ptr = p, seg_length = sz\<rparr>) h1 = Inr (i, h2)" "ph_head h2 = Some j" "i \<noteq> j"
    "holder_ok hash (h2\<lparr>ph_count := ph_count h2 + 1\<rparr>) (j # ys)" "holder_find hash h2 = (holder_find hash h1)(p \<mapsto> i)"
    using take_entry_ok [OF h1(2), of "\<lparr>seg_ptr = p, seg_length = sz\<rparr>"] h1(3) assms(6) by auto
  let ?h' = "holder_release (h2\<lparr>ph_count := ph_count h2 + 1\<rparr>)"
  have "holder_alloc env hash sz (s, h) = Some (Inr (Inr p, s1, ?h'))"
    using assms(2) h1(1) s1(1) h2(1-3) by (simp add: holder_alloc_def holder_grab_def)
  moreover have "holder_ok hash ?h' (j # ys)" "\<not> ph_lock ?h'" "holder_find hash ?h' = (holder_find hash h)(p \<mapsto> i)"
    using h2(4,5) h1(3) by (simp_all add: holder_release_def holder_find_def fun_eq_iff)
  ultimately show ?thesis using s1(2) by blast
qed

text \<open>A recorded pointer is released: its segment is unmapped and its entry becomes the head of the free list.\<close>

lemma holder_dealloc_ok:
  assumes "holder_ok hash h xs" "\<not> ph_lock h" "holder_find hash h p = Some i" "munmap_contract env"
    and "\<forall>seg. get_at_index h i = Some (Seg seg) \<longrightarrow> (p, seg_length seg) \<in> set (os_maps s)"
  shows "\<exists>s' h' len. holder_dealloc env hash p (s, h) = Some (Inr (True, s', h')) \<and> holder_ok hash h' (i # xs) \<and> \<not> ph_lock h' \<and>
    holder_find hash h' = (holder_find hash h)(p := None) \<and> os_maps s' = removeAll (p, len) (os_maps s)"
proof -
  obtain es t where h: "ph_internals h = Some es" "length es = ph_capacity h" "free_chain es (ph_head h) xs"
    "ph_count h + length xs = ph_capacity h" "ph_tree h = Some t" "hm_invar hash t"
    "\<forall>p k. hm_lookup hash t p = Some k \<longrightarrow> k < length es \<and> k \<notin> set xs \<and> (\<exists>seg. es ! k = Seg seg \<and> seg_ptr seg = p)"
    using assms(1) by (auto simp: holder_ok_def)
  have lk: "hm_lookup hash t p = Some i" using assms(3) h(5) by (simp add: holder_find_def)
  then obtain seg where i: "i < length es" "i \<notin> set xs" "es ! i = Seg seg" "seg_ptr seg = p" using h(7) by blast
  obtain t' where t': "hm_remove hash p t = Inr (Some i, t')" "hm_invar hash t'" "hm_lookup hash t' = (hm_lookup hash t)(p := None)"
    using hm.del_ok [OF h(6) lk] by blast
  have "card (insert i (set xs)) \<le> card {..<length es}"
    using i(1) free_chain_bound [OF h(3)] by (intro card_mono) auto
  then have cnt: "1 \<le> ph_count h" using i(2) distinct_card [OF free_chain_distinct [OF h(3)]] h(2,4) by simp
  obtain s' where s': "seg_deallocate env seg s = (True, s')" "os_maps s' = removeAll (p, seg_length seg) (os_maps s)"
    using assms(4,5) h(1,2) i by (auto simp: seg_deallocate_def munmap_contract_def get_at_index_def Let_def)
  let ?h' = "h\<lparr>ph_internals := Some (es[i := Free (ph_head h)]), ph_head := Some i, ph_count := ph_count h - 1, ph_tree := Some t'\<rparr>"
  have "holder_dealloc env hash p (s, h) = Some (Inr (True, s', ?h'\<lparr>ph_lock := False\<rparr>))"
    using assms(2) h(1,2,5) hm.get_lookup [OF h(6)] lk i t'(1) cnt s'(1)
    by (simp add: holder_dealloc_def holder_grab_def get_at_index_def put_at_index_def get_index_from_pointer_def holder_release_def)
  moreover have "\<forall>q k. hm_lookup hash t' q = Some k \<longrightarrow> k < length es \<and> k \<notin> set (i # xs) \<and>
      (\<exists>g. es[i := Free (ph_head h)] ! k = Seg g \<and> seg_ptr g = q)"
  proof (intro allI impI)
    fix q k assume "hm_lookup hash t' q = Some k"
    then have q: "q \<noteq> p" "hm_lookup hash t q = Some k" by (auto simp: t'(3) split: if_splits)
    then obtain g where "k < length es" "k \<notin> set xs" "es ! k = Seg g" "seg_ptr g = q" using h(7) by blast
    moreover have "k \<noteq> i" using calculation(3,4) i(3,4) q(1) by auto
    ultimately show "k < length es \<and> k \<notin> set (i # xs) \<and> (\<exists>g. es[i := Free (ph_head h)] ! k = Seg g \<and> seg_ptr g = q)"
      by simp
  qed
  then have "holder_ok hash ?h' (i # xs)"
    using h(2,4) t'(2) cnt i(1,2) free_chain_update [OF h(3) i(2), of "Free (ph_head h)"] unfolding holder_ok_def
    by (intro exI [of _ "es[i := Free (ph_head h)]"] exI [of _ t']) simp
  ultimately show ?thesis
    using s'(2) t'(3) h(5) by (intro exI [of _ s'] exI [of _ "?h'\<lparr>ph_lock := False\<rparr>"] exI [of _ "seg_length seg"])
      (simp add: holder_find_def fun_eq_iff)
qed

text \<open>A refused segment leaves the lock taken: no later call returns.\<close>

lemma holder_alloc_refused:
  assumes "holder_ok hash h xs" "\<not> ph_lock h" "length xs \<noteq> 1" "mmap env False (os_calls s) (os_maps s) sz = MAP_FAILED"
  shows "\<exists>s' h'. holder_alloc env hash sz (s, h) = Some (Inr (Inl (AllocationFailed sz), s', h')) \<and>
    (\<forall>env' sz' s''. holder_alloc env' hash sz' (s'', h') = None \<and> holder_dealloc env' hash p (s'', h') = None)"
proof -
  let ?h0 = "h\<lparr>ph_lock := True\<rparr>"
  obtain h1 where h1: "grow_if_full env (s, ?h0) = Inr (s, h1)" "ph_lock h1"
    using grow_if_full_ok [of hash ?h0 xs env s] assms(1,3) by auto
  have "seg_allocate env sz s = (Inl (AllocationFailed sz), s\<lparr>os_calls := Suc (os_calls s)\<rparr>)"
    using assms(4) by (simp add: seg_allocate_def map_segment_def)
  then have "holder_alloc env hash sz (s, h) = Some (Inr (Inl (AllocationFailed sz), s\<lparr>os_calls := Suc (os_calls s)\<rparr>, h1))"
    using assms(2) h1(1) by (simp add: holder_alloc_def holder_grab_def)
  then show ?thesis using h1(2) by (auto simp: holder_alloc_def holder_dealloc_def holder_grab_def)
qed

end
