(* ===== verification/Spec2Isabelle.thy ===== *)
theory Spec2Isabelle
  imports C_Programs Partial_List Anchor_Race Single_Access Auto_Ptr Array_Deque Hash_Map_Memory Hash_Set Windows Range_Mapping Info_Dump Page_Info_Holder
begin

text \<open>
  A model of \<^verbatim>\<open>apfmalloc-lib\<close> (\<^verbatim>\<open>src/src\<close>) and its C interface (\<^verbatim>\<open>src/apfmalloc\<close>): a memory allocator whose
  threads keep caches of free blocks, backed by a central reserve of super blocks and, optionally,
  tuned at run time by the average number of frees inside a window of allocations (APF). This theory
  imports the development; the definitions and the theorems are in the theories it names.

  \<^bold>\<open>The parts and how they interact.\<close> A request (\<^verbatim>\<open>do_malloc\<close>, \<^verbatim>\<open>lib.rs\<close>) up to 14336 bytes is rounded to a size
  class and served from the bin of that class in the thread cache. An empty bin is filled from a
  partial super block of the class or from a new one. A super block is memory from the kernel,
  described by a descriptor; the page map leads from each of its pages to the descriptor, and \<^verbatim>\<open>do_free\<close>
  finds the class of a pointer there. A full bin is flushed to the super blocks of its blocks, and a
  super block that got all its blocks back is unmapped. A larger request is a mapping of its own
  with a descriptor of its own. When tuning is on, each allocation and each free of a thread also
  runs the tuner of its class, which may fetch blocks into the bin or drop blocks from it. The first
  call initialises everything, behind a \<^verbatim>\<open>SingleAccess\<close>; the bootstrap reserve serves requests while thread
  locals are not available. The end of a thread runs nothing: the blocks in its bins are lost.

  \<^bold>\<open>State.\<close> The shared state is a chain of records, each of which extends the one before by the static
  data of a component: \<open>os_state\<close> (memory as bytes, live mappings, number of system calls),
  \<open>pages_state\<close> (the size map of \<^verbatim>\<open>pages.rs\<close>), \<open>desc_state\<close> (descriptors and their free list),
  \<open>map_state\<close> (size class tables and page map), \<open>alloc_state\<close> (processor heaps), \<open>malloc_state\<close> (bootstrap
  reserve and flags of \<^verbatim>\<open>lib.rs\<close>), \<open>api_state\<close> (flags of the C interface). Every operation works on all
  extensions of its record. \<open>thread\<close> holds the thread locals: the bins, the tuners and their flags.
  \<open>config\<close> holds what the build or the surroundings fix: the kernel, the hasher, the cargo feature
  \<^verbatim>\<open>no_met_stack\<close>, the compile-time parameters of the tuner.

  \<^bold>\<open>Theories, files of \<^verbatim>\<open>src/src\<close>, and what is shown.\<close>
  \<^item> \<open>Prelude\<close>: panics and results, loops over lists, rounding, words. \<open>Lifo\<close>, \<open>Buffers\<close>: contracts of pools
    and buffers as locales; the bins, the descriptor free list, the partial lists, the arrays and the
    deques interpret them. \<open>Heap_Spec\<close>: the specification of a heap, a function from a heap and an action to the heap
    after it, with the bytes that the program stored, and the locale \<open>simulation\<close> for models whose labelled steps perform its actions.
  \<^item> \<open>Mem_Info\<close> (\<^verbatim>\<open>mem_info.rs\<close>, \<^verbatim>\<open>macros.rs\<close>): constants and rounding; rounding gives the least multiple.
  \<^item> \<open>Memory\<close>, \<open>Segments\<close> (\<^verbatim>\<open>pages/external_mem_reservation.rs\<close>): cells in byte memory, chains of cells (locale
    \<open>cell_store\<close>), mappings, on Unix; \<open>Windows\<close> has the other implementation of the file and of the page map. \<open>mmap_contract\<close> and \<open>munmap_contract\<close> are what the kernel documents;
    \<open>bump_env\<close> is a kernel that meets them, on which all witnesses run.
  \<^item> \<open>Hash_Map\<close>, \<open>Hash_Set\<close> (\<^verbatim>\<open>independent_collections/hash_map.rs\<close>): every operation refines a finite map or set, for
    every hash function; the length counter is wrong after a replacement. \<open>Hash_Map_Memory\<close> has the insertion and the lookup on the
    arrays of the map: they panic only when the kernel refuses memory, and growing drops every bucket twice.
  \<^item> \<open>Arrays\<close>, \<open>Array_Facts\<close>, \<open>Array_Deque\<close> (\<^verbatim>\<open>independent_collections/array.rs\<close>): arrays and deques in segments of the
    kernel, with what they drop; they refine lists, except for double drops, the bit index and the
    back end of the deque. \<open>Array_Requests\<close>: how many requests of memory an operation on arrays costs. \<open>Range_Mapping\<close> (\<^verbatim>\<open>range_mapping.rs\<close>): the second insertion makes the search loop.
  \<^item> \<open>Pages\<close> (\<^verbatim>\<open>pages.rs\<close>): requests of pages and their release. \<open>Page_Info_Holder\<close>: the table of segments
    of the same file and its free list. \<open>Bootstrap\<close> (\<^verbatim>\<open>bootstrap.rs\<close>): the ranges handed
    out never overlap.
  \<^item> \<open>Size_Classes\<close> (\<^verbatim>\<open>size_classes.rs\<close>): the initialisation ends for every fetch target up to 250000 and the
    lookup is a best fit. \<open>Alignment\<close>: blocks of the class chosen for an alignment are aligned.
  \<^item> \<open>Descriptors\<close> (\<^verbatim>\<open>allocation_data.rs\<close>, \<^verbatim>\<open>allocation_data/desc.rs\<close>), \<open>Page_Map\<close> (\<^verbatim>\<open>page_map.rs\<close>): the descriptor free list;
    an entry of the page map belongs to exactly one page (locale \<open>page_table\<close>, which the map on Unix and the map
    on Windows interpret).
  \<^item> \<open>Bins\<close>, \<open>Thread_Cache\<close> (\<^verbatim>\<open>thread_cache.rs\<close>), \<open>Central\<close>, \<open>Central_Facts\<close>, \<open>Super_Blocks\<close> (\<^verbatim>\<open>alloc.rs\<close>,
    \<^verbatim>\<open>allocation_data/proc_heap.rs\<close>): a bin is a stack in every encoding; a fill hands out every block of a super
    block once; a flush of the last blocks releases it; the index of a block is exact in spite of its
    32-bit arithmetic; the loop over the partial list ends. \<open>Partial_List\<close>, \<open>Anchor_Race\<close>: the lock-free loops of
    these files, access by access. The partial list is a stack under every interleaving in which no two pops
    overlap, and two overlapping pops can hand out one descriptor twice; a flush can always finish its loop
    on an anchor, a fill only while its copy of the anchor is current.
  \<^item> \<open>Apf_Trace\<close>, \<open>Apf_Reuse\<close>, \<open>Apf_Tuner\<close> (\<^verbatim>\<open>apf/\<close>): the free intervals of a trace, the linear-time reuse against
    its definition as an average over all windows, the cycle of the reuse counter, which records the events of a burst and
    ignores those of the hibernation, the tuner and its record.
  \<^item> \<open>Malloc\<close> (\<^verbatim>\<open>lib.rs\<close>), with \<open>Malloc_Facts\<close> (allocation and release, large and small), \<open>Realloc\<close> (contents
    move), \<open>Start_Up\<close> (initialisation establishes \<open>malloc_ready\<close>, and the first block of a class), \<open>Running\<close>
    (\<open>malloc_ready\<close> is kept by every sequence of allocations that return and of frees into a bin, of any threads).
  \<^item> \<open>Ownership\<close>, \<open>Ownership_Frames\<close>, \<open>Ownership_Blocks\<close>, \<open>Ownership_Ops\<close>: who owns a block (the program, the bin of a
    thread, its super block), and the invariant \<open>heap_ok\<close> over all descriptors, page map entries, partial lists,
    bins and live allocations. It is kept by filling a bin (\<open>Ownership_Malloc\<close>), by requests (\<open>Ownership_Requests\<close>,
    \<open>Ownership_Aligned\<close>, \<open>Ownership_Realloc\<close>), by frees and flushes (\<open>Ownership_Free\<close>, \<open>Ownership_Release\<close>), by the end of a
    thread (\<open>Ownership_Realloc\<close>), and would be kept by the drop of a thread cache (\<open>Thread_Exit\<close>), which the code never runs.
  \<^item> \<open>Heap_Safety\<close>: programs of any number of threads, which allocate, allocate aligned, reallocate, free (also
    blocks of other threads), store bytes and end. The specification performs the actions of every run from the initialisation
    on, and what it knows of the bytes is in memory; live allocations lie in mappings and apart; a free returns, and an allocation
    unless the kernel refuses memory; bins are well formed; results are aligned; reallocation keeps the contents.
  \<^item> \<open>C_Api\<close> (\<^verbatim>\<open>apfmalloc/src/lib.rs\<close>): the exported functions. \<open>C_Programs\<close>: programs that call them and all functions of the Rust
    allocator refine the same specification; \<^verbatim>\<open>calloc\<close> returns zeroed memory or, on overflow, null.
    \<open>Auto_Ptr\<close> (\<^verbatim>\<open>ptr/auto_ptr.rs\<close>): values come back. \<open>Info_Dump\<close> (\<^verbatim>\<open>info_dump.rs\<close>): the counters follow the calls.
  \<^item> \<open>Single_Access\<close> (\<^verbatim>\<open>single_access.rs\<close>): a step relation of any number of threads; the function runs at
    most once, nobody passes before it returned, everybody can still pass unless it panicked, and nobody if it did.

  \<^bold>\<open>How code becomes definitions.\<close> A panic, an exit or a failed assertion is \<open>Inl\<close> of a result. Addresses and
  \<^verbatim>\<open>usize\<close> values whose wrap-around matters are 64-bit words, counters and indices are natural numbers
  with checked subtraction where the source subtracts. Undefined behaviour that the source can reach
  (a null pointer, an element that was never written) is a panic of the model. Loops over ranges are
  \<open>for_each\<close>; loops with a decreasing measure are functions with a termination proof; loops that may
  run forever are \<open>partial_function (option)\<close> or, in \<open>Range_Mapping\<close>, functions with fuel. The theorems
  about the former show that they return; fuel 1 suffices for the insertions of the theorem about the
  latter, and that its search does not return is shown for every fuel. In the sequential models
  every compare-and-swap succeeds, so calls of several threads interleave as whole calls; \<open>Single_Access\<close>,
  \<open>Partial_List\<close> and \<open>Anchor_Race\<close> interleave single accesses, sequentially consistent.
  The results of \<^verbatim>\<open>f32\<close> computations are rational numbers. Where the size map of \<^verbatim>\<open>pages.rs\<close>, the bootstrap reserve and the tuners use a hash map or arrays, these are the lists of their
  elements (\<open>Array_Facts\<close> and \<open>Hash_Map_Memory\<close> relate the two), and their memory is taken as granted: the mappings of the
  state are those of the allocator without those of its collections. A call that panics ends a run of \<open>Heap_Safety\<close> and \<open>C_Programs\<close>;
  the allocations that the tuners make themselves are represented by whether they succeed.

  \<^bold>\<open>The setting of the whole-heap theorems.\<close> \<open>Heap_Safety\<close> and \<open>C_Programs\<close> assume the feature \<^verbatim>\<open>no_met_stack\<close> and tuning
  off (\<open>plain\<close>), requests of at most 4 GiB minus a page, alignments up to a page, and reallocations that do not
  move to a smaller class. Outside of it the code breaks the promises: without \<^verbatim>\<open>no_met_stack\<close> a flush loses the
  blocks of a new super block (\<open>Thread_Cache\<close>), with tuning on a fetch registers more pages than it
  mapped, the length of a larger allocation is cut to 32 bits (\<open>Malloc_Facts\<close>), the second entry of an
  allocation aligned above a page stays in the page map after its release, and a move to a smaller class
  copies past the end of the new block (\<open>Realloc\<close>).

  \<^bold>\<open>Not modelled.\<close> Drawing the plots of the tuner and the formatting of collections, checks under \<^verbatim>\<open>debug_assertions\<close>
  and the heap summary of Windows, the calls of the statistics under the feature \<^verbatim>\<open>track_allocation\<close> (the file
  does not compile with it), the unused \<^verbatim>\<open>bootstrap_cache\<close>. \<^verbatim>\<open>ptr/rc.rs\<close> is commented out. Benchmarks, examples and
  tools only call the allocator.
\<close>

end
